(* ===== verification/Prelude.thy ===== *)
theory Prelude
  imports Main "HOL-Library.Word"
begin

text \<open>
  Shared vocabulary of the development: the C integer types as words, byte-addressed
  memory with bulk reads and writes, little-endian encodings, and the page arithmetic of
  kernel/riscv.h.  The component theories rest on the rewrite collections declared here.
\<close>

unbundle bit_operations_syntax

named_theorems mem_simps \<open>reading and writing ranges of byte memory\<close>

type_synonym byte = "8 word"
type_synonym ushort = "16 word"
type_synonym uint = "32 word"
type_synonym uint64 = "64 word"
type_synonym addr = "64 word"
type_synonym mem = "addr \<Rightarrow> byte"

section \<open>Ranges of byte memory\<close>

definition rd_bytes :: "mem \<Rightarrow> addr \<Rightarrow> nat \<Rightarrow> byte list" where
  "rd_bytes m a n = map (\<lambda>i. m (a + of_nat i)) [0..<n]"

definition wr_bytes :: "mem \<Rightarrow> addr \<Rightarrow> byte list \<Rightarrow> mem" where
  "wr_bytes m a bs = (\<lambda>x. if unat (x - a) < length bs then bs ! unat (x - a) else m x)"

lemma length_rd_bytes [simp]: "length (rd_bytes m a n) = n"
  by (simp add: rd_bytes_def)

lemma nth_rd_bytes [simp]: "i < n \<Longrightarrow> rd_bytes m a n ! i = m (a + of_nat i)"
  by (simp add: rd_bytes_def)

lemma rd_bytes_0 [simp]: "rd_bytes m a 0 = []"
  by (simp add: rd_bytes_def)

lemma wr_bytes_Nil [simp]: "wr_bytes m a [] = m"
  by (simp add: wr_bytes_def)

lemma unat_of_nat_64: "i < 2 ^ 64 \<Longrightarrow> unat (of_nat i :: 64 word) = i"
  by (simp add: unat_of_nat take_bit_nat_eq_self)

lemma unat64_less: "unat (x :: 64 word) < 18446744073709551616"
  using unsigned_less [of x] by simp

lemma uint_less_64: "unat (n :: uint) < 18446744073709551616"
proof -
  have "unat n < 2 ^ LENGTH(32)" by (rule unsigned_less)
  then show ?thesis by simp
qed

lemma unat_diff_iff:
  assumes "i < 2 ^ 64"
  shows "unat (x - a :: 64 word) = i \<longleftrightarrow> x = a + of_nat i"
proof
  assume "unat (x - a) = i"
  then have "of_nat (unat (x - a)) = (of_nat i :: 64 word)" by simp
  then have "x - a = of_nat i" by simp
  then show "x = a + of_nat i" by (simp add: diff_eq_eq add.commute)
next
  assume "x = a + of_nat i"
  then show "unat (x - a) = i" using assms by (simp add: unat_of_nat_64)
qed

lemma unat_diff_Suc: "x \<noteq> a \<Longrightarrow> unat (x - a :: 64 word) = Suc (unat (x - (a + 1)))"
proof -
  assume "x \<noteq> a"
  then have "x - a \<noteq> 0" by simp
  then have "unat (x - a - 1) = unat (x - a) - 1" and "0 < unat (x - a)"
    by (simp_all add: unat_minus_one unat_gt_0)
  then show ?thesis by (simp add: diff_diff_eq)
qed

lemma unat_less_bit:
  assumes "unat (w :: 'a::len word) < 2 ^ k" and "k \<le> n"
  shows "\<not> bit w n"
proof -
  have "unat (take_bit k w) = unat w"
    using assms(1) by (simp only: unsigned_take_bit_eq) (simp add: take_bit_nat_eq_self)
  then have "take_bit k w = w"
    by (simp only: word_unat_eq_iff)
  then have "bit w n = bit (take_bit k w) n" by simp
  with assms(2) show ?thesis by (simp only: bit_take_bit_iff) simp
qed

lemma wr_bytes_at:
  "i < length bs \<Longrightarrow> length bs \<le> 2 ^ 64 \<Longrightarrow> wr_bytes m a bs (a + of_nat i) = bs ! i"
  by (simp add: wr_bytes_def unat_of_nat_64)

lemma wr_bytes_other [mem_simps]: "length bs \<le> unat (x - a) \<Longrightarrow> wr_bytes m a bs x = m x"
  by (simp add: wr_bytes_def)

lemma rd_wr_same [mem_simps]:
  "length bs \<le> 2 ^ 64 \<Longrightarrow> n = length bs \<Longrightarrow> rd_bytes (wr_bytes m a bs) a n = bs"
  by (rule nth_equalityI) (simp_all add: wr_bytes_at)

lemma rd_wr_other:
  assumes "\<And>i. i < n \<Longrightarrow> length bs \<le> unat (b + of_nat i - a)"
  shows "rd_bytes (wr_bytes m a bs) b n = rd_bytes m b n"
  by (rule nth_equalityI) (simp_all add: wr_bytes_other assms)

lemma rd_bytes_Suc: "rd_bytes m a (Suc n) = m a # rd_bytes m (a + 1) n"
  by (rule nth_equalityI) (auto simp: nth_Cons algebra_simps split: nat.splits)

lemma rd_bytes_add: "rd_bytes m a (k + n) = rd_bytes m a k @ rd_bytes m (a + of_nat k) n"
  by (rule nth_equalityI) (auto simp: nth_append algebra_simps)

section \<open>Little-endian encodings\<close>

primrec le_dec :: "byte list \<Rightarrow> 'a::len word" where
  "le_dec [] = 0"
| "le_dec (b # bs) = ucast b OR push_bit 8 (le_dec bs)"

primrec le_enc :: "nat \<Rightarrow> 'a::len word \<Rightarrow> byte list" where
  "le_enc 0 w = []"
| "le_enc (Suc n) w = ucast w # le_enc n (drop_bit 8 w)"

lemma length_le_enc [simp]: "length (le_enc n w) = n"
  by (induction n arbitrary: w) auto

lemma le_dec_enc_take: "le_dec (le_enc n w) = take_bit (8 * n) (w :: 'a::len word)"
proof (induction n arbitrary: w)
  case 0
  then show ?case by simp
next
  case (Suc n)
  show ?case
    by (rule bit_word_eqI)
      (auto simp: Suc.IH bit_or_iff bit_ucast_iff bit_push_bit_iff bit_take_bit_iff bit_drop_bit_eq
        dest: bit_imp_le_length)
qed

lemma le_dec_enc: "LENGTH('a) \<le> 8 * n \<Longrightarrow> le_dec (le_enc n w) = (w :: 'a::len word)"
  by (simp add: le_dec_enc_take take_bit_word_eq_self)

lemma le_dec_zeros: "le_dec (replicate n 0) = 0"
  by (induction n) simp_all

definition load64 :: "mem \<Rightarrow> addr \<Rightarrow> 64 word" where
  "load64 m a = le_dec (rd_bytes m a 8)"

definition store64 :: "mem \<Rightarrow> addr \<Rightarrow> 64 word \<Rightarrow> mem" where
  "store64 m a w = wr_bytes m a (le_enc 8 w)"

lemma load_store_same [mem_simps]: "load64 (store64 m a w) a = w"
  by (simp add: load64_def store64_def rd_wr_same le_dec_enc)

lemma unat_add_diff:
  assumes "8 \<le> unat (b - a :: 64 word)" and "8 \<le> unat (a - b)" and "i < 8"
  shows "8 \<le> unat (b + of_nat i - a)"
proof -
  have "of_nat (2 ^ 64 - unat (b - a)) + of_nat (unat (b - a)) = (of_nat (2 ^ 64) :: 64 word)"
    using unat64_less [of "b - a"] by (simp only: of_nat_add [symmetric]) simp
  moreover have "(of_nat (2 ^ 64) :: 64 word) = 0" by (simp only: of_nat_power of_nat_numeral) simp
  ultimately have "of_nat (2 ^ 64 - unat (b - a)) + (b - a) = 0" by simp
  then have "a - b = of_nat (2 ^ 64 - unat (b - a))" by (simp only: add_eq_0_iff2) simp
  moreover have "2 ^ 64 - unat (b - a) < 2 ^ 64" using assms(1) by simp
  ultimately have "unat (a - b) = 2 ^ 64 - unat (b - a)" by (simp only: unat_of_nat_64)
  then have "unat (b - a) + i < 2 ^ 64" using assms(2,3) unat64_less [of "b - a"] by simp
  moreover have "b + of_nat i - a = of_nat (unat (b - a) + i)" by simp
  ultimately show ?thesis using assms(1) by (simp only: unat_of_nat_64)
qed

lemma load_store_apart: "8 \<le> unat (b - a) \<Longrightarrow> 8 \<le> unat (a - b) \<Longrightarrow> load64 (store64 m a w) b = load64 m b"
  unfolding load64_def store64_def by (subst rd_wr_other) (simp_all add: unat_add_diff)

text \<open>Widening a 32-bit word.\<close>

lemma unat32_less: "unat (a :: 32 word) < 2 ^ 32"
  using unsigned_less [of a] by simp

lemma ucast_of_nat: "(ucast (a :: 32 word) :: 64 word) = of_nat (unat a)"
  using unat32_less [of a] by (intro word_unat_eq_iff [THEN iffD2]) (simp add: unsigned_ucast_eq take_bit_nat_eq_self unat_of_nat)

lemma sint_small: "0 \<le> n \<Longrightarrow> n < 2 ^ 31 \<Longrightarrow> sint (word_of_int n :: 32 word) = n"
  by (simp add: signed_take_bit_int_eq_self sint_sbintrunc')

lemma sint_small32: "unat (a :: 32 word) < 2 ^ 31 \<Longrightarrow> sint a = int (unat a)"
proof -
  assume "unat a < 2 ^ 31"
  then have "int (unat a) < int (2 ^ 31)" by (simp only: of_nat_less_iff)
  then show ?thesis using sint_small [of "int (unat a)"] by simp
qed

end
