(* ===== verification/Riscv.thy ===== *)
theory Riscv
  imports Prelude
begin

text \<open>
  The macros of kernel/riscv.h and kernel/memlayout.h: page rounding, Sv39 page-table
  entries and indices, the interrupt-enable bit of sstatus, and the address-space layout.
  The lemmas reduce page arithmetic on 64-bit words to arithmetic on natural numbers.
\<close>

section \<open>kernel/riscv.h\<close>

definition PGSIZE :: uint64 where "PGSIZE = 4096"
definition PGSHIFT :: nat where "PGSHIFT = 12"

definition PGROUNDUP :: "uint64 \<Rightarrow> uint64" where
  "PGROUNDUP sz = (sz + PGSIZE - 1) AND NOT (PGSIZE - 1)"

definition PGROUNDDOWN :: "uint64 \<Rightarrow> uint64" where
  "PGROUNDDOWN a = a AND NOT (PGSIZE - 1)"

definition PTE_V :: uint64 where "PTE_V = push_bit 0 1"
definition PTE_R :: uint64 where "PTE_R = push_bit 1 1"
definition PTE_W :: uint64 where "PTE_W = push_bit 2 1"
definition PTE_X :: uint64 where "PTE_X = push_bit 3 1"
definition PTE_U :: uint64 where "PTE_U = push_bit 4 1"

definition PA2PTE :: "uint64 \<Rightarrow> uint64" where
  "PA2PTE pa = push_bit 10 (drop_bit 12 pa)"

definition PTE2PA :: "uint64 \<Rightarrow> uint64" where
  "PTE2PA pte = push_bit 12 (drop_bit 10 pte)"

definition PTE_FLAGS :: "uint64 \<Rightarrow> uint64" where
  "PTE_FLAGS pte = pte AND 0x3FF"

definition PXSHIFT :: "nat \<Rightarrow> nat" where
  "PXSHIFT level = PGSHIFT + 9 * level"

definition PX :: "nat \<Rightarrow> uint64 \<Rightarrow> uint64" where
  "PX level va = drop_bit (PXSHIFT level) va AND 0x1FF"

definition MAXVA :: uint64 where "MAXVA = push_bit (9 + 9 + 9 + 12 - 1) 1"

definition MAKE_SATP :: "uint64 \<Rightarrow> uint64" where
  "MAKE_SATP pagetable = push_bit 60 8 OR drop_bit 12 pagetable"

definition SSTATUS_SIE :: uint64 where "SSTATUS_SIE = push_bit 1 1"
definition SSTATUS_SPIE :: uint64 where "SSTATUS_SPIE = push_bit 5 1"
definition SSTATUS_SPP :: uint64 where "SSTATUS_SPP = push_bit 8 1"

text \<open>The three interrupt helpers, as functions of the value of the sstatus register.\<close>

definition intr_on :: "uint64 \<Rightarrow> uint64" where
  "intr_on sstatus = sstatus OR SSTATUS_SIE"

definition intr_off :: "uint64 \<Rightarrow> uint64" where
  "intr_off sstatus = sstatus AND NOT SSTATUS_SIE"

definition intr_get :: "uint64 \<Rightarrow> bool" where
  "intr_get sstatus \<longleftrightarrow> sstatus AND SSTATUS_SIE \<noteq> 0"

section \<open>kernel/memlayout.h\<close>

definition UART0 :: uint64 where "UART0 = 0x10000000"
definition UART0_IRQ :: int where "UART0_IRQ = 10"
definition VIRTIO0 :: uint64 where "VIRTIO0 = 0x10001000"
definition VIRTIO0_IRQ :: int where "VIRTIO0_IRQ = 1"
definition PLIC :: uint64 where "PLIC = 0x0c000000"
definition KERNBASE :: uint64 where "KERNBASE = 0x80000000"
definition PHYSTOP :: uint64 where "PHYSTOP = KERNBASE + 128 * 1024 * 1024"
definition TRAMPOLINE :: uint64 where "TRAMPOLINE = MAXVA - PGSIZE"
definition KSTACK :: "nat \<Rightarrow> uint64" where
  "KSTACK p = TRAMPOLINE - (of_nat p + 1) * 2 * PGSIZE"
definition TRAPFRAME :: uint64 where "TRAPFRAME = TRAMPOLINE - PGSIZE"

lemmas layout_defs = UART0_def VIRTIO0_def PLIC_def KERNBASE_def PHYSTOP_def TRAMPOLINE_def
  KSTACK_def TRAPFRAME_def MAXVA_def PGSIZE_def PGSHIFT_def

lemmas pte_bits = PTE_V_def PTE_R_def PTE_W_def PTE_X_def PTE_U_def

section \<open>Page arithmetic\<close>

definition page_aligned :: "uint64 \<Rightarrow> bool" where
  "page_aligned a \<longleftrightarrow> unat a mod 4096 = 0"

lemma and_page_mask: "(x :: 64 word) AND - 4096 = push_bit 12 (drop_bit 12 x)"
proof -
  have "(- 4096 :: 64 word) = NOT (mask 12)"
    by (simp add: mask_eq_exp_minus_1)
  then have "x AND - 4096 = x AND NOT (mask 12)"
    by simp
  also have "\<dots> = push_bit 12 (drop_bit 12 x)"
    by (rule bit_word_eqI)
      (auto simp: bit_and_iff bit_not_iff bit_mask_iff bit_push_bit_iff bit_drop_bit_eq)
  finally show ?thesis .
qed

lemma unat_take_bit_12: "unat (take_bit 12 (x :: 64 word)) = unat x mod 4096"
  by (simp only: unsigned_take_bit_eq) (simp add: take_bit_eq_mod)

lemma unat_push_drop_12:
  "unat (push_bit 12 (drop_bit 12 (x :: 64 word))) = unat x - unat x mod 4096"
proof -
  have "push_bit 12 (drop_bit 12 x) + take_bit 12 x = x"
    by (simp add: bits_ident)
  then have "push_bit 12 (drop_bit 12 x) = x - take_bit 12 x"
    by (metis add_diff_cancel_right')
  moreover have "take_bit 12 x \<le> x"
    by (simp add: word_le_nat_alt unat_take_bit_12)
  ultimately show ?thesis
    by (simp add: unat_sub unat_take_bit_12)
qed

lemma unat_PGROUNDDOWN: "unat (PGROUNDDOWN x) = unat x - unat x mod 4096"
  by (simp add: PGROUNDDOWN_def PGSIZE_def and_page_mask unat_push_drop_12)

lemma page_aligned_PGROUNDDOWN [simp]: "page_aligned (PGROUNDDOWN x)"
  by (simp add: page_aligned_def unat_PGROUNDDOWN)

lemma page_aligned_0 [simp]: "page_aligned 0"
  by (simp add: page_aligned_def)

lemma page_mod: "(x mod PGSIZE = 0) = page_aligned x"
proof -
  have "unat (x mod PGSIZE) = unat x mod 4096"
    by (simp add: PGSIZE_def unat_mod)
  then show ?thesis
    by (metis page_aligned_def unat_eq_zero)
qed

lemma page_aligned_le: "page_aligned a \<Longrightarrow> unat a \<le> 2 ^ 64 - 4096"
proof -
  assume "page_aligned a"
  then obtain k where k: "unat a = 4096 * k"
    by (auto simp: page_aligned_def)
  with unat64_less [of a] show ?thesis by simp
qed

lemma unat_diff_page:
  assumes "page_aligned a" and "unat (x - a) < 4096"
  shows "unat x = unat a + unat (x - a)"
proof -
  have "unat a + unat (x - a) < 2 ^ 64"
    using page_aligned_le [OF assms(1)] assms(2) by simp
  then have "unat (a + (x - a)) = unat a + unat (x - a)"
    using unat_add_lem [of a "x - a"] by simp
  then show ?thesis by simp
qed

lemma in_page_iff:
  assumes "page_aligned a"
  shows "unat (x - a) < 4096 \<longleftrightarrow> PGROUNDDOWN x = a"
proof
  assume "unat (x - a) < 4096"
  with assms have "unat x = unat a + unat (x - a)"
    by (rule unat_diff_page)
  with assms \<open>unat (x - a) < 4096\<close> have "unat x - unat x mod 4096 = unat a"
    by (simp add: page_aligned_def mod_add_eq [symmetric, of "unat a"])
  then show "PGROUNDDOWN x = a"
    by (metis unat_PGROUNDDOWN word_unat_eq_iff)
next
  assume eq: "PGROUNDDOWN x = a"
  have "unat a \<le> unat x"
    by (simp add: eq [symmetric] unat_PGROUNDDOWN)
  then have "unat (x - a) = unat x - unat a"
    by (simp add: unat_sub word_le_nat_alt)
  also have "\<dots> = unat x mod 4096"
    by (simp add: eq [symmetric] unat_PGROUNDDOWN)
  finally show "unat (x - a) < 4096"
    by simp
qed

lemma page_disjoint:
  assumes "page_aligned a" and "page_aligned b" and "a \<noteq> b" and "unat (x - a) < 4096"
  shows "4096 \<le> unat (x - b)"
  using assms in_page_iff [of a x] in_page_iff [of b x] by (metis not_le)

lemma PX_take_bit: "PX level va = take_bit 9 (drop_bit (PXSHIFT level) va)"
  by (simp add: PX_def take_bit_eq_mask mask_eq_exp_minus_1 and.commute)

lemma PX_less: "unat (PX level va) < 512"
proof -
  have "unat (take_bit 9 (w :: 64 word)) < 512" for w
    by (simp only: unsigned_take_bit_eq) (simp add: take_bit_eq_mod)
  then show ?thesis by (simp add: PX_take_bit)
qed

lemma bit_PX: "bit (PX l w) k \<longleftrightarrow> k < 9 \<and> bit w (12 + 9 * l + k)"
  by (simp add: PX_take_bit PXSHIFT_def PGSHIFT_def bit_take_bit_iff bit_drop_bit_eq)

lemma bit_PGROUNDDOWN: "bit (PGROUNDDOWN x) n \<longleftrightarrow> 12 \<le> n \<and> bit x n"
  by (auto simp: PGROUNDDOWN_def PGSIZE_def and_page_mask bit_push_bit_iff bit_drop_bit_eq
      dest: bit_imp_le_length)

lemma page_aligned_bit: "page_aligned pa \<Longrightarrow> k < 12 \<Longrightarrow> \<not> bit pa k"
proof -
  assume "page_aligned pa" and k: "k < 12"
  then have "take_bit 12 pa = 0"
    by (simp add: page_aligned_def word_unat_eq_iff unat_take_bit_12)
  then have "bit (take_bit 12 pa) k = False" by simp
  with k show ?thesis by (simp add: bit_take_bit_iff)
qed

lemma PTE2PA_PA2PTE:
  assumes "page_aligned pa" and "unat pa < 2 ^ 56" and "unat f < 2 ^ 10"
  shows "PTE2PA (PA2PTE pa OR f) = pa"
proof (rule bit_word_eqI)
  fix n assume n: "n < LENGTH(64)"
  have hi: "\<not> bit pa k" if "56 \<le> k" for k
    using assms(2) that by (rule unat_less_bit)
  have fl: "\<not> bit f k" if "10 \<le> k" for k
    using assms(3) that by (rule unat_less_bit)
  show "bit (PTE2PA (PA2PTE pa OR f)) n = bit pa n"
  proof (cases "n < 12")
    case True
    then show ?thesis
      using page_aligned_bit [OF assms(1)] by (simp add: PTE2PA_def bit_push_bit_iff bit_or_iff)
  next
    case False
    then have "bit (PTE2PA (PA2PTE pa OR f)) n \<longleftrightarrow> bit pa n \<and> n - 2 < 64"
      using n fl [of "n - 2"]
      by (auto simp: PTE2PA_def PA2PTE_def bit_push_bit_iff bit_drop_bit_eq bit_or_iff)
    with n show ?thesis by auto
  qed
qed

end
