(* ===== verification/CString.thy ===== *)
theory CString
  imports Riscv
begin

text \<open>
  kernel/string.c on byte memory.  The loops are kept as loops (recursion on the
  counters, byte by byte, in the source's direction); the lemmas identify each with a bulk
  read or write of memory.  \<open>strlen\<close> has no bound and is a partial function: \<open>None\<close>
  means that the loop never meets a NUL.
\<close>

section \<open>memset, memcmp, memmove\<close>

function memset_loop :: "mem \<Rightarrow> addr \<Rightarrow> byte \<Rightarrow> nat \<Rightarrow> nat \<Rightarrow> mem" where
  "memset_loop m cdst c i n =
     (if i < n then memset_loop (m(cdst + of_nat i := c)) cdst c (Suc i) n else m)"
  by pat_completeness auto
termination
  by (relation "measure (\<lambda>(m, cdst, c, i, n). n - i)") auto

declare memset_loop.simps [simp del]

definition memset :: "mem \<Rightarrow> addr \<Rightarrow> uint \<Rightarrow> uint \<Rightarrow> mem" where
  "memset m dst c n = memset_loop m dst (ucast c) 0 (unat n)"

fun memcmp_loop :: "mem \<Rightarrow> addr \<Rightarrow> addr \<Rightarrow> nat \<Rightarrow> int" where
  "memcmp_loop m s1 s2 0 = 0"
| "memcmp_loop m s1 s2 (Suc n) =
     (if m s1 \<noteq> m s2 then uint (m s1) - uint (m s2)
      else memcmp_loop m (s1 + 1) (s2 + 1) n)"

definition memcmp :: "mem \<Rightarrow> addr \<Rightarrow> addr \<Rightarrow> uint \<Rightarrow> int" where
  "memcmp m v1 v2 n = memcmp_loop m v1 v2 (unat n)"

fun memmove_back :: "mem \<Rightarrow> addr \<Rightarrow> addr \<Rightarrow> nat \<Rightarrow> mem" where
  "memmove_back m d s 0 = m"
| "memmove_back m d s (Suc n) = memmove_back (m(d - 1 := m (s - 1))) (d - 1) (s - 1) n"

fun memmove_fwd :: "mem \<Rightarrow> addr \<Rightarrow> addr \<Rightarrow> nat \<Rightarrow> mem" where
  "memmove_fwd m d s 0 = m"
| "memmove_fwd m d s (Suc n) = memmove_fwd (m(d := m s)) (d + 1) (s + 1) n"

definition memmove :: "mem \<Rightarrow> addr \<Rightarrow> addr \<Rightarrow> uint \<Rightarrow> mem" where
  "memmove m dst src n =
     (if n = 0 then m
      else if src < dst \<and> src + ucast n > dst
      then memmove_back m (dst + ucast n) (src + ucast n) (unat n)
      else memmove_fwd m dst src (unat n))"

definition memcpy :: "mem \<Rightarrow> addr \<Rightarrow> addr \<Rightarrow> uint \<Rightarrow> mem" where
  "memcpy m dst src n = memmove m dst src n"

section \<open>Strings\<close>

fun strncmp_loop :: "mem \<Rightarrow> addr \<Rightarrow> addr \<Rightarrow> nat \<Rightarrow> int" where
  "strncmp_loop m p q 0 = 0"
| "strncmp_loop m p q (Suc n) =
     (if m p \<noteq> 0 \<and> m p = m q then strncmp_loop m (p + 1) (q + 1) n
      else uint (m p) - uint (m q))"

definition strncmp :: "mem \<Rightarrow> addr \<Rightarrow> addr \<Rightarrow> uint \<Rightarrow> int" where
  "strncmp m p q n = strncmp_loop m p q (unat n)"

text \<open>
  The two loops of strncpy: \<open>strncpy_zero\<close> is the second one (padding), entered when the
  first stops at a NUL or when n runs out.
\<close>

fun strncpy_zero :: "mem \<Rightarrow> addr \<Rightarrow> nat \<Rightarrow> mem" where
  "strncpy_zero m s 0 = m"
| "strncpy_zero m s (Suc n) = strncpy_zero (m(s := 0)) (s + 1) n"

fun strncpy_copy :: "mem \<Rightarrow> addr \<Rightarrow> addr \<Rightarrow> nat \<Rightarrow> mem" where
  "strncpy_copy m s t 0 = m"
| "strncpy_copy m s t (Suc n) =
     (let m' = m(s := m t) in
      if m t \<noteq> 0 then strncpy_copy m' (s + 1) (t + 1) n else strncpy_zero m' (s + 1) n)"

definition strncpy :: "mem \<Rightarrow> addr \<Rightarrow> addr \<Rightarrow> int \<Rightarrow> mem" where
  "strncpy m s t n = strncpy_copy m s t (nat n)"

fun safestrcpy_loop :: "mem \<Rightarrow> addr \<Rightarrow> addr \<Rightarrow> nat \<Rightarrow> mem" where
  "safestrcpy_loop m s t 0 = m(s := 0)"
| "safestrcpy_loop m s t (Suc n) =
     (let m' = m(s := m t) in
      if m t \<noteq> 0 then safestrcpy_loop m' (s + 1) (t + 1) n else m'(s + 1 := 0))"

definition safestrcpy :: "mem \<Rightarrow> addr \<Rightarrow> addr \<Rightarrow> int \<Rightarrow> mem" where
  "safestrcpy m s t n = (if n \<le> 0 then m else safestrcpy_loop m s t (nat (n - 1)))"

partial_function (option) strlen_loop :: "mem \<Rightarrow> addr \<Rightarrow> nat \<Rightarrow> nat option" where
  "strlen_loop m s n = (if m (s + of_nat n) \<noteq> 0 then strlen_loop m s (Suc n) else Some n)"

definition strlen :: "mem \<Rightarrow> addr \<Rightarrow> nat option" where
  "strlen m s = strlen_loop m s 0"

section \<open>The loops as bulk operations\<close>

lemma wr_bytes_Cons:
  "length bs < 2 ^ 64 \<Longrightarrow> wr_bytes m a (b # bs) = wr_bytes (m(a := b)) (a + 1) bs"
proof (rule ext)
  fix x assume len: "length bs < 2 ^ 64"
  show "wr_bytes m a (b # bs) x = wr_bytes (m(a := b)) (a + 1) bs x"
  proof (cases "x = a")
    case True
    have "unat (- 1 :: 64 word) = 2 ^ 64 - 1" by (simp add: unsigned_minus_1_eq_mask mask_eq_exp_minus_1)
    with True len show ?thesis by (simp add: wr_bytes_def)
  next
    case False
    then show ?thesis
      by (simp add: wr_bytes_def unat_diff_Suc)
  qed
qed

lemma wr_bytes_snoc:
  assumes "length bs < 2 ^ 64"
  shows "wr_bytes m a (bs @ [b]) = wr_bytes (m(a + of_nat (length bs) := b)) a bs"
proof (rule ext)
  fix x
  have "unat (x - a) = length bs \<longleftrightarrow> x = a + of_nat (length bs)"
    using assms by (rule unat_diff_iff)
  then show "wr_bytes m a (bs @ [b]) x = wr_bytes (m(a + of_nat (length bs) := b)) a bs x"
    by (auto simp: wr_bytes_def nth_append less_Suc_eq)
qed

lemma memset_loop_eq:
  assumes "n \<le> 2 ^ 64"
  shows "memset_loop m d c i n = (\<lambda>x. if i \<le> unat (x - d) \<and> unat (x - d) < n then c else m x)"
  using assms
proof (induction m d c i n rule: memset_loop.induct)
  case (1 m d c i n)
  show ?case
  proof (cases "i < n")
    case True
    have "unat (x - d) = i \<longleftrightarrow> x = d + of_nat i" for x
      using True "1.prems" by (intro unat_diff_iff) simp
    moreover have "memset_loop m d c i n = memset_loop (m(d + of_nat i := c)) d c (Suc i) n"
      using True by (subst memset_loop.simps) simp
    ultimately show ?thesis
      unfolding "1.IH" [OF True "1.prems"] using True "1.prems"
      by (auto simp: Suc_le_eq le_less fun_eq_iff unat_of_nat_64)
  next
    case False
    then show ?thesis
      by (subst memset_loop.simps) (auto simp: fun_eq_iff)
  qed
qed

lemma memset_eq: "memset m d c n = wr_bytes m d (replicate (unat n) (ucast c))"
  using uint_less_64 [of n]
  by (simp add: memset_def memset_loop_eq wr_bytes_def fun_eq_iff)

lemma memmove_fwd_eq:
  assumes "\<And>i j. i < n \<Longrightarrow> j < i \<Longrightarrow> s + of_nat i \<noteq> d + of_nat j" and "n \<le> 2 ^ 64"
  shows "memmove_fwd m d s n = wr_bytes m d (rd_bytes m s n)"
  using assms
proof (induction n arbitrary: m d s)
  case 0
  then show ?case by simp
next
  case (Suc n)
  have "s + 1 + of_nat i \<noteq> d + 1 + of_nat j" if "i < n" "j < i" for i j
    using Suc.prems(1) [of "Suc i" "Suc j"] that by (simp add: algebra_simps)
  moreover have "rd_bytes (m(d := m s)) (s + 1) n = rd_bytes m (s + 1) n"
  proof (rule nth_equalityI)
    fix i assume "i < length (rd_bytes (m(d := m s)) (s + 1) n)"
    then show "rd_bytes (m(d := m s)) (s + 1) n ! i = rd_bytes m (s + 1) n ! i"
      using Suc.prems(1) [of "Suc i" 0] by (simp add: algebra_simps)
  qed simp
  ultimately show ?case
    using Suc.prems(2) by (simp add: Suc.IH rd_bytes_Suc wr_bytes_Cons del: fun_upd_apply)
qed

lemma rd_bytes_snoc: "rd_bytes m a (Suc n) = rd_bytes m a n @ [m (a + of_nat n)]"
  by (simp add: rd_bytes_def)

lemma memmove_back_eq:
  assumes "\<And>i j. j < n \<Longrightarrow> i < j \<Longrightarrow> s + of_nat i \<noteq> d + of_nat j" and "n \<le> 2 ^ 64"
  shows "memmove_back m (d + of_nat n) (s + of_nat n) n = wr_bytes m d (rd_bytes m s n)"
  using assms
proof (induction n arbitrary: m)
  case 0
  then show ?case by simp
next
  case (Suc n)
  let ?m' = "m(d + of_nat n := m (s + of_nat n))"
  have "rd_bytes ?m' s n = rd_bytes m s n"
  proof (rule nth_equalityI)
    fix i assume "i < length (rd_bytes ?m' s n)"
    then show "rd_bytes ?m' s n ! i = rd_bytes m s n ! i"
      using Suc.prems(1) [of n i] by simp
  qed simp
  with Suc show ?case
    by (simp add: rd_bytes_snoc wr_bytes_snoc algebra_simps)
qed

text \<open>
  memmove copies the source as it was before the call, also when the two ranges overlap,
  as long as neither range runs past the end of the address space.
\<close>

lemma memmove_eq:
  assumes "unat src + unat n < 2 ^ 64" and "unat dst + unat n \<le> 2 ^ 64"
  shows "memmove m dst src n = wr_bytes m dst (rd_bytes m src (unat n))"
proof -
  have ucast: "ucast n = (of_nat (unat n) :: 64 word)" by simp
  have src: "unat (src + of_nat i) = unat src + i" if "i \<le> unat n" for i
    using that assms(1) by (simp add: unat_word_ariths unat_of_nat)
  have dst: "unat (dst + of_nat i) = unat dst + i" if "i < unat n" for i
    using that assms(2) by (simp add: unat_word_ariths unat_of_nat)
  show ?thesis
  proof (cases "src < dst \<and> src + ucast n > dst")
    case True
    have "src + of_nat i \<noteq> dst + of_nat j" if "j < unat n" "i < j" for i j
      using that True src [of i] dst [of j] by (auto simp: word_less_nat_alt word_unat_eq_iff)
    moreover have "unat n \<le> 2 ^ 64" using uint_less_64 [of n] by simp
    ultimately have "memmove_back m (dst + of_nat (unat n)) (src + of_nat (unat n)) (unat n)
        = wr_bytes m dst (rd_bytes m src (unat n))"
      by (rule memmove_back_eq)
    with True show ?thesis by (auto simp: memmove_def)
  next
    case False
    have "src + of_nat i \<noteq> dst + of_nat j" if "i < unat n" "j < i" for i j
      using that False src [of i] src [of "unat n"] dst [of j]
      by (auto simp: word_less_nat_alt word_unat_eq_iff)
    moreover have "unat n \<le> 2 ^ 64" using uint_less_64 [of n] by simp
    ultimately have "memmove_fwd m dst src (unat n) = wr_bytes m dst (rd_bytes m src (unat n))"
      by (rule memmove_fwd_eq)
    with False show ?thesis by (auto simp: memmove_def)
  qed
qed

lemma memcmp_loop_0_iff: "memcmp_loop m p q n = 0 \<longleftrightarrow> rd_bytes m p n = rd_bytes m q n"
  by (induction n arbitrary: p q) (auto simp: rd_bytes_Suc word_uint_eq_iff)

lemma strlen_loop_Some:
  "(\<And>i. k \<le> i \<Longrightarrow> i < n \<Longrightarrow> m (s + of_nat i) \<noteq> 0) \<Longrightarrow> m (s + of_nat n) = 0 \<Longrightarrow> k \<le> n
   \<Longrightarrow> strlen_loop m s k = Some n"
proof (induction "n - k" arbitrary: k)
  case 0
  then show ?case by (simp add: strlen_loop.simps)
next
  case (Suc d)
  then have "strlen_loop m s (Suc k) = Some n" by simp
  moreover have "m (s + of_nat k) \<noteq> 0" using Suc by simp
  ultimately show ?case by (simp add: strlen_loop.simps [of m s k])
qed

lemma strlen_Some:
  "(\<And>i. i < n \<Longrightarrow> m (s + of_nat i) \<noteq> 0) \<Longrightarrow> m (s + of_nat n) = 0 \<Longrightarrow> strlen m s = Some n"
  by (simp add: strlen_def strlen_loop_Some)

lemma strlen_loop_SomeD:
  assumes "strlen_loop m s k = Some n"
  shows "k \<le> n \<and> m (s + of_nat n) = 0 \<and> (\<forall>i. k \<le> i \<longrightarrow> i < n \<longrightarrow> m (s + of_nat i) \<noteq> 0)"
proof (rule strlen_loop.raw_induct [where P = "\<lambda>m s k n. k \<le> n \<and> m (s + of_nat n) = 0 \<and>
      (\<forall>i. k \<le> i \<longrightarrow> i < n \<longrightarrow> m (s + of_nat i) \<noteq> 0)", OF _ assms])
  fix f :: "mem \<Rightarrow> addr \<Rightarrow> nat \<Rightarrow> nat option" and m s k n
  assume IH: "\<And>m s k n. f m s k = Some n \<Longrightarrow>
      k \<le> n \<and> m (s + of_nat n) = 0 \<and> (\<forall>i. k \<le> i \<longrightarrow> i < n \<longrightarrow> m (s + of_nat i) \<noteq> 0)"
    and eq: "(if m (s + of_nat k) \<noteq> 0 then f m s (Suc k) else Some k) = Some n"
  show "k \<le> n \<and> m (s + of_nat n) = 0 \<and> (\<forall>i. k \<le> i \<longrightarrow> i < n \<longrightarrow> m (s + of_nat i) \<noteq> 0)"
    using eq IH [of m s "Suc k" n]
    by (cases "m (s + of_nat k) = 0") (auto simp: Suc_le_eq dest: le_neq_implies_less)
qed

lemma strlen_iff:
  "strlen m s = Some n \<longleftrightarrow> m (s + of_nat n) = 0 \<and> (\<forall>i<n. m (s + of_nat i) \<noteq> 0)"
  using strlen_loop_SomeD [of m s 0 n] strlen_Some [of n m s] by (auto simp: strlen_def)

lemma safestrcpy_loop_other:
  "n < unat (x - s) \<Longrightarrow> n < 2 ^ 64 - 1 \<Longrightarrow> safestrcpy_loop m s t n x = m x"
proof (induction n arbitrary: m s t)
  case 0
  then show ?case by auto
next
  case (Suc n)
  have ne: "x \<noteq> s" using Suc.prems by auto
  then have "unat (x - s) = Suc (unat (x - (s + 1)))"
    by (rule unat_diff_Suc)
  with Suc ne show ?case by (auto simp: Let_def)
qed

end
