(* ===== verification/Kmonad.thy ===== *)
theory Kmonad
  imports Prelude
begin

text \<open>
  The monad in which the kernel's functions are written.  A kernel function runs on one
  CPU from a state and either returns a value (\<open>Ret\<close>), calls panic (\<open>Panic\<close> with the
  message), gives up the CPU inside sched() (\<open>Swtch\<close>; the state is the one the scheduler
  sees), or loops for ever (\<open>Hang\<close>).  \<open>wp\<close> is total correctness (the function
  returns and the result satisfies the postcondition), \<open>wlp\<close> is what holds of the
  result whenever it returns.
\<close>

named_theorems kmon \<open>unfolding of the monad's primitives on a state\<close>
named_theorems wp_simps \<open>weakest preconditions of the monad's primitives\<close>

datatype ('a, 's) outcome =
    Ret 'a 's
  | Panic string 's
  | Swtch 's
  | Hang 's

type_synonym ('s, 'a) kproc = "'s \<Rightarrow> ('a, 's) outcome"

definition return :: "'a \<Rightarrow> ('s, 'a) kproc" where
  "return x = (\<lambda>s. Ret x s)"

definition bind :: "('s, 'a) kproc \<Rightarrow> ('a \<Rightarrow> ('s, 'b) kproc) \<Rightarrow> ('s, 'b) kproc" where
  "bind m f = (\<lambda>s. case m s of Ret x s' \<Rightarrow> f x s' | Panic e s' \<Rightarrow> Panic e s'
                   | Swtch s' \<Rightarrow> Swtch s' | Hang s' \<Rightarrow> Hang s')"

definition panic :: "string \<Rightarrow> ('s, 'a) kproc" where
  "panic msg = (\<lambda>s. Panic msg s)"

definition hang :: "('s, 'a) kproc" where
  "hang = (\<lambda>s. Hang s)"

definition gets :: "('s \<Rightarrow> 'a) \<Rightarrow> ('s, 'a) kproc" where
  "gets f = (\<lambda>s. Ret (f s) s)"

definition modify :: "('s \<Rightarrow> 's) \<Rightarrow> ('s, unit) kproc" where
  "modify f = (\<lambda>s. Ret () (f s))"

definition whenM :: "bool \<Rightarrow> ('s, unit) kproc \<Rightarrow> ('s, unit) kproc" where
  "whenM b m = (if b then m else return ())"

lemma return_apply [kmon]: "return x s = Ret x s"
  by (simp add: return_def)

lemma bind_apply [kmon]:
  "bind m f s = (case m s of Ret x s' \<Rightarrow> f x s' | Panic e s' \<Rightarrow> Panic e s'
                 | Swtch s' \<Rightarrow> Swtch s' | Hang s' \<Rightarrow> Hang s')"
  by (simp add: bind_def)

lemma panic_apply [kmon]: "panic msg s = Panic msg s"
  by (simp add: panic_def)

lemma hang_apply [kmon]: "hang s = Hang s"
  by (simp add: hang_def)

lemma gets_apply [kmon]: "gets f s = Ret (f s) s"
  by (simp add: gets_def)

lemma modify_apply [kmon]: "modify f s = Ret () (f s)"
  by (simp add: modify_def)

lemma when_apply [kmon]: "whenM b m s = (if b then m s else Ret () s)"
  by (simp add: whenM_def return_def)

lemma bind_return_left: "bind (return x) f = f x"
  by (rule ext) (simp add: kmon)

lemma bind_return_right: "bind m return = m"
  by (rule ext) (simp add: kmon split: outcome.splits)

lemma bind_assoc: "bind (bind m f) g = bind m (\<lambda>x. bind (f x) g)"
  by (rule ext) (simp add: kmon split: outcome.splits)

text \<open>Running a sequence of steps one at a time.\<close>

named_theorems krun \<open>executing the first step of a sequence\<close>

lemma bind_Ret: "m s = Ret x t \<Longrightarrow> bind m f s = f x t"
  by (simp add: kmon)

lemma bind_gets [krun]: "bind (gets g) f s = f (g s) s"
  by (simp add: kmon)

lemma bind_modify [krun]: "bind (modify g) f s = f () (g s)"
  by (simp add: kmon)

lemma bind_return [krun]: "bind (return x) f s = f x s"
  by (simp add: kmon)

lemma bind_panic [krun]: "bind (panic e) f s = Panic e s"
  by (simp add: kmon)

lemma bind_when [krun]: "bind (whenM b m) f s = (if b then bind m f s else f () s)"
  by (simp add: kmon)

lemma bind_bind [krun]: "bind (bind m g) f s = bind m (\<lambda>x. bind (g x) f) s"
  by (simp add: bind_assoc)

lemma bind_if [krun]: "bind (if b then m else m') f s = (if b then bind m f s else bind m' f s)"
  by simp

lemma bind_RetE:
  assumes "bind m f s = Ret y t"
  obtains x s' where "m s = Ret x s'" and "f x s' = Ret y t"
  using assms by (auto simp: kmon split: outcome.splits)

section \<open>Weakest preconditions\<close>

definition wp :: "('s, 'a) kproc \<Rightarrow> ('a \<Rightarrow> 's \<Rightarrow> bool) \<Rightarrow> 's \<Rightarrow> bool" where
  "wp m Q s \<longleftrightarrow> (\<exists>x s'. m s = Ret x s' \<and> Q x s')"

definition wlp :: "('s, 'a) kproc \<Rightarrow> ('a \<Rightarrow> 's \<Rightarrow> bool) \<Rightarrow> 's \<Rightarrow> bool" where
  "wlp m Q s \<longleftrightarrow> (\<forall>x s'. m s = Ret x s' \<longrightarrow> Q x s')"

lemma wp_return [wp_simps]: "wp (return x) Q s = Q x s"
  by (simp add: wp_def kmon)

lemma wp_bind [wp_simps]: "wp (bind m f) Q s = wp m (\<lambda>x. wp (f x) Q) s"
  by (auto simp: wp_def kmon split: outcome.splits)

lemma wp_panic [wp_simps]: "wp (panic msg) Q s = False"
  by (simp add: wp_def kmon)

lemma wp_hang [wp_simps]: "wp hang Q s = False"
  by (simp add: wp_def kmon)

lemma wp_gets [wp_simps]: "wp (gets f) Q s = Q (f s) s"
  by (simp add: wp_def kmon)

lemma wp_modify [wp_simps]: "wp (modify f) Q s = Q () (f s)"
  by (simp add: wp_def kmon)

lemma wp_if [wp_simps]: "wp (if b then m else m') Q s = (if b then wp m Q s else wp m' Q s)"
  by simp

lemma wp_when [wp_simps]: "wp (whenM b m) Q s = (if b then wp m Q s else Q () s)"
  by (simp add: whenM_def wp_simps)

lemma wp_mono: "wp m Q s \<Longrightarrow> (\<And>x t. Q x t \<Longrightarrow> R x t) \<Longrightarrow> wp m R s"
  by (auto simp: wp_def)

lemma wp_Ret: "m s = Ret x t \<Longrightarrow> wp m Q s = Q x t"
  by (simp add: wp_def)

lemma wlp_return [wp_simps]: "wlp (return x) Q s = Q x s"
  by (simp add: wlp_def kmon)

lemma wlp_bind [wp_simps]: "wlp (bind m f) Q s = wlp m (\<lambda>x. wlp (f x) Q) s"
  by (auto simp: wlp_def kmon split: outcome.splits)

lemma wlp_panic [wp_simps]: "wlp (panic msg) Q s"
  by (simp add: wlp_def kmon)

lemma wlp_hang [wp_simps]: "wlp hang Q s"
  by (simp add: wlp_def kmon)

lemma wlp_gets [wp_simps]: "wlp (gets f) Q s = Q (f s) s"
  by (simp add: wlp_def kmon)

lemma wlp_modify [wp_simps]: "wlp (modify f) Q s = Q () (f s)"
  by (simp add: wlp_def kmon)

lemma wlp_when [wp_simps]: "wlp (whenM b m) Q s = (if b then wlp m Q s else Q () s)"
  by (simp add: whenM_def wp_simps)

lemma wlp_mono: "wlp m Q s \<Longrightarrow> (\<And>x t. Q x t \<Longrightarrow> R x t) \<Longrightarrow> wlp m R s"
  by (auto simp: wlp_def)

lemma wp_imp_wlp: "wp m Q s \<Longrightarrow> wlp m Q s"
  by (auto simp: wp_def wlp_def)


section \<open>Loops over a list and dereferencing\<close>

fun forM :: "'b list \<Rightarrow> ('b \<Rightarrow> ('s, unit) kproc) \<Rightarrow> ('s, unit) kproc" where
  "forM [] f = return ()"
| "forM (x # xs) f = bind (f x) (\<lambda>_. forM xs f)"

text \<open>
  A null pointer dereferenced by the kernel is a load or store page fault, which kerneltrap()
  turns into a panic.
\<close>

definition deref :: "'a option \<Rightarrow> ('s, 'a) kproc" where
  "deref p = (case p of None \<Rightarrow> panic ''kerneltrap'' | Some x \<Rightarrow> return x)"

lemma deref_simps [simp]: "deref (Some x) = return x" "deref None = panic ''kerneltrap''"
  by (simp_all add: deref_def)

lemma wp_forM_index:
  assumes "\<And>i t. i < length xs \<Longrightarrow> I i t \<Longrightarrow> wp (f (xs ! i)) (\<lambda>_. I (Suc i)) t" and "I 0 s"
  shows "wp (forM xs f) (\<lambda>_. I (length xs)) s"
  using assms
proof (induction xs arbitrary: I s)
  case Nil
  then show ?case by (simp add: wp_simps)
next
  case (Cons x xs)
  have "wp (f x) (\<lambda>_. I (Suc 0)) s" using Cons.prems(1) [of 0 s] Cons.prems(2) by simp
  then show ?case
    unfolding forM.simps wp_bind
    by (rule wp_mono) (use Cons.prems(1) [of "Suc _"] in \<open>auto intro!: Cons.IH [of "\<lambda>i. I (Suc i)"]\<close>)
qed

lemma wp_forM:
  assumes "\<And>x t. x \<in> set xs \<Longrightarrow> I t \<Longrightarrow> wp (f x) (\<lambda>_. I) t" and "I s"
  shows "wp (forM xs f) (\<lambda>_. I) s"
  using wp_forM_index [of xs "\<lambda>_. I" f s] assms by simp

lemma forM_append: "forM (xs @ ys) f = bind (forM xs f) (\<lambda>_. forM ys f)"
  by (induction xs) (simp_all add: bind_return_left bind_assoc)

text \<open>A loop whose body always returns is a fold over the state.\<close>

lemma forM_fold:
  assumes "\<And>x t. x \<in> set xs \<Longrightarrow> P t \<Longrightarrow> f x t = Ret () (g x t) \<and> P (g x t)" and "P s"
  shows "forM xs f s = Ret () (fold g xs s)"
  using assms by (induction xs arbitrary: s) (auto simp: kmon)

end
