(* ===== verification/Spinlock.thy ===== *)
theory Spinlock
  imports Riscv Kmonad
begin

text \<open>
  kernel/spinlock.c: spin locks and the nesting of interrupt disabling, on several CPUs.
  \<open>push_off\<close>, \<open>pop_off\<close>, \<open>holding\<close>, \<open>acquire\<close> and \<open>release\<close> are the functions
  of the source, run by one CPU (number \<open>me\<close>); \<open>smp_step\<close> splits acquire() and
  release() at their atomic accesses and interleaves all CPUs.  The interface a client
  relies on is the locale \<open>spin_interface\<close>.
\<close>

section \<open>Data\<close>

record cpu =
  noff :: int
  intena :: bool
  sstatus :: uint64

record spinlock =
  locked :: uint
  lk_name :: string
  lk_cpu :: "nat option"

record 'l smp =
  cpus :: "nat \<Rightarrow> cpu"
  locks :: "'l \<Rightarrow> spinlock"

section \<open>The functions of spinlock.c\<close>

definition initlock :: "string \<Rightarrow> spinlock" where
  "initlock name = \<lparr>locked = 0, lk_name = name, lk_cpu = None\<rparr>"

definition holding :: "nat \<Rightarrow> spinlock \<Rightarrow> bool" where
  "holding me lk \<longleftrightarrow> locked lk \<noteq> 0 \<and> lk_cpu lk = Some me"

definition push_off :: "cpu \<Rightarrow> cpu" where
  "push_off c =
     (let old = intr_get (sstatus c);
          c1 = c\<lparr>sstatus := intr_off (sstatus c)\<rparr>;
          c2 = (if noff c1 = 0 then c1\<lparr>intena := old\<rparr> else c1)
      in c2\<lparr>noff := noff c2 + 1\<rparr>)"

definition pop_off :: "cpu \<Rightarrow> string + cpu" where
  "pop_off c =
     (if intr_get (sstatus c) then Inl ''pop_off - interruptible''
      else if noff c < 1 then Inl ''pop_off''
      else let c1 = c\<lparr>noff := noff c - 1\<rparr>
           in Inr (if noff c1 = 0 \<and> intena c1
                   then c1\<lparr>sstatus := intr_on (sstatus c1)\<rparr> else c1))"

definition upd_cpu :: "nat \<Rightarrow> cpu \<Rightarrow> 'l smp \<Rightarrow> 'l smp" where
  "upd_cpu me c s = s\<lparr>cpus := (cpus s)(me := c)\<rparr>"

definition upd_lock :: "'l \<Rightarrow> spinlock \<Rightarrow> 'l smp \<Rightarrow> 'l smp" where
  "upd_lock l lk s = s\<lparr>locks := (locks s)(l := lk)\<rparr>"

text \<open>
  acquire() and release() as one CPU runs them with no other CPU moving: the atomic swap on
  a lock that another CPU holds never sees 0, which is \<open>hang\<close>.
\<close>

definition acquire :: "nat \<Rightarrow> 'l \<Rightarrow> ('l smp, unit) kproc" where
  "acquire me l =
     bind (modify (\<lambda>s. upd_cpu me (push_off (cpus s me)) s)) (\<lambda>_.
     bind (gets (\<lambda>s. holding me (locks s l))) (\<lambda>h.
     if h then panic ''acquire'' else
     bind (gets (\<lambda>s. locked (locks s l))) (\<lambda>old.
     bind (modify (\<lambda>s. upd_lock l ((locks s l)\<lparr>locked := 1\<rparr>) s)) (\<lambda>_.
     if old \<noteq> 0 then hang else
     modify (\<lambda>s. upd_lock l ((locks s l)\<lparr>lk_cpu := Some me\<rparr>) s)))))"

definition release :: "nat \<Rightarrow> 'l \<Rightarrow> ('l smp, unit) kproc" where
  "release me l =
     bind (gets (\<lambda>s. holding me (locks s l))) (\<lambda>h.
     if \<not> h then panic ''release'' else
     bind (modify (\<lambda>s. upd_lock l ((locks s l)\<lparr>lk_cpu := None\<rparr>) s)) (\<lambda>_.
     bind (modify (\<lambda>s. upd_lock l ((locks s l)\<lparr>locked := 0\<rparr>) s)) (\<lambda>_.
     bind (gets (\<lambda>s. pop_off (cpus s me))) (\<lambda>r.
     case r of Inl e \<Rightarrow> panic e | Inr c \<Rightarrow> modify (upd_cpu me c)))))"

section \<open>Interrupt nesting\<close>

lemma SIE_exp: "SSTATUS_SIE = 2 ^ 1"
  by (simp add: SSTATUS_SIE_def)

lemma bit_SIE: "bit SSTATUS_SIE n \<longleftrightarrow> n = 1"
  by (simp only: SIE_exp bit_exp_iff) auto

lemma intr_get_bit: "intr_get w \<longleftrightarrow> bit w 1"
  by (simp only: intr_get_def SIE_exp and_exp_eq_0_iff_not_bit not_not)

lemma bit_intr_on: "n < 64 \<Longrightarrow> bit (intr_on w) n \<longleftrightarrow> bit w n \<or> n = 1"
  by (simp add: intr_on_def bit_or_iff bit_SIE)

lemma bit_intr_off: "n < 64 \<Longrightarrow> bit (intr_off w) n \<longleftrightarrow> bit w n \<and> n \<noteq> 1"
  by (simp add: intr_off_def bit_and_iff bit_not_iff bit_SIE)

lemma intr_get_off [simp]: "\<not> intr_get (intr_off w)"
  by (simp add: intr_get_bit bit_intr_off)

lemma intr_get_on [simp]: "intr_get (intr_on w)"
  by (simp add: intr_get_bit bit_intr_on)

lemma intr_on_off: "intr_get w \<Longrightarrow> intr_on (intr_off w) = w"
  by (rule bit_word_eqI) (auto simp: intr_get_bit bit_intr_on bit_intr_off)

lemma intr_off_id: "\<not> intr_get w \<Longrightarrow> intr_off w = w"
  by (rule bit_word_eqI) (auto simp: intr_get_bit bit_intr_off)

lemma push_off_noff [simp]: "noff (push_off c) = noff c + 1"
  by (simp add: push_off_def Let_def)

lemma push_off_off [simp]: "\<not> intr_get (sstatus (push_off c))"
  by (simp add: push_off_def Let_def)

text \<open>
  A pop_off() undoes a push_off(): the depth is back, the saved \<open>intena\<close> is unchanged
  inside a nesting, and at depth zero the interrupt-enable bit is what it was.
\<close>

lemma pop_push_off:
  assumes "0 \<le> noff c" and "0 < noff c \<longrightarrow> \<not> intr_get (sstatus c)"
  shows "\<exists>c'. pop_off (push_off c) = Inr c' \<and> noff c' = noff c \<and> sstatus c' = sstatus c
    \<and> (0 < noff c \<longrightarrow> intena c' = intena c)"
proof (cases "noff c = 0")
  case True
  then show ?thesis
    by (simp add: pop_off_def push_off_def Let_def intr_on_off intr_off_id)
next
  case False
  with assms have "\<not> intr_get (sstatus c)" and "0 < noff c" by auto
  then show ?thesis
    by (simp add: pop_off_def push_off_def Let_def intr_off_id)
qed

section \<open>Interleavings of several CPUs\<close>

text \<open>
  Where each CPU is: idle (outside spinlock.c), spinning on the atomic swap, past it but
  before the owner is recorded, inside release() after the owner was cleared, or before the
  final pop_off().  A panic leaves the CPU stopped with the message.
\<close>

datatype 'l pc =
    PcIdle
  | PcSpin 'l
  | PcGot 'l
  | PcRel 'l
  | PcPop
  | PcPanic string

type_synonym 'l conf = "(nat \<Rightarrow> 'l pc) \<times> 'l smp"

inductive smp_step :: "'l conf \<Rightarrow> 'l conf \<Rightarrow> bool" where
  acq_start: "pc i = PcIdle \<Longrightarrow> \<not> holding i (locks s l) \<Longrightarrow>
     smp_step (pc, s) (pc(i := PcSpin l), upd_cpu i (push_off (cpus s i)) s)"
| acq_panic: "pc i = PcIdle \<Longrightarrow> holding i (locks s l) \<Longrightarrow>
     smp_step (pc, s) (pc(i := PcPanic ''acquire''), upd_cpu i (push_off (cpus s i)) s)"
| acq_spin: "pc i = PcSpin l \<Longrightarrow> locked (locks s l) \<noteq> 0 \<Longrightarrow>
     smp_step (pc, s) (pc, upd_lock l ((locks s l)\<lparr>locked := 1\<rparr>) s)"
| acq_swap: "pc i = PcSpin l \<Longrightarrow> locked (locks s l) = 0 \<Longrightarrow>
     smp_step (pc, s) (pc(i := PcGot l), upd_lock l ((locks s l)\<lparr>locked := 1\<rparr>) s)"
| acq_record: "pc i = PcGot l \<Longrightarrow>
     smp_step (pc, s) (pc(i := PcIdle), upd_lock l ((locks s l)\<lparr>lk_cpu := Some i\<rparr>) s)"
| rel_panic: "pc i = PcIdle \<Longrightarrow> \<not> holding i (locks s l) \<Longrightarrow>
     smp_step (pc, s) (pc(i := PcPanic ''release''), s)"
| rel_start: "pc i = PcIdle \<Longrightarrow> holding i (locks s l) \<Longrightarrow>
     smp_step (pc, s) (pc(i := PcRel l), upd_lock l ((locks s l)\<lparr>lk_cpu := None\<rparr>) s)"
| rel_unlock: "pc i = PcRel l \<Longrightarrow>
     smp_step (pc, s) (pc(i := PcPop), upd_lock l ((locks s l)\<lparr>locked := 0\<rparr>) s)"
| rel_pop: "pc i = PcPop \<Longrightarrow> pop_off (cpus s i) = Inr c \<Longrightarrow>
     smp_step (pc, s) (pc(i := PcIdle), upd_cpu i c s)"
| rel_pop_panic: "pc i = PcPop \<Longrightarrow> pop_off (cpus s i) = Inl e \<Longrightarrow>
     smp_step (pc, s) (pc(i := PcPanic e), s)"

definition smp_init :: "'l smp \<Rightarrow> bool" where
  "smp_init s \<longleftrightarrow> (\<forall>l. locked (locks s l) = 0 \<and> lk_cpu (locks s l) = None) \<and> (\<forall>i. noff (cpus s i) = 0)"

inductive smp_reach :: "'l conf \<Rightarrow> bool" where
  start: "smp_init s \<Longrightarrow> smp_reach (\<lambda>_. PcIdle, s)"
| step: "smp_reach c \<Longrightarrow> smp_step c c' \<Longrightarrow> smp_reach c'"

text \<open>A CPU owns a lock from its successful swap to the store that releases the lock.\<close>

definition owns :: "'l conf \<Rightarrow> nat \<Rightarrow> 'l \<Rightarrow> bool" where
  "owns c i l \<longleftrightarrow> fst c i = PcGot l \<or> fst c i = PcRel l \<or> lk_cpu (locks (snd c) l) = Some i"

definition owned :: "'l conf \<Rightarrow> nat \<Rightarrow> 'l set" where
  "owned c i = {l. owns c i l}"

definition nesting :: "'l conf \<Rightarrow> nat \<Rightarrow> nat" where
  "nesting c i = card (owned c i) +
     (case fst c i of PcSpin _ \<Rightarrow> 1 | PcPop \<Rightarrow> 1 | _ \<Rightarrow> 0)"

definition stopped :: "'l conf \<Rightarrow> nat \<Rightarrow> bool" where
  "stopped c i \<longleftrightarrow> (\<exists>e. fst c i = PcPanic e)"

definition lock_inv :: "'l conf \<Rightarrow> bool" where
  "lock_inv c \<longleftrightarrow>
     (\<forall>l i j. owns c i l \<longrightarrow> owns c j l \<longrightarrow> i = j) \<and>
     (\<forall>l i. owns c i l \<longrightarrow> locked (locks (snd c) l) \<noteq> 0) \<and>
     (\<forall>l i. fst c i = PcGot l \<or> fst c i = PcRel l \<longrightarrow> lk_cpu (locks (snd c) l) = None)"

definition cpu_ok :: "'l conf \<Rightarrow> nat \<Rightarrow> bool" where
  "cpu_ok c i \<longleftrightarrow> finite (owned c i) \<and>
     (\<forall>e. fst c i = PcPanic e \<longrightarrow> e = ''acquire'' \<or> e = ''release'') \<and>
     (\<not> stopped c i \<longrightarrow> noff (cpus (snd c) i) = int (nesting c i) \<and>
        (0 < nesting c i \<longrightarrow> \<not> intr_get (sstatus (cpus (snd c) i))))"

lemmas smp_simps = owns_def upd_cpu_def upd_lock_def holding_def

subsection \<open>How a step changes the owner of a lock\<close>

lemma owns_upd_cpu [simp]: "owns (pc, upd_cpu i c s) j m = owns (pc, s) j m"
  by (simp add: smp_simps)

lemma owns_upd_locked [simp]: "owns (pc, upd_lock l ((locks s l)\<lparr>locked := v\<rparr>) s) j m = owns (pc, s) j m"
  by (simp add: smp_simps)

lemma owns_pc:
  assumes "\<And>l. pc i \<noteq> PcGot l" and "\<And>l. pc i \<noteq> PcRel l"
  shows "owns (pc(i := PcGot l), s) j m \<longleftrightarrow> owns (pc, s) j m \<or> j = i \<and> m = l"
    and "\<forall>l. p \<noteq> PcGot l \<and> p \<noteq> PcRel l \<Longrightarrow> owns (pc(i := p), s) j m = owns (pc, s) j m"
  using assms by (auto simp: smp_simps)

lemma owns_record:
  assumes "pc i = PcGot l" and "lk_cpu (locks s l) = None"
  shows "owns (pc(i := PcIdle), upd_lock l ((locks s l)\<lparr>lk_cpu := Some i\<rparr>) s) j m = owns (pc, s) j m"
  using assms by (auto simp: smp_simps)

lemma owns_rel_start:
  assumes "pc i = PcIdle" and "lk_cpu (locks s l) = Some i"
  shows "owns (pc(i := PcRel l), upd_lock l ((locks s l)\<lparr>lk_cpu := None\<rparr>) s) j m = owns (pc, s) j m"
  using assms by (auto simp: smp_simps)

lemma owns_rel_unlock:
  assumes "pc i = PcRel l" and "lk_cpu (locks s l) = None"
  shows "owns (pc(i := PcPop), s) j m \<longleftrightarrow> owns (pc, s) j m \<and> \<not> (j = i \<and> m = l)"
  using assms by (auto simp: smp_simps)

lemmas owns_step = owns_pc owns_record owns_rel_start owns_rel_unlock

lemma locks_upd [simp]:
  "locks (upd_cpu i c s) = locks s" "cpus (upd_lock l lk s) = cpus s"
  "cpus (upd_cpu i c s) = (cpus s)(i := c)" "locks (upd_lock l lk s) = (locks s)(l := lk)"
  by (simp_all add: upd_cpu_def upd_lock_def)

subsection \<open>The invariants\<close>

lemma lock_inv_init: "smp_init s \<Longrightarrow> lock_inv (\<lambda>_. PcIdle, s)"
  by (simp add: lock_inv_def smp_init_def owns_def)

lemma lock_invI:
  assumes "\<And>l i j. owns c i l \<Longrightarrow> owns c j l \<Longrightarrow> i = j"
    and "\<And>l i. owns c i l \<Longrightarrow> locked (locks (snd c) l) \<noteq> 0"
    and "\<And>l i. fst c i = PcGot l \<or> fst c i = PcRel l \<Longrightarrow> lk_cpu (locks (snd c) l) = None"
  shows "lock_inv c"
  using assms by (simp add: lock_inv_def)

lemma lock_invD:
  assumes "lock_inv c"
  shows "owns c i l \<Longrightarrow> owns c j l \<Longrightarrow> i = j"
    and "owns c i l \<Longrightarrow> locked (locks (snd c) l) \<noteq> 0"
    and "fst c i = PcGot l \<Longrightarrow> lk_cpu (locks (snd c) l) = None"
    and "fst c i = PcRel l \<Longrightarrow> lk_cpu (locks (snd c) l) = None"
  using assms by (auto simp: lock_inv_def)

lemma free_not_owned: "lock_inv (pc, s) \<Longrightarrow> locked (locks s l) = 0 \<Longrightarrow> \<not> owns (pc, s) i l"
  using lock_invD(2) by fastforce

lemma lk_cpu_owns: "lk_cpu (locks s l) = Some i \<Longrightarrow> owns (pc, s) i l"
  by (simp add: owns_def)


lemma lock_inv_step: "smp_step c c' \<Longrightarrow> lock_inv c \<Longrightarrow> lock_inv c'"
proof (induction rule: smp_step.induct)
  case (acq_start pc i s l)
  then show ?case by (auto simp: lock_inv_def owns_step)
next
  case (acq_panic pc i s l)
  then show ?case by (auto simp: lock_inv_def owns_step)
next
  case (acq_spin pc i l s)
  then show ?case by (auto simp: lock_inv_def)
next
  case (acq_swap pc i l s)
  note free = free_not_owned [OF acq_swap(3,2)]
  then have none: "lk_cpu (locks s l) = None"
    using lk_cpu_owns [of s l _ pc] by (cases "lk_cpu (locks s l)") auto
  have iff: "owns (pc(i := PcGot l), s) j m \<longleftrightarrow> owns (pc, s) j m \<or> j = i \<and> m = l" for j m
    by (rule owns_pc) (simp_all add: acq_swap)
  show ?case
    by (rule lock_invI)
      (use acq_swap free none lock_invD [OF acq_swap(3)] in \<open>auto simp: iff split: if_splits\<close>)
next
  case (acq_record pc i l s)
  note iff = owns_record [of pc i l s, OF acq_record(1) lock_invD(3) [OF acq_record(2), of i l, simplified, OF acq_record(1)]]
  have own: "owns (pc, s) i l" by (simp add: owns_def acq_record)
  have uniq: "j \<noteq> i \<Longrightarrow> pc j \<noteq> PcGot l \<and> pc j \<noteq> PcRel l" for j
    using lock_invD(1) [OF acq_record(2) own, of j] by (auto simp: owns_def)
  show ?case
    by (rule lock_invI)
      (use acq_record own uniq lock_invD [OF acq_record(2)] in \<open>auto simp: iff split: if_splits\<close>)
next
  case (rel_panic pc i s l)
  then show ?case by (auto simp: lock_inv_def owns_step)
next
  case (rel_start pc i s l)
  then have iff: "owns (pc(i := PcRel l), upd_lock l ((locks s l)\<lparr>lk_cpu := None\<rparr>) s) j m = owns (pc, s) j m" for j m
    by (intro owns_rel_start) (simp_all add: holding_def)
  show ?case
    by (rule lock_invI)
      (use rel_start lock_invD [OF rel_start(3)] in \<open>auto simp: iff holding_def split: if_splits\<close>)
next
  case (rel_unlock pc i l s)
  have none: "lk_cpu (locks s l) = None"
    using lock_invD(4) [OF rel_unlock(2), of i l] rel_unlock(1) by simp
  note iff = owns_rel_unlock [of pc i l s, OF rel_unlock(1) none]
  have own: "owns (pc, s) i l" by (simp add: owns_def rel_unlock)
  show ?case
    by (rule lock_invI)
      (use rel_unlock none own lock_invD [OF rel_unlock(2)] in \<open>auto simp: iff split: if_splits\<close>)
next
  case (rel_pop pc i s c)
  then show ?case by (auto simp: lock_inv_def owns_step)
next
  case (rel_pop_panic pc i s e)
  then show ?case by (auto simp: lock_inv_def owns_step)
qed


text \<open>
  The nesting depth \<open>noff\<close> of a running CPU is the number of locks it owns, plus one while
  it spins or is about to run the final pop_off(); interrupts are off while it is positive.
\<close>

lemma cpu_ok_init: "smp_init s \<Longrightarrow> cpu_ok (\<lambda>_. PcIdle, s) i"
  by (simp add: cpu_ok_def smp_init_def owned_def owns_def nesting_def)

lemma cpu_ok_other:
  assumes "cpu_ok (pc, s) j" and "pc' j = pc j" and "cpus s' j = cpus s j"
    and "owned (pc', s') j = owned (pc, s) j"
  shows "cpu_ok (pc', s') j"
  using assms by (simp add: cpu_ok_def stopped_def nesting_def)

lemma cpu_ok_stop:
  assumes "cpu_ok (pc, s) i" and "owned (pc(i := PcPanic e), s') i = owned (pc, s) i"
    and "e = ''acquire'' \<or> e = ''release''"
  shows "cpu_ok (pc(i := PcPanic e), s') i"
  using assms by (simp add: cpu_ok_def stopped_def)

lemma cpu_ok_noff:
  assumes "cpu_ok (pc, s) i" and "\<And>e. pc i \<noteq> PcPanic e"
  shows "noff (cpus s i) = int (nesting (pc, s) i)"
    and "0 < nesting (pc, s) i \<Longrightarrow> \<not> intr_get (sstatus (cpus s i))"
  using assms by (auto simp: cpu_ok_def stopped_def)

lemma pop_off_ok:
  assumes "\<not> intr_get (sstatus c)" and "0 < noff c"
  shows "\<exists>c'. pop_off c = Inr c' \<and> noff c' = noff c - 1 \<and> (1 < noff c \<longrightarrow> sstatus c' = sstatus c)"
  using assms by (auto simp: pop_off_def Let_def)

text \<open>
  Each kind of step at CPU \<open>i\<close>: what becomes of the owned sets, hence of the depth.
\<close>

lemma cpu_ok_same:
  assumes "\<And>k. owned (pc(i := p), s') k = owned (pc, s) k" and "\<And>k. cpu_ok (pc, s) k"
    and "\<And>k. k \<noteq> i \<Longrightarrow> cpus s' k = cpus s k" and "cpu_ok (pc(i := p), s') i"
  shows "cpu_ok (pc(i := p), s') j"
  by (cases "j = i") (auto intro: cpu_ok_other [of pc s] simp: assms)

lemma owned_acq_swap:
  assumes "pc i = PcSpin l"
  shows "owned (pc(i := PcGot l), upd_lock l ((locks s l)\<lparr>locked := v\<rparr>) s) k
    = (if k = i then insert l (owned (pc, s) k) else owned (pc, s) k)"
proof -
  have "owns (pc(i := PcGot l), s) k m \<longleftrightarrow> owns (pc, s) k m \<or> k = i \<and> m = l" for k m
    by (rule owns_pc) (simp_all add: assms)
  then show ?thesis by (auto simp: owned_def)
qed

lemma owned_rel_unlock:
  assumes "pc i = PcRel l" and "lk_cpu (locks s l) = None"
  shows "owned (pc(i := PcPop), upd_lock l ((locks s l)\<lparr>locked := v\<rparr>) s) k
    = (if k = i then owned (pc, s) k - {l} else owned (pc, s) k)"
  using owns_rel_unlock [of pc i l s, OF assms] by (auto simp: owned_def)

lemma cpu_ok_acq_swap:
  assumes "pc i = PcSpin l" and "l \<notin> owned (pc, s) i" and "\<And>k. cpu_ok (pc, s) k"
  shows "cpu_ok (pc(i := PcGot l), upd_lock l ((locks s l)\<lparr>locked := v\<rparr>) s) j"
proof (cases "j = i")
  case True
  with assms(1,2) assms(3) [of i] show ?thesis
    by (simp add: cpu_ok_def owned_acq_swap stopped_def nesting_def)
qed (auto intro: cpu_ok_other [OF assms(3)] simp: owned_acq_swap [of pc, OF assms(1)])

lemma cpu_ok_rel_unlock:
  assumes "pc i = PcRel l" and "lk_cpu (locks s l) = None" and "\<And>k. cpu_ok (pc, s) k"
  shows "cpu_ok (pc(i := PcPop), upd_lock l ((locks s l)\<lparr>locked := v\<rparr>) s) j"
proof (cases "j = i")
  case True
  have "l \<in> owned (pc, s) i" by (simp add: owned_def owns_def assms)
  then have "card (owned (pc, s) i) = Suc (card (owned (pc, s) i - {l}))"
    using assms(3) [of i] by (metis card_Suc_Diff1 cpu_ok_def)
  with True assms(1) assms(3) [of i] show ?thesis
    by (simp add: cpu_ok_def owned_rel_unlock [of pc, OF assms(1,2)] stopped_def nesting_def)
qed (auto intro: cpu_ok_other [OF assms(3)] simp: owned_rel_unlock [of pc, OF assms(1,2)])

lemma cpu_ok_pop:
  assumes "cpu_ok (pc, s) i" and "pc i = PcPop"
  obtains c where "pop_off (cpus s i) = Inr c" and "noff c = int (card (owned (pc, s) i))"
    and "card (owned (pc, s) i) \<noteq> 0 \<Longrightarrow> \<not> intr_get (sstatus c)"
proof -
  have n: "nesting (pc, s) i = Suc (card (owned (pc, s) i))"
    using assms(2) by (simp add: nesting_def)
  with cpu_ok_noff [OF assms(1)] assms(2)
  have off: "\<not> intr_get (sstatus (cpus s i))" "0 < noff (cpus s i)" and noff: "noff (cpus s i) = int (nesting (pc, s) i)"
    by auto
  from pop_off_ok [OF off] obtain c where c: "pop_off (cpus s i) = Inr c" "noff c = noff (cpus s i) - 1"
      "1 < noff (cpus s i) \<longrightarrow> sstatus c = sstatus (cpus s i)" by blast
  show thesis by (rule that [OF c(1)]) (use c n noff off in auto)
qed

lemma cpu_ok_step:
  "smp_step c c' \<Longrightarrow> lock_inv c \<Longrightarrow> (\<And>i. cpu_ok c i) \<Longrightarrow> cpu_ok c' j"
proof (induction rule: smp_step.induct)
  case (acq_start pc i s l)
  have own: "owned (pc(i := PcSpin l), upd_cpu i (push_off (cpus s i)) s) k = owned (pc, s) k" for k
    using acq_start(1) by (auto simp: owned_def owns_step)
  show ?case
    by (rule cpu_ok_same [OF own acq_start(4)])
      (use acq_start(1) acq_start(4) [of i] in
        \<open>simp_all add: cpu_ok_def own stopped_def nesting_def push_off_noff push_off_off\<close>)
next
  case (acq_panic pc i s l)
  have own: "owned (pc(i := PcPanic ''acquire''), upd_cpu i (push_off (cpus s i)) s) k = owned (pc, s) k" for k
    using acq_panic(1) by (auto simp: owned_def owns_step)
  show ?case
    by (rule cpu_ok_same [OF own acq_panic(4)]) (simp_all add: cpu_ok_stop [OF acq_panic(4) own])
next
  case (acq_spin pc i l s)
  show ?case by (rule cpu_ok_other [OF acq_spin(4)]) (simp_all add: owned_def)
next
  case (acq_swap pc i l s)
  then show ?case
    using free_not_owned [OF acq_swap(3,2)] by (intro cpu_ok_acq_swap) (simp_all add: owned_def)
next
  case (acq_record pc i l s)
  have "lk_cpu (locks s l) = None"
    using lock_invD(3) [OF acq_record(2), of i l] acq_record(1) by simp
  then have own: "owned (pc(i := PcIdle), upd_lock l ((locks s l)\<lparr>lk_cpu := Some i\<rparr>) s) k = owned (pc, s) k" for k
    using owns_record [of pc i l s] acq_record(1) by (simp add: owned_def)
  show ?case
    by (rule cpu_ok_same [OF own acq_record(3)])
      (use acq_record(1) acq_record(3) [of i] in \<open>simp_all add: cpu_ok_def own stopped_def nesting_def\<close>)
next
  case (rel_panic pc i s l)
  have own: "owned (pc(i := PcPanic ''release''), s) k = owned (pc, s) k" for k
    using rel_panic(1) by (auto simp: owned_def owns_step)
  show ?case
    by (rule cpu_ok_same [OF own rel_panic(4)]) (simp_all add: cpu_ok_stop [OF rel_panic(4) own])
next
  case (rel_start pc i s l)
  then have own: "owned (pc(i := PcRel l), upd_lock l ((locks s l)\<lparr>lk_cpu := None\<rparr>) s) k = owned (pc, s) k" for k
    using owns_rel_start [of pc i s l] by (simp add: owned_def holding_def)
  show ?case
    by (rule cpu_ok_same [OF own rel_start(4)])
      (use rel_start(1) rel_start(4) [of i] in \<open>simp_all add: cpu_ok_def own stopped_def nesting_def\<close>)
next
  case (rel_unlock pc i l s)
  then show ?case using lock_invD(4) [OF rel_unlock(2), of i l] by (intro cpu_ok_rel_unlock) simp_all
next
  case (rel_pop pc i s c)
  have own: "owned (pc(i := PcIdle), upd_cpu i c s) k = owned (pc, s) k" for k
    using rel_pop(1) by (auto simp: owned_def owns_step)
  show ?case
    by (rule cpu_ok_same [OF own rel_pop(4)], simp, rule cpu_ok_pop [OF rel_pop(4) rel_pop(1)])
      (use rel_pop(2) rel_pop(4) [of i] in \<open>simp add: cpu_ok_def own stopped_def nesting_def\<close>)
next
  case (rel_pop_panic pc i s e)
  then show ?case using cpu_ok_pop [OF rel_pop_panic(4), of i] by fastforce
qed

lemma smp_reach_inv: "smp_reach c \<Longrightarrow> lock_inv c \<and> (\<forall>i. cpu_ok c i)"
  by (induction rule: smp_reach.induct)
    (auto intro: lock_inv_init cpu_ok_init lock_inv_step cpu_ok_step)


section \<open>The functions refine the steps\<close>

lemma acquire_cases:
  "acquire me l s =
     (let t = upd_cpu me (push_off (cpus s me)) s in
      if holding me (locks s l) then Panic ''acquire'' t
      else if locked (locks s l) \<noteq> 0 then Hang (upd_lock l ((locks s l)\<lparr>locked := 1\<rparr>) t)
      else Ret () (upd_lock l ((locks s l)\<lparr>locked := 1, lk_cpu := Some me\<rparr>) t))"
  by (simp add: acquire_def kmon Let_def upd_lock_def)

lemma release_cases:
  "release me l s =
     (if \<not> holding me (locks s l) then Panic ''release'' s
      else let t = upd_lock l ((locks s l)\<lparr>lk_cpu := None, locked := 0\<rparr>) s in
        (case pop_off (cpus s me) of Inl e \<Rightarrow> Panic e t | Inr c \<Rightarrow> Ret () (upd_cpu me c t)))"
  by (simp add: release_def kmon Let_def upd_lock_def split: sum.splits)

lemma acquire_steps:
  assumes "pc me = PcIdle" and "acquire me l s = Ret () t"
  shows "smp_step\<^sup>*\<^sup>* (pc, s) (pc, t)"
proof -
  let ?s1 = "upd_cpu me (push_off (cpus s me)) s"
  let ?s2 = "upd_lock l ((locks ?s1 l)\<lparr>locked := 1\<rparr>) ?s1"
  from assms(2) have h: "\<not> holding me (locks s l)" "locked (locks s l) = 0"
    and t: "t = upd_lock l ((locks ?s2 l)\<lparr>lk_cpu := Some me\<rparr>) ?s2"
    by (simp_all add: acquire_cases Let_def upd_lock_def split: if_splits)
  have "smp_step (pc, s) (pc(me := PcSpin l), ?s1)"
    by (rule acq_start) (use assms h in auto)
  moreover have "smp_step (pc(me := PcSpin l), ?s1) ((pc(me := PcSpin l))(me := PcGot l), ?s2)"
    by (rule acq_swap) (simp_all add: h)
  moreover have "smp_step (pc(me := PcGot l), ?s2) ((pc(me := PcGot l))(me := PcIdle), t)"
    unfolding t by (rule acq_record) simp
  ultimately show ?thesis using assms(1)
    by (simp add: fun_upd_idem)
qed

lemma release_steps:
  assumes "pc me = PcIdle" and "release me l s = Ret () t"
  shows "smp_step\<^sup>*\<^sup>* (pc, s) (pc, t)"
proof -
  let ?s1 = "upd_lock l ((locks s l)\<lparr>lk_cpu := None\<rparr>) s"
  let ?s2 = "upd_lock l ((locks ?s1 l)\<lparr>locked := 0\<rparr>) ?s1"
  from assms(2) obtain c where h: "holding me (locks s l)" and c: "pop_off (cpus s me) = Inr c"
    and t: "t = upd_cpu me c ?s2"
    by (auto simp: release_cases Let_def upd_lock_def split: if_splits sum.splits)
  have "smp_step (pc, s) (pc(me := PcRel l), ?s1)"
    by (rule rel_start) (use assms h in auto)
  moreover have "smp_step (pc(me := PcRel l), ?s1) ((pc(me := PcRel l))(me := PcPop), ?s2)"
    by (rule rel_unlock) simp
  moreover have "smp_step (pc(me := PcPop), ?s2) ((pc(me := PcPop))(me := PcIdle), t)"
    unfolding t by (rule rel_pop) (simp_all add: c)
  ultimately show ?thesis using assms(1)
    by (simp add: fun_upd_idem)
qed

section \<open>The interface of a spin lock\<close>

text \<open>
  What the kernel code relies on: the set of locks the running CPU holds, that a free lock
  can be acquired, that acquiring a lock twice and releasing a lock not held are panics, and
  that a body bracketed by acquire and release leaves the set as it was.
\<close>

locale spin_interface =
  fixes acq :: "'l \<Rightarrow> ('s, unit) kproc" and rel :: "'l \<Rightarrow> ('s, unit) kproc"
    and held :: "'s \<Rightarrow> 'l set" and free :: "'l \<Rightarrow> 's \<Rightarrow> bool" and ok :: "'s \<Rightarrow> bool"
  assumes acq_free: "ok s \<Longrightarrow> free l s \<Longrightarrow> wp (acq l) (\<lambda>_ t. ok t \<and> held t = insert l (held s)) s"
    and acq_held: "ok s \<Longrightarrow> l \<in> held s \<Longrightarrow> \<exists>t. acq l s = Panic ''acquire'' t"
    and rel_held: "ok s \<Longrightarrow> l \<in> held s \<Longrightarrow> wp (rel l) (\<lambda>_ t. ok t \<and> held t = held s - {l}) s"
    and rel_free: "ok s \<Longrightarrow> l \<notin> held s \<Longrightarrow> \<exists>t. rel l s = Panic ''release'' t"
begin

lemma critical_section:
  assumes "ok s" and "free l s" and "l \<notin> held s"
    and "\<And>t. ok t \<Longrightarrow> held t = insert l (held s) \<Longrightarrow> wp m (\<lambda>_ u. ok u \<and> held u = held t) t"
  shows "wp (bind (acq l) (\<lambda>_. bind m (\<lambda>x. bind (rel l) (\<lambda>_. return x)))) (\<lambda>_ t. ok t \<and> held t = held s) s"
proof -
  have body: "wp (bind m (\<lambda>x. bind (rel l) (\<lambda>_. return x))) (\<lambda>_ u. ok u \<and> held u = held s) t"
    if "ok t \<and> held t = insert l (held s)" for t
    unfolding wp_bind wp_return
    by (rule wp_mono [OF assms(4)], use that in simp, use that in simp,
        rule wp_mono [OF rel_held]) (use that assms(3) in auto)
  show ?thesis
    unfolding wp_bind [of "acq l"] by (rule wp_mono [OF acq_free [OF assms(1,2)]]) (rule body)
qed

lemma double_acquire:
  assumes "ok s" and "free l s"
  shows "\<exists>t. bind (acq l) (\<lambda>_. acq l) s = Panic ''acquire'' t"
proof -
  obtain t where "acq l s = Ret () t" "ok t" "l \<in> held t"
    using acq_free [OF assms] by (auto simp: wp_def)
  then show ?thesis using acq_held [of t l] by (auto simp: kmon)
qed

end

text \<open>The concrete locks satisfy the interface, for the CPU \<open>me\<close>.\<close>

definition held_by :: "nat \<Rightarrow> 'l smp \<Rightarrow> 'l set" where
  "held_by me s = {l. holding me (locks s l)}"

definition cpu_wf :: "nat \<Rightarrow> 'l smp \<Rightarrow> bool" where
  "cpu_wf me s \<longleftrightarrow> finite (held_by me s) \<and> int (card (held_by me s)) \<le> noff (cpus s me) \<and>
     (0 < noff (cpus s me) \<longrightarrow> \<not> intr_get (sstatus (cpus s me)))"

lemma held_by_upd_cpu [simp]: "held_by me (upd_cpu i c s) = held_by me s"
  by (simp add: held_by_def)

lemma held_by_take [simp]:
  "held_by me (upd_lock l ((locks s l)\<lparr>locked := 1, lk_cpu := Some me\<rparr>) s) = insert l (held_by me s)"
  by (auto simp: held_by_def holding_def)

lemma held_by_drop [simp]:
  "held_by me (upd_lock l ((locks s l)\<lparr>lk_cpu := None, locked := 0\<rparr>) s) = held_by me s - {l}"
  by (auto simp: held_by_def holding_def)

lemma acquire_ok:
  assumes "cpu_wf me s" and "locked (locks s l) = 0"
  shows "wp (acquire me l) (\<lambda>_ t. cpu_wf me t \<and> held_by me t = insert l (held_by me s)) s"
proof -
  let ?t = "upd_lock l ((locks s l)\<lparr>locked := 1, lk_cpu := Some me\<rparr>) (upd_cpu me (push_off (cpus s me)) s)"
  have "acquire me l s = Ret () ?t"
    using assms(2) by (simp add: acquire_cases Let_def holding_def)
  moreover have h: "held_by me ?t = insert l (held_by me s)"
    using held_by_take [of me l "upd_cpu me (push_off (cpus s me)) s"] by simp
  moreover have "cpu_wf me ?t"
    using assms(1) card_insert_le_m1 [of "Suc (card (held_by me s))" "held_by me s" l]
    by (simp add: cpu_wf_def h push_off_noff push_off_off)
  ultimately show ?thesis by (simp add: wp_def)
qed

lemma release_ok:
  assumes "cpu_wf me s" and "l \<in> held_by me s"
  shows "wp (release me l) (\<lambda>_ t. cpu_wf me t \<and> held_by me t = held_by me s - {l}) s"
proof -
  have card: "card (held_by me s) = Suc (card (held_by me s - {l}))"
    using assms by (metis card_Suc_Diff1 cpu_wf_def)
  with assms(1) have off: "\<not> intr_get (sstatus (cpus s me))" "0 < noff (cpus s me)"
    by (auto simp: cpu_wf_def)
  from pop_off_ok [OF off] obtain c where c: "pop_off (cpus s me) = Inr c" "noff c = noff (cpus s me) - 1"
      "1 < noff (cpus s me) \<longrightarrow> sstatus c = sstatus (cpus s me)" by blast
  let ?t = "upd_cpu me c (upd_lock l ((locks s l)\<lparr>lk_cpu := None, locked := 0\<rparr>) s)"
  have "release me l s = Ret () ?t"
    using assms(2) c(1) by (simp add: release_cases held_by_def Let_def)
  moreover have "cpu_wf me ?t"
    using assms(1) c card off by (auto simp: cpu_wf_def)
  ultimately show ?thesis by (simp add: wp_def)
qed

interpretation smp_lock: spin_interface "acquire me" "release me" "held_by me"
    "\<lambda>l s. locked (locks s l) = 0" "cpu_wf me" for me
proof (unfold_locales, goal_cases)
  case (1 s l) then show ?case by (rule acquire_ok)
next
  case (2 s l) then show ?case by (simp add: acquire_cases Let_def held_by_def)
next
  case (3 s l) then show ?case by (rule release_ok)
next
  case (4 s l) then show ?case by (simp add: release_cases held_by_def)
qed


section \<open>Properties\<close>

lemma owns_nesting: "cpu_ok c i \<Longrightarrow> owns c i l \<Longrightarrow> 0 < nesting c i"
  by (auto simp: cpu_ok_def nesting_def owned_def card_gt_0_iff)

text \<open>
  Three configurations of two CPUs and one lock for the witnesses: at boot, after the push_off()
  of acquire() on CPU 0, and after its atomic swap.
\<close>

definition boot_smp :: "unit smp" where
  "boot_smp = \<lparr>cpus = (\<lambda>_. \<lparr>noff = 0, intena = False, sstatus = 2\<rparr>), locks = (\<lambda>_. initlock ''lk'')\<rparr>"

definition spin_smp :: "unit smp" where
  "spin_smp = upd_cpu 0 (push_off (cpus boot_smp 0)) boot_smp"

definition got_conf :: "unit conf" where
  "got_conf = ((\<lambda>_. PcIdle)(0 := PcGot ()), upd_lock () ((locks spin_smp ())\<lparr>locked := 1\<rparr>) spin_smp)"

lemma got_conf_reach: "smp_reach got_conf"
proof -
  have "smp_reach (\<lambda>_. PcIdle, boot_smp)"
    by (rule smp_reach.start) (simp add: smp_init_def boot_smp_def initlock_def)
  then have "smp_reach ((\<lambda>_. PcIdle)(0 := PcSpin ()), spin_smp)"
    unfolding spin_smp_def
    by (rule smp_reach.step) (rule acq_start, simp_all add: boot_smp_def initlock_def holding_def)
  then have "smp_reach (((\<lambda>_. PcIdle)(0 := PcSpin ()))(0 := PcGot ()),
      upd_lock () ((locks spin_smp ())\<lparr>locked := 1\<rparr>) spin_smp)"
    by (rule smp_reach.step) (rule acq_swap, simp_all add: spin_smp_def boot_smp_def initlock_def)
  then show ?thesis by (simp add: got_conf_def)
qed

text \<open>
  C2.  Mutual exclusion of spin locks: in every interleaving of acquire() and release() on any
  number of CPUs, at most one CPU is between the atomic swap that took a lock and the store that
  frees it.
\<close>

theorem spin_mutual_exclusion:
  assumes "smp_reach c" and "owns c i l" and "owns c j l"
  shows "i = j"
  using smp_reach_inv [OF assms(1)] assms(2,3) by (blast dest: lock_invD(1))

theorem spin_mutual_exclusion_witness:
  "smp_reach got_conf \<and> owns got_conf 0 () \<and> \<not> owns got_conf 1 ()"
  using spin_mutual_exclusion [OF got_conf_reach, of 0 "()" 1] got_conf_reach
  by (auto simp: owns_def got_conf_def)

text \<open>
  C8.  Interrupt discipline: on a CPU that has not panicked, the depth \<open>noff\<close> counts the locks
  it owns plus a pending push_off(), interrupts are off as long as it owns a lock, and neither
  panic of pop_off() is ever reached from acquire() and release().
\<close>

theorem spin_interrupts_off:
  assumes "smp_reach c"
  shows "(\<not> stopped c i \<longrightarrow> noff (cpus (snd c) i) = int (nesting c i)) \<and>
    (\<not> stopped c i \<and> owns c i l \<longrightarrow> \<not> intr_get (sstatus (cpus (snd c) i))) \<and>
    (fst c i = PcPanic e \<longrightarrow> e = ''acquire'' \<or> e = ''release'')"
  using smp_reach_inv [OF assms] owns_nesting [of c i l] by (auto simp: cpu_ok_def)

theorem spin_interrupts_off_witness:
  "smp_reach got_conf \<and> noff (cpus (snd got_conf) 0) = int (nesting got_conf 0) \<and>
   \<not> intr_get (sstatus (cpus (snd got_conf) 0))"
  using spin_interrupts_off [OF got_conf_reach, of 0 "()"] got_conf_reach
  by (simp add: stopped_def owns_def got_conf_def)



end
