(* ===== verification/Machine.thy ===== *)
theory Machine
  imports Spinlock
begin

text \<open>
  The part of the kernel state every component shares, and the scheduling half of
  kernel/proc.c with kernel/sleeplock.c: sched, yield, sleep, wakeup, kill, the per-process
  flags and sleep locks.

  A kernel function is run by one process on one CPU.  The locks that CPU holds are the set
  \<open>held\<close>: by the interrupt discipline of the theory Spinlock its size is the nesting
  depth \<open>noff\<close>, and interrupts are enabled exactly when it is empty.  Pointers into the
  kernel's tables are indices; a pointer that may be null is an option.
\<close>

section \<open>Data\<close>

datatype slid = SlBuf nat | SlInode nat

datatype lockid =
    LkProc nat | LkPid | LkWait | LkKmem | LkBcache | LkLog | LkItable | LkFtable
  | LkPipe addr | LkTicks | LkCons | LkUart | LkPr | LkDisk | LkSleep slid

datatype chan =
    ChProc nat | ChSleep slid | ChLog | ChPipeRead addr | ChPipeWrite addr
  | ChTicks | ChConsR | ChUartR | ChDiskFree | ChBuf nat

datatype procstate = UNUSED | USED | SLEEPING | RUNNABLE | RUNNING | ZOMBIE

record kcontext =
  ctx_ra :: uint64
  ctx_sp :: uint64
  ctx_s :: "uint64 list"

record proc =
  p_state :: procstate
  p_chan :: "chan option"
  p_killed :: int
  p_xstate :: int
  p_pid :: int
  p_parent :: "nat option"
  p_kstack :: addr
  p_sz :: uint64
  p_pagetable :: addr
  p_trapframe :: addr
  p_context :: kcontext
  p_ofile :: "nat option list"
  p_cwd :: "nat option"
  p_name :: "byte list"

record sleeplock =
  sl_locked :: uint
  sl_name :: string
  sl_pid :: int

record machine =
  held :: "lockid set"
  curproc :: "nat option"
  procs :: "nat \<Rightarrow> proc"
  slocks :: "slid \<Rightarrow> sleeplock"
  initproc :: "nat option"
  nextpid :: int
  ticks :: uint
  cons_out :: "byte list"

definition NPROC :: nat where "NPROC = 64"
definition NOFILE :: nat where "NOFILE = 16"

definition upd_proc :: "nat \<Rightarrow> (proc \<Rightarrow> proc) \<Rightarrow> 'a machine_scheme \<Rightarrow> 'a machine_scheme" where
  "upd_proc p f s = s\<lparr>procs := (procs s)(p := f (procs s p))\<rparr>"

definition upd_slock :: "slid \<Rightarrow> (sleeplock \<Rightarrow> sleeplock) \<Rightarrow> 'a machine_scheme \<Rightarrow> 'a machine_scheme" where
  "upd_slock l f s = s\<lparr>slocks := (slocks s)(l := f (slocks s l))\<rparr>"

section \<open>Spin locks as the running CPU sees them\<close>

definition acq :: "lockid \<Rightarrow> ('a machine_scheme, unit) kproc" where
  "acq l = bind (gets (\<lambda>s. l \<in> held s)) (\<lambda>h.
     if h then panic ''acquire'' else modify (\<lambda>s. s\<lparr>held := insert l (held s)\<rparr>))"

definition rel :: "lockid \<Rightarrow> ('a machine_scheme, unit) kproc" where
  "rel l = bind (gets (\<lambda>s. l \<in> held s)) (\<lambda>h.
     if \<not> h then panic ''release'' else modify (\<lambda>s. s\<lparr>held := held s - {l}\<rparr>))"

text \<open>initlock(): a lock that has just been initialised is not held.\<close>

definition initlk :: "lockid \<Rightarrow> ('a machine_scheme, unit) kproc" where
  "initlk l = modify (\<lambda>s. s\<lparr>held := held s - {l}\<rparr>)"

definition cpu_noff :: "'a machine_scheme \<Rightarrow> nat" where
  "cpu_noff s = card (held s)"

definition cpu_intr_get :: "'a machine_scheme \<Rightarrow> bool" where
  "cpu_intr_get s \<longleftrightarrow> held s = {}"

lemma acq_cases [kmon]:
  "acq l s = (if l \<in> held s then Panic ''acquire'' s else Ret () (s\<lparr>held := insert l (held s)\<rparr>))"
  by (simp add: acq_def kmon)

lemma rel_cases [kmon]:
  "rel l s = (if l \<in> held s then Ret () (s\<lparr>held := held s - {l}\<rparr>) else Panic ''release'' s)"
  by (simp add: rel_def kmon)

lemma wp_acq [wp_simps]: "wp (acq l) Q s \<longleftrightarrow> l \<notin> held s \<and> Q () (s\<lparr>held := insert l (held s)\<rparr>)"
  by (simp add: wp_def kmon)

lemma wp_rel [wp_simps]: "wp (rel l) Q s \<longleftrightarrow> l \<in> held s \<and> Q () (s\<lparr>held := held s - {l}\<rparr>)"
  by (simp add: wp_def kmon)

interpretation machine_lock: spin_interface acq rel held "\<lambda>l s. l \<notin> held s" "\<lambda>s. finite (held s)"
  by unfold_locales (simp_all add: wp_simps kmon)

section \<open>The current process and sched()\<close>

definition myproc :: "('a machine_scheme, nat option) kproc" where
  "myproc = gets curproc"

definition myprocp :: "('a machine_scheme, nat) kproc" where
  "myprocp = bind myproc deref"

definition swtch :: "('a machine_scheme, unit) kproc" where
  "swtch = (\<lambda>s. Swtch s)"

definition sched :: "('a machine_scheme, unit) kproc" where
  "sched =
     bind myprocp (\<lambda>p.
     bind (gets (\<lambda>s. LkProc p \<in> held s)) (\<lambda>h.
     if \<not> h then panic ''sched p->lock'' else
     bind (gets cpu_noff) (\<lambda>n.
     if n \<noteq> 1 then panic ''sched locks'' else
     bind (gets (\<lambda>s. p_state (procs s p))) (\<lambda>st.
     if st = RUNNING then panic ''sched running'' else
     bind (gets cpu_intr_get) (\<lambda>i.
     if i then panic ''sched interruptible'' else swtch)))))"

definition yield :: "('a machine_scheme, unit) kproc" where
  "yield =
     bind myprocp (\<lambda>p.
     bind (acq (LkProc p)) (\<lambda>_.
     bind (modify (upd_proc p (\<lambda>q. q\<lparr>p_state := RUNNABLE\<rparr>))) (\<lambda>_.
     bind sched (\<lambda>_.
     rel (LkProc p)))))"

text \<open>
  sleep() is its part before the switch, the switch, and \<open>sleep_resume\<close>, which the process
  runs when the scheduler switches back to it.
\<close>

definition sleep_enter :: "nat \<Rightarrow> chan \<Rightarrow> lockid \<Rightarrow> ('a machine_scheme, unit) kproc" where
  "sleep_enter p ch lk =
     bind (acq (LkProc p)) (\<lambda>_.
     bind (rel lk) (\<lambda>_.
     modify (upd_proc p (\<lambda>q. q\<lparr>p_chan := Some ch, p_state := SLEEPING\<rparr>))))"

definition sleep_resume :: "nat \<Rightarrow> lockid \<Rightarrow> ('a machine_scheme, unit) kproc" where
  "sleep_resume p lk =
     bind (modify (upd_proc p (\<lambda>q. q\<lparr>p_chan := None\<rparr>))) (\<lambda>_.
     bind (rel (LkProc p)) (\<lambda>_.
     acq lk))"

definition sleep :: "chan \<Rightarrow> lockid \<Rightarrow> ('a machine_scheme, unit) kproc" where
  "sleep ch lk =
     bind myprocp (\<lambda>p.
     bind (sleep_enter p ch lk) (\<lambda>_.
     bind sched (\<lambda>_.
     sleep_resume p lk)))"

definition wake_one :: "chan \<Rightarrow> nat \<Rightarrow> ('a machine_scheme, unit) kproc" where
  "wake_one ch p =
     bind (acq (LkProc p)) (\<lambda>_.
     bind (gets (\<lambda>s. procs s p)) (\<lambda>q.
     bind (whenM (p_state q = SLEEPING \<and> p_chan q = Some ch)
        (modify (upd_proc p (\<lambda>q. q\<lparr>p_state := RUNNABLE\<rparr>)))) (\<lambda>_.
     rel (LkProc p))))"

definition wakeup_iter :: "chan \<Rightarrow> nat \<Rightarrow> ('a machine_scheme, unit) kproc" where
  "wakeup_iter ch p = bind myproc (\<lambda>me. whenM (Some p \<noteq> me) (wake_one ch p))"

definition wakeup :: "chan \<Rightarrow> ('a machine_scheme, unit) kproc" where
  "wakeup ch = forM [0..<NPROC] (wakeup_iter ch)"

fun kill_loop :: "int \<Rightarrow> nat list \<Rightarrow> ('a machine_scheme, int) kproc" where
  "kill_loop pid [] = return (-1)"
| "kill_loop pid (p # ps) =
     bind (acq (LkProc p)) (\<lambda>_.
     bind (gets (\<lambda>s. p_pid (procs s p))) (\<lambda>i.
     if i = pid then
       bind (modify (upd_proc p (\<lambda>q. q\<lparr>p_killed := 1\<rparr>))) (\<lambda>_.
       bind (gets (\<lambda>s. p_state (procs s p))) (\<lambda>st.
       bind (whenM (st = SLEEPING) (modify (upd_proc p (\<lambda>q. q\<lparr>p_state := RUNNABLE\<rparr>)))) (\<lambda>_.
       bind (rel (LkProc p)) (\<lambda>_. return 0))))
     else bind (rel (LkProc p)) (\<lambda>_. kill_loop pid ps)))"

definition kill :: "int \<Rightarrow> ('a machine_scheme, int) kproc" where
  "kill pid = kill_loop pid [0..<NPROC]"

definition setkilled :: "nat \<Rightarrow> ('a machine_scheme, unit) kproc" where
  "setkilled p =
     bind (acq (LkProc p)) (\<lambda>_.
     bind (modify (upd_proc p (\<lambda>q. q\<lparr>p_killed := 1\<rparr>))) (\<lambda>_.
     rel (LkProc p)))"

definition killed :: "nat \<Rightarrow> ('a machine_scheme, int) kproc" where
  "killed p =
     bind (acq (LkProc p)) (\<lambda>_.
     bind (gets (\<lambda>s. p_killed (procs s p))) (\<lambda>k.
     bind (rel (LkProc p)) (\<lambda>_. return k)))"

definition allocpid :: "('a machine_scheme, int) kproc" where
  "allocpid =
     bind (acq LkPid) (\<lambda>_.
     bind (gets nextpid) (\<lambda>pid.
     bind (modify (\<lambda>s. s\<lparr>nextpid := nextpid s + 1\<rparr>)) (\<lambda>_.
     bind (rel LkPid) (\<lambda>_. return pid))))"

section \<open>Waiting loops\<close>

text \<open>
  \<open>while(b) sleep(ch, lk)\<close>.  A run of sleep() never comes back in the same run, so
  the loop is its first test; the unfolding equation of the loop is \<open>sleep_while_unfold\<close>.
\<close>

definition sleep_while :: "('a machine_scheme \<Rightarrow> bool) \<Rightarrow> chan \<Rightarrow> lockid \<Rightarrow> ('a machine_scheme, unit) kproc" where
  "sleep_while b ch lk = bind (gets b) (\<lambda>w. whenM w (sleep ch lk))"

lemma sched_no_ret: "sched s \<noteq> Ret x t"
  by (simp add: sched_def myprocp_def myproc_def swtch_def kmon deref_def split: option.splits)

lemma sched_bind: "bind sched f = bind sched g"
  by (rule ext) (simp add: kmon sched_no_ret split: outcome.splits)

lemma sleep_no_ret: "sleep ch lk s \<noteq> Ret x t"
  by (auto simp: sleep_def kmon sched_no_ret split: outcome.splits)

lemma sleep_while_unfold:
  "sleep_while b ch lk =
     bind (gets b) (\<lambda>w. if w then bind (sleep ch lk) (\<lambda>_. sleep_while b ch lk) else return ())"
  by (rule ext)
    (simp add: sleep_while_def kmon sleep_no_ret split: outcome.splits)

lemma wp_sleep_while [wp_simps]: "wp (sleep_while b ch lk) Q s \<longleftrightarrow> \<not> b s \<and> Q () s"
  by (simp add: sleep_while_def wp_def kmon sleep_no_ret)


text \<open>\<open>while(b) { if(killed(myproc())) give up; sleep(ch, lk); }\<close>; False means the process gave up.\<close>

definition sleep_unless_killed :: "('a machine_scheme \<Rightarrow> bool) \<Rightarrow> chan \<Rightarrow> lockid \<Rightarrow> ('a machine_scheme, bool) kproc" where
  "sleep_unless_killed b ch lk =
     bind (gets b) (\<lambda>w.
     if \<not> w then return True else
     bind myprocp (\<lambda>p.
     bind (killed p) (\<lambda>k.
     if k \<noteq> 0 then return False else
     bind (sleep ch lk) (\<lambda>_. return True))))"

lemma sleep_bind: "bind (sleep ch lk) f = bind (sleep ch lk) g"
  by (rule ext) (simp add: kmon sleep_no_ret split: outcome.splits)

lemma sleep_unless_killed_unfold:
  "sleep_unless_killed b ch lk =
     bind (gets b) (\<lambda>w.
     if \<not> w then return True else
     bind myprocp (\<lambda>p.
     bind (killed p) (\<lambda>k.
     if k \<noteq> 0 then return False else
     bind (sleep ch lk) (\<lambda>_. sleep_unless_killed b ch lk))))"
  unfolding sleep_unless_killed_def
  by (subst sleep_bind [of ch lk "\<lambda>_. return True"]) (rule refl)

section \<open>What the operations do\<close>

definition woken :: "chan \<Rightarrow> proc \<Rightarrow> proc" where
  "woken ch q = (if p_state q = SLEEPING \<and> p_chan q = Some ch then q\<lparr>p_state := RUNNABLE\<rparr> else q)"

definition wake_procs :: "chan \<Rightarrow> nat option \<Rightarrow> nat set \<Rightarrow> (nat \<Rightarrow> proc) \<Rightarrow> nat \<Rightarrow> proc" where
  "wake_procs ch me P f = (\<lambda>p. if p \<in> P \<and> Some p \<noteq> me then woken ch (f p) else f p)"

lemma woken_idem [simp]: "woken ch (woken ch q) = woken ch q"
  by (simp add: woken_def)

lemma held_twice [simp]: "l \<notin> H \<Longrightarrow> insert l H - {l} = H"
  by simp

lemma wake_one_eq:
  "LkProc p \<notin> held s \<Longrightarrow> wake_one ch p s = Ret () (upd_proc p (woken ch) s)"
  by (simp add: wake_one_def kmon upd_proc_def woken_def)

lemma wake_procs_one:
  "wake_procs ch me {p} f = (if Some p = me then f else f(p := woken ch (f p)))"
  by (auto simp: wake_procs_def fun_eq_iff)

lemma wakeup_iter_eq:
  "Some p \<noteq> curproc s \<longrightarrow> LkProc p \<notin> held s \<Longrightarrow>
   wakeup_iter ch p s = Ret () (s\<lparr>procs := wake_procs ch (curproc s) {p} (procs s)\<rparr>)"
  by (simp add: wakeup_iter_def kmon myproc_def wake_one_eq wake_procs_one upd_proc_def)

lemma wake_procs_Un: "wake_procs ch me (set ps) (wake_procs ch me {p} f) = wake_procs ch me (insert p (set ps)) f"
  by (auto simp: wake_procs_def fun_eq_iff)

lemma wakeup_loop_eq:
  assumes "\<forall>p \<in> set ps. Some p \<noteq> curproc s \<longrightarrow> LkProc p \<notin> held s"
  shows "forM ps (wakeup_iter ch) s = Ret () (s\<lparr>procs := wake_procs ch (curproc s) (set ps) (procs s)\<rparr>)"
  using assms
proof (induction ps arbitrary: s)
  case Nil
  then show ?case by (simp add: kmon wake_procs_def)
next
  case (Cons p ps)
  then show ?case
    by (simp add: bind_apply wakeup_iter_eq wake_procs_Un)
qed

definition no_proc_locks :: "'a machine_scheme \<Rightarrow> bool" where
  "no_proc_locks s \<longleftrightarrow> (\<forall>p < NPROC. LkProc p \<notin> held s)"

lemma wakeup_eq:
  assumes "no_proc_locks s"
  shows "wakeup ch s = Ret () (s\<lparr>procs := wake_procs ch (curproc s) {..<NPROC} (procs s)\<rparr>)"
  using wakeup_loop_eq [of "[0..<NPROC]" s ch] assms
  by (simp add: wakeup_def no_proc_locks_def atLeast0LessThan)

lemma wp_wakeup:
  "no_proc_locks s \<Longrightarrow> wp (wakeup ch) Q s = Q () (s\<lparr>procs := wake_procs ch (curproc s) {..<NPROC} (procs s)\<rparr>)"
  by (simp add: wp_def wakeup_eq)

lemma wake_procs_state:
  "p_pid (wake_procs ch me P f p) = p_pid (f p)" "p_ofile (wake_procs ch me P f p) = p_ofile (f p)"
  "p_cwd (wake_procs ch me P f p) = p_cwd (f p)" "p_killed (wake_procs ch me P f p) = p_killed (f p)"
  "p_parent (wake_procs ch me P f p) = p_parent (f p)" "p_sz (wake_procs ch me P f p) = p_sz (f p)"
  "p_pagetable (wake_procs ch me P f p) = p_pagetable (f p)" "p_xstate (wake_procs ch me P f p) = p_xstate (f p)"
  "p_trapframe (wake_procs ch me P f p) = p_trapframe (f p)" "p_name (wake_procs ch me P f p) = p_name (f p)"
  "p_chan (wake_procs ch me P f p) = p_chan (f p)" "p_kstack (wake_procs ch me P f p) = p_kstack (f p)"
  by (simp_all add: wake_procs_def woken_def)

declare wake_procs_state [simp]

lemma killed_eq: "LkProc p \<notin> held s \<Longrightarrow> killed p s = Ret (p_killed (procs s p)) s"
  by (simp add: killed_def kmon)

lemma setkilled_eq:
  "LkProc p \<notin> held s \<Longrightarrow> setkilled p s = Ret () (upd_proc p (\<lambda>q. q\<lparr>p_killed := 1\<rparr>) s)"
  by (simp add: setkilled_def kmon upd_proc_def)

lemma allocpid_eq: "LkPid \<notin> held s \<Longrightarrow> allocpid s = Ret (nextpid s) (s\<lparr>nextpid := nextpid s + 1\<rparr>)"
  by (simp add: allocpid_def kmon)

lemma sleep_eq:
  assumes "curproc s = Some p" and "held s = {lk}" and "lk \<noteq> LkProc p"
  shows "sleep ch lk s = Swtch (upd_proc p (\<lambda>q. q\<lparr>p_chan := Some ch, p_state := SLEEPING\<rparr>) (s\<lparr>held := {LkProc p}\<rparr>))"
proof -
  have "{lk, LkProc p} - {lk} = {LkProc p}" "{LkProc p, lk} - {lk} = {LkProc p}"
    using assms(3) by auto
  with assms show ?thesis
    by (simp add: sleep_def sleep_enter_def sched_def myprocp_def myproc_def swtch_def kmon
        upd_proc_def cpu_noff_def cpu_intr_get_def)
qed

lemma yield_eq:
  assumes "curproc s = Some p" and "held s = {}"
  shows "yield s = Swtch (upd_proc p (\<lambda>q. q\<lparr>p_state := RUNNABLE\<rparr>) (s\<lparr>held := {LkProc p}\<rparr>))"
  using assms
  by (simp add: yield_def sched_def myprocp_def myproc_def swtch_def kmon upd_proc_def
      cpu_noff_def cpu_intr_get_def)

definition kill_proc :: "proc \<Rightarrow> proc" where
  "kill_proc q = q\<lparr>p_killed := 1, p_state := (if p_state q = SLEEPING then RUNNABLE else p_state q)\<rparr>"

lemma kill_loop_eq:
  assumes "\<forall>p \<in> set ps. LkProc p \<notin> held s"
  shows "kill_loop pid ps s = (case find (\<lambda>p. p_pid (procs s p) = pid) ps of
      None \<Rightarrow> Ret (-1) s | Some p \<Rightarrow> Ret 0 (upd_proc p kill_proc s))"
  using assms
  by (induction ps) (auto simp: kmon upd_proc_def kill_proc_def)

section \<open>Sleep locks\<close>

definition initsleeplock :: "slid \<Rightarrow> string \<Rightarrow> ('a machine_scheme, unit) kproc" where
  "initsleeplock l name = modify (upd_slock l (\<lambda>_. \<lparr>sl_locked = 0, sl_name = name, sl_pid = 0\<rparr>))"

definition acquiresleep :: "slid \<Rightarrow> ('a machine_scheme, unit) kproc" where
  "acquiresleep l =
     bind (acq (LkSleep l)) (\<lambda>_.
     bind (sleep_while (\<lambda>s. sl_locked (slocks s l) \<noteq> 0) (ChSleep l) (LkSleep l)) (\<lambda>_.
     bind (modify (upd_slock l (\<lambda>k. k\<lparr>sl_locked := 1\<rparr>))) (\<lambda>_.
     bind myprocp (\<lambda>p.
     bind (gets (\<lambda>s. p_pid (procs s p))) (\<lambda>pid.
     bind (modify (upd_slock l (\<lambda>k. k\<lparr>sl_pid := pid\<rparr>))) (\<lambda>_.
     rel (LkSleep l)))))))"

definition releasesleep :: "slid \<Rightarrow> ('a machine_scheme, unit) kproc" where
  "releasesleep l =
     bind (acq (LkSleep l)) (\<lambda>_.
     bind (modify (upd_slock l (\<lambda>k. k\<lparr>sl_locked := 0, sl_pid := 0\<rparr>))) (\<lambda>_.
     bind (wakeup (ChSleep l)) (\<lambda>_.
     rel (LkSleep l))))"

definition holdingsleep :: "slid \<Rightarrow> ('a machine_scheme, bool) kproc" where
  "holdingsleep l =
     bind (acq (LkSleep l)) (\<lambda>_.
     bind (gets (\<lambda>s. slocks s l)) (\<lambda>k.
     bind (if sl_locked k \<noteq> 0
           then bind myprocp (\<lambda>p. bind (gets (\<lambda>s. p_pid (procs s p))) (\<lambda>pid. return (sl_pid k = pid)))
           else return False) (\<lambda>r.
     bind (rel (LkSleep l)) (\<lambda>_. return r))))"

definition held_sleep :: "'a machine_scheme \<Rightarrow> slid \<Rightarrow> bool" where
  "held_sleep s l \<longleftrightarrow> sl_locked (slocks s l) \<noteq> 0 \<and>
     (\<exists>p. curproc s = Some p \<and> sl_pid (slocks s l) = p_pid (procs s p))"

lemma acquiresleep_eq:
  assumes "LkSleep l \<notin> held s" and "sl_locked (slocks s l) = 0" and "curproc s = Some p"
  shows "acquiresleep l s =
    Ret () (upd_slock l (\<lambda>k. k\<lparr>sl_locked := 1, sl_pid := p_pid (procs s p)\<rparr>) s)"
  using assms
  by (simp add: acquiresleep_def sleep_while_def myprocp_def myproc_def kmon upd_slock_def)

lemma releasesleep_eq:
  assumes "LkSleep l \<notin> held s" and "no_proc_locks s"
  shows "releasesleep l s = Ret () ((upd_slock l (\<lambda>k. k\<lparr>sl_locked := 0, sl_pid := 0\<rparr>) s)
      \<lparr>procs := wake_procs (ChSleep l) (curproc s) {..<NPROC} (procs s)\<rparr>)"
proof -
  let ?t = "upd_slock l (\<lambda>k. k\<lparr>sl_locked := 0, sl_pid := 0\<rparr>) (s\<lparr>held := insert (LkSleep l) (held s)\<rparr>)"
  have "no_proc_locks ?t" using assms(2) by (simp add: no_proc_locks_def upd_slock_def)
  then show ?thesis using assms(1)
    by (simp add: releasesleep_def kmon wakeup_eq) (simp add: upd_slock_def)
qed

lemma holdingsleep_eq:
  assumes "LkSleep l \<notin> held s" and "curproc s = Some p"
  shows "holdingsleep l s = Ret (held_sleep s l) s"
  using assms by (simp add: holdingsleep_def myprocp_def myproc_def kmon held_sleep_def)


text \<open>A process and a machine to evaluate the functions on.\<close>

definition proc0 :: proc where
  "proc0 = \<lparr>p_state = RUNNING, p_chan = None, p_killed = 0, p_xstate = 0, p_pid = 1, p_parent = None,
     p_kstack = 0, p_sz = 0, p_pagetable = 0, p_trapframe = 0,
     p_context = \<lparr>ctx_ra = 0, ctx_sp = 0, ctx_s = []\<rparr>, p_ofile = replicate 16 None, p_cwd = None, p_name = []\<rparr>"

definition machine0 :: machine where
  "machine0 = \<lparr>held = {}, curproc = Some 0, procs = (\<lambda>_. proc0),
     slocks = (\<lambda>_. \<lparr>sl_locked = 0, sl_name = [], sl_pid = 0\<rparr>), initproc = Some 0, nextpid = 2,
     ticks = 0, cons_out = []\<rparr>"

end
