(* ===== verification/Sched.thy ===== *)
theory Sched
  imports Machine
begin

text \<open>
  The scheduler of kernel/proc.c, and sleep() against wakeup() when every process runs
  interleaved with every other: no wakeup is lost.
\<close>

section \<open>One round of the scheduler\<close>

text \<open>
  The body of the inner loop of scheduler() for one process, up to the switch into it, and
  \<open>scheduler_back\<close>, which the scheduler runs when the process switches back.
\<close>

definition scheduler_try :: "nat \<Rightarrow> ('a machine_scheme, unit) kproc" where
  "scheduler_try p =
     bind (acq (LkProc p)) (\<lambda>_.
     bind (gets (\<lambda>s. p_state (procs s p))) (\<lambda>st.
     bind (whenM (st = RUNNABLE)
        (bind (modify (upd_proc p (\<lambda>q. q\<lparr>p_state := RUNNING\<rparr>))) (\<lambda>_.
         bind (modify (\<lambda>s. s\<lparr>curproc := Some p\<rparr>)) (\<lambda>_.
         bind swtch (\<lambda>_.
         modify (\<lambda>s. s\<lparr>curproc := None\<rparr>)))))) (\<lambda>_.
     rel (LkProc p))))"

definition scheduler_back :: "nat \<Rightarrow> ('a machine_scheme, unit) kproc" where
  "scheduler_back p =
     bind (modify (\<lambda>s. s\<lparr>curproc := None\<rparr>)) (\<lambda>_. rel (LkProc p))"

definition scheduler_round :: "nat list \<Rightarrow> ('a machine_scheme, unit) kproc" where
  "scheduler_round ps = forM ps scheduler_try"

lemma scheduler_try_eq:
  assumes "held s = {}"
  shows "scheduler_try p s = (if p_state (procs s p) = RUNNABLE
    then Swtch (upd_proc p (\<lambda>q. q\<lparr>p_state := RUNNING\<rparr>) (s\<lparr>held := {LkProc p}, curproc := Some p\<rparr>))
    else Ret () s)"
  using assms by (simp add: scheduler_try_def swtch_def kmon upd_proc_def)

text \<open>
  A round over the process table runs the first runnable process: it switches to it with
  exactly its lock held, or changes nothing when no process is runnable.
\<close>

lemma scheduler_round_eq:
  assumes "held s = {}"
  shows "scheduler_round ps s = (case find (\<lambda>p. p_state (procs s p) = RUNNABLE) ps of
      None \<Rightarrow> Ret () s
    | Some p \<Rightarrow> Swtch (upd_proc p (\<lambda>q. q\<lparr>p_state := RUNNING\<rparr>) (s\<lparr>held := {LkProc p}, curproc := Some p\<rparr>)))"
  unfolding scheduler_round_def
  using assms by (induction ps) (simp_all add: return_apply bind_apply scheduler_try_eq)

text \<open>
  A process that called sleep() or yield() comes back to the scheduler holding only its own
  lock, so the scheduler's release succeeds and leaves the CPU free of locks and of a process.
\<close>

lemma sleep_then_scheduler:
  assumes "curproc s = Some p" and "held s = {lk}" and "lk \<noteq> LkProc p"
  shows "\<exists>t u. sleep ch lk s = Swtch t \<and> scheduler_back p t = Ret () u \<and> held u = {} \<and> curproc u = None \<and>
    p_state (procs u p) = SLEEPING \<and> p_chan (procs u p) = Some ch"
  by (simp add: sleep_eq [OF assms] scheduler_back_def kmon upd_proc_def)

section \<open>Interleavings of sleep() and wakeup()\<close>

text \<open>
  Every process may wait for a condition under a spin lock with
  \<open>acquire(lk); while(!cond) sleep(ch, lk); ...; release(lk)\<close> or establish it with
  \<open>acquire(lk); cond = 1; wakeup(ch); release(lk)\<close>.  A configuration is where each process
  is in that code, the process table and the condition.  sleep() is cut at every acquire,
  release and switch, wakeup() at every acquire and release; kill() may interfere.
\<close>

datatype swpc =
    Out | Test | Hold | SlLock | SlRel | SlSet | SlSwitch | Asleep | SlTidy | SlReacq
  | WkSet | Wk nat | WkChk nat | WkRel nat | WkEnd

fun holds_lk :: "swpc \<Rightarrow> bool" where
  "holds_lk Test = True"
| "holds_lk Hold = True"
| "holds_lk SlLock = True"
| "holds_lk SlRel = True"
| "holds_lk WkSet = True"
| "holds_lk (Wk _) = True"
| "holds_lk (WkChk _) = True"
| "holds_lk (WkRel _) = True"
| "holds_lk WkEnd = True"
| "holds_lk _ = False"

fun holds_proc :: "nat \<Rightarrow> swpc \<Rightarrow> nat \<Rightarrow> bool" where
  "holds_proc i SlRel p = (p = i)"
| "holds_proc i SlSet p = (p = i)"
| "holds_proc i SlSwitch p = (p = i)"
| "holds_proc i SlTidy p = (p = i)"
| "holds_proc i (WkChk q) p = (p = q)"
| "holds_proc i (WkRel q) p = (p = q)"
| "holds_proc i _ p = False"

record swconf =
  swpcs :: "nat \<Rightarrow> swpc"
  swprocs :: "nat \<Rightarrow> proc"
  swcond :: bool

definition lk_free :: "swconf \<Rightarrow> bool" where
  "lk_free c \<longleftrightarrow> (\<forall>j. \<not> holds_lk (swpcs c j))"

definition proc_free :: "swconf \<Rightarrow> nat \<Rightarrow> bool" where
  "proc_free c p \<longleftrightarrow> (\<forall>j. \<not> holds_proc j (swpcs c j) p)"

definition goto :: "swconf \<Rightarrow> nat \<Rightarrow> swpc \<Rightarrow> swconf" where
  "goto c i x = c\<lparr>swpcs := (swpcs c)(i := x)\<rparr>"

definition setp :: "swconf \<Rightarrow> nat \<Rightarrow> (proc \<Rightarrow> proc) \<Rightarrow> swconf" where
  "setp c p f = c\<lparr>swprocs := (swprocs c)(p := f (swprocs c p))\<rparr>"

inductive sw_step :: "chan \<Rightarrow> swconf \<Rightarrow> swconf \<Rightarrow> bool" for ch where
  s_enter: "swpcs c i = Out \<Longrightarrow> lk_free c \<Longrightarrow> sw_step ch c (goto c i Test)"
| s_true: "swpcs c i = Test \<Longrightarrow> swcond c \<Longrightarrow> sw_step ch c (goto c i Hold)"
| s_false: "swpcs c i = Test \<Longrightarrow> \<not> swcond c \<Longrightarrow> sw_step ch c (goto c i SlLock)"
| s_lock: "swpcs c i = SlLock \<Longrightarrow> proc_free c i \<Longrightarrow> sw_step ch c (goto c i SlRel)"
| s_rel: "swpcs c i = SlRel \<Longrightarrow> sw_step ch c (goto c i SlSet)"
| s_set: "swpcs c i = SlSet \<Longrightarrow>
    sw_step ch c (goto (setp c i (\<lambda>q. q\<lparr>p_chan := Some ch, p_state := SLEEPING\<rparr>)) i SlSwitch)"
| s_switch: "swpcs c i = SlSwitch \<Longrightarrow> sw_step ch c (goto c i Asleep)"
| s_run: "swpcs c i = Asleep \<Longrightarrow> proc_free c i \<Longrightarrow> p_state (swprocs c i) = RUNNABLE \<Longrightarrow>
    sw_step ch c (goto (setp c i (\<lambda>q. q\<lparr>p_state := RUNNING\<rparr>)) i SlTidy)"
| s_tidy: "swpcs c i = SlTidy \<Longrightarrow>
    sw_step ch c (goto (setp c i (\<lambda>q. q\<lparr>p_chan := None\<rparr>)) i SlReacq)"
| s_reacq: "swpcs c i = SlReacq \<Longrightarrow> lk_free c \<Longrightarrow> sw_step ch c (goto c i Test)"
| s_use: "swpcs c i = Hold \<Longrightarrow> sw_step ch c (goto (c\<lparr>swcond := swcond c \<and> b\<rparr>) i WkEnd)"
| w_enter: "swpcs c i = Out \<Longrightarrow> lk_free c \<Longrightarrow> sw_step ch c (goto c i WkSet)"
| w_set: "swpcs c i = WkSet \<Longrightarrow> sw_step ch c (goto (c\<lparr>swcond := True\<rparr>) i (Wk 0))"
| w_skip: "swpcs c i = Wk i \<Longrightarrow> i < NPROC \<Longrightarrow> sw_step ch c (goto c i (Wk (Suc i)))"
| w_lock: "swpcs c i = Wk p \<Longrightarrow> p < NPROC \<Longrightarrow> p \<noteq> i \<Longrightarrow> proc_free c p \<Longrightarrow> sw_step ch c (goto c i (WkChk p))"
| w_chk: "swpcs c i = WkChk p \<Longrightarrow> sw_step ch c (goto (setp c p (woken ch)) i (WkRel p))"
| w_relp: "swpcs c i = WkRel p \<Longrightarrow> sw_step ch c (goto c i (Wk (Suc p)))"
| w_done: "swpcs c i = Wk NPROC \<Longrightarrow> sw_step ch c (goto c i WkEnd)"
| w_out: "swpcs c i = WkEnd \<Longrightarrow> sw_step ch c (goto c i Out)"
| w_kill: "proc_free c p \<Longrightarrow> sw_step ch c (setp c p kill_proc)"

inductive sw_reach :: "chan \<Rightarrow> swconf \<Rightarrow> bool" for ch where
  sw_start: "\<forall>i. swpcs c i = Out \<and> p_state (swprocs c i) \<noteq> SLEEPING \<Longrightarrow> sw_reach ch c"
| sw_next: "sw_reach ch c \<Longrightarrow> sw_step ch c c' \<Longrightarrow> sw_reach ch c'"

text \<open>A waker that has yet to look at process \<open>i\<close>.\<close>

fun pending :: "swpc \<Rightarrow> nat \<Rightarrow> bool" where
  "pending (Wk p) i = (p \<le> i)"
| "pending (WkChk p) i = (p \<le> i)"
| "pending (WkRel p) i = (p < i)"
| "pending _ i = False"

definition sleepy :: "swconf \<Rightarrow> nat \<Rightarrow> bool" where
  "sleepy c i \<longleftrightarrow> swpcs c i = SlSet \<or> p_state (swprocs c i) = SLEEPING"

definition sw_excl :: "swconf \<Rightarrow> bool" where
  "sw_excl c \<longleftrightarrow> (\<forall>i j. holds_lk (swpcs c i) \<longrightarrow> holds_lk (swpcs c j) \<longrightarrow> i = j) \<and>
     (\<forall>i j p. holds_proc i (swpcs c i) p \<longrightarrow> holds_proc j (swpcs c j) p \<longrightarrow> i = j)"

lemmas sw_simps = goto_def setp_def lk_free_def proc_free_def

lemma sw_excl_step: "sw_step ch c c' \<Longrightarrow> sw_excl c \<Longrightarrow> sw_excl c'"
  by (induction rule: sw_step.induct) (auto simp: sw_excl_def sw_simps split: if_splits)


definition sw_inv_cond :: "swconf \<Rightarrow> bool" where
  "sw_inv_cond c \<longleftrightarrow> (\<forall>i. swpcs c i = SlLock \<or> swpcs c i = SlRel \<longrightarrow> \<not> swcond c)"

definition sw_inv_chan :: "chan \<Rightarrow> swconf \<Rightarrow> bool" where
  "sw_inv_chan ch c \<longleftrightarrow> (\<forall>i. p_state (swprocs c i) = SLEEPING \<longrightarrow>
        (swpcs c i = SlSwitch \<or> swpcs c i = Asleep) \<and> p_chan (swprocs c i) = Some ch)"

definition sw_inv_pend :: "swconf \<Rightarrow> bool" where
  "sw_inv_pend c \<longleftrightarrow> (\<forall>i < NPROC. swcond c \<and> sleepy c i \<longrightarrow> (\<exists>w. pending (swpcs c w) i))"

lemma sw_inv_cond_step: "sw_step ch c c' \<Longrightarrow> sw_excl c \<Longrightarrow> sw_inv_cond c \<Longrightarrow> sw_inv_cond c'"
proof (induction rule: sw_step.induct)
  case (w_set c i)
  then have "\<not> holds_lk (swpcs c j)" if "j \<noteq> i" for j
    using that unfolding sw_excl_def by (metis holds_lk.simps(5))
  with w_set show ?case by (force simp: sw_inv_cond_def sw_simps)
qed (auto simp: sw_inv_cond_def sw_simps split: if_splits)

lemma sw_inv_chan_step: "sw_step ch c c' \<Longrightarrow> sw_inv_chan ch c \<Longrightarrow> sw_inv_chan ch c'"
  by (induction rule: sw_step.induct)
    (auto simp: sw_inv_chan_def sw_simps woken_def kill_proc_def split: if_splits)

lemma pend_keep:
  assumes "sw_inv_pend c"
    and "\<And>k. k < NPROC \<Longrightarrow> swcond c' \<Longrightarrow> sleepy c' k \<Longrightarrow> swcond c \<and> sleepy c k"
    and "\<And>k w. k < NPROC \<Longrightarrow> sleepy c' k \<Longrightarrow> pending (swpcs c w) k \<Longrightarrow> pending (swpcs c' w) k"
  shows "sw_inv_pend c'"
  using assms unfolding sw_inv_pend_def by meson

lemma pend_goto:
  assumes "sw_inv_pend c" and "x \<noteq> SlSet" and "\<And>k. k < NPROC \<Longrightarrow> sleepy (goto c i x) k \<Longrightarrow> pending (swpcs c i) k \<Longrightarrow> pending x k"
  shows "sw_inv_pend (goto c i x)"
  by (rule pend_keep [OF assms(1)])
    (use assms(2,3) in \<open>auto simp: sleepy_def goto_def split: if_splits\<close>)

lemma pend_goto_other:
  assumes "sw_inv_pend c" and "x \<noteq> SlSet" and "\<And>k. \<not> pending (swpcs c i) k"
  shows "sw_inv_pend (goto c i x)"
  by (rule pend_goto) (use assms in auto)

lemma pend_setp:
  assumes "sw_inv_pend c" and "p_state (f (swprocs c p)) = SLEEPING \<Longrightarrow> sleepy c p"
  shows "sw_inv_pend (setp c p f)"
  by (rule pend_keep [OF assms(1)])
    (use assms(2) in \<open>auto simp: sleepy_def setp_def split: if_splits\<close>)

lemma sleepy_chk:
  assumes "sw_excl c" and "sw_inv_chan ch c" and "swpcs c i = WkChk p"
  shows "\<not> sleepy (goto (setp c p (woken ch)) i x) p \<or> x = SlSet"
proof -
  have "swpcs c p \<noteq> SlSet"
  proof
    assume "swpcs c p = SlSet"
    then have "i = p" using assms(1,3) unfolding sw_excl_def by (metis holds_proc.simps(2,5))
    with assms(3) \<open>swpcs c p = SlSet\<close> show False by simp
  qed
  then show ?thesis using assms(2) by (auto simp: sleepy_def goto_def setp_def woken_def sw_inv_chan_def)
qed

lemma sw_inv_pend_step:
  "sw_step ch c c' \<Longrightarrow> sw_excl c \<Longrightarrow> sw_inv_cond c \<Longrightarrow> sw_inv_chan ch c \<Longrightarrow> sw_inv_pend c \<Longrightarrow> sw_inv_pend c'"
proof (induction rule: sw_step.induct)
  case (s_rel c i)
  then have "\<not> swcond c" by (auto simp: sw_inv_cond_def)
  then show ?case by (simp add: sw_inv_pend_def goto_def)
next
  case (s_set c i)
  show ?case by (rule pend_goto_other [OF pend_setp]) (use s_set in \<open>auto simp: sleepy_def setp_def\<close>)
next
  case (s_run c i)
  show ?case by (rule pend_goto_other [OF pend_setp]) (use s_run in \<open>auto simp: setp_def\<close>)
next
  case (s_tidy c i)
  show ?case
    by (rule pend_goto_other [OF pend_setp]) (use s_tidy in \<open>auto simp: setp_def sleepy_def\<close>)
next
  case (s_use c i b)
  have "sw_inv_pend (c\<lparr>swcond := swcond c \<and> b\<rparr>)"
    by (rule pend_keep [OF s_use(5)]) (simp_all add: sleepy_def)
  then show ?case by (rule pend_goto_other) (use s_use in auto)
next
  case (w_set c i)
  have "pending (swpcs (goto (c\<lparr>swcond := True\<rparr>) i (Wk 0)) i) k" for k by (simp add: goto_def)
  then show ?case unfolding sw_inv_pend_def by blast
next
  case (w_skip c i)
  then have "\<not> sleepy (goto c i x) i \<or> x = SlSet" for x by (auto simp: sleepy_def goto_def sw_inv_chan_def)
  with w_skip show ?case by (intro pend_goto) (auto simp: Suc_le_eq nat_less_le)
next
  case (w_chk c i p)
  have "sw_inv_pend (setp c p (woken ch))"
    by (rule pend_setp [OF w_chk(5)]) (auto simp: woken_def sleepy_def split: if_splits)
  moreover have "\<not> sleepy (goto (setp c p (woken ch)) i (WkRel p)) p"
    using sleepy_chk [OF w_chk(2,4,1), of "WkRel p"] by simp
  ultimately show ?case
    using w_chk(1) by (intro pend_goto) (auto simp: setp_def nat_less_le)
next
  case (w_kill c p)
  show ?case by (rule pend_setp [OF w_kill(5)]) (auto simp: kill_proc_def split: if_splits)
qed (auto intro!: pend_goto)

lemma sw_reach_inv: "sw_reach ch c \<Longrightarrow> sw_excl c \<and> sw_inv_cond c \<and> sw_inv_chan ch c \<and> sw_inv_pend c"
proof (induction rule: sw_reach.induct)
  case (sw_start c)
  then show ?case
    by (simp add: sw_excl_def sw_inv_cond_def sw_inv_chan_def sw_inv_pend_def sleepy_def)
qed (blast intro: sw_excl_step sw_inv_cond_step sw_inv_chan_step sw_inv_pend_step)

lemma pending_holds: "pending x i \<Longrightarrow> holds_lk x"
  by (cases x) simp_all


section \<open>Properties\<close>

text \<open>
  The steps are the code's: running sleep() of the theory Machine on a machine state makes the
  process table of the steps \<open>s_lock\<close>, \<open>s_rel\<close>, \<open>s_set\<close>, \<open>s_switch\<close>
  taken one after the other.
\<close>

lemma sleep_sw_steps:
  assumes "curproc s = Some i" and "held s = {lk}" and "lk \<noteq> LkProc i" and "swpcs c i = SlLock"
    and "proc_free c i" and "procs s = swprocs c"
  shows "\<exists>t c'. sleep ch lk s = Swtch t \<and> (sw_step ch)\<^sup>*\<^sup>* c c' \<and> swprocs c' = procs t \<and>
    swpcs c' = (swpcs c)(i := Asleep) \<and> swcond c' = swcond c"
proof -
  let ?f = "\<lambda>q. q\<lparr>p_chan := Some ch, p_state := SLEEPING\<rparr>"
  let ?c3 = "goto (setp (goto (goto c i SlRel) i SlSet) i ?f) i SlSwitch"
  have "sw_step ch c (goto c i SlRel)" using assms by (intro s_lock)
  moreover have "sw_step ch (goto c i SlRel) (goto (goto c i SlRel) i SlSet)"
    by (rule s_rel) (simp add: goto_def)
  moreover have "sw_step ch (goto (goto c i SlRel) i SlSet) ?c3" by (rule s_set) (simp add: goto_def)
  moreover have "sw_step ch ?c3 (goto ?c3 i Asleep)" by (rule s_switch) (simp add: goto_def)
  ultimately have "(sw_step ch)\<^sup>*\<^sup>* c (goto ?c3 i Asleep)"
    by (meson rtranclp.rtrancl_refl rtranclp.rtrancl_into_rtrancl)
  moreover have "swprocs (goto ?c3 i Asleep) = procs (upd_proc i ?f (s\<lparr>held := {LkProc i}\<rparr>))"
    using assms(6) by (simp add: goto_def setp_def upd_proc_def)
  moreover have "swpcs (goto ?c3 i Asleep) = (swpcs c)(i := Asleep)" "swcond (goto ?c3 i Asleep) = swcond c"
    by (simp_all add: goto_def setp_def)
  ultimately show ?thesis using sleep_eq [OF assms(1,2,3)] by blast
qed

definition test_sw :: swconf where
  "test_sw = \<lparr>swpcs = (\<lambda>_. Out), swprocs = (\<lambda>_. proc0), swcond = False\<rparr>"

definition asleep_sw :: swconf where
  "asleep_sw = goto (goto (setp (goto (goto (goto (goto test_sw 1 Test) 1 SlLock) 1 SlRel) 1 SlSet) 1
     (\<lambda>q. q\<lparr>p_chan := Some ChTicks, p_state := SLEEPING\<rparr>)) 1 SlSwitch) 1 Asleep"

lemma asleep_sw_reach: "sw_reach ChTicks asleep_sw"
proof -
  let ?c1 = "goto test_sw 1 Test"
  let ?c2 = "goto ?c1 1 SlLock"
  let ?c3 = "goto ?c2 1 SlRel"
  let ?c4 = "goto ?c3 1 SlSet"
  let ?c5 = "goto (setp ?c4 1 (\<lambda>q. q\<lparr>p_chan := Some ChTicks, p_state := SLEEPING\<rparr>)) 1 SlSwitch"
  have "sw_reach ChTicks test_sw" by (rule sw_start) (simp add: test_sw_def proc0_def)
  then have "sw_reach ChTicks ?c1"
    by (rule sw_next) (rule s_enter, simp_all add: test_sw_def lk_free_def)
  then have "sw_reach ChTicks ?c2" by (rule sw_next) (rule s_false, simp_all add: goto_def test_sw_def)
  then have "sw_reach ChTicks ?c3"
    by (rule sw_next) (rule s_lock, simp_all add: goto_def proc_free_def test_sw_def)
  then have "sw_reach ChTicks ?c4" by (rule sw_next) (rule s_rel, simp add: goto_def)
  then have "sw_reach ChTicks ?c5" by (rule sw_next) (rule s_set, simp add: goto_def)
  then have "sw_reach ChTicks (goto ?c5 1 Asleep)" by (rule sw_next) (rule s_switch, simp add: goto_def)
  then show ?thesis by (simp only: asleep_sw_def)
qed

text \<open>
  C3.  No wakeup is lost: in every interleaving of processes that wait with sleep(ch, lk) for a
  condition guarded by lk, and processes that establish it and call wakeup(ch) under lk (with
  kill() interfering), no process sleeps on ch while the lock is free and the condition holds.
\<close>

theorem no_lost_wakeup:
  assumes "sw_reach ch c" and "lk_free c" and "p < NPROC" and "p_state (swprocs c p) = SLEEPING"
  shows "\<not> swcond c"
proof
  assume "swcond c"
  with sw_reach_inv [OF assms(1)] assms(3,4) obtain w where "pending (swpcs c w) p"
    by (auto simp: sw_inv_pend_def sleepy_def)
  then show False using assms(2) pending_holds by (auto simp: lk_free_def)
qed

theorem no_lost_wakeup_witness:
  "sw_reach ChTicks asleep_sw \<and> p_state (swprocs asleep_sw 1) = SLEEPING \<and> \<not> swcond asleep_sw"
  using no_lost_wakeup [OF asleep_sw_reach, of 1] asleep_sw_reach
  by (simp add: lk_free_def NPROC_def asleep_sw_def goto_def setp_def test_sw_def)

end
