(* ===== verification/Alloc_Spec.thy ===== *)
theory Alloc_Spec
  imports Kmonad
begin

text \<open>
  The contract shared by the kernel's allocators of a fixed pool (pages, disk blocks, open
  files, disk descriptors): an allocation returns a member of the free set and removes it, or
  returns \<open>null\<close> exactly when the set is empty; a free puts a resource back.
\<close>

locale allocator =
  fixes alloc :: "('s, 'r) kproc" and null :: 'r and free :: "'r \<Rightarrow> ('s, unit) kproc"
    and avail :: "'s \<Rightarrow> 'r set" and pool :: "'s \<Rightarrow> 'r set" and inv :: "'s \<Rightarrow> bool"
  assumes alloc_some: "inv s \<Longrightarrow> avail s \<noteq> {} \<Longrightarrow>
      wp alloc (\<lambda>r t. inv t \<and> r \<in> avail s \<and> r \<noteq> null \<and> avail t = avail s - {r} \<and> pool t = pool s) s"
    and alloc_null: "inv s \<Longrightarrow> avail s = {} \<Longrightarrow> wp alloc (\<lambda>r t. inv t \<and> r = null \<and> avail t = {} \<and> pool t = pool s) s"
    and free_ok: "inv s \<Longrightarrow> r \<in> pool s \<Longrightarrow> r \<notin> avail s \<Longrightarrow>
      wp (free r) (\<lambda>_ t. inv t \<and> avail t = insert r (avail s) \<and> pool t = pool s) s"
    and avail_pool: "inv s \<Longrightarrow> avail s \<subseteq> pool s"
    and avail_finite: "inv s \<Longrightarrow> finite (avail s)"
begin

text \<open>Allocating \<open>n\<close> times.\<close>

fun allocs :: "nat \<Rightarrow> ('s, 'r list) kproc" where
  "allocs 0 = return []"
| "allocs (Suc n) = bind alloc (\<lambda>r. bind (allocs n) (\<lambda>rs. return (r # rs)))"

lemma allocs_distinct:
  assumes "inv s" and "n \<le> card (avail s)"
  shows "wp (allocs n) (\<lambda>rs t. inv t \<and> distinct rs \<and> length rs = n \<and> set rs \<subseteq> avail s \<and>
    avail t = avail s - set rs) s"
  using assms
proof (induction n arbitrary: s)
  case 0
  then show ?case by (simp add: wp_simps)
next
  case (Suc n)
  from Suc.prems have "avail s \<noteq> {}" by auto
  then show ?case
    unfolding allocs.simps wp_bind wp_return
  proof (rule wp_mono [OF alloc_some [OF Suc.prems(1)]])
    fix r t assume t: "inv t \<and> r \<in> avail s \<and> r \<noteq> null \<and> avail t = avail s - {r} \<and> pool t = pool s"
    then have "n \<le> card (avail t)" using Suc.prems avail_finite [OF Suc.prems(1)] by simp
    with t show "wp (allocs n) (\<lambda>x u. inv u \<and> distinct (r # x) \<and> length (r # x) = Suc n \<and>
        set (r # x) \<subseteq> avail s \<and> avail u = avail s - set (r # x)) t"
      by (intro wp_mono [OF Suc.IH]) auto
  qed
qed

text \<open>The pool is exhausted exactly after \<open>card (avail s)\<close> allocations.\<close>

lemma allocs_exhaust:
  assumes "inv s"
  shows "wp (bind (allocs (card (avail s))) (\<lambda>_. alloc)) (\<lambda>r t. r = null) s"
  unfolding wp_bind
proof (rule wp_mono [OF allocs_distinct [OF assms order_refl]])
  fix rs t assume t: "inv t \<and> distinct rs \<and> length rs = card (avail s) \<and> set rs \<subseteq> avail s \<and> avail t = avail s - set rs"
  then have "card (set rs) = card (avail s)" by (simp add: distinct_card)
  with t have "avail t = {}" by (metis Diff_eq_empty_iff avail_finite assms card_subset_eq set_eq_subset)
  with t show "wp alloc (\<lambda>r _. r = null) t" by (blast intro: wp_mono [OF alloc_null])
qed

text \<open>Freeing what was just allocated restores the free set.\<close>

lemma alloc_free:
  assumes "inv s" and "avail s \<noteq> {}"
  shows "wp (bind alloc free) (\<lambda>_ t. inv t \<and> avail t = avail s) s"
  unfolding wp_bind
proof (rule wp_mono [OF alloc_some [OF assms]])
  fix r t assume t: "inv t \<and> r \<in> avail s \<and> r \<noteq> null \<and> avail t = avail s - {r} \<and> pool t = pool s"
  then have "r \<in> pool t" using avail_pool [OF assms(1)] by auto
  with t show "wp (free r) (\<lambda>_ t. inv t \<and> avail t = avail s) t"
    by (auto intro: wp_mono [OF free_ok])
qed

end

end
