(* ===== verification/Kalloc.thy ===== *)
theory Kalloc
  imports Machine CString Alloc_Spec
begin

text \<open>
  kernel/kalloc.c: the physical page allocator.  The free list is linked through the free
  pages themselves (struct run), so the state is byte memory and the head of the list; \<open>kend\<close>
  is the address the linker gives the symbol \<open>end\<close>.
\<close>

record kmem = machine +
  mem :: mem
  freelist :: addr
  kend :: addr

definition set_mem :: "(mem \<Rightarrow> mem) \<Rightarrow> 'a kmem_scheme \<Rightarrow> 'a kmem_scheme" where
  "set_mem f s = s\<lparr>mem := f (mem s)\<rparr>"

section \<open>The functions of kalloc.c\<close>

definition kfree :: "addr \<Rightarrow> ('a kmem_scheme, unit) kproc" where
  "kfree pa =
     bind (gets kend) (\<lambda>e.
     if pa mod PGSIZE \<noteq> 0 \<or> pa < e \<or> pa \<ge> PHYSTOP then panic ''kfree'' else
     bind (modify (set_mem (\<lambda>m. memset m pa 1 (ucast PGSIZE)))) (\<lambda>_.
     bind (acq LkKmem) (\<lambda>_.
     bind (modify (\<lambda>s. s\<lparr>mem := store64 (mem s) pa (freelist s)\<rparr>)) (\<lambda>_.
     bind (modify (\<lambda>s. s\<lparr>freelist := pa\<rparr>)) (\<lambda>_.
     rel LkKmem)))))"

definition kalloc :: "('a kmem_scheme, addr) kproc" where
  "kalloc =
     bind (acq LkKmem) (\<lambda>_.
     bind (gets freelist) (\<lambda>r.
     bind (whenM (r \<noteq> 0) (modify (\<lambda>s. s\<lparr>freelist := load64 (mem s) r\<rparr>))) (\<lambda>_.
     bind (rel LkKmem) (\<lambda>_.
     bind (whenM (r \<noteq> 0) (modify (set_mem (\<lambda>m. memset m r 5 (ucast PGSIZE))))) (\<lambda>_.
     return r)))))"

text \<open>
  The loop of freerange().  The number of pages below \<open>pa_end\<close>, plus one, is enough
  fuel for it.
\<close>

fun freerange_loop :: "nat \<Rightarrow> addr \<Rightarrow> addr \<Rightarrow> ('a kmem_scheme, unit) kproc" where
  "freerange_loop 0 p pa_end = hang"
| "freerange_loop (Suc fuel) p pa_end =
     (if p + PGSIZE \<le> pa_end
      then bind (kfree p) (\<lambda>_. freerange_loop fuel (p + PGSIZE) pa_end)
      else return ())"

definition freerange :: "addr \<Rightarrow> addr \<Rightarrow> ('a kmem_scheme, unit) kproc" where
  "freerange pa_start pa_end =
     freerange_loop (Suc (unat pa_end div 4096)) (PGROUNDUP pa_start) pa_end"

definition kinit :: "('a kmem_scheme, unit) kproc" where
  "kinit = bind (initlk LkKmem) (\<lambda>_. bind (gets kend) (\<lambda>e. freerange e PHYSTOP))"

section \<open>The free list in memory\<close>

fun flist :: "mem \<Rightarrow> addr \<Rightarrow> addr list \<Rightarrow> bool" where
  "flist m a [] = (a = 0)"
| "flist m a (p # ps) = (a = p \<and> p \<noteq> 0 \<and> flist m (load64 m p) ps)"

definition heap_page :: "'a kmem_scheme \<Rightarrow> addr \<Rightarrow> bool" where
  "heap_page s p \<longleftrightarrow> page_aligned p \<and> kend s \<le> p \<and> p < PHYSTOP"

definition kmem_inv :: "'a kmem_scheme \<Rightarrow> addr list \<Rightarrow> bool" where
  "kmem_inv s ps \<longleftrightarrow> flist (mem s) (freelist s) ps \<and> distinct ps \<and> (\<forall>p \<in> set ps. heap_page s p) \<and> 0 < kend s"

definition same_but :: "addr set \<Rightarrow> mem \<Rightarrow> mem \<Rightarrow> bool" where
  "same_but P m m' \<longleftrightarrow> (\<forall>x. PGROUNDDOWN x \<notin> P \<longrightarrow> m' x = m x)"

lemma page_offset:
  assumes "page_aligned p" and "k < 4096"
  shows "PGROUNDDOWN (p + of_nat k) = p"
  using in_page_iff [OF assms(1), of "p + of_nat k"] assms(2) by (simp add: unat_of_nat_64)

lemma same_but_refl [simp]: "same_but P m m"
  by (simp add: same_but_def)

lemma same_but_trans: "same_but P m m' \<Longrightarrow> same_but Q m' m'' \<Longrightarrow> same_but (P \<union> Q) m m''"
  by (simp add: same_but_def)

lemma same_but_mono: "same_but P m m' \<Longrightarrow> P \<subseteq> Q \<Longrightarrow> same_but Q m m'"
  by (auto simp: same_but_def)

lemma same_but_wr:
  assumes "page_aligned p" and "k + length bs \<le> 4096"
  shows "same_but {p} m (wr_bytes m (p + of_nat k) bs)"
  unfolding same_but_def
proof (intro allI impI)
  fix x assume x: "PGROUNDDOWN x \<notin> {p}"
  have "length bs \<le> unat (x - (p + of_nat k))"
  proof (rule ccontr)
    assume "\<not> ?thesis"
    then have lt: "unat (x - (p + of_nat k)) < length bs" by simp
    have "x = p + of_nat (k + unat (x - (p + of_nat k)))" by simp
    moreover have "k + unat (x - (p + of_nat k)) < 4096" using lt assms(2) by simp
    ultimately have "PGROUNDDOWN x = p" using page_offset [OF assms(1)] by metis
    with x show False by simp
  qed
  then show "wr_bytes m (p + of_nat k) bs x = m x" by (rule wr_bytes_other)
qed

lemmas same_but_wr0 = same_but_wr [of _ 0, simplified]

lemma same_but_store64: "page_aligned p \<Longrightarrow> same_but {p} m (store64 m p w)"
  by (simp add: store64_def same_but_wr0)

lemma same_but_memset: "page_aligned p \<Longrightarrow> same_but {p} m (memset m p c (ucast PGSIZE))"
  by (simp add: memset_eq same_but_wr0 PGSIZE_def)

lemma rd_same_but:
  assumes "same_but P m m'" and "page_aligned p" and "p \<notin> P" and "k + n \<le> 4096"
  shows "rd_bytes m' (p + of_nat k) n = rd_bytes m (p + of_nat k) n"
proof (rule nth_equalityI)
  fix i assume "i < length (rd_bytes m' (p + of_nat k) n)"
  then have "PGROUNDDOWN (p + of_nat (k + i)) = p" using assms by (intro page_offset) auto
  with assms \<open>i < _\<close> show "rd_bytes m' (p + of_nat k) n ! i = rd_bytes m (p + of_nat k) n ! i"
    by (simp add: same_but_def add.assoc)
qed simp

lemma load64_same_but:
  assumes "same_but P m m'" and "page_aligned p" and "p \<notin> P"
  shows "load64 m' p = load64 m p"
  using rd_same_but [OF assms, of 0 8] by (simp add: load64_def)

lemma flist_same_but:
  assumes "same_but P m m'" and "\<forall>p \<in> set ps. page_aligned p \<and> p \<notin> P"
  shows "flist m' a ps = flist m a ps"
  using assms(2) by (induction ps arbitrary: a) (auto simp: load64_same_but [OF assms(1)])

lemma flist_unique: "flist m a ps \<Longrightarrow> flist m a qs \<Longrightarrow> ps = qs"
proof (induction ps arbitrary: a qs)
  case Nil
  then show ?case by (cases qs) auto
next
  case (Cons p ps)
  then show ?case by (cases qs) auto
qed


section \<open>kalloc() and kfree()\<close>

definition alloc_result :: "addr \<Rightarrow> addr \<Rightarrow> 'a kmem_scheme \<Rightarrow> 'a kmem_scheme" where
  "alloc_result p nxt s = s\<lparr>mem := memset (mem s) p 5 (ucast PGSIZE), freelist := nxt\<rparr>"

definition free_result :: "addr \<Rightarrow> 'a kmem_scheme \<Rightarrow> 'a kmem_scheme" where
  "free_result p s = s\<lparr>mem := store64 (memset (mem s) p 1 (ucast PGSIZE)) p (freelist s), freelist := p\<rparr>"

lemma kalloc_eq:
  assumes "LkKmem \<notin> held s"
  shows "kalloc s = (if freelist s = 0 then Ret 0 s
    else Ret (freelist s) (alloc_result (freelist s) (load64 (mem s) (freelist s)) s))"
  using assms by (simp add: kalloc_def kmon alloc_result_def set_mem_def)

lemma kfree_eq:
  assumes "LkKmem \<notin> held s"
  shows "kfree pa s = (if heap_page s pa then Ret () (free_result pa s) else Panic ''kfree'' s)"
  using assms
  by (auto simp: kfree_def kmon free_result_def set_mem_def heap_page_def page_mod not_le not_less)

lemma alloc_result_simps [simp]:
  "freelist (alloc_result p n s) = n" "kend (alloc_result p n s) = kend s" "held (alloc_result p n s) = held s"
  "procs (alloc_result p n s) = procs s" "curproc (alloc_result p n s) = curproc s"
  "heap_page (alloc_result p n s) q = heap_page s q" "kmem.more (alloc_result p n s) = kmem.more s"
  "slocks (alloc_result p n s) = slocks s" "nextpid (alloc_result p n s) = nextpid s"
  by (simp_all add: alloc_result_def heap_page_def)

lemma free_result_simps [simp]:
  "freelist (free_result p s) = p" "kend (free_result p s) = kend s" "held (free_result p s) = held s"
  "procs (free_result p s) = procs s" "curproc (free_result p s) = curproc s"
  "heap_page (free_result p s) q = heap_page s q" "kmem.more (free_result p s) = kmem.more s"
  "slocks (free_result p s) = slocks s" "nextpid (free_result p s) = nextpid s"
  by (simp_all add: free_result_def heap_page_def)

lemma mem_alloc_result: "page_aligned p \<Longrightarrow> same_but {p} (mem s) (mem (alloc_result p n s))"
  by (simp add: alloc_result_def same_but_memset)

lemma mem_free_result:
  assumes "page_aligned p"
  shows "same_but {p} (mem s) (mem (free_result p s))"
  using same_but_trans [OF same_but_memset [OF assms] same_but_store64 [OF assms]]
  by (simp add: free_result_def)

lemma kmem_inv_alloc:
  assumes "kmem_inv s (p # ps)"
  shows "kmem_inv (alloc_result p (load64 (mem s) p) s) ps"
proof -
  have p: "page_aligned p" using assms by (auto simp: kmem_inv_def heap_page_def)
  have ps: "\<forall>q \<in> set ps. page_aligned q \<and> q \<notin> {p}"
    using assms by (auto simp: kmem_inv_def heap_page_def)
  show ?thesis
    using assms flist_same_but [OF mem_alloc_result [OF p, of s "load64 (mem s) p"] ps]
    by (simp add: kmem_inv_def)
qed

lemma kmem_inv_free:
  assumes "kmem_inv s ps" and "heap_page s p" and "p \<notin> set ps"
  shows "kmem_inv (free_result p s) (p # ps)"
proof -
  have p: "page_aligned p" "p \<noteq> 0" using assms by (auto simp: kmem_inv_def heap_page_def)
  have ps: "\<forall>q \<in> set ps. page_aligned q \<and> q \<notin> {p}"
    using assms by (auto simp: kmem_inv_def heap_page_def)
  have "load64 (mem (free_result p s)) p = freelist s"
    by (simp add: free_result_def load_store_same)
  then show ?thesis
    using assms flist_same_but [OF mem_free_result [OF p(1), of s] ps] p(2)
    by (simp add: kmem_inv_def)
qed

definition free_pages :: "'a kmem_scheme \<Rightarrow> addr set" where
  "free_pages s = {p. \<exists>ps. kmem_inv s ps \<and> p \<in> set ps}"

definition kmem_ok :: "'a kmem_scheme \<Rightarrow> bool" where
  "kmem_ok s \<longleftrightarrow> LkKmem \<notin> held s \<and> (\<exists>ps. kmem_inv s ps)"

lemma free_pages_eq: "kmem_inv s ps \<Longrightarrow> free_pages s = set ps"
  by (auto simp: free_pages_def kmem_inv_def dest: flist_unique)

lemma kmem_okE:
  assumes "kmem_ok s"
  obtains ps where "LkKmem \<notin> held s" and "kmem_inv s ps" and "free_pages s = set ps"
  using assms free_pages_eq by (auto simp: kmem_ok_def)

lemma kalloc_empty: "LkKmem \<notin> held s \<Longrightarrow> kmem_inv s [] \<Longrightarrow> kalloc s = Ret 0 s"
  by (simp add: kalloc_eq kmem_inv_def)

lemma kalloc_page:
  "LkKmem \<notin> held s \<Longrightarrow> kmem_inv s (p # ps) \<Longrightarrow>
   kalloc s = Ret p (alloc_result p (load64 (mem s) p) s)"
  by (auto simp: kalloc_eq kmem_inv_def)

interpretation page_alloc: allocator kalloc 0 kfree free_pages "\<lambda>s. {p. heap_page s p}" kmem_ok
proof (unfold_locales, goal_cases)
  case (1 s)
  then obtain ps where ps: "LkKmem \<notin> held s" "kmem_inv s ps" "free_pages s = set ps" by (elim kmem_okE)
  with 1 obtain p qs where q: "ps = p # qs" by (cases ps) auto
  note inv = kmem_inv_alloc [OF ps(2) [unfolded q]]
  have "p \<noteq> 0" "p \<notin> set qs" using ps(2) q by (auto simp: kmem_inv_def)
  with ps q inv free_pages_eq [OF inv] show ?case
    by (auto simp: wp_def kalloc_page kmem_ok_def)
next
  case (2 s)
  then obtain ps where "LkKmem \<notin> held s" "kmem_inv s ps" "free_pages s = set ps" by (elim kmem_okE)
  with 2 show ?case by (auto simp: wp_def kalloc_empty)
next
  case (3 s p)
  then obtain ps where ps: "LkKmem \<notin> held s" "kmem_inv s ps" "free_pages s = set ps" by (elim kmem_okE)
  with 3 have inv: "kmem_inv (free_result p s) (p # ps)" by (intro kmem_inv_free) auto
  with 3 ps free_pages_eq [OF inv] show ?case by (auto simp: wp_def kfree_eq kmem_ok_def)
next
  case (4 s)
  then show ?case by (auto simp: free_pages_def kmem_inv_def)
next
  case (5 s)
  then show ?case by (auto elim: kmem_okE)
qed


section \<open>kinit()\<close>

text \<open>The pages from \<open>p\<close> up to \<open>PHYSTOP\<close>, the last one first: the order kinit() links them in.\<close>

fun pages_upto :: "addr \<Rightarrow> nat \<Rightarrow> addr list \<Rightarrow> addr list" where
  "pages_upto p 0 acc = acc"
| "pages_upto p (Suc n) acc = pages_upto (p + PGSIZE) n (p # acc)"

lemma unat_add_page: "unat p + 4096 < 2 ^ 64 \<Longrightarrow> unat (p + PGSIZE) = unat p + 4096"
  by (simp add: PGSIZE_def unat_word_ariths)

lemma page_gap: "page_aligned a \<Longrightarrow> page_aligned b \<Longrightarrow> unat a < unat b \<Longrightarrow> unat a + 4096 \<le> unat b"
  by (auto simp: page_aligned_def elim!: dvdE dest!: mod_0_imp_dvd)

lemma set_pages_upto:
  assumes "unat p + 4096 * n < 2 ^ 64" and "page_aligned p"
  shows "set (pages_upto p n acc) = set acc \<union> {q. page_aligned q \<and> unat p \<le> unat q \<and> unat q < unat p + 4096 * n}"
  using assms
proof (induction n arbitrary: p acc)
  case 0
  then show ?case by auto
next
  case (Suc n)
  have up: "unat (p + PGSIZE) = unat p + 4096" using Suc.prems by (intro unat_add_page) simp
  then have al: "page_aligned (p + PGSIZE)" using Suc.prems(2) by (simp add: page_aligned_def)
  have "(page_aligned q \<and> unat p \<le> unat q \<and> unat q < unat p + 4096 * Suc n) \<longleftrightarrow>
      q = p \<or> (page_aligned q \<and> unat p + 4096 \<le> unat q \<and> unat q < unat p + 4096 + 4096 * n)" for q
    using Suc.prems(2) page_gap [of p q] by (auto simp: word_unat_eq_iff page_aligned_def)
  with Suc.IH [of "p + PGSIZE" "p # acc"] Suc.prems up al show ?case by auto
qed

lemma PHYSTOP_unat: "unat PHYSTOP = 2281701376"
  by (simp add: layout_defs)

lemma freerange_loop_inv:
  assumes "n < fuel" and "kmem_inv s ps" and "LkKmem \<notin> held s" and "page_aligned p"
    and "unat p + 4096 * n = unat PHYSTOP" and "kend s \<le> p" and "\<forall>q \<in> set ps. q < p"
  shows "\<exists>t. freerange_loop fuel p PHYSTOP s = Ret () t \<and> kmem_inv t (pages_upto p n ps) \<and>
    kend t = kend s \<and> held t = held s"
  using assms
proof (induction n arbitrary: fuel s ps p)
  case 0
  then obtain f where f: "fuel = Suc f" by (cases fuel) auto
  have "p = PHYSTOP" using 0 by (simp add: word_unat_eq_iff)
  then have "\<not> p + PGSIZE \<le> PHYSTOP" by (simp add: layout_defs PGSIZE_def)
  with 0 f show ?case by (simp add: kmon)
next
  case (Suc n)
  then obtain f where f: "fuel = Suc f" by (cases fuel) auto
  have up: "unat (p + PGSIZE) = unat p + 4096"
    using Suc.prems(5) by (intro unat_add_page) (simp add: PHYSTOP_unat)
  then have al: "page_aligned (p + PGSIZE)" using Suc.prems(4) by (simp add: page_aligned_def)
  have le: "p + PGSIZE \<le> PHYSTOP" "p < PHYSTOP"
    using up Suc.prems(5) by (simp_all add: word_le_nat_alt word_less_nat_alt)
  then have hp: "heap_page s p" using Suc.prems by (simp add: heap_page_def)
  have new: "p \<notin> set ps" using Suc.prems(7) by auto
  have inv: "kmem_inv (free_result p s) (p # ps)"
    by (rule kmem_inv_free [OF Suc.prems(2) hp new])
  have lt: "p < p + PGSIZE" using up by (simp add: word_less_nat_alt)
  have "kend s \<le> p + PGSIZE" using Suc.prems(6) lt by (meson less_imp_le order_trans)
  moreover have "\<forall>q \<in> set (p # ps). q < p + PGSIZE"
    using Suc.prems(7) lt by (auto intro: less_trans)
  ultimately obtain t where "freerange_loop f (p + PGSIZE) PHYSTOP (free_result p s) = Ret () t"
      "kmem_inv t (pages_upto (p + PGSIZE) n (p # ps))" "kend t = kend s" "held t = held s"
    using Suc.IH [of f "free_result p s" "p # ps" "p + PGSIZE"] Suc.prems(1,3,5) inv al up f by auto
  moreover have "kfree p s = Ret () (free_result p s)" using hp Suc.prems(3) by (simp add: kfree_eq)
  ultimately show ?case using f le by (simp add: bind_apply)
qed

lemma unat_PGROUNDUP:
  assumes "unat x + 4095 < 2 ^ 64"
  shows "unat (PGROUNDUP x) = (unat x + 4095) div 4096 * 4096"
proof -
  have "PGROUNDUP x = PGROUNDDOWN (x + 4095)" by (simp add: PGROUNDUP_def PGROUNDDOWN_def PGSIZE_def add.commute)
  moreover have "unat (x + 4095) = unat x + 4095" using assms by (simp add: unat_word_ariths)
  ultimately show ?thesis by (simp add: unat_PGROUNDDOWN minus_mod_eq_div_mult)
qed

lemma page_aligned_PGROUNDUP [simp]: "page_aligned (PGROUNDUP x)"
proof -
  have "PGROUNDUP x = PGROUNDDOWN (x + 4095)" by (simp add: PGROUNDUP_def PGROUNDDOWN_def PGSIZE_def add.commute)
  then show ?thesis by simp
qed

lemma PGROUNDUP_bounds:
  assumes "unat x + 4095 < 2 ^ 64"
  shows "unat x \<le> unat (PGROUNDUP x)" and "unat (PGROUNDUP x) \<le> unat x + 4095"
    and "page_aligned q \<Longrightarrow> unat x \<le> unat q \<Longrightarrow> unat (PGROUNDUP x) \<le> unat q"
proof -
  have eq: "unat (PGROUNDUP x) = (unat x + 4095) div 4096 * 4096" by (rule unat_PGROUNDUP [OF assms])
  have lo: "(unat x + 4095) div 4096 * 4096 \<le> unat x + 4095" by (rule div_times_less_eq_dividend)
  have hi: "unat x + 4095 < (unat x + 4095) div 4096 * 4096 + 4096"
    using dividend_less_times_div [of 4096 "unat x + 4095"] by simp
  show "unat x \<le> unat (PGROUNDUP x)" "unat (PGROUNDUP x) \<le> unat x + 4095"
    unfolding eq using lo hi by linarith+
  assume "page_aligned q" "unat x \<le> unat q"
  then obtain k where "unat q = 4096 * k" by (auto simp: page_aligned_def)
  moreover from this \<open>unat x \<le> unat q\<close> have "unat x + 4095 < (k + 1) * 4096" by simp
  with lo have "(unat x + 4095) div 4096 * 4096 < (k + 1) * 4096" by (rule le_less_trans)
  then have "(unat x + 4095) div 4096 < k + 1" by (simp only: mult_less_cancel2)
  ultimately show "unat (PGROUNDUP x) \<le> unat q" unfolding eq by simp
qed


text \<open>
  After kinit() the free list holds exactly the pages between the end of the kernel and
  \<open>PHYSTOP\<close>, each once; the fuel of the loop is enough.
\<close>

lemma kinit_inv:
  assumes "freelist s = 0" and "0 < kend s" and "kend s \<le> PHYSTOP"
  shows "\<exists>t ps. kinit s = Ret () t \<and> kmem_inv t ps \<and> set ps = {p. heap_page s p} \<and>
    kend t = kend s \<and> held t = held s - {LkKmem}"
proof -
  let ?p = "PGROUNDUP (kend s)" and ?s = "s\<lparr>held := held s - {LkKmem}\<rparr>"
  have le: "unat (kend s) \<le> 2281701376" using assms(3) by (simp add: word_le_nat_alt PHYSTOP_unat)
  note b = PGROUNDUP_bounds [of "kend s"]
  have pal: "page_aligned PHYSTOP" by (simp add: page_aligned_def PHYSTOP_unat)
  have up: "unat ?p \<le> unat PHYSTOP" using b(3) [OF _ pal] le by (simp add: PHYSTOP_unat)
  have "unat ?p mod 4096 = 0" using page_aligned_PGROUNDUP [of "kend s"] by (simp add: page_aligned_def)
  then obtain j where j: "unat ?p = 4096 * j" by auto
  let ?n = "557056 - j"
  have n: "unat ?p + 4096 * ?n = unat PHYSTOP" using j up by (simp add: PHYSTOP_unat)
  have "\<exists>t. freerange_loop (Suc (unat PHYSTOP div 4096)) ?p PHYSTOP ?s = Ret () t \<and> kmem_inv t (pages_upto ?p ?n []) \<and>
    kend t = kend ?s \<and> held t = held ?s"
  proof (rule freerange_loop_inv)
    show "?n < Suc (unat PHYSTOP div 4096)" by (simp add: PHYSTOP_unat)
    show "kmem_inv ?s []" using assms by (simp add: kmem_inv_def)
    show "kend ?s \<le> ?p" using b(1) le by (simp add: word_le_nat_alt)
  qed (use n in simp_all)
  moreover have "set (pages_upto ?p ?n []) = {p. heap_page s p}"
  proof -
    have "set (pages_upto ?p ?n []) = {q. page_aligned q \<and> unat ?p \<le> unat q \<and> unat q < unat PHYSTOP}"
      using set_pages_upto [of ?p ?n "[]"] n by (simp add: PHYSTOP_unat)
    also have "\<dots> = {p. heap_page s p}"
      using b(1) b(3) le by (auto simp: heap_page_def word_le_nat_alt word_less_nat_alt)
    finally show ?thesis .
  qed
  ultimately show ?thesis by (auto simp: kinit_def freerange_def initlk_def kmon)
qed

section \<open>Properties\<close>

text \<open>
  C7.  kinit() and the allocator: started with an empty list, kinit() returns, links every page
  from the end of the kernel to PHYSTOP exactly once, and from then on as many kalloc() calls as
  there are pages succeed with pairwise distinct pages, while the next one returns 0.
\<close>

theorem kinit_kalloc_all:
  assumes "freelist s = 0" and "0 < kend s" and "kend s \<le> PHYSTOP"
  shows "\<exists>t. kinit s = Ret () t \<and> free_pages t = {p. heap_page s p} \<and>
    wp (page_alloc.allocs (card {p. heap_page s p}))
      (\<lambda>rs u. distinct rs \<and> set rs = {p. heap_page s p} \<and> kalloc u = Ret 0 u) t"
proof -
  obtain t ps where t: "kinit s = Ret () t" "kmem_inv t ps" "set ps = {p. heap_page s p}"
      "kend t = kend s" "held t = held s - {LkKmem}"
    using kinit_inv [OF assms] by blast
  then have ok: "kmem_ok t" and fp: "free_pages t = {p. heap_page s p}"
    using free_pages_eq [OF t(2)] by (auto simp: kmem_ok_def)
  have fin: "finite {p. heap_page s p}" using t(3) by (metis List.finite_set)
  have "wp (page_alloc.allocs (card {p. heap_page s p}))
      (\<lambda>rs u. distinct rs \<and> set rs = {p. heap_page s p} \<and> kalloc u = Ret 0 u) t"
  proof (rule wp_mono [OF page_alloc.allocs_distinct [OF ok, unfolded fp, OF order_refl]])
    fix rs u
    assume u: "kmem_ok u \<and> distinct rs \<and> length rs = card {p. heap_page s p} \<and>
      set rs \<subseteq> {p. heap_page s p} \<and> free_pages u = {p. heap_page s p} - set rs"
    then have all: "set rs = {p. heap_page s p}"
      by (metis card_subset_eq distinct_card fin)
    with u obtain qs where "LkKmem \<notin> held u" "kmem_inv u qs" "set qs = {}"
      by (metis Diff_cancel kmem_okE)
    with u all show "distinct rs \<and> set rs = {p. heap_page s p} \<and> kalloc u = Ret 0 u"
      by (simp add: kalloc_empty)
  qed
  with t(1) fp show ?thesis by blast
qed


definition kmem0 :: kmem where
  "kmem0 = machine.extend machine0 (kmem.fields (\<lambda>_. 0) 0 0x80022000)"

lemma kmem0_simps [simp]:
  "freelist kmem0 = 0" "kend kmem0 = 0x80022000" "mem kmem0 = (\<lambda>_. 0)" "held kmem0 = {}"
  "curproc kmem0 = Some 0"
  by (simp_all add: kmem0_def machine0_def machine.defs kmem.defs)

theorem kinit_kalloc_all_witness:
  "freelist kmem0 = 0 \<and> 0 < kend kmem0 \<and> kend kmem0 \<le> PHYSTOP \<and>
   (\<exists>t. kinit kmem0 = Ret () t \<and> free_pages t = {p. heap_page kmem0 p})"
  using kinit_kalloc_all [of kmem0] by (auto simp: layout_defs)

end
