(* ===== verification/Vm.thy ===== *)
theory Vm
  imports Kalloc
begin

text \<open>
  kernel/vm.c: Sv39 page tables stored in physical memory, and the copies between kernel and
  user space.  A page table is the address of its root page; entries are read and written in
  byte memory.  Kernel buffers that are copied from or to are byte lists: \<open>copyout\<close> takes
  the bytes at \<open>src\<close>, \<open>copyin\<close> and \<open>copyinstr\<close> return the result code and
  the bytes written at \<open>dst\<close>.
\<close>

section \<open>Entries\<close>

definition pte_addr :: "addr \<Rightarrow> uint64 \<Rightarrow> addr" where
  "pte_addr pagetable i = pagetable + 8 * i"

definition rd_pte :: "addr \<Rightarrow> ('a kmem_scheme, uint64) kproc" where
  "rd_pte a = gets (\<lambda>s. load64 (mem s) a)"

definition wr_pte :: "addr \<Rightarrow> uint64 \<Rightarrow> ('a kmem_scheme, unit) kproc" where
  "wr_pte a v = modify (set_mem (\<lambda>m. store64 m a v))"

definition kmemset :: "addr \<Rightarrow> uint \<Rightarrow> uint \<Rightarrow> ('a kmem_scheme, unit) kproc" where
  "kmemset a c n = modify (set_mem (\<lambda>m. memset m a c n))"

definition kmemmove :: "addr \<Rightarrow> addr \<Rightarrow> uint \<Rightarrow> ('a kmem_scheme, unit) kproc" where
  "kmemmove d a n = modify (set_mem (\<lambda>m. memmove m d a n))"

definition kwrite :: "addr \<Rightarrow> byte list \<Rightarrow> ('a kmem_scheme, unit) kproc" where
  "kwrite a bs = modify (set_mem (\<lambda>m. wr_bytes m a bs))"

definition has :: "uint64 \<Rightarrow> uint64 \<Rightarrow> bool" where
  "has pte f \<longleftrightarrow> pte AND f \<noteq> 0"

section \<open>walk() and mappages()\<close>

text \<open>The loop of walk() from \<open>level\<close> down to 0; the null pointer is address 0.\<close>

fun walk_loop :: "nat \<Rightarrow> addr \<Rightarrow> uint64 \<Rightarrow> bool \<Rightarrow> ('a kmem_scheme, addr) kproc" where
  "walk_loop 0 pagetable va alloc = return (pte_addr pagetable (PX 0 va))"
| "walk_loop (Suc level) pagetable va alloc =
     bind (rd_pte (pte_addr pagetable (PX (Suc level) va))) (\<lambda>pte.
     if has pte PTE_V then walk_loop level (PTE2PA pte) va alloc
     else if \<not> alloc then return 0
     else bind kalloc (\<lambda>p.
       if p = 0 then return 0 else
       bind (kmemset p 0 (ucast PGSIZE)) (\<lambda>_.
       bind (wr_pte (pte_addr pagetable (PX (Suc level) va)) (PA2PTE p OR PTE_V)) (\<lambda>_.
       walk_loop level p va alloc))))"

definition walk :: "addr \<Rightarrow> uint64 \<Rightarrow> bool \<Rightarrow> ('a kmem_scheme, addr) kproc" where
  "walk pagetable va alloc =
     (if va \<ge> MAXVA then panic ''walk'' else walk_loop 2 pagetable va alloc)"

definition walkaddr :: "addr \<Rightarrow> uint64 \<Rightarrow> ('a kmem_scheme, uint64) kproc" where
  "walkaddr pagetable va =
     (if va \<ge> MAXVA then return 0 else
      bind (walk pagetable va False) (\<lambda>pte.
      if pte = 0 then return 0 else
      bind (rd_pte pte) (\<lambda>e.
      if \<not> has e PTE_V then return 0
      else if \<not> has e PTE_U then return 0
      else return (PTE2PA e))))"

text \<open>
  The endless loop of mappages() ends when \<open>a\<close> reaches \<open>last\<close>; the number of pages
  of \<open>size\<close> is enough fuel.
\<close>

fun mappages_loop :: "nat \<Rightarrow> addr \<Rightarrow> uint64 \<Rightarrow> uint64 \<Rightarrow> uint64 \<Rightarrow> uint64 \<Rightarrow> ('a kmem_scheme, int) kproc" where
  "mappages_loop 0 pagetable a lst pa perm = hang"
| "mappages_loop (Suc fuel) pagetable a lst pa perm =
     bind (walk pagetable a True) (\<lambda>pte.
     if pte = 0 then return (-1) else
     bind (rd_pte pte) (\<lambda>e.
     if has e PTE_V then panic ''mappages: remap'' else
     bind (wr_pte pte (PA2PTE pa OR perm OR PTE_V)) (\<lambda>_.
     if a = lst then return 0
     else mappages_loop fuel pagetable (a + PGSIZE) lst (pa + PGSIZE) perm)))"

definition mappages :: "addr \<Rightarrow> uint64 \<Rightarrow> uint64 \<Rightarrow> uint64 \<Rightarrow> uint64 \<Rightarrow> ('a kmem_scheme, int) kproc" where
  "mappages pagetable va sz pa perm =
     (if va mod PGSIZE \<noteq> 0 then panic ''mappages: va not aligned''
      else if sz mod PGSIZE \<noteq> 0 then panic ''mappages: size not aligned''
      else if sz = 0 then panic ''mappages: size''
      else mappages_loop (unat sz div 4096) pagetable va (va + sz - PGSIZE) pa perm)"

definition kvmmap :: "addr \<Rightarrow> uint64 \<Rightarrow> uint64 \<Rightarrow> uint64 \<Rightarrow> uint64 \<Rightarrow> ('a kmem_scheme, unit) kproc" where
  "kvmmap kpgtbl va pa sz perm =
     bind (mappages kpgtbl va sz pa perm) (\<lambda>r.
     if r \<noteq> 0 then panic ''kvmmap'' else return ())"

section \<open>Unmapping and freeing\<close>

fun uvmunmap_loop :: "nat \<Rightarrow> addr \<Rightarrow> uint64 \<Rightarrow> uint64 \<Rightarrow> bool \<Rightarrow> ('a kmem_scheme, unit) kproc" where
  "uvmunmap_loop 0 pagetable a bound do_free = hang"
| "uvmunmap_loop (Suc fuel) pagetable a bound do_free =
     (if a < bound then
        bind (walk pagetable a False) (\<lambda>pte.
        if pte = 0 then panic ''uvmunmap: walk'' else
        bind (rd_pte pte) (\<lambda>e.
        if \<not> has e PTE_V then panic ''uvmunmap: not mapped''
        else if PTE_FLAGS e = PTE_V then panic ''uvmunmap: not a leaf''
        else
        bind (whenM do_free (kfree (PTE2PA e))) (\<lambda>_.
        bind (wr_pte pte 0) (\<lambda>_.
        uvmunmap_loop fuel pagetable (a + PGSIZE) bound do_free))))
      else return ())"

definition uvmunmap :: "addr \<Rightarrow> uint64 \<Rightarrow> uint64 \<Rightarrow> bool \<Rightarrow> ('a kmem_scheme, unit) kproc" where
  "uvmunmap pagetable va npages do_free =
     (if va mod PGSIZE \<noteq> 0 then panic ''uvmunmap: not aligned''
      else uvmunmap_loop (Suc (unat npages)) pagetable va (va + npages * PGSIZE) do_free)"

definition uvmcreate :: "('a kmem_scheme, addr) kproc" where
  "uvmcreate =
     bind kalloc (\<lambda>pagetable.
     if pagetable = 0 then return 0 else
     bind (kmemset pagetable 0 (ucast PGSIZE)) (\<lambda>_. return pagetable))"

definition uvmfirst :: "addr \<Rightarrow> byte list \<Rightarrow> ('a kmem_scheme, unit) kproc" where
  "uvmfirst pagetable src =
     (if length src \<ge> 4096 then panic ''uvmfirst: more than a page'' else
      bind kalloc (\<lambda>m.
      bind (kmemset m 0 (ucast PGSIZE)) (\<lambda>_.
      bind (mappages pagetable 0 PGSIZE m (PTE_W OR PTE_R OR PTE_X OR PTE_U)) (\<lambda>_.
      kwrite m src))))"

definition uvmdealloc :: "addr \<Rightarrow> uint64 \<Rightarrow> uint64 \<Rightarrow> ('a kmem_scheme, uint64) kproc" where
  "uvmdealloc pagetable oldsz newsz =
     (if newsz \<ge> oldsz then return oldsz else
      bind (whenM (PGROUNDUP newsz < PGROUNDUP oldsz)
        (uvmunmap pagetable (PGROUNDUP newsz)
           (scast (ucast ((PGROUNDUP oldsz - PGROUNDUP newsz) div PGSIZE) :: uint)) True)) (\<lambda>_.
      return newsz))"

fun uvmalloc_loop :: "nat \<Rightarrow> addr \<Rightarrow> uint64 \<Rightarrow> uint64 \<Rightarrow> uint64 \<Rightarrow> uint64 \<Rightarrow> ('a kmem_scheme, uint64) kproc" where
  "uvmalloc_loop 0 pagetable a oldsz newsz xperm = hang"
| "uvmalloc_loop (Suc fuel) pagetable a oldsz newsz xperm =
     (if a < newsz then
        bind kalloc (\<lambda>m.
        if m = 0 then bind (uvmdealloc pagetable a oldsz) (\<lambda>_. return 0) else
        bind (kmemset m 0 (ucast PGSIZE)) (\<lambda>_.
        bind (mappages pagetable a PGSIZE m (PTE_R OR PTE_U OR xperm)) (\<lambda>r.
        if r \<noteq> 0 then
          bind (kfree m) (\<lambda>_. bind (uvmdealloc pagetable a oldsz) (\<lambda>_. return 0))
        else uvmalloc_loop fuel pagetable (a + PGSIZE) oldsz newsz xperm)))
      else return newsz)"

definition uvmalloc :: "addr \<Rightarrow> uint64 \<Rightarrow> uint64 \<Rightarrow> uint64 \<Rightarrow> ('a kmem_scheme, uint64) kproc" where
  "uvmalloc pagetable oldsz newsz xperm =
     (if newsz < oldsz then return oldsz else
      uvmalloc_loop (Suc (Suc (unat newsz div 4096))) pagetable (PGROUNDUP oldsz) (PGROUNDUP oldsz) newsz xperm)"

text \<open>
  freewalk() recurses into page-table pages; a three-level table has recursion depth three,
  which is the fuel.
\<close>

fun freewalk_loop :: "(addr \<Rightarrow> ('a kmem_scheme, unit) kproc) \<Rightarrow> addr \<Rightarrow> nat list \<Rightarrow> ('a kmem_scheme, unit) kproc" where
  "freewalk_loop rec pagetable [] = kfree pagetable"
| "freewalk_loop rec pagetable (i # is) =
     bind (rd_pte (pte_addr pagetable (of_nat i))) (\<lambda>pte.
     if has pte PTE_V \<and> pte AND (PTE_R OR PTE_W OR PTE_X) = 0 then
       bind (rec (PTE2PA pte)) (\<lambda>_.
       bind (wr_pte (pte_addr pagetable (of_nat i)) 0) (\<lambda>_.
       freewalk_loop rec pagetable is))
     else if has pte PTE_V then panic ''freewalk: leaf''
     else freewalk_loop rec pagetable is)"

fun freewalk :: "nat \<Rightarrow> addr \<Rightarrow> ('a kmem_scheme, unit) kproc" where
  "freewalk 0 pagetable = hang"
| "freewalk (Suc depth) pagetable = freewalk_loop (freewalk depth) pagetable [0..<512]"

definition uvmfree :: "addr \<Rightarrow> uint64 \<Rightarrow> ('a kmem_scheme, unit) kproc" where
  "uvmfree pagetable sz =
     bind (whenM (sz > 0) (uvmunmap pagetable 0 (PGROUNDUP sz div PGSIZE) True)) (\<lambda>_.
     freewalk 3 pagetable)"

fun uvmcopy_loop :: "nat \<Rightarrow> addr \<Rightarrow> addr \<Rightarrow> uint64 \<Rightarrow> uint64 \<Rightarrow> ('a kmem_scheme, int) kproc" where
  "uvmcopy_loop 0 old new i sz = hang"
| "uvmcopy_loop (Suc fuel) old new i sz =
     (if i < sz then
        bind (walk old i False) (\<lambda>pte.
        if pte = 0 then panic ''uvmcopy: pte should exist'' else
        bind (rd_pte pte) (\<lambda>e.
        if \<not> has e PTE_V then panic ''uvmcopy: page not present'' else
        bind kalloc (\<lambda>m.
        if m = 0 then bind (uvmunmap new 0 (i div PGSIZE) True) (\<lambda>_. return (-1)) else
        bind (kmemmove m (PTE2PA e) (ucast PGSIZE)) (\<lambda>_.
        bind (mappages new i PGSIZE m (PTE_FLAGS e)) (\<lambda>r.
        if r \<noteq> 0 then
          bind (kfree m) (\<lambda>_. bind (uvmunmap new 0 (i div PGSIZE) True) (\<lambda>_. return (-1)))
        else uvmcopy_loop fuel old new (i + PGSIZE) sz)))))
      else return 0)"

definition uvmcopy :: "addr \<Rightarrow> addr \<Rightarrow> uint64 \<Rightarrow> ('a kmem_scheme, int) kproc" where
  "uvmcopy old new sz = uvmcopy_loop (Suc (Suc (unat sz div 4096))) old new 0 sz"

definition uvmclear :: "addr \<Rightarrow> uint64 \<Rightarrow> ('a kmem_scheme, unit) kproc" where
  "uvmclear pagetable va =
     bind (walk pagetable va False) (\<lambda>pte.
     if pte = 0 then panic ''uvmclear'' else
     bind (rd_pte pte) (\<lambda>e. wr_pte pte (e AND NOT PTE_U)))"

section \<open>Copies between kernel and user space\<close>

lemma page_offset_less: "unat (va - PGROUNDDOWN va) < 4096"
  using in_page_iff [of "PGROUNDDOWN va" va] by simp

lemma chunk_pos: "bs \<noteq> [] \<Longrightarrow> 0 < min (4096 - unat (va - PGROUNDDOWN va)) (length bs)"
  using page_offset_less [of va] by simp

function copyout :: "addr \<Rightarrow> uint64 \<Rightarrow> byte list \<Rightarrow> ('a kmem_scheme, int) kproc" where
  "copyout pagetable dstva src =
     (if src = [] then return 0 else
      let va0 = PGROUNDDOWN dstva in
      if va0 \<ge> MAXVA then return (-1) else
      bind (walk pagetable va0 False) (\<lambda>pte.
      if pte = 0 then return (-1) else
      bind (rd_pte pte) (\<lambda>e.
      if \<not> has e PTE_V \<or> \<not> has e PTE_U \<or> \<not> has e PTE_W then return (-1) else
      let pa0 = PTE2PA e; n = min (4096 - unat (dstva - va0)) (length src) in
      bind (kwrite (pa0 + (dstva - va0)) (take n src)) (\<lambda>_.
      copyout pagetable (va0 + PGSIZE) (drop n src)))))"
  by pat_completeness auto
termination
  by (relation "measure (\<lambda>(_, _, src). length src)") (auto simp: chunk_pos page_offset_less)

declare copyout.simps [simp del]

function copyin :: "addr \<Rightarrow> uint64 \<Rightarrow> nat \<Rightarrow> ('a kmem_scheme, int \<times> byte list) kproc" where
  "copyin pagetable srcva len =
     (if len = 0 then return (0, []) else
      let va0 = PGROUNDDOWN srcva in
      bind (walkaddr pagetable va0) (\<lambda>pa0.
      if pa0 = 0 then return (-1, []) else
      let n = min (4096 - unat (srcva - va0)) len in
      bind (gets (\<lambda>s. rd_bytes (mem s) (pa0 + (srcva - va0)) n)) (\<lambda>bs.
      bind (copyin pagetable (va0 + PGSIZE) (len - n)) (\<lambda>(r, rest).
      return (r, bs @ rest)))))"
  by pat_completeness auto
termination
  by (relation "measure (\<lambda>(_, _, len). len)") (auto simp: page_offset_less)

declare copyin.simps [simp del]

text \<open>The inner loop of copyinstr(): the bytes stored at \<open>dst\<close>, and whether the nul was seen.\<close>

fun copyinstr_page :: "mem \<Rightarrow> addr \<Rightarrow> nat \<Rightarrow> byte list \<times> bool" where
  "copyinstr_page m p 0 = ([], False)"
| "copyinstr_page m p (Suc n) =
     (if m p = 0 then ([0], True)
      else let (bs, got) = copyinstr_page m (p + 1) n in (m p # bs, got))"

function copyinstr :: "addr \<Rightarrow> uint64 \<Rightarrow> nat \<Rightarrow> ('a kmem_scheme, int \<times> byte list) kproc" where
  "copyinstr pagetable srcva mx =
     (if mx = 0 then return (-1, []) else
      let va0 = PGROUNDDOWN srcva in
      bind (walkaddr pagetable va0) (\<lambda>pa0.
      if pa0 = 0 then return (-1, []) else
      let n = min (4096 - unat (srcva - va0)) mx in
      bind (gets (\<lambda>s. copyinstr_page (mem s) (pa0 + (srcva - va0)) n)) (\<lambda>(bs, got).
      if got then return (0, bs)
      else bind (copyinstr pagetable (va0 + PGSIZE) (mx - n)) (\<lambda>(r, rest).
        return (r, bs @ rest)))))"
  by pat_completeness auto
termination
  by (relation "measure (\<lambda>(_, _, mx). mx)") (auto simp: page_offset_less)

declare copyinstr.simps [simp del]

section \<open>The kernel's own page table\<close>

text \<open>proc_mapstacks() of kernel/proc.c is called from here.\<close>

definition proc_mapstacks :: "addr \<Rightarrow> ('a kmem_scheme, unit) kproc" where
  "proc_mapstacks kpgtbl = forM [0..<NPROC] (\<lambda>p.
     bind kalloc (\<lambda>pa.
     if pa = 0 then panic ''kalloc''
     else kvmmap kpgtbl (KSTACK p) pa PGSIZE (PTE_R OR PTE_W)))"

definition kvmmake :: "uint64 \<Rightarrow> uint64 \<Rightarrow> ('a kmem_scheme, addr) kproc" where
  "kvmmake etext trampoline =
     bind kalloc (\<lambda>kpgtbl.
     bind (kmemset kpgtbl 0 (ucast PGSIZE)) (\<lambda>_.
     bind (kvmmap kpgtbl UART0 UART0 PGSIZE (PTE_R OR PTE_W)) (\<lambda>_.
     bind (kvmmap kpgtbl VIRTIO0 VIRTIO0 PGSIZE (PTE_R OR PTE_W)) (\<lambda>_.
     bind (kvmmap kpgtbl PLIC PLIC 0x4000000 (PTE_R OR PTE_W)) (\<lambda>_.
     bind (kvmmap kpgtbl KERNBASE KERNBASE (etext - KERNBASE) (PTE_R OR PTE_X)) (\<lambda>_.
     bind (kvmmap kpgtbl etext etext (PHYSTOP - etext) (PTE_R OR PTE_W)) (\<lambda>_.
     bind (kvmmap kpgtbl TRAMPOLINE trampoline PGSIZE (PTE_R OR PTE_X)) (\<lambda>_.
     bind (proc_mapstacks kpgtbl) (\<lambda>_.
     return kpgtbl)))))))))"

end
