(* ===== verification/Vm_Table.thy ===== *)
theory Vm_Table
  imports Vm
begin

text \<open>
  Page tables as trees in memory.  \<open>tab m root path\<close> is the table page reached from the
  root through the entries of \<open>path\<close>; \<open>leaf m root va\<close> is the page-table entry for
  a virtual address (0 when there is none).  The invariant \<open>vm_inv\<close> says that the table pages
  are pages of the heap, reached by one path only, and not free.  The lemmas say what allocating
  a table page and writing an entry do to the tree.
\<close>

section \<open>Entries in memory\<close>

definition entry :: "mem \<Rightarrow> addr \<Rightarrow> uint64 \<Rightarrow> uint64" where
  "entry m p i = load64 m (pte_addr p i)"

definition child :: "mem \<Rightarrow> addr \<Rightarrow> uint64 \<Rightarrow> addr option" where
  "child m p i = (if has (entry m p i) PTE_V then Some (PTE2PA (entry m p i)) else None)"

lemma pte_addr_nat: "pte_addr p i = p + of_nat (8 * unat i)"
  by (simp add: pte_addr_def)

lemma entry_same_but:
  assumes "same_but P m m'" and "page_aligned p" and "p \<notin> P" and "unat i < 512"
  shows "entry m' p i = entry m p i"
  using rd_same_but [OF assms(1-3), of "8 * unat i" 8] assms(4)
  by (simp add: entry_def load64_def pte_addr_nat)

lemma of_nat_inj64: "a < 2 ^ 64 \<Longrightarrow> b < 2 ^ 64 \<Longrightarrow> (of_nat a :: 64 word) = of_nat b \<Longrightarrow> a = b"
  by (metis unat_of_nat_64)

lemma entry_store_other:
  assumes "unat i < 512" and "unat j < 512" and "i \<noteq> j"
  shows "entry (store64 m (pte_addr p i) v) p j = entry m p j"
proof -
  have "8 \<le> unat (pte_addr p j + of_nat k - pte_addr p i)" if k: "k < 8" for k
  proof (rule ccontr)
    assume "\<not> ?thesis"
    then obtain t where t: "t < 8" "unat (pte_addr p j + of_nat k - pte_addr p i) = t" by auto
    then have "pte_addr p j + of_nat k = pte_addr p i + of_nat t" by (simp add: unat_diff_iff)
    then have "(of_nat (8 * unat j + k) :: 64 word) = of_nat (8 * unat i + t)"
      by (simp add: pte_addr_nat)
    then have "8 * unat j + k = 8 * unat i + t"
      by (rule of_nat_inj64 [rotated 2]) (use assms k t in auto)
    then have "unat j = unat i" using k t by presburger
    with assms(3) show False by (simp add: word_unat_eq_iff)
  qed
  then show ?thesis by (simp add: entry_def load64_def store64_def rd_wr_other)
qed

lemma entry_store:
  assumes "unat i < 512" and "unat j < 512"
  shows "entry (store64 m (pte_addr p i) v) p j = (if i = j then v else entry m p j)"
  using entry_store_other [OF assms] by (auto simp: entry_def load_store_same)

lemma entry_zeroed:
  assumes "page_aligned p" and "unat i < 512"
  shows "entry (memset m p 0 (ucast PGSIZE)) p i = 0"
proof -
  have "rd_bytes (memset m p 0 (ucast PGSIZE)) (pte_addr p i) 8 = replicate 8 0"
  proof (rule nth_equalityI)
    fix k assume "k < length (rd_bytes (memset m p 0 (ucast PGSIZE)) (pte_addr p i) 8)"
    then have k: "8 * unat i + k < 4096" "k < 8" using assms by auto
    then have "wr_bytes m p (replicate 4096 0) (p + of_nat (8 * unat i + k)) = replicate 4096 0 ! (8 * unat i + k)"
      by (intro wr_bytes_at) simp_all
    with k show "rd_bytes (memset m p 0 (ucast PGSIZE)) (pte_addr p i) 8 ! k = replicate 8 0 ! k"
      by (simp add: memset_eq PGSIZE_def pte_addr_nat add.assoc)
  qed simp
  then show ?thesis by (simp add: entry_def load64_def le_dec_zeros)
qed

lemma same_but_entry: "page_aligned p \<Longrightarrow> unat i < 512 \<Longrightarrow> same_but {p} m (store64 m (pte_addr p i) v)"
  by (simp add: store64_def pte_addr_nat same_but_wr del: of_nat_mult)

lemma pte_addr_nonnull:
  assumes "page_aligned p" and "0 < p" and "unat i < 512"
  shows "pte_addr p i \<noteq> 0"
proof
  assume "pte_addr p i = 0"
  moreover have "PGROUNDDOWN (pte_addr p i) = p"
    unfolding pte_addr_nat using assms by (intro page_offset) auto
  ultimately have "p = PGROUNDDOWN 0" by simp
  then show False using assms(2) by (simp add: PGROUNDDOWN_def)
qed

lemma has_exp: "has x (2 ^ k) = bit x k"
  unfolding has_def by (simp only: and_exp_eq_0_iff_not_bit not_not)

lemma has_PTE:
  "has x PTE_V = bit x 0" "has x PTE_R = bit x 1" "has x PTE_W = bit x 2" "has x PTE_X = bit x 3"
  "has x PTE_U = bit x 4"
  using has_exp [of x 0] has_exp [of x 1] has_exp [of x 2] has_exp [of x 3] has_exp [of x 4]
  by (simp_all add: pte_bits)

lemma has_V_or [simp]: "has (x OR PTE_V) PTE_V" "has (x OR y OR PTE_V) PTE_V"
  by (simp_all add: has_PTE bit_or_iff) (simp_all add: PTE_V_def)

lemma has_0 [simp]: "\<not> has 0 f"
  by (simp add: has_def)

section \<open>The tree\<close>

fun tab :: "mem \<Rightarrow> addr \<Rightarrow> uint64 list \<Rightarrow> addr option" where
  "tab m p [] = Some p"
| "tab m p (i # is) = (case child m p i of None \<Rightarrow> None | Some q \<Rightarrow> tab m q is)"

definition idxs :: "uint64 list \<Rightarrow> bool" where
  "idxs path \<longleftrightarrow> (\<forall>i \<in> set path. unat i < 512)"

definition path :: "uint64 \<Rightarrow> uint64 list" where
  "path va = [PX 2 va, PX 1 va]"

definition leaf :: "mem \<Rightarrow> addr \<Rightarrow> uint64 \<Rightarrow> uint64" where
  "leaf m root va = (case tab m root (path va) of None \<Rightarrow> 0 | Some p \<Rightarrow> entry m p (PX 0 va))"

definition tables :: "mem \<Rightarrow> addr \<Rightarrow> addr set" where
  "tables m root = {p. \<exists>pth. length pth \<le> 2 \<and> idxs pth \<and> tab m root pth = Some p}"

definition pt_inv :: "'a kmem_scheme \<Rightarrow> addr \<Rightarrow> bool" where
  "pt_inv s root \<longleftrightarrow>
     (\<forall>p \<in> tables (mem s) root. heap_page s p \<and> p \<notin> free_pages s) \<and>
     (\<forall>pth pth' p. length pth \<le> 2 \<longrightarrow> length pth' \<le> 2 \<longrightarrow> idxs pth \<longrightarrow> idxs pth' \<longrightarrow>
        tab (mem s) root pth = Some p \<longrightarrow> tab (mem s) root pth' = Some p \<longrightarrow> pth = pth')"

definition vm_inv :: "'a kmem_scheme \<Rightarrow> addr \<Rightarrow> bool" where
  "vm_inv s root \<longleftrightarrow> kmem_ok s \<and> pt_inv s root"

lemma idxs_simps [simp]: "idxs []" "idxs (i # is) \<longleftrightarrow> unat i < 512 \<and> idxs is"
  "idxs (xs @ ys) \<longleftrightarrow> idxs xs \<and> idxs ys"
  by (auto simp: idxs_def)

lemma idxs_path [simp]: "idxs (path va)" "length (path va) = 2"
  by (simp_all add: path_def PX_less)

lemma tab_append: "tab m p (xs @ ys) = (case tab m p xs of None \<Rightarrow> None | Some q \<Rightarrow> tab m q ys)"
  by (induction xs arbitrary: p) (auto split: option.splits)

lemma tablesI: "length pth \<le> 2 \<Longrightarrow> idxs pth \<Longrightarrow> tab m root pth = Some p \<Longrightarrow> p \<in> tables m root"
  by (auto simp: tables_def)

lemma root_table [simp]: "root \<in> tables m root"
  by (rule tablesI [of "[]"]) simp_all

text \<open>A change that keeps the children of every table page above the last level keeps the tree.\<close>

lemma tab_frame:
  assumes "\<And>pth p i. length pth \<le> 1 \<Longrightarrow> idxs pth \<Longrightarrow> unat i < 512 \<Longrightarrow> tab m root pth = Some p \<Longrightarrow>
      child m' p i = child m p i"
    and "length pth \<le> 2" and "idxs pth"
  shows "tab m' root pth = tab m root pth"
  using assms(2,3)
proof (induction pth rule: rev_induct)
  case Nil
  then show ?case by simp
next
  case (snoc i pth)
  then show ?case
    using assms(1) [of pth i] by (auto simp: tab_append split: option.splits)
qed

lemma length_le2_cases:
  assumes "length xs \<le> 2"
  obtains "xs = []" | a where "xs = [a]" | a b where "xs = [a, b]"
  using assms by (cases xs; cases "tl xs") (auto simp: neq_Nil_conv)

text \<open>
  A new table page \<open>q\<close>, all of whose entries are invalid, hung into the empty entry
  \<open>i\<close> of the table at \<open>pth\<close> adds exactly one path.
\<close>

lemma tab_install:
  assumes inj: "\<And>pth pth' p. length pth \<le> 2 \<Longrightarrow> length pth' \<le> 2 \<Longrightarrow> idxs pth \<Longrightarrow> idxs pth' \<Longrightarrow>
        tab m root pth = Some p \<Longrightarrow> tab m root pth' = Some p \<Longrightarrow> pth = pth'"
    and new: "q \<notin> tables m root"
    and at: "tab m root pth = Some p0" "length pth \<le> 1" "idxs pth" "unat i < 512"
    and none: "child m p0 i = None"
    and old: "\<And>p j. p \<in> tables m root \<Longrightarrow> unat j < 512 \<Longrightarrow>
        child m' p j = (if p = p0 \<and> j = i then Some q else child m p j)"
    and fresh: "\<And>j. unat j < 512 \<Longrightarrow> child m' q j = None"
    and len: "length xs \<le> 2" "idxs xs"
  shows "tab m' root xs = (if xs = pth @ [i] then Some q else tab m root xs)"
  using len
proof (induction xs rule: rev_induct)
  case Nil
  then show ?case by simp
next
  case (snoc j xs)
  then have len1: "length xs \<le> 1" "idxs xs" "unat j < 512" by auto
  show ?case
  proof (cases "tab m root xs")
    case None
    then have "xs \<noteq> pth" using at by auto
    show ?thesis
    proof (cases "xs = pth @ [i]")
      case True
      with snoc len1 fresh [of j] None \<open>xs \<noteq> pth\<close> show ?thesis
        by (auto simp: tab_append split: option.splits)
    next
      case False
      with snoc len1 None \<open>xs \<noteq> pth\<close> show ?thesis by (simp add: tab_append)
    qed
  next
    case (Some p)
    have p: "p \<in> tables m root" by (rule tablesI [OF _ _ Some]) (use len1 in auto)
    have ne: "xs \<noteq> pth @ [i]" using at none Some by (auto simp: tab_append)
    have "p = p0 \<longleftrightarrow> xs = pth" using inj [of xs pth p0] at Some len1 by auto
    with snoc len1 Some ne old [OF p len1(3)] show ?thesis
      by (simp add: tab_append split: option.splits)
  qed
qed


section \<open>The state\<close>

lemma kmem_ok_write:
  assumes "kmem_ok s" and "same_but P (mem s) m'" and "P \<inter> free_pages s = {}"
  shows "kmem_ok (s\<lparr>mem := m'\<rparr>)" and "free_pages (s\<lparr>mem := m'\<rparr>) = free_pages s"
proof -
  obtain ps where ps: "LkKmem \<notin> held s" "kmem_inv s ps" "free_pages s = set ps"
    using assms(1) by (elim kmem_okE)
  then have "\<forall>p \<in> set ps. page_aligned p \<and> p \<notin> P"
    using assms(3) by (auto simp: kmem_inv_def heap_page_def)
  then have "kmem_inv (s\<lparr>mem := m'\<rparr>) ps"
    using ps flist_same_but [OF assms(2)] by (simp add: kmem_inv_def heap_page_def)
  with ps show "kmem_ok (s\<lparr>mem := m'\<rparr>)" "free_pages (s\<lparr>mem := m'\<rparr>) = free_pages s"
    by (auto simp: kmem_ok_def free_pages_eq)
qed

lemma heap_page_simps [simp]:
  "heap_page (s\<lparr>mem := m'\<rparr>) p = heap_page s p" "heap_page (s\<lparr>freelist := f\<rparr>) p = heap_page s p"
  by (simp_all add: heap_page_def)

lemma heap_pageD:
  assumes "heap_page s p"
  shows "page_aligned p" and "unat p < 2 ^ 56"
  using assms by (auto simp: heap_page_def word_less_nat_alt PHYSTOP_unat)

lemma kmem_ok_kend: "kmem_ok s \<Longrightarrow> 0 < kend s"
  by (auto simp: kmem_ok_def kmem_inv_def)

lemma heap_page_pos: "kmem_ok s \<Longrightarrow> heap_page s p \<Longrightarrow> 0 < p"
  using kmem_ok_kend by (auto simp: heap_page_def intro: less_le_trans)

lemma vm_invD:
  assumes "vm_inv s root"
  shows "kmem_ok s"
    and "p \<in> tables (mem s) root \<Longrightarrow> heap_page s p" and "p \<in> tables (mem s) root \<Longrightarrow> p \<notin> free_pages s"
    and "length pth \<le> 2 \<Longrightarrow> length pth' \<le> 2 \<Longrightarrow> idxs pth \<Longrightarrow> idxs pth' \<Longrightarrow>
        tab (mem s) root pth = Some p \<Longrightarrow> tab (mem s) root pth' = Some p \<Longrightarrow> pth = pth'"
  using assms unfolding vm_inv_def pt_inv_def by blast+

subsection \<open>Writing a leaf entry\<close>

lemma leaf_at:
  "tab m root (path va) = Some p \<Longrightarrow> leaf m root va = entry m p (PX 0 va)"
  by (simp add: leaf_def)

lemma wr_leaf_tab:
  assumes "vm_inv s root" and "tab (mem s) root (path va) = Some p" and "unat i < 512"
    and "length pth \<le> 2" and "idxs pth"
  shows "tab (store64 (mem s) (pte_addr p i) v) root pth = tab (mem s) root pth"
proof (rule tab_frame [OF _ assms(4,5)])
  fix xs q and j :: uint64
  assume xs: "length xs \<le> 1" "idxs xs" "unat j < 512" "tab (mem s) root xs = Some q"
  have q: "q \<in> tables (mem s) root" by (rule tablesI [OF _ _ xs(4)]) (use xs in auto)
  have p: "p \<in> tables (mem s) root" by (rule tablesI [OF _ _ assms(2)]) simp_all
  have "q \<noteq> p"
  proof
    assume "q = p"
    then have "xs = path va" using vm_invD(4) [OF assms(1), of xs "path va" p] xs assms(2) by simp
    with xs show False by (simp add: path_def)
  qed
  then have "entry (store64 (mem s) (pte_addr p i) v) q j = entry (mem s) q j"
    using entry_same_but [OF same_but_entry [of p i], of q j] xs(3) assms(3)
      heap_pageD(1) [OF vm_invD(2) [OF assms(1) p]] heap_pageD(1) [OF vm_invD(2) [OF assms(1) q]] by simp
  then show "child (store64 (mem s) (pte_addr p i) v) q j = child (mem s) q j" by (simp add: child_def)
qed

lemma vm_inv_frame:
  assumes "vm_inv s root" and "\<And>pth. length pth \<le> 2 \<Longrightarrow> idxs pth \<Longrightarrow> tab m' root pth = tab (mem s) root pth"
    and "kmem_ok (s\<lparr>mem := m'\<rparr>)" and "free_pages (s\<lparr>mem := m'\<rparr>) = free_pages s"
  shows "vm_inv (s\<lparr>mem := m'\<rparr>) root"
proof -
  have "tables m' root = tables (mem s) root" using assms(2) by (auto simp: tables_def)
  with assms show ?thesis by (simp add: vm_inv_def pt_inv_def)
qed

text \<open>The entry of a virtual address is one cell of one table page.\<close>

lemma PX_page_inj:
  assumes "va < MAXVA" and "va' < MAXVA" and "\<forall>l < 3. PX l va = PX l va'"
  shows "PGROUNDDOWN va = PGROUNDDOWN va'"
proof (rule bit_word_eqI)
  fix n assume n: "n < LENGTH(64)"
  have hi: "\<not> bit w k" if "w < MAXVA" "38 \<le> k" for w :: uint64 and k
    using that unat_less_bit [of w 38 k] by (simp add: MAXVA_def word_less_nat_alt)
  show "bit (PGROUNDDOWN va) n = bit (PGROUNDDOWN va') n"
  proof (cases "12 \<le> n \<and> n < 38")
    case True
    let ?l = "(n - 12) div 9" and ?k = "(n - 12) mod 9"
    have "?l < 3" by (rule less_mult_imp_div_less) (use True in arith)
    moreover have "12 + 9 * ?l + ?k = n" using True by simp
    moreover from \<open>?l < 3\<close> have "bit (PX ?l va) ?k = bit (PX ?l va') ?k" using assms(3) by simp
    ultimately have "bit va n = bit va' n" by (simp add: bit_PX)
    then show ?thesis by (simp add: bit_PGROUNDDOWN)
  next
    case False
    with hi [OF assms(1), of n] hi [OF assms(2), of n] show ?thesis
      by (auto simp: bit_PGROUNDDOWN not_less)
  qed
qed

lemma PX_PGROUNDDOWN [simp]: "PX l (PGROUNDDOWN va) = PX l va"
  by (rule bit_word_eqI) (simp add: bit_PX bit_PGROUNDDOWN)

lemma path_PGROUNDDOWN [simp]: "path (PGROUNDDOWN va) = path va"
  by (simp add: path_def)

lemma same_page_path:
  assumes "va < MAXVA" and "va' < MAXVA"
  shows "path va = path va' \<and> PX 0 va = PX 0 va' \<longleftrightarrow> PGROUNDDOWN va = PGROUNDDOWN va'"
proof
  assume "path va = path va' \<and> PX 0 va = PX 0 va'"
  then have "\<forall>l < 3. PX l va = PX l va'" by (auto simp: path_def numeral_3_eq_3 numeral_2_eq_2 less_Suc_eq)
  with assms show "PGROUNDDOWN va = PGROUNDDOWN va'" by (rule PX_page_inj)
next
  assume "PGROUNDDOWN va = PGROUNDDOWN va'"
  then show "path va = path va' \<and> PX 0 va = PX 0 va'"
    by (metis PX_PGROUNDDOWN path_PGROUNDDOWN)
qed

lemma wr_leaf_leaf:
  assumes "vm_inv s root" and "tab (mem s) root (path va) = Some p" and "va < MAXVA" and "va' < MAXVA"
  shows "leaf (store64 (mem s) (pte_addr p (PX 0 va)) v) root va' =
    (if PGROUNDDOWN va' = PGROUNDDOWN va then v else leaf (mem s) root va')"
proof -
  let ?m = "store64 (mem s) (pte_addr p (PX 0 va)) v"
  have p: "p \<in> tables (mem s) root" by (rule tablesI [OF _ _ assms(2)]) simp_all
  have tab: "tab ?m root (path va') = tab (mem s) root (path va')"
    by (rule wr_leaf_tab [OF assms(1,2)]) (simp_all add: PX_less)
  show ?thesis
  proof (cases "tab (mem s) root (path va')")
    case None
    with assms(2) have "path va' \<noteq> path va" by auto
    with None tab same_page_path [OF assms(4,3)] show ?thesis by (auto simp: leaf_def)
  next
    case (Some q)
    have q: "q \<in> tables (mem s) root" by (rule tablesI [OF _ _ Some]) simp_all
    show ?thesis
    proof (cases "q = p")
      case True
      then have "path va' = path va" using vm_invD(4) [OF assms(1), of "path va'" "path va" p] Some assms(2) by simp
      with True tab Some same_page_path [OF assms(4,3)] show ?thesis
        by (auto simp: leaf_def entry_store PX_less)
    next
      case False
      then have "path va' \<noteq> path va" using Some assms(2) by auto
      then have ne: "PGROUNDDOWN va' \<noteq> PGROUNDDOWN va" using same_page_path [OF assms(4,3)] by auto
      have "entry ?m q (PX 0 va') = entry (mem s) q (PX 0 va')"
        using entry_same_but [OF same_but_entry [of p "PX 0 va"], of q "PX 0 va'"] False
          heap_pageD(1) [OF vm_invD(2) [OF assms(1) p]] heap_pageD(1) [OF vm_invD(2) [OF assms(1) q]]
        by (simp add: PX_less)
      with Some tab ne show ?thesis by (simp add: leaf_def)
    qed
  qed
qed

lemma wr_leaf_inv:
  assumes "vm_inv s root" and "tab (mem s) root (path va) = Some p"
  shows "vm_inv (s\<lparr>mem := store64 (mem s) (pte_addr p (PX 0 va)) v\<rparr>) root"
    and "free_pages (s\<lparr>mem := store64 (mem s) (pte_addr p (PX 0 va)) v\<rparr>) = free_pages s"
proof -
  have p: "p \<in> tables (mem s) root" by (rule tablesI [OF _ _ assms(2)]) simp_all
  have sb: "same_but {p} (mem s) (store64 (mem s) (pte_addr p (PX 0 va)) v)"
    using heap_pageD(1) [OF vm_invD(2) [OF assms(1) p]] by (simp add: same_but_entry PX_less)
  have "{p} \<inter> free_pages s = {}" using vm_invD(3) [OF assms(1) p] by simp
  note w = kmem_ok_write [OF vm_invD(1) [OF assms(1)] sb this]
  show "free_pages (s\<lparr>mem := store64 (mem s) (pte_addr p (PX 0 va)) v\<rparr>) = free_pages s" by (rule w(2))
  show "vm_inv (s\<lparr>mem := store64 (mem s) (pte_addr p (PX 0 va)) v\<rparr>) root"
    by (rule vm_inv_frame [OF assms(1) wr_leaf_tab [OF assms] w]) (simp_all add: PX_less)
qed


subsection \<open>walk()\<close>

text \<open>Without allocation walk() reads the tree.\<close>

lemma walk_noalloc:
  assumes "va < MAXVA"
  shows "walk root va False s = Ret (case tab (mem s) root (path va) of
      None \<Rightarrow> 0 | Some p \<Rightarrow> pte_addr p (PX 0 va)) s"
  using assms
  by (simp add: walk_def numeral_2_eq_2 kmon rd_pte_def path_def child_def entry_def)

text \<open>
  Allocating one table page under the table at \<open>pth\<close>: what walk() does at a level whose
  entry is invalid.
\<close>

definition new_table :: "addr \<Rightarrow> addr \<Rightarrow> uint64 \<Rightarrow> 'a kmem_scheme \<Rightarrow> 'a kmem_scheme" where
  "new_table q p0 i s = s\<lparr>mem := store64 (memset (mem s) q 0 (ucast PGSIZE)) (pte_addr p0 i) (PA2PTE q OR PTE_V)\<rparr>"

lemma PTE2PA_V [simp]: "heap_page s q \<Longrightarrow> PTE2PA (PA2PTE q OR PTE_V) = q"
  by (rule PTE2PA_PA2PTE) (auto dest: heap_pageD simp: PTE_V_def)

definition only_mem :: "'a kmem_scheme \<Rightarrow> 'a kmem_scheme \<Rightarrow> bool" where
  "only_mem s t \<longleftrightarrow> (\<exists>m f. t = s\<lparr>mem := m, freelist := f\<rparr>)"

lemma only_mem_refl [simp]: "only_mem s s"
  unfolding only_mem_def by (rule exI [of _ "mem s"], rule exI [of _ "freelist s"]) simp

lemma only_memI [intro]: "t = s\<lparr>mem := m, freelist := f\<rparr> \<Longrightarrow> only_mem s t"
  unfolding only_mem_def by blast

lemma only_memE:
  assumes "only_mem s t"
  obtains m f where "t = s\<lparr>mem := m, freelist := f\<rparr>"
  using assms unfolding only_mem_def by blast

lemma only_mem_trans [trans]: "only_mem s t \<Longrightarrow> only_mem t u \<Longrightarrow> only_mem s u"
  by (elim only_memE, rule only_memI, simp)

lemma only_mem_mem [simp]: "only_mem s (s\<lparr>mem := m\<rparr>)"
  by (rule only_memI [where f = "freelist s"]) simp

lemma only_mem_set_mem [simp]: "only_mem s (set_mem g s)"
  by (simp add: set_mem_def)

lemma only_mem_alloc [simp]: "only_mem s (alloc_result p f s)"
  unfolding alloc_result_def by (rule only_memI) (rule refl)

lemma only_mem_free [simp]: "only_mem s (free_result p s)"
  unfolding free_result_def by (rule only_memI) (rule refl)

lemma only_memD:
  assumes "only_mem s t"
  shows "held t = held s" and "kend t = kend s" and "procs t = procs s" and "curproc t = curproc s"
    and "slocks t = slocks s" and "kmem.more t = kmem.more s" and "heap_page t p = heap_page s p"
    and "nextpid t = nextpid s" and "initproc t = initproc s" and "ticks t = ticks s"
  using assms by (auto simp: only_mem_def heap_page_def)

text \<open>
  What a run that maps pages may change: it may take pages from the free list for tables, and
  write into table pages.
\<close>

definition vm_ext :: "'a kmem_scheme \<Rightarrow> addr \<Rightarrow> 'a kmem_scheme \<Rightarrow> bool" where
  "vm_ext s root t \<longleftrightarrow> vm_inv t root \<and> free_pages t \<subseteq> free_pages s \<and>
     same_but (tables (mem s) root \<union> (free_pages s - free_pages t)) (mem s) (mem t) \<and>
     tables (mem t) root = tables (mem s) root \<union> (free_pages s - free_pages t) \<and>
     only_mem s t"

definition walk_ext :: "'a kmem_scheme \<Rightarrow> addr \<Rightarrow> 'a kmem_scheme \<Rightarrow> bool" where
  "walk_ext s root t \<longleftrightarrow> vm_ext s root t \<and> (\<forall>va < MAXVA. leaf (mem t) root va = leaf (mem s) root va)"

lemma vm_ext_refl: "vm_inv s root \<Longrightarrow> vm_ext s root s"
  by (simp add: vm_ext_def)

lemma vm_extD: "vm_ext s root t \<Longrightarrow> vm_inv t root" "vm_ext s root t \<Longrightarrow> only_mem s t"
  by (simp_all add: vm_ext_def)

lemma walk_extD: "walk_ext s root t \<Longrightarrow> vm_ext s root t" "walk_ext s root t \<Longrightarrow> vm_inv t root"
  "walk_ext s root t \<Longrightarrow> va < MAXVA \<Longrightarrow> leaf (mem t) root va = leaf (mem s) root va"
  by (simp_all add: walk_ext_def vm_ext_def)

lemma walk_ext_refl: "vm_inv s root \<Longrightarrow> walk_ext s root s"
  by (simp add: walk_ext_def vm_ext_refl)

lemma vm_ext_trans:
  assumes "vm_ext s root t" and "vm_ext t root u"
  shows "vm_ext s root u"
proof -
  have fp: "free_pages s - free_pages u = (free_pages s - free_pages t) \<union> (free_pages t - free_pages u)"
    using assms by (auto simp: vm_ext_def)
  have tb: "tables (mem u) root = tables (mem s) root \<union> (free_pages s - free_pages u)"
    unfolding fp using assms by (auto simp: vm_ext_def)
  have "same_but (tables (mem s) root \<union> (free_pages s - free_pages t) \<union>
      (tables (mem t) root \<union> (free_pages t - free_pages u))) (mem s) (mem u)"
    using assms same_but_trans unfolding vm_ext_def by blast
  then have "same_but (tables (mem s) root \<union> (free_pages s - free_pages u)) (mem s) (mem u)"
    by (rule same_but_mono) (use assms fp in \<open>auto simp: vm_ext_def\<close>)
  moreover have "free_pages u \<subseteq> free_pages s"
    using assms by (auto simp: vm_ext_def)
  ultimately show ?thesis
    using assms tb only_mem_trans by (auto simp: vm_ext_def)
qed

lemma walk_ext_trans: "walk_ext s root t \<Longrightarrow> walk_ext t root u \<Longrightarrow> walk_ext s root u"
  using vm_ext_trans by (auto simp: walk_ext_def)

lemma kalloc_cases:
  assumes "kmem_ok s"
  obtains (empty) "free_pages s = {}" "kalloc s = Ret 0 s"
  | (page) q f where "q \<in> free_pages s" "heap_page s q" "q \<noteq> 0" "kalloc s = Ret q (alloc_result q f s)"
      "kmem_ok (alloc_result q f s)" "free_pages (alloc_result q f s) = free_pages s - {q}"
proof -
  obtain ps where ps: "LkKmem \<notin> held s" "kmem_inv s ps" "free_pages s = set ps"
    using assms by (elim kmem_okE)
  show thesis
  proof (cases ps)
    case Nil
    with ps show thesis by (intro empty) (auto simp: kalloc_empty)
  next
    case (Cons q qs)
    note inv = kmem_inv_alloc [OF ps(2) [unfolded Cons]]
    have "q \<notin> set qs" "heap_page s q" "q \<noteq> 0" using ps(2) Cons by (auto simp: kmem_inv_def)
    with ps Cons inv free_pages_eq [OF inv] show thesis
      by (intro page [of q "load64 (mem s) q"]) (auto simp: kalloc_page kmem_ok_def)
  qed
qed


lemma new_table_child:
  assumes "vm_inv s root" and q: "q \<in> free_pages s" "heap_page s q" and p0: "p0 \<in> tables (mem s) root"
    and i: "unat i < 512" and j: "unat j < 512"
  shows "p \<in> tables (mem s) root \<Longrightarrow> entry (mem (new_table q p0 i (alloc_result q f s))) p j
      = (if p = p0 \<and> j = i then PA2PTE q OR PTE_V else entry (mem s) p j)"
    and "entry (mem (new_table q p0 i (alloc_result q f s))) q j = 0"
proof -
  let ?m1 = "memset (memset (mem s) q 5 (ucast PGSIZE)) q 0 (ucast PGSIZE)"
  let ?m2 = "store64 ?m1 (pte_addr p0 i) (PA2PTE q OR PTE_V)"
  have m2: "mem (new_table q p0 i (alloc_result q f s)) = ?m2"
    by (simp add: new_table_def alloc_result_def)
  have al: "page_aligned q" "page_aligned p0"
    using q(2) vm_invD(2) [OF assms(1) p0] heap_pageD(1) by blast+
  have qp0: "q \<noteq> p0" using vm_invD(3) [OF assms(1) p0] q(1) by auto
  have sb1: "same_but {q} (mem s) ?m1"
    using same_but_trans [OF same_but_memset [OF al(1)] same_but_memset [OF al(1)], of "mem s" 5 0] by simp
  have sb2: "same_but {p0} ?m1 ?m2" by (rule same_but_entry [OF al(2) i])
  show "entry (mem (new_table q p0 i (alloc_result q f s))) q j = 0"
    unfolding m2 using entry_same_but [OF sb2 al(1) _ j] qp0 by (simp add: entry_zeroed al j)
  assume p: "p \<in> tables (mem s) root"
  then have pal: "page_aligned p" and pq: "p \<noteq> q"
    using vm_invD(2) [OF assms(1) p] heap_pageD(1) vm_invD(3) [OF assms(1) p] q(1) by auto
  have e1: "entry ?m1 p j = entry (mem s) p j" by (rule entry_same_but [OF sb1 pal _ j]) (use pq in simp)
  show "entry (mem (new_table q p0 i (alloc_result q f s))) p j
      = (if p = p0 \<and> j = i then PA2PTE q OR PTE_V else entry (mem s) p j)"
  proof (cases "p = p0")
    case True
    then show ?thesis unfolding m2 using e1 by (auto simp: entry_store [OF i j])
  next
    case False
    then show ?thesis unfolding m2 using entry_same_but [OF sb2 pal _ j] e1 by simp
  qed
qed

lemma new_table_tab:
  assumes "vm_inv s root" and q: "q \<in> free_pages s" "heap_page s q"
    and at: "tab (mem s) root pth = Some p0" "length pth \<le> 1" "idxs pth" "unat i < 512"
    and none: "child (mem s) p0 i = None" and len: "length xs \<le> 2" "idxs xs"
  shows "tab (mem (new_table q p0 i (alloc_result q f s))) root xs
    = (if xs = pth @ [i] then Some q else tab (mem s) root xs)"
proof (rule tab_install [OF vm_invD(4) [OF assms(1)] _ at none _ _ len])
  have p0: "p0 \<in> tables (mem s) root" by (rule tablesI [OF _ _ at(1)]) (use at in auto)
  note e = new_table_child [OF assms(1) q p0 at(4)]
  show "q \<notin> tables (mem s) root" using vm_invD(3) [OF assms(1)] q(1) by blast
  show "child (mem (new_table q p0 i (alloc_result q f s))) p j =
      (if p = p0 \<and> j = i then Some q else child (mem s) p j)"
    if "p \<in> tables (mem s) root" "unat j < 512" for p j
    using e(1) [OF that(2,1), of f] q(2) by (cases "p = p0 \<and> j = i") (auto simp: child_def)
  show "child (mem (new_table q p0 i (alloc_result q f s))) q j = None" if "unat j < 512" for j
    using e(2) [OF that] by (simp add: child_def)
qed


lemma tables_add:
  assumes tab: "\<And>xs. length xs \<le> 2 \<Longrightarrow> idxs xs \<Longrightarrow> tab m' root xs = (if xs = ys then Some q else tab m root xs)"
    and ys: "length ys \<le> 2" "idxs ys" "tab m root ys = None"
  shows "tables m' root = tables m root \<union> {q}"
proof (intro equalityI subsetI)
  fix p assume "p \<in> tables m' root"
  then show "p \<in> tables m root \<union> {q}" using tab by (auto simp: tables_def split: if_splits)
next
  fix p assume "p \<in> tables m root \<union> {q}"
  then consider "p = q" | xs where "length xs \<le> 2" "idxs xs" "tab m root xs = Some p" by (auto simp: tables_def)
  then show "p \<in> tables m' root"
  proof cases
    case 1
    then show ?thesis using tab [OF ys(1,2)] ys by (auto intro: tablesI)
  next
    case 2
    with ys(3) have "xs \<noteq> ys" by auto
    with 2 tab show ?thesis by (auto intro: tablesI)
  qed
qed

lemma new_table_leaf:
  assumes inv: "vm_inv s root" and q: "q \<in> free_pages s" "heap_page s q"
    and at: "tab (mem s) root pth = Some p0" "length pth \<le> 1" "idxs pth" "unat i < 512"
    and none: "child (mem s) p0 i = None"
  shows "leaf (mem (new_table q p0 i (alloc_result q f s))) root va = leaf (mem s) root va"
proof -
  let ?t = "new_table q p0 i (alloc_result q f s)"
  have p0: "p0 \<in> tables (mem s) root" by (rule tablesI [OF _ _ at(1)]) (use at in auto)
  note tab = new_table_tab [OF inv q at none, of "path va" f]
  show ?thesis
  proof (cases "path va = pth @ [i]")
    case True
    then have "leaf (mem ?t) root va = entry (mem ?t) q (PX 0 va)" using tab at(2-4) by (simp add: leaf_def)
    also have "\<dots> = 0" by (rule new_table_child(2) [OF inv q p0 at(4) PX_less])
    finally show ?thesis using True at(1) none by (simp add: leaf_def tab_append)
  next
    case False
    then have tv: "tab (mem ?t) root (path va) = tab (mem s) root (path va)" using tab by simp
    show ?thesis
    proof (cases "tab (mem s) root (path va)")
      case None
      then show ?thesis using tv by (simp add: leaf_def)
    next
      case (Some p)
      have pt: "p \<in> tables (mem s) root" by (rule tablesI [OF _ _ Some]) simp_all
      have "p \<noteq> p0"
      proof
        assume "p = p0"
        then have "path va = pth" using vm_invD(4) [OF inv, of "path va" pth p0] Some at by simp
        with at(2) idxs_path(2) [of va] show False by simp
      qed
      then show ?thesis
        using Some tv new_table_child(1) [OF inv q p0 at(4) PX_less pt, of f 0 va] by (simp add: leaf_def)
    qed
  qed
qed

lemma new_table_ext:
  assumes inv: "vm_inv s root" and q: "q \<in> free_pages s" "heap_page s q"
    and at: "tab (mem s) root pth = Some p0" "length pth \<le> 1" "idxs pth" "unat i < 512"
    and none: "child (mem s) p0 i = None"
    and ok: "kmem_ok (alloc_result q f s)" "free_pages (alloc_result q f s) = free_pages s - {q}"
  defines "t \<equiv> new_table q p0 i (alloc_result q f s)"
  shows "walk_ext s root t" and "tab (mem t) root (pth @ [i]) = Some q"
proof -
  have p0: "p0 \<in> tables (mem s) root" by (rule tablesI [OF _ _ at(1)]) (use at in auto)
  have p0f: "p0 \<notin> free_pages s" and qt: "q \<notin> tables (mem s) root"
    using vm_invD(3) [OF inv] p0 q(1) by blast+
  have al: "page_aligned q" "page_aligned p0" using q(2) vm_invD(2) [OF inv p0] heap_pageD(1) by blast+
  have tab: "tab (mem t) root xs = (if xs = pth @ [i] then Some q else tab (mem s) root xs)"
    if "length xs \<le> 2" "idxs xs" for xs
    unfolding t_def by (rule new_table_tab [OF inv q at none that])
  show tq: "tab (mem t) root (pth @ [i]) = Some q" using tab [of "pth @ [i]"] at by simp
  have tables: "tables (mem t) root = tables (mem s) root \<union> {q}"
    by (rule tables_add [OF tab]) (use at none in \<open>auto simp: tab_append\<close>)
  have sb: "same_but {q, p0} (mem (alloc_result q f s)) (mem t)"
    using same_but_trans [OF same_but_memset [OF al(1)] same_but_entry [OF al(2) at(4)]]
    by (simp add: t_def new_table_def insert_commute)
  have disj: "{q, p0} \<inter> free_pages (alloc_result q f s) = {}" using ok(2) p0f by auto
  have t_eq: "t = (alloc_result q f s)\<lparr>mem := mem t\<rparr>" by (simp add: t_def new_table_def)
  have fp: "free_pages t = free_pages s - {q}" and kok: "kmem_ok t"
    using kmem_ok_write [OF ok(1) sb disj] t_eq ok(2) by simp_all
  have om: "only_mem s t" by (subst t_eq) (rule only_mem_trans [OF only_mem_alloc only_mem_mem])
  have inj: "xs = ys" if "length xs \<le> 2" "length ys \<le> 2" "idxs xs" "idxs ys"
      "tab (mem t) root xs = Some p" "tab (mem t) root ys = Some p" for xs ys p
    using that tab vm_invD(4) [OF inv, of xs ys p] tablesI [of xs "mem s" root p] tablesI [of ys "mem s" root p] qt
    by (auto split: if_splits)
  have hp: "heap_page t p \<and> p \<notin> free_pages t" if "p \<in> tables (mem t) root" for p
    using that tables vm_invD(2,3) [OF inv, of p] q fp only_memD(7) [OF om] by auto
  have "vm_inv t root" using kok inj hp unfolding vm_inv_def pt_inv_def by blast
  moreover have "leaf (mem t) root va = leaf (mem s) root va" for va
    unfolding t_def by (rule new_table_leaf [OF inv q at none])
  moreover have "same_but (tables (mem s) root \<union> {q}) (mem s) (mem t)"
    by (rule same_but_mono [OF same_but_trans [OF mem_alloc_result [OF al(1)] sb]]) (use p0 in auto)
  ultimately show "walk_ext s root t"
    using fp tables om q(1) by (auto simp: walk_ext_def vm_ext_def double_diff Diff_Diff_Int)
qed

text \<open>
  walk() with allocation, from the table at \<open>pth\<close>: it returns the address of the entry of
  \<open>va\<close>, or 0 when the page allocator has run out; no leaf entry changes.
\<close>

lemma walk_level:
  assumes inv: "vm_inv s root" and at: "tab (mem s) root pth = Some p0" "length pth \<le> 1" "idxs pth"
  shows "(\<exists>t. walk_loop (Suc l) p0 va True s = Ret 0 t \<and> walk_ext s root t \<and> free_pages t = {}) \<or>
    (\<exists>q t. walk_loop (Suc l) p0 va True s = walk_loop l q va True t \<and> walk_ext s root t \<and>
       tab (mem t) root (pth @ [PX (Suc l) va]) = Some q)"
proof (cases "child (mem s) p0 (PX (Suc l) va)")
  case (Some q)
  then have "walk_loop (Suc l) p0 va True s = walk_loop l q va True s"
    by (auto simp: child_def entry_def kmon rd_pte_def split: if_splits)
  moreover have "tab (mem s) root (pth @ [PX (Suc l) va]) = Some q" using at(1) Some by (simp add: tab_append)
  ultimately show ?thesis using walk_ext_refl [OF inv] by blast
next
  case None
  then have nv: "\<not> has (load64 (mem s) (pte_addr p0 (PX (Suc l) va))) PTE_V"
    by (auto simp: child_def entry_def split: if_splits)
  show ?thesis
  proof (rule kalloc_cases [OF vm_invD(1) [OF inv]])
    assume "free_pages s = {}" "kalloc s = Ret 0 s"
    with nv have "walk_loop (Suc l) p0 va True s = Ret 0 s" by (simp add: kmon rd_pte_def)
    with walk_ext_refl [OF inv] \<open>free_pages s = {}\<close> show ?thesis by blast
  next
    fix q f
    assume q: "q \<in> free_pages s" "heap_page s q" "q \<noteq> 0" "kalloc s = Ret q (alloc_result q f s)"
      "kmem_ok (alloc_result q f s)" "free_pages (alloc_result q f s) = free_pages s - {q}"
    let ?t = "new_table q p0 (PX (Suc l) va) (alloc_result q f s)"
    have "walk_loop (Suc l) p0 va True s = walk_loop l q va True ?t"
      using nv q by (simp add: kmon rd_pte_def wr_pte_def kmemset_def set_mem_def new_table_def)
    moreover note new_table_ext [OF inv q(1,2) at PX_less None q(5,6)]
    ultimately show ?thesis by blast
  qed
qed

lemma walk_alloc:
  assumes inv: "vm_inv s root" and va: "va < MAXVA"
  shows "\<exists>r t. walk root va True s = Ret r t \<and> walk_ext s root t \<and>
    (r = 0 \<and> free_pages t = {} \<or>
     (\<exists>p. tab (mem t) root (path va) = Some p \<and> r = pte_addr p (PX 0 va) \<and> r \<noteq> 0))"
proof -
  have w: "walk root va True s = walk_loop (Suc (Suc 0)) root va True s"
    using leD [of MAXVA va] va by (auto simp: walk_def numeral_2_eq_2 simp del: walk_loop.simps)
  from walk_level [OF inv, of "[]" root "Suc 0" va] w consider
    (a) t where "walk root va True s = Ret 0 t" "walk_ext s root t" "free_pages t = {}"
  | (b) q t where "walk root va True s = walk_loop (Suc 0) q va True t" "walk_ext s root t"
      "tab (mem t) root [PX (Suc (Suc 0)) va] = Some q" by auto
  then show ?thesis
  proof cases
    case a
    then show ?thesis by blast
  next
    case b
    then have "vm_inv t root" by (simp add: walk_extD)
    from walk_level [OF this b(3), of 0 va] b(1) consider
      (a') u where "walk root va True s = Ret 0 u" "walk_ext t root u" "free_pages u = {}"
    | (b') p u where "walk root va True s = walk_loop 0 p va True u" "walk_ext t root u"
        "tab (mem u) root (path va) = Some p" by (auto simp: path_def numeral_2_eq_2 PX_less)
    then show ?thesis
    proof cases
      case a'
      then show ?thesis using walk_ext_trans [OF b(2)] by blast
    next
      case b'
      then have u: "vm_inv u root" by (simp add: walk_extD)
      have "p \<in> tables (mem u) root" by (rule tablesI [OF _ _ b'(3)]) simp_all
      then have "pte_addr p (PX 0 va) \<noteq> 0"
        using vm_invD(1,2) [OF u] heap_page_pos heap_pageD(1) by (intro pte_addr_nonnull PX_less) blast+
      then show ?thesis using b' walk_ext_trans [OF b(2) b'(2)] by (auto simp: return_apply)
    qed
  qed
qed


subsection \<open>mappages()\<close>

definition map_leaf :: "nat \<Rightarrow> uint64 \<Rightarrow> uint64 \<Rightarrow> uint64 \<Rightarrow> (uint64 \<Rightarrow> uint64) \<Rightarrow> uint64 \<Rightarrow> uint64" where
  "map_leaf n a pa perm L va =
     (if unat (PGROUNDDOWN va - a) < 4096 * n then PA2PTE (pa + (PGROUNDDOWN va - a)) OR perm OR PTE_V else L va)"

lemma vm_ext_wr_leaf:
  assumes "vm_ext s root t" and "tab (mem t) root (path va) = Some p"
  shows "vm_ext s root (t\<lparr>mem := store64 (mem t) (pte_addr p (PX 0 va)) v\<rparr>)"
proof -
  let ?u = "t\<lparr>mem := store64 (mem t) (pte_addr p (PX 0 va)) v\<rparr>"
  note inv = vm_extD(1) [OF assms(1)]
  have p: "p \<in> tables (mem t) root" by (rule tablesI [OF _ _ assms(2)]) simp_all
  have tabs: "tables (mem ?u) root = tables (mem t) root"
    using wr_leaf_tab [OF inv assms(2) PX_less] by (auto simp: tables_def)
  have "same_but {p} (mem t) (mem ?u)"
    using heap_pageD(1) [OF vm_invD(2) [OF inv p]] by (simp add: same_but_entry PX_less)
  then have "same_but (tables (mem s) root \<union> (free_pages s - free_pages t) \<union> {p}) (mem s) (mem ?u)"
    using assms(1) same_but_trans unfolding vm_ext_def by blast
  moreover have "p \<in> tables (mem s) root \<union> (free_pages s - free_pages t)"
    using p assms(1) by (simp add: vm_ext_def)
  ultimately have "same_but (tables (mem s) root \<union> (free_pages s - free_pages t)) (mem s) (mem ?u)"
    by (simp add: insert_absorb)
  then show ?thesis
    using assms(1) tabs wr_leaf_inv [OF inv assms(2)] only_mem_trans [OF vm_extD(2) only_mem_mem]
    by (simp add: vm_ext_def)
qed

lemma page_aligned_mult: "page_aligned v \<longleftrightarrow> (\<exists>w. v = 4096 * w)"
proof
  assume "page_aligned v"
  then obtain k where "unat v = 4096 * k" by (auto simp: page_aligned_def)
  then have "of_nat (unat v) = (of_nat (4096 * k) :: uint64)" by (simp only:)
  then have "v = 4096 * of_nat k" by simp
  then show "\<exists>w. v = 4096 * w" by blast
next
  assume "\<exists>w. v = 4096 * w"
  then obtain w where "v = 4096 * w" by blast
  then have "unat v = 4096 * unat w mod 2 ^ 64" by (simp add: unat_word_ariths)
  then show "page_aligned v" by (simp add: page_aligned_def mod_mod_cancel)
qed

lemma page_aligned_diff: "page_aligned v \<Longrightarrow> page_aligned a \<Longrightarrow> page_aligned (v - a)"
  by (metis page_aligned_mult right_diff_distrib)

lemma page_aligned_add: "page_aligned v \<Longrightarrow> page_aligned a \<Longrightarrow> page_aligned (v + a)"
  by (metis page_aligned_mult distrib_left)

lemma page_aligned_PGSIZE [simp]: "page_aligned PGSIZE"
  by (simp add: page_aligned_def PGSIZE_def)

lemma page_step:
  assumes "page_aligned v" and "page_aligned a" and "4096 * Suc n < 2 ^ 64"
  shows "unat (v - a) < 4096 * Suc n \<longleftrightarrow> v = a \<or> unat (v - (a + PGSIZE)) < 4096 * n"
proof (cases "v = a")
  case False
  let ?d = "v - a"
  have "unat ?d \<noteq> 0" using False by (simp add: unat_eq_0)
  moreover have "unat ?d mod 4096 = 0" using page_aligned_diff [OF assms(1,2)] by (simp add: page_aligned_def)
  ultimately have "4096 \<le> unat ?d" by (metis mod_less not_le)
  then have "unat (v - (a + PGSIZE)) = unat ?d - 4096"
    unfolding diff_diff_eq [symmetric] by (simp add: PGSIZE_def unat_sub word_le_nat_alt)
  then show ?thesis using False \<open>4096 \<le> unat ?d\<close> by auto
qed simp

lemma map_leaf_Suc:
  assumes "page_aligned a" and "4096 * Suc n < 2 ^ 64"
  shows "map_leaf (Suc n) a pa perm L va =
    map_leaf n (a + PGSIZE) (pa + PGSIZE) perm
      (\<lambda>va. if PGROUNDDOWN va = a then PA2PTE pa OR perm OR PTE_V else L va) va"
proof (cases "PGROUNDDOWN va = a")
  case True
  have "4096 * n \<le> unat (- PGSIZE)" using assms(2) by (simp add: PGSIZE_def)
  then show ?thesis using True by (simp add: map_leaf_def)
next
  case False
  then show ?thesis
    using page_step [OF page_aligned_PGROUNDDOWN [of va] assms]
    by (simp add: map_leaf_def algebra_simps)
qed

lemma map_leaf_1: "map_leaf (Suc 0) a pa perm L va = (if unat (PGROUNDDOWN va - a) < 4096
    then PA2PTE (pa + (PGROUNDDOWN va - a)) OR perm OR PTE_V else L va)"
  by (simp add: map_leaf_def)


text \<open>
  The loop of mappages() over \<open>n + 1\<close> pages that are not mapped: it maps all of them, or runs
  out of memory after the first \<open>j\<close>.
\<close>

lemma va_range:
  assumes "unat a + 4096 * Suc n \<le> 2 ^ 38"
  shows "a < MAXVA" and "unat (a + PGSIZE) = unat a + 4096"
  using assms by (simp_all add: MAXVA_def word_less_nat_alt PGSIZE_def unat_word_ariths)

lemma PGROUNDDOWN_aligned: "page_aligned a \<Longrightarrow> PGROUNDDOWN a = a"
  by (rule bit_word_eqI) (use page_aligned_bit [of a] in \<open>auto simp: bit_PGROUNDDOWN not_le [symmetric]\<close>)

lemma PGROUNDDOWN_less: "va < MAXVA \<Longrightarrow> PGROUNDDOWN va < MAXVA"
  by (auto simp: word_less_nat_alt unat_PGROUNDDOWN)

lemma map_one:
  assumes "vm_inv s root" and "page_aligned a" and "a < MAXVA" and "\<not> has (leaf (mem s) root a) PTE_V"
  shows "(\<exists>t. mappages_loop (Suc f) root a lst pa perm s = Ret (-1) t \<and> walk_ext s root t \<and> free_pages t = {}) \<or>
    (\<exists>t. vm_ext s root t \<and>
      (\<forall>va < MAXVA. leaf (mem t) root va = (if PGROUNDDOWN va = a then PA2PTE pa OR perm OR PTE_V else leaf (mem s) root va)) \<and>
      mappages_loop (Suc f) root a lst pa perm s =
        (if a = lst then Ret 0 t else mappages_loop f root (a + PGSIZE) lst (pa + PGSIZE) perm t))"
proof -
  obtain r t where w: "walk root a True s = Ret r t" "walk_ext s root t"
      "r = 0 \<and> free_pages t = {} \<or> (\<exists>p. tab (mem t) root (path a) = Some p \<and> r = pte_addr p (PX 0 a) \<and> r \<noteq> 0)"
    using walk_alloc [OF assms(1,3)] by blast
  from w(3) show ?thesis
  proof
    assume "r = 0 \<and> free_pages t = {}"
    then show ?thesis using w by (intro disjI1) (auto simp: kmon)
  next
    assume "\<exists>p. tab (mem t) root (path a) = Some p \<and> r = pte_addr p (PX 0 a) \<and> r \<noteq> 0"
    then obtain p where p: "tab (mem t) root (path a) = Some p" "r = pte_addr p (PX 0 a)" "r \<noteq> 0" by blast
    let ?v = "PA2PTE pa OR perm OR PTE_V"
    let ?u = "t\<lparr>mem := store64 (mem t) (pte_addr p (PX 0 a)) ?v\<rparr>"
    have nv: "\<not> has (load64 (mem t) r) PTE_V"
      using assms(4) walk_extD(3) [OF w(2) assms(3)] leaf_at [OF p(1)] p(2) by (simp add: entry_def)
    have "vm_ext s root ?u" by (rule vm_ext_wr_leaf [OF walk_extD(1) [OF w(2)] p(1)])
    moreover have "leaf (mem ?u) root va = (if PGROUNDDOWN va = a then ?v else leaf (mem s) root va)"
      if "va < MAXVA" for va
      using wr_leaf_leaf [OF walk_extD(2) [OF w(2)] p(1) assms(3) that, of ?v] walk_extD(3) [OF w(2) that]
      by (simp add: PGROUNDDOWN_aligned assms(2))
    moreover have "mappages_loop (Suc f) root a lst pa perm s =
        (if a = lst then Ret 0 ?u else mappages_loop f root (a + PGSIZE) lst (pa + PGSIZE) perm ?u)"
      using w(1) p nv by (simp add: kmon rd_pte_def wr_pte_def set_mem_def)
    ultimately show ?thesis by blast
  qed
qed

lemma mappages_loop_spec:
  assumes "vm_inv s root" and "page_aligned a" and "unat a + 4096 * Suc n \<le> 2 ^ 38" and "n < fuel"
    and "\<forall>va < MAXVA. unat (PGROUNDDOWN va - a) < 4096 * Suc n \<longrightarrow> \<not> has (leaf (mem s) root va) PTE_V"
  shows "\<exists>r t. mappages_loop fuel root a (a + of_nat (4096 * n)) pa perm s = Ret r t \<and> vm_ext s root t \<and>
    (r = 0 \<and> (\<forall>va < MAXVA. leaf (mem t) root va = map_leaf (Suc n) a pa perm (leaf (mem s) root) va) \<or>
     r = -1 \<and> free_pages t = {} \<and>
       (\<exists>j \<le> n. \<forall>va < MAXVA. leaf (mem t) root va = map_leaf j a pa perm (leaf (mem s) root) va))"
  using assms
proof (induction n arbitrary: fuel s a pa)
  case (0 fuel s a pa)
  note va = va_range [OF 0(3)]
  obtain f where f: "fuel = Suc f" using 0 by (cases fuel) auto
  have "\<not> has (leaf (mem s) root a) PTE_V" using 0(2,5) va(1) by (simp add: PGROUNDDOWN_aligned)
  moreover have "map_leaf (Suc 0) a pa perm L w = (if PGROUNDDOWN w = a then PA2PTE pa OR perm OR PTE_V else L w)"
    for L w
    using map_leaf_Suc [OF 0(2), of 0 pa perm L w] by (simp add: map_leaf_def)
  moreover have "map_leaf 0 a pa perm L w = L w" for L w by (simp add: map_leaf_def)
  ultimately show ?case
    using map_one [OF 0(1,2) va(1), of f a pa perm] f
    by (auto simp: walk_ext_def simp del: mappages_loop.simps)
next
  case (Suc n fuel s a pa)
  note va = va_range [OF Suc(4)]
  obtain f where f: "fuel = Suc f" "n < f" using Suc(5) by (cases fuel) auto
  let ?lst = "a + of_nat (4096 * Suc n)"
  have nv: "\<not> has (leaf (mem s) root a) PTE_V" using Suc(3,6) va(1) by (simp add: PGROUNDDOWN_aligned)
  have al: "page_aligned (a + PGSIZE)" using Suc(3) by (simp add: page_aligned_add)
  have big: "4096 * Suc (Suc n) < (2 :: nat) ^ 64" using Suc(4) by simp
  note leafS = map_leaf_Suc [OF Suc(3) big]
  have "a \<noteq> ?lst"
  proof
    assume "a = ?lst"
    then have "(of_nat (4096 * Suc n) :: uint64) = of_nat 0" by simp
    then have "4096 * Suc n = 0" by (rule of_nat_inj64 [rotated 2]) (use big in simp_all)
    then show False by simp
  qed
  with map_one [OF Suc(2,3) va(1) nv, of f ?lst pa perm] f(1) consider
    (a) t where "mappages_loop fuel root a ?lst pa perm s = Ret (-1) t" "walk_ext s root t" "free_pages t = {}"
  | (b) t where "vm_ext s root t" "\<forall>va < MAXVA. leaf (mem t) root va =
        (if PGROUNDDOWN va = a then PA2PTE pa OR perm OR PTE_V else leaf (mem s) root va)"
      "mappages_loop fuel root a ?lst pa perm s = mappages_loop f root (a + PGSIZE) ?lst (pa + PGSIZE) perm t"
    by (auto simp del: mappages_loop.simps)
  then show ?case
  proof cases
    case a
    then show ?thesis
      by (intro exI [of _ "-1"] exI [of _ t]) (auto simp: walk_ext_def map_leaf_def intro!: exI [of _ 0])
  next
    case b
    have step: "unat (PGROUNDDOWN w - a) < 4096 * Suc (Suc n) \<longleftrightarrow>
        PGROUNDDOWN w = a \<or> unat (PGROUNDDOWN w - (a + PGSIZE)) < 4096 * Suc n" for w
      by (rule page_step [OF page_aligned_PGROUNDDOWN Suc(3) big])
    have "unat (0 - PGSIZE) \<ge> 4096 * Suc n" using big by (simp add: PGSIZE_def)
    then have "\<forall>va < MAXVA. unat (PGROUNDDOWN va - (a + PGSIZE)) < 4096 * Suc n \<longrightarrow> \<not> has (leaf (mem t) root va) PTE_V"
      using b(2) Suc(6) step by auto
    moreover have "a + PGSIZE + of_nat (4096 * n) = ?lst" by (simp add: PGSIZE_def)
    moreover have "unat (a + PGSIZE) + 4096 * Suc n \<le> 2 ^ 38" using va(2) Suc(4) by simp
    ultimately obtain r u where u: "mappages_loop f root (a + PGSIZE) ?lst (pa + PGSIZE) perm t = Ret r u"
        "vm_ext t root u"
        "r = 0 \<and> (\<forall>va < MAXVA. leaf (mem u) root va = map_leaf (Suc n) (a + PGSIZE) (pa + PGSIZE) perm (leaf (mem t) root) va) \<or>
         r = -1 \<and> free_pages u = {} \<and> (\<exists>j \<le> n. \<forall>va < MAXVA. leaf (mem u) root va =
            map_leaf j (a + PGSIZE) (pa + PGSIZE) perm (leaf (mem t) root) va)"
      using Suc(1) [OF vm_extD(1) [OF b(1)] al, of f "pa + PGSIZE"] f(2) by metis
    have lf: "map_leaf j (a + PGSIZE) (pa + PGSIZE) perm (leaf (mem t) root) w =
        map_leaf (Suc j) a pa perm (leaf (mem s) root) w" if "j \<le> Suc n" "w < MAXVA" for j w
      using map_leaf_Suc [OF Suc(3), of j pa perm "leaf (mem s) root" w] b(2) that big
      by (simp add: map_leaf_def)
    show ?thesis
      using u b(3) vm_ext_trans [OF b(1) u(2)] lf by (auto intro!: exI [of _ "Suc _"] simp del: mappages_loop.simps)
  qed
qed

end
