(* ===== verification/Vm_Copy.thy ===== *)
theory Vm_Copy
  imports Vm_Table
begin

text \<open>
  What mappages(), walkaddr(), copyin() and copyout() guarantee in terms of the address space a
  page table describes: \<open>leaf\<close> gives the entry of a virtual address, \<open>ubyte_addr\<close> the
  physical address of a user byte.
\<close>

section \<open>Translation\<close>

definition uaddr_ok :: "mem \<Rightarrow> addr \<Rightarrow> uint64 \<Rightarrow> bool" where
  "uaddr_ok m root va \<longleftrightarrow> va < MAXVA \<and> has (leaf m root va) PTE_V \<and> has (leaf m root va) PTE_U"

definition ureadable :: "mem \<Rightarrow> addr \<Rightarrow> uint64 \<Rightarrow> bool" where
  "ureadable m root va \<longleftrightarrow> uaddr_ok m root va \<and> PTE2PA (leaf m root va) \<noteq> 0"

definition uwritable :: "mem \<Rightarrow> addr \<Rightarrow> uint64 \<Rightarrow> bool" where
  "uwritable m root va \<longleftrightarrow> uaddr_ok m root va \<and> has (leaf m root va) PTE_W"

definition ubyte_addr :: "mem \<Rightarrow> addr \<Rightarrow> uint64 \<Rightarrow> addr" where
  "ubyte_addr m root va = PTE2PA (leaf m root va) + (va - PGROUNDDOWN va)"

definition ubyte :: "mem \<Rightarrow> addr \<Rightarrow> uint64 \<Rightarrow> byte" where
  "ubyte m root va = m (ubyte_addr m root va)"

lemma leaf_PGROUNDDOWN [simp]: "leaf m root (PGROUNDDOWN va) = leaf m root va"
  by (simp add: leaf_def split: option.split)

lemma PGROUNDDOWN_le: "unat (PGROUNDDOWN va) \<le> unat va"
  by (simp add: unat_PGROUNDDOWN)

lemma PGROUNDDOWN_MAXVA: "PGROUNDDOWN va < MAXVA \<longleftrightarrow> va < MAXVA"
proof
  assume "PGROUNDDOWN va < MAXVA"
  then have "unat (PGROUNDDOWN va) < 2 ^ 38" by (simp add: MAXVA_def word_less_nat_alt)
  moreover have "unat (PGROUNDDOWN va) mod 4096 = 0"
    using page_aligned_PGROUNDDOWN by (simp add: page_aligned_def)
  ultimately have "unat (PGROUNDDOWN va) + 4096 \<le> 2 ^ 38" by (auto elim!: dvdE dest!: mod_0_imp_dvd)
  moreover have "unat va < unat (PGROUNDDOWN va) + 4096"
    using unat_diff_page [of "PGROUNDDOWN va" va] page_offset_less [of va] by simp
  ultimately show "va < MAXVA" by (simp add: MAXVA_def word_less_nat_alt)
qed (rule PGROUNDDOWN_less)

lemma tab_pte_nonnull:
  assumes "vm_inv s root" and "tab (mem s) root (path va) = Some p"
  shows "pte_addr p (PX 0 va) \<noteq> 0"
proof -
  have "p \<in> tables (mem s) root" by (rule tablesI [OF _ _ assms(2)]) simp_all
  then show ?thesis
    using vm_invD(1,2) [OF assms(1)] heap_page_pos heap_pageD(1) by (intro pte_addr_nonnull PX_less) blast+
qed

lemma walkaddr_eq:
  assumes "vm_inv s root"
  shows "walkaddr root va s = Ret (if uaddr_ok (mem s) root va then PTE2PA (leaf (mem s) root va) else 0) s"
proof (cases "va < MAXVA")
  case True
  then show ?thesis
    using tab_pte_nonnull [OF assms, of va] leD [of MAXVA va]
    by (auto simp: walkaddr_def walk_noalloc kmon rd_pte_def uaddr_ok_def leaf_def entry_def split: option.splits)
next
  case False
  then show ?thesis by (auto simp: walkaddr_def kmon uaddr_ok_def not_less)
qed

lemma ureadable_page: "PGROUNDDOWN va = PGROUNDDOWN va' \<Longrightarrow> ureadable m root va = ureadable m root va'"
  by (metis PGROUNDDOWN_MAXVA leaf_PGROUNDDOWN ureadable_def uaddr_ok_def)

lemma uwritable_page: "PGROUNDDOWN va = PGROUNDDOWN va' \<Longrightarrow> uwritable m root va = uwritable m root va'"
  by (metis PGROUNDDOWN_MAXVA leaf_PGROUNDDOWN uwritable_def uaddr_ok_def)

text \<open>The part of a user range that lies in the page of its first byte.\<close>

lemma chunk_page:
  assumes "i < 4096 - unat (va - PGROUNDDOWN va)"
  shows "PGROUNDDOWN (va + of_nat i) = PGROUNDDOWN va"
proof -
  have "va + of_nat i = PGROUNDDOWN va + of_nat (unat (va - PGROUNDDOWN va) + i)" by simp
  also have "PGROUNDDOWN \<dots> = PGROUNDDOWN va" by (rule page_offset) (use assms in simp_all)
  finally show ?thesis .
qed

lemma chunk_next:
  assumes "n = 4096 - unat (va - PGROUNDDOWN va)"
  shows "PGROUNDDOWN va + PGSIZE + of_nat j = va + of_nat (n + j)"
proof -
  have "of_nat n = (4096 - (va - PGROUNDDOWN va) :: uint64)"
    using assms page_offset_less [of va] by (simp add: of_nat_diff)
  then show ?thesis by (simp add: PGSIZE_def)
qed

lemma ubyte_chunk:
  assumes "i < 4096 - unat (va - PGROUNDDOWN va)"
  shows "ubyte_addr m root (va + of_nat i) = PTE2PA (leaf m root va) + (va - PGROUNDDOWN va) + of_nat i"
proof -
  have "leaf m root (va + of_nat i) = leaf m root va"
    by (metis chunk_page [OF assms] leaf_PGROUNDDOWN)
  then show ?thesis by (simp add: ubyte_addr_def chunk_page [OF assms])
qed

lemma split_range:
  assumes "\<And>i. i < n \<Longrightarrow> P i" and "n \<le> len"
  shows "(\<forall>j < len - n. P (n + j)) \<longleftrightarrow> (\<forall>i < (len :: nat). P i)"
proof (intro iffI allI impI)
  fix i assume "\<forall>j < len - n. P (n + j)" and "i < len"
  then show "P i" using assms(1) [of i] spec [where x = "i - n" and P = "\<lambda>j. j < len - n \<longrightarrow> P (n + j)"]
    by (cases "i < n") auto
qed (use assms in auto)

section \<open>copyin()\<close>

lemma copyin_unmapped:
  assumes "vm_inv s root" and "\<not> ureadable (mem s) root va" and "len \<noteq> 0"
  shows "copyin root va len s = Ret (-1, []) s"
  using assms
  by (subst copyin.simps)
    (auto simp: Let_def kmon walkaddr_eq ureadable_def uaddr_ok_def PGROUNDDOWN_MAXVA)

lemma copyin_mapped:
  assumes "vm_inv s root" and "ureadable (mem s) root va" and "len \<noteq> 0"
    and "n = min (4096 - unat (va - PGROUNDDOWN va)) len"
  shows "copyin root va len s = (case copyin root (PGROUNDDOWN va + PGSIZE) (len - n) s of
      Ret (r, rest) t \<Rightarrow> Ret (r, map (\<lambda>i. ubyte (mem s) root (va + of_nat i)) [0..<n] @ rest) t
    | Panic e t \<Rightarrow> Panic e t | Swtch t \<Rightarrow> Swtch t | Hang t \<Rightarrow> Hang t)"
proof -
  have w: "walkaddr root (PGROUNDDOWN va) s = Ret (PTE2PA (leaf (mem s) root va)) s"
    and nz: "PTE2PA (leaf (mem s) root va) \<noteq> 0"
    using assms(2) by (auto simp: walkaddr_eq [OF assms(1)] ureadable_def uaddr_ok_def PGROUNDDOWN_MAXVA)
  have "rd_bytes (mem s) (PTE2PA (leaf (mem s) root va) + (va - PGROUNDDOWN va)) n
      = map (\<lambda>i. ubyte (mem s) root (va + of_nat i)) [0..<n]"
    unfolding rd_bytes_def using assms(4) by (intro map_cong) (auto simp: ubyte_def ubyte_chunk)
  then show ?thesis
    using w nz assms(3,4)
    by (subst copyin.simps)
      (auto simp: Let_def bind_apply gets_apply return_apply split: outcome.splits)
qed

lemma copyin_spec:
  assumes "vm_inv s root"
  shows "((\<forall>i < len. ureadable (mem s) root (va + of_nat i)) \<longrightarrow>
      copyin root va len s = Ret (0, map (\<lambda>i. ubyte (mem s) root (va + of_nat i)) [0..<len]) s) \<and>
    ((\<exists>i < len. \<not> ureadable (mem s) root (va + of_nat i)) \<longrightarrow> (\<exists>bs. copyin root va len s = Ret (-1, bs) s))"
proof (induction len arbitrary: va rule: less_induct)
  case (less len va)
  define n where "n = min (4096 - unat (va - PGROUNDDOWN va)) len"
  show ?case
  proof (cases "len = 0 \<or> \<not> ureadable (mem s) root va")
    case True
    then show ?thesis using copyin_unmapped [OF assms, of va len]
      by (cases "len = 0") (auto simp: copyin.simps [of _ _ 0] kmon intro: exI [of _ 0])
  next
    case False
    then have len: "len \<noteq> 0" and ok: "ureadable (mem s) root va" by auto
    have page: "ureadable (mem s) root (va + of_nat i)" if "i < n" for i
      using ok chunk_page [of i va] that ureadable_page [of "va + of_nat i" va] by (simp add: n_def)
    have n: "0 < n" "n \<le> len" using len page_offset_less [of va] by (auto simp: n_def)
    have nxt: "PGROUNDDOWN va + PGSIZE + of_nat j = va + of_nat (n + j)" if "j < len - n" for j
      by (rule chunk_next) (use that in \<open>auto simp: n_def\<close>)
    have "len - n < len" using n by simp
    note IH = less.IH [OF this, of "PGROUNDDOWN va + PGSIZE"]
    let ?f = "\<lambda>i. ubyte (mem s) root (va + of_nat i)"
    have app: "map ?f [0..<n] @ map (\<lambda>j. ?f (n + j)) [0..<len - n] = map ?f [0..<len]"
      by (rule nth_equalityI) (use n(2) in \<open>auto simp: nth_append\<close>)
    have bytes: "map (\<lambda>j. ubyte (mem s) root (PGROUNDDOWN va + PGSIZE + of_nat j)) [0..<len - n]
        = map (\<lambda>j. ?f (n + j)) [0..<len - n]"
      by (rule map_cong [OF refl]) (simp only: nxt set_upt atLeastLessThan_iff)
    have "ureadable (mem s) root (PGROUNDDOWN va + PGSIZE + of_nat j) = ureadable (mem s) root (va + of_nat (n + j))"
      if "j < len - n" for j using nxt [OF that] by (simp only:)
    then have "(\<forall>j < len - n. ureadable (mem s) root (PGROUNDDOWN va + PGSIZE + of_nat j)) \<longleftrightarrow>
        (\<forall>j < len - n. ureadable (mem s) root (va + of_nat (n + j)))" by blast
    also have "\<dots> \<longleftrightarrow> (\<forall>i < len. ureadable (mem s) root (va + of_nat i))"
      by (rule split_range [OF page n(2)])
    finally have shift: "(\<forall>j < len - n. ureadable (mem s) root (PGROUNDDOWN va + PGSIZE + of_nat j)) \<longleftrightarrow>
        (\<forall>i < len. ureadable (mem s) root (va + of_nat i))" .
    note step = copyin_mapped [OF assms ok len n_def]
    show ?thesis
    proof (cases "\<forall>i < len. ureadable (mem s) root (va + of_nat i)")
      case True
      then have "copyin root (PGROUNDDOWN va + PGSIZE) (len - n) s = Ret (0, map (\<lambda>j. ?f (n + j)) [0..<len - n]) s"
        using IH unfolding shift bytes by blast
      then have "copyin root va len s = Ret (0, map ?f [0..<len]) s" unfolding step by (simp only: app outcome.case prod.case)
      then show ?thesis using True by blast
    next
      case False
      then obtain bs where "copyin root (PGROUNDDOWN va + PGSIZE) (len - n) s = Ret (-1, bs) s"
        using IH shift by blast
      then have "\<exists>bs. copyin root va len s = Ret (-1, bs) s" unfolding step by simp
      then show ?thesis using False by blast
    qed
  qed
qed

section \<open>copyout()\<close>

text \<open>
  Separation of user memory from the page tables and the free pages, and distinct frames for
  distinct user pages.
\<close>

definition as_sep :: "'a kmem_scheme \<Rightarrow> addr \<Rightarrow> bool" where
  "as_sep s root \<longleftrightarrow> (\<forall>va. uaddr_ok (mem s) root va \<longrightarrow> page_aligned (PTE2PA (leaf (mem s) root va)) \<and>
     PTE2PA (leaf (mem s) root va) \<noteq> 0 \<and>
     PTE2PA (leaf (mem s) root va) \<notin> tables (mem s) root \<union> free_pages s)"

definition as_inj :: "'a kmem_scheme \<Rightarrow> addr \<Rightarrow> bool" where
  "as_inj s root \<longleftrightarrow> (\<forall>va va'. uaddr_ok (mem s) root va \<longrightarrow> uaddr_ok (mem s) root va' \<longrightarrow>
     PTE2PA (leaf (mem s) root va) = PTE2PA (leaf (mem s) root va') \<longrightarrow> PGROUNDDOWN va = PGROUNDDOWN va')"

definition as_inv :: "'a kmem_scheme \<Rightarrow> addr \<Rightarrow> bool" where
  "as_inv s root \<longleftrightarrow> vm_inv s root \<and> as_sep s root \<and> as_inj s root"

lemma free_pages_cong: "mem t = mem s \<Longrightarrow> freelist t = freelist s \<Longrightarrow> kend t = kend s \<Longrightarrow> free_pages t = free_pages s"
  by (simp add: free_pages_def kmem_inv_def heap_page_def)

lemma vm_inv_cong:
  assumes "mem t = mem s" and "freelist t = freelist s" and "kend t = kend s" and "LkKmem \<in> held t \<longleftrightarrow> LkKmem \<in> held s"
  shows "vm_inv t root = vm_inv s root"
  using assms free_pages_cong [of t s]
  by (simp add: vm_inv_def pt_inv_def kmem_ok_def kmem_inv_def heap_page_def)

lemma as_inv_cong:
  assumes "mem t = mem s" and "freelist t = freelist s" and "kend t = kend s" and "LkKmem \<in> held t \<longleftrightarrow> LkKmem \<in> held s"
  shows "as_inv t root = as_inv s root"
  using vm_inv_cong [OF assms] free_pages_cong [OF assms(1-3)] assms(1) by (simp add: as_inv_def as_sep_def as_inj_def)

lemma as_sepD:
  assumes "as_inv s root" and "uaddr_ok (mem s) root va"
  shows "page_aligned (PTE2PA (leaf (mem s) root va))" and "PTE2PA (leaf (mem s) root va) \<noteq> 0"
    and "PTE2PA (leaf (mem s) root va) \<notin> tables (mem s) root" and "PTE2PA (leaf (mem s) root va) \<notin> free_pages s"
  using assms by (auto simp: as_inv_def as_sep_def)

lemma as_injD:
  assumes "as_inv s root" and "uaddr_ok (mem s) root va" and "uaddr_ok (mem s) root va'"
    and "PTE2PA (leaf (mem s) root va) = PTE2PA (leaf (mem s) root va')"
  shows "PGROUNDDOWN va = PGROUNDDOWN va'"
  using assms unfolding as_inv_def as_inj_def by blast

lemma as_invD: "as_inv s root \<Longrightarrow> vm_inv s root"
  by (simp add: as_inv_def)

text \<open>A write that leaves the table pages and the free pages alone leaves the address space alone.\<close>

lemma tab_same_but:
  assumes "vm_inv s root" and "same_but P (mem s) m'" and "P \<inter> tables (mem s) root = {}"
    and "length pth \<le> 2" and "idxs pth"
  shows "tab m' root pth = tab (mem s) root pth"
proof (rule tab_frame [OF _ assms(4,5)])
  fix xs p and i :: uint64
  assume xs: "length xs \<le> 1" "idxs xs" "unat i < 512" "tab (mem s) root xs = Some p"
  have "p \<in> tables (mem s) root" by (rule tablesI [OF _ _ xs(4)]) (use xs in auto)
  then have "entry m' p i = entry (mem s) p i"
    using assms heap_pageD(1) [OF vm_invD(2) [OF assms(1)]] by (intro entry_same_but [OF assms(2) _ _ xs(3)]) auto
  then show "child m' p i = child (mem s) p i" by (simp add: child_def)
qed

lemma leaf_same_but:
  assumes "vm_inv s root" and "same_but P (mem s) m'" and "P \<inter> tables (mem s) root = {}"
  shows "leaf m' root va = leaf (mem s) root va"
proof -
  have t: "tab m' root (path va) = tab (mem s) root (path va)" by (rule tab_same_but [OF assms]) simp_all
  show ?thesis
  proof (cases "tab (mem s) root (path va)")
    case (Some p)
    have "p \<in> tables (mem s) root" by (rule tablesI [OF _ _ Some]) simp_all
    then have "entry m' p (PX 0 va) = entry (mem s) p (PX 0 va)"
      using assms heap_pageD(1) [OF vm_invD(2) [OF assms(1)]] by (intro entry_same_but [OF assms(2)] PX_less) auto
    with t Some show ?thesis by (simp add: leaf_def)
  qed (simp add: t leaf_def)
qed

lemma as_inv_write:
  assumes "as_inv s root" and "same_but P (mem s) m'" and "P \<inter> (tables (mem s) root \<union> free_pages s) = {}"
  shows "as_inv (s\<lparr>mem := m'\<rparr>) root" and "leaf m' root va = leaf (mem s) root va"
    and "uaddr_ok m' root va = uaddr_ok (mem s) root va" and "free_pages (s\<lparr>mem := m'\<rparr>) = free_pages s"
proof -
  note inv = as_invD [OF assms(1)]
  have disj: "P \<inter> tables (mem s) root = {}" "P \<inter> free_pages s = {}" using assms(3) by auto
  have lf: "leaf m' root v = leaf (mem s) root v" for v by (rule leaf_same_but [OF inv assms(2) disj(1)])
  note tab = tab_same_but [OF inv assms(2) disj(1)]
  note k = kmem_ok_write [OF vm_invD(1) [OF inv] assms(2) disj(2)]
  have tb: "tables m' root = tables (mem s) root" using tab by (auto simp: tables_def)
  have ua: "uaddr_ok m' root v = uaddr_ok (mem s) root v" for v by (simp add: uaddr_ok_def lf)
  show "leaf m' root va = leaf (mem s) root va" "uaddr_ok m' root va = uaddr_ok (mem s) root va" by (rule lf, rule ua)
  show "free_pages (s\<lparr>mem := m'\<rparr>) = free_pages s" by (rule k(2))
  have ms: "mem (s\<lparr>mem := m'\<rparr>) = m'" by simp
  have "vm_inv (s\<lparr>mem := m'\<rparr>) root" by (rule vm_inv_frame [OF inv tab k])
  moreover have "as_sep (s\<lparr>mem := m'\<rparr>) root"
    using assms(1) unfolding as_inv_def as_sep_def by (simp only: ms lf ua tb k(2)) simp
  moreover have "as_inj (s\<lparr>mem := m'\<rparr>) root"
    using assms(1) unfolding as_inv_def as_inj_def by (simp only: ms lf ua) blast
  ultimately show "as_inv (s\<lparr>mem := m'\<rparr>) root" unfolding as_inv_def by blast
qed

text \<open>One page worth of copyout().\<close>

lemma copyout_page:
  assumes "as_inv s root" and "uwritable (mem s) root va" and "src \<noteq> []"
    and "n = min (4096 - unat (va - PGROUNDDOWN va)) (length src)"
    and "t = s\<lparr>mem := wr_bytes (mem s) (PTE2PA (leaf (mem s) root va) + (va - PGROUNDDOWN va)) (take n src)\<rparr>"
  shows "copyout root va src s = copyout root (PGROUNDDOWN va + PGSIZE) (drop n src) t"
proof -
  have va: "va < MAXVA" "PGROUNDDOWN va < MAXVA" and ua: "uaddr_ok (mem s) root va"
    using assms(2) by (auto simp: uwritable_def uaddr_ok_def PGROUNDDOWN_MAXVA)
  then obtain p where p: "tab (mem s) root (path va) = Some p"
    by (cases "tab (mem s) root (path va)") (auto simp: uaddr_ok_def leaf_def)
  have "pte_addr p (PX 0 va) \<noteq> 0" by (rule tab_pte_nonnull [OF as_invD [OF assms(1)] p])
  moreover have "walk root (PGROUNDDOWN va) False s = Ret (pte_addr p (PX 0 va)) s"
    using walk_noalloc [OF va(2), of root s] p by simp
  moreover have "load64 (mem s) (pte_addr p (PX 0 va)) = leaf (mem s) root va"
    using leaf_at [OF p] by (simp add: entry_def)
  moreover have "\<not> MAXVA \<le> PGROUNDDOWN va" using va(2) by simp
  ultimately show ?thesis
    using assms(2-5)
    by (subst copyout.simps)
      (auto simp: Let_def kmon rd_pte_def kwrite_def set_mem_def uwritable_def uaddr_ok_def)
qed

lemma copyout_bad:
  assumes "as_inv s root" and "\<not> uwritable (mem s) root va" and "src \<noteq> []"
  shows "copyout root va src s = Ret (-1) s"
proof (cases "va < MAXVA")
  case True
  then have w: "walk root (PGROUNDDOWN va) False s =
      Ret (case tab (mem s) root (path va) of None \<Rightarrow> 0 | Some p \<Rightarrow> pte_addr p (PX 0 va)) s"
    using walk_noalloc [of "PGROUNDDOWN va" root s] by (simp add: PGROUNDDOWN_MAXVA split: option.split)
  have "\<not> MAXVA \<le> PGROUNDDOWN va" using True PGROUNDDOWN_less [of va] by simp
  with w assms True show ?thesis
    by (subst copyout.simps)
      (auto simp: Let_def kmon rd_pte_def uwritable_def uaddr_ok_def leaf_def entry_def split: option.splits)
next
  case False
  then have "MAXVA \<le> PGROUNDDOWN va" using PGROUNDDOWN_MAXVA [of va] by simp
  with assms(3) show ?thesis by (subst copyout.simps) (simp add: Let_def kmon)
qed


definition as_ext :: "'a kmem_scheme \<Rightarrow> addr \<Rightarrow> 'a kmem_scheme \<Rightarrow> bool" where
  "as_ext s root t \<longleftrightarrow> as_inv t root \<and> only_mem s t \<and> (\<forall>va. leaf (mem t) root va = leaf (mem s) root va)"

lemma as_ext_trans: "as_ext s root t \<Longrightarrow> as_ext t root u \<Longrightarrow> as_ext s root u"
  using only_mem_trans by (auto simp: as_ext_def)

lemma as_ext_ok:
  assumes "as_ext s root t"
  shows "uaddr_ok (mem t) root va = uaddr_ok (mem s) root va" and "uwritable (mem t) root va = uwritable (mem s) root va"
  using assms by (simp_all add: as_ext_def uaddr_ok_def uwritable_def)

lemma chunk_write:
  assumes "as_inv s root" and "uaddr_ok (mem s) root va" and "length bs \<le> 4096 - unat (va - PGROUNDDOWN va)"
  defines "t \<equiv> s\<lparr>mem := wr_bytes (mem s) (PTE2PA (leaf (mem s) root va) + (va - PGROUNDDOWN va)) bs\<rparr>"
  shows "as_ext s root t"
    and "uaddr_ok (mem s) root v \<Longrightarrow> ubyte (mem t) root v =
      (if unat (v - va) < length bs then bs ! unat (v - va) else ubyte (mem s) root v)"
proof -
  let ?F = "PTE2PA (leaf (mem s) root va)" and ?off = "va - PGROUNDDOWN va"
  note sep = as_sepD [OF assms(1,2)]
  have len: "unat ?off + length bs \<le> 4096" using assms(3) page_offset_less [of va] by simp
  have sb: "same_but {?F} (mem s) (mem t)"
    using same_but_wr [OF sep(1) len, of "mem s"] by (simp add: t_def)
  have disj: "{?F} \<inter> (tables (mem s) root \<union> free_pages s) = {}" using sep by auto
  note w = as_inv_write [OF assms(1) sb disj]
  have t_eq: "t = s\<lparr>mem := mem t\<rparr>" by (simp add: t_def)
  have lf: "leaf (mem t) root x = leaf (mem s) root x" for x by (rule w(2))
  show "as_ext s root t" using w(1) lf t_eq by (simp add: as_ext_def t_def)
  assume v: "uaddr_ok (mem s) root v"
  have ub: "ubyte (mem t) root v = mem t (ubyte_addr (mem s) root v)" by (simp add: ubyte_def ubyte_addr_def lf)
  show "ubyte (mem t) root v = (if unat (v - va) < length bs then bs ! unat (v - va) else ubyte (mem s) root v)"
  proof (cases "PGROUNDDOWN v = PGROUNDDOWN va")
    case True
    then have "leaf (mem s) root v = leaf (mem s) root va" by (metis leaf_PGROUNDDOWN)
    then have "ubyte_addr (mem s) root v - (?F + ?off) = v - va" using True by (simp add: ubyte_addr_def)
    moreover have "mem t x = (if unat (x - (?F + ?off)) < length bs then bs ! unat (x - (?F + ?off)) else mem s x)" for x
      by (simp add: t_def wr_bytes_def)
    ultimately show ?thesis unfolding ub by (simp only: ubyte_def)
  next
    case False
    then have ne: "PTE2PA (leaf (mem s) root v) \<noteq> ?F" using as_injD [OF assms(1) v assms(2)] by blast
    have "PGROUNDDOWN (PTE2PA (leaf (mem s) root v) + of_nat (unat (v - PGROUNDDOWN v))) = PTE2PA (leaf (mem s) root v)"
      by (rule page_offset [OF as_sepD(1) [OF assms(1) v] page_offset_less])
    then have "PGROUNDDOWN (ubyte_addr (mem s) root v) \<notin> {?F}" using ne by (simp add: ubyte_addr_def)
    then have same: "ubyte (mem t) root v = ubyte (mem s) root v"
      unfolding ub using sb by (simp add: same_but_def ubyte_def)
    have "\<not> unat (v - va) < length bs"
    proof
      assume "unat (v - va) < length bs"
      then have "PGROUNDDOWN (va + of_nat (unat (v - va))) = PGROUNDDOWN va"
        by (intro chunk_page) (use len page_offset_less [of va] in linarith)
      with False show False by simp
    qed
    with same show ?thesis by simp
  qed
qed

lemma split_write:
  assumes "n \<le> length src" and "length src < 2 ^ 64"
  shows "(if unat (d - of_nat n :: uint64) < length src - n then drop n src ! unat (d - of_nat n)
      else if unat d < n then take n src ! unat d else y) = (if unat d < length src then src ! unat d else y)"
proof (cases "n \<le> unat d")
  case True
  have "unat (of_nat n :: uint64) = n" using assms by (intro unat_of_nat_64) simp
  with True have "unat (d - of_nat n) = unat d - n" by (simp add: unat_sub word_le_nat_alt)
  with True assms(1) show ?thesis by auto
next
  case False
  have "\<not> unat (d - of_nat n) < length src - n"
  proof
    assume lt: "unat (d - of_nat n) < length src - n"
    have "of_nat (unat (d - of_nat n) + n) = d" by simp
    then have "unat d = unat (d - of_nat n) + n"
      using unat_of_nat_64 [of "unat (d - of_nat n) + n"] lt assms(2) by simp
    with False show False by simp
  qed
  with False assms(1) show ?thesis by simp
qed


lemma copyout_spec:
  assumes "as_inv s root" and "length src < 2 ^ 64"
  shows "((\<forall>i < length src. uwritable (mem s) root (va + of_nat i)) \<longrightarrow>
      (\<exists>t. copyout root va src s = Ret 0 t \<and> as_ext s root t \<and>
        (\<forall>v. uaddr_ok (mem s) root v \<longrightarrow> ubyte (mem t) root v =
           (if unat (v - va) < length src then src ! unat (v - va) else ubyte (mem s) root v)))) \<and>
    ((\<exists>i < length src. \<not> uwritable (mem s) root (va + of_nat i)) \<longrightarrow>
      (\<exists>t. copyout root va src s = Ret (-1) t \<and> as_ext s root t))"
  using assms
proof (induction src arbitrary: s va rule: length_induct)
  case (1 src s va)
  define n where "n = min (4096 - unat (va - PGROUNDDOWN va)) (length src)"
  show ?case
  proof (cases "src = [] \<or> \<not> uwritable (mem s) root va")
    case True
    have refl: "as_ext s root s" using 1(2) by (simp add: as_ext_def)
    show ?thesis
    proof (cases "src = []")
      case True
      then show ?thesis using refl by (simp add: copyout.simps return_apply)
    next
      case False
      with True refl show ?thesis using copyout_bad [OF 1(2), of va src]
        by (auto intro: exI [of _ 0])
    qed
  next
    case False
    then have ne: "src \<noteq> []" and ok: "uwritable (mem s) root va" by auto
    then have ua: "uaddr_ok (mem s) root va" by (simp add: uwritable_def)
    define t where "t = s\<lparr>mem := wr_bytes (mem s) (PTE2PA (leaf (mem s) root va) + (va - PGROUNDDOWN va)) (take n src)\<rparr>"
    have n: "0 < n" "n \<le> length src" using ne page_offset_less [of va] by (auto simp: n_def)
    have tl: "length (take n src) = n" using n by simp
    have cap: "length (take n src) \<le> 4096 - unat (va - PGROUNDDOWN va)" by (simp add: n_def)
    note cw = chunk_write [OF 1(2) ua cap, folded t_def, unfolded tl]
    note ext = cw(1)
    have page: "uwritable (mem s) root (va + of_nat i)" if "i < n" for i
      using ok chunk_page [of i va] that uwritable_page [of "va + of_nat i" va] by (simp add: n_def)
    have nxt: "PGROUNDDOWN va + PGSIZE + of_nat j = va + of_nat (n + j)" if "n < length src" for j
      by (rule chunk_next) (use that in \<open>auto simp: n_def\<close>)
    have "uwritable (mem t) root (PGROUNDDOWN va + PGSIZE + of_nat j) = uwritable (mem s) root (va + of_nat (n + j))"
      if "j < length src - n" for j
      unfolding as_ext_ok [OF ext] using nxt [of j] that by (simp only: zero_less_diff)
    then have "(\<forall>j < length src - n. uwritable (mem t) root (PGROUNDDOWN va + PGSIZE + of_nat j)) \<longleftrightarrow>
        (\<forall>j < length src - n. uwritable (mem s) root (va + of_nat (n + j)))" by blast
    also have "\<dots> \<longleftrightarrow> (\<forall>i < length src. uwritable (mem s) root (va + of_nat i))"
      by (rule split_range [OF page n(2)])
    finally have shift: "(\<forall>j < length (drop n src). uwritable (mem t) root (PGROUNDDOWN va + PGSIZE + of_nat j)) \<longleftrightarrow>
        (\<forall>i < length src. uwritable (mem s) root (va + of_nat i))" by simp
    have step: "copyout root va src s = copyout root (PGROUNDDOWN va + PGSIZE) (drop n src) t"
      by (rule copyout_page [OF 1(2) ok ne n_def t_def])
    have small: "length (drop n src) < length src" "length (drop n src) < 2 ^ 64" using n 1(3) by simp_all
    have "as_inv t root" using ext by (simp add: as_ext_def)
    note IH = 1(1) [rule_format, OF small(1) this small(2), of "PGROUNDDOWN va + PGSIZE"]
    show ?thesis
    proof (cases "\<forall>i < length src. uwritable (mem s) root (va + of_nat i)")
      case True
      then obtain u where u: "copyout root (PGROUNDDOWN va + PGSIZE) (drop n src) t = Ret 0 u" "as_ext t root u"
          "\<forall>v. uaddr_ok (mem t) root v \<longrightarrow> ubyte (mem u) root v =
             (if unat (v - (PGROUNDDOWN va + PGSIZE)) < length (drop n src) then drop n src ! unat (v - (PGROUNDDOWN va + PGSIZE))
              else ubyte (mem t) root v)"
        using IH shift by blast
      have "ubyte (mem u) root v = (if unat (v - va) < length src then src ! unat (v - va) else ubyte (mem s) root v)"
        if "uaddr_ok (mem s) root v" for v
      proof (cases "n < length src")
        case True
        have eq: "v - (PGROUNDDOWN va + PGSIZE) = v - va - of_nat n" using nxt [OF True, of 0] by simp
        have "uaddr_ok (mem t) root v" using that as_ext_ok(1) [OF ext] by simp
        with u(3) have "ubyte (mem u) root v = (if unat (v - va - of_nat n) < length src - n
            then drop n src ! unat (v - va - of_nat n) else ubyte (mem t) root v)"
          by (simp only: eq length_drop)
        then show ?thesis unfolding cw(2) [OF that] by (simp only: split_write [OF n(2) 1(3)])
      next
        case False
        then have "n = length src" using n by simp
        then show ?thesis using u(3) that as_ext_ok(1) [OF ext] cw(2) [OF that] by simp
      qed
      then show ?thesis using True u(1) step as_ext_trans [OF ext u(2)] by auto
    next
      case False
      then obtain u where "copyout root (PGROUNDDOWN va + PGSIZE) (drop n src) t = Ret (-1) u" "as_ext t root u"
        using IH shift by blast
      then show ?thesis using False step as_ext_trans [OF ext] by auto
    qed
  qed
qed


section \<open>Properties\<close>

lemma mappages_spec:
  assumes "vm_inv s root" and "page_aligned va" and "page_aligned sz" and "sz \<noteq> 0"
    and "unat va + unat sz \<le> 2 ^ 38"
    and "\<forall>v < MAXVA. unat (PGROUNDDOWN v - va) < unat sz \<longrightarrow> \<not> has (leaf (mem s) root v) PTE_V"
  shows "\<exists>r t. mappages root va sz pa perm s = Ret r t \<and> vm_ext s root t \<and>
    (r = 0 \<and> (\<forall>v < MAXVA. leaf (mem t) root v =
        (if unat (PGROUNDDOWN v - va) < unat sz then PA2PTE (pa + (PGROUNDDOWN v - va)) OR perm OR PTE_V
         else leaf (mem s) root v)) \<or>
     r = -1 \<and> free_pages t = {})"
proof -
  obtain k where k: "unat sz = 4096 * k" using assms(3) by (auto simp: page_aligned_def)
  then obtain n where n: "k = Suc n" using assms(4) by (cases k) (auto simp: unat_eq_0)
  have "of_nat (unat sz) = (of_nat (4096 * Suc n) :: uint64)" by (simp only: k n)
  then have sz: "sz = of_nat (4096 * Suc n)" by simp
  have lst: "va + sz - PGSIZE = va + of_nat (4096 * n)" unfolding sz PGSIZE_def by simp
  have fuel: "unat sz div 4096 = Suc n" using k n by simp
  have "mappages root va sz pa perm s = mappages_loop (Suc n) root va (va + of_nat (4096 * n)) pa perm s"
    unfolding mappages_def lst fuel using assms(2-4) by (simp add: page_mod del: mappages_loop.simps)
  moreover note mappages_loop_spec [OF assms(1,2), of n "Suc n" pa perm]
  ultimately show ?thesis using assms(5,6) k n by (auto simp: map_leaf_def simp del: mappages_loop.simps)
qed

text \<open>A page table with one user page: root, one table per level, and a frame.\<close>

definition vm0_mem :: mem where
  "vm0_mem = store64 (store64 (store64 (\<lambda>_. 0) (pte_addr 0x80022000 0) (PA2PTE 0x80023000 OR PTE_V))
     (pte_addr 0x80023000 0) (PA2PTE 0x80024000 OR PTE_V))
     (pte_addr 0x80024000 0) (PA2PTE 0x80025000 OR (PTE_R OR PTE_W OR PTE_U) OR PTE_V)"

definition vm0 :: kmem where
  "vm0 = kmem0\<lparr>mem := vm0_mem\<rparr>"

lemma entry_const0: "entry (\<lambda>_. 0) p i = 0"
proof -
  have "rd_bytes (\<lambda>_. 0) a n = replicate n 0" for a n by (simp add: rd_bytes_def map_replicate_const)
  then show ?thesis by (simp add: entry_def load64_def le_dec_zeros)
qed

lemma aligned_consts [simp]:
  "page_aligned 0x80022000" "page_aligned 0x80023000" "page_aligned 0x80024000" "page_aligned 0x80025000"
  by (simp_all add: page_aligned_def)

lemma entry_store_page:
  assumes "page_aligned p" and "page_aligned q" and "unat i < 512" and "unat j < 512"
  shows "entry (store64 m (pte_addr p i) v) q j = (if p = q \<and> i = j then v else entry m q j)"
  using entry_store [OF assms(3,4)] entry_same_but [OF same_but_entry [OF assms(1,3)] assms(2) _ assms(4)]
  by (cases "p = q") auto

lemma vm0_entry:
  assumes "page_aligned q" and "unat j < 512"
  shows "entry vm0_mem q j =
    (if q = 0x80022000 \<and> j = 0 then PA2PTE 0x80023000 OR PTE_V
     else if q = 0x80023000 \<and> j = 0 then PA2PTE 0x80024000 OR PTE_V
     else if q = 0x80024000 \<and> j = 0 then PA2PTE 0x80025000 OR (PTE_R OR PTE_W OR PTE_U) OR PTE_V else 0)"
  unfolding vm0_mem_def using assms by (simp add: entry_store_page entry_const0)

lemma vm0_child:
  assumes "page_aligned q" and "unat j < 512" and "q \<noteq> 0x80024000"
  shows "child vm0_mem q j = (if q = 0x80022000 \<and> j = 0 then Some 0x80023000
     else if q = 0x80023000 \<and> j = 0 then Some 0x80024000 else None)"
proof -
  have "PTE2PA (PA2PTE 0x80023000 OR PTE_V) = 0x80023000" "PTE2PA (PA2PTE 0x80024000 OR PTE_V) = 0x80024000"
    by (rule PTE2PA_PA2PTE; simp add: PTE_V_def)+
  then show ?thesis using assms by (simp add: child_def vm0_entry)
qed

lemma vm0_tab:
  assumes "length pth \<le> 2" and "idxs pth"
  shows "tab vm0_mem 0x80022000 pth = (if pth = [] then Some 0x80022000 else if pth = [0] then Some 0x80023000
     else if pth = [0, 0] then Some 0x80024000 else None)"
  using assms by (auto elim!: length_le2_cases simp: vm0_child split: if_splits option.splits)

lemma vm0_kmem: "kmem_inv vm0 []" "free_pages vm0 = {}" "kmem_ok vm0"
proof -
  show i: "kmem_inv vm0 []" by (simp add: kmem_inv_def vm0_def)
  show "free_pages vm0 = {}" using free_pages_eq [OF i] by simp
  show "kmem_ok vm0" using i by (auto simp: kmem_ok_def vm0_def)
qed

lemma vm0_inv: "vm_inv vm0 0x80022000"
proof -
  have m: "mem vm0 = vm0_mem" by (simp add: vm0_def)
  have "heap_page vm0 p" if "p \<in> tables (mem vm0) 0x80022000" for p
    using that by (auto simp: tables_def m vm0_tab heap_page_def vm0_def layout_defs split: if_splits)
  moreover have "pth = pth'" if "length pth \<le> 2" "length pth' \<le> 2" "idxs pth" "idxs pth'"
      "tab (mem vm0) 0x80022000 pth = Some p" "tab (mem vm0) 0x80022000 pth' = Some p" for pth pth' p
    using that by (auto simp: m vm0_tab split: if_splits)
  ultimately show ?thesis unfolding vm_inv_def pt_inv_def using vm0_kmem by blast
qed

lemma PX_0 [simp]: "PX l 0 = 0"
  by (simp add: PX_def)

lemma vm0_leaf:
  assumes "va < MAXVA"
  shows "leaf vm0_mem 0x80022000 va =
    (if PGROUNDDOWN va = 0 then PA2PTE 0x80025000 OR (PTE_R OR PTE_W OR PTE_U) OR PTE_V else 0)"
proof -
  have "PGROUNDDOWN va = 0 \<longleftrightarrow> path va = [0, 0] \<and> PX 0 va = 0"
    using same_page_path [OF assms, of 0] by (simp add: MAXVA_def PGROUNDDOWN_aligned path_def)
  moreover have "path va \<noteq> []" "path va \<noteq> [0]" by (simp_all add: path_def)
  ultimately show ?thesis by (auto simp: leaf_def vm0_tab vm0_entry PX_less)
qed


lemma vm0_uaddr: "uaddr_ok vm0_mem 0x80022000 va \<longleftrightarrow> va < MAXVA \<and> PGROUNDDOWN va = 0"
proof -
  let ?e = "PA2PTE 0x80025000 OR (PTE_R OR PTE_W OR PTE_U) OR PTE_V"
  have "has ?e PTE_V" "has ?e PTE_U"
    by (simp_all add: has_PTE bit_or_iff) (simp_all add: pte_bits bit_exp_iff)
  then show ?thesis by (auto simp: uaddr_ok_def vm0_leaf split: if_splits)
qed

lemma vm0_frame: "PTE2PA (PA2PTE 0x80025000 OR (PTE_R OR PTE_W OR PTE_U) OR PTE_V) = 0x80025000"
  by (rule PTE2PA_PA2PTE) (simp_all add: pte_bits)

lemma vm0_writable: "va < 4096 \<Longrightarrow> uwritable vm0_mem 0x80022000 va"
proof -
  assume "va < 4096"
  then have "unat va < 4096" by (simp add: word_less_nat_alt)
  then have "unat (PGROUNDDOWN va) = 0" "va < MAXVA"
    by (simp_all add: unat_PGROUNDDOWN MAXVA_def word_less_nat_alt)
  moreover have "has (PA2PTE 0x80025000 OR (PTE_R OR PTE_W OR PTE_U) OR PTE_V) PTE_W"
    by (simp add: has_PTE bit_or_iff) (simp add: pte_bits bit_exp_iff)
  ultimately show ?thesis by (simp add: uwritable_def vm0_uaddr vm0_leaf unat_eq_0)
qed

lemma vm0_as: "as_inv vm0 0x80022000"
proof -
  have m: "mem vm0 = vm0_mem" by (simp add: vm0_def)
  have "as_sep vm0 0x80022000"
    unfolding as_sep_def m
    using vm0_kmem by (auto simp: vm0_uaddr vm0_leaf vm0_frame tables_def vm0_tab split: if_splits)
  moreover have "as_inj vm0 0x80022000" unfolding as_inj_def m by (simp add: vm0_uaddr)
  ultimately show ?thesis using vm0_inv by (simp add: as_inv_def)
qed

text \<open>
  C4.  mappages() on a page range that is not mapped yet: it returns, keeps the page-table
  invariant and writes only to table pages, some of them newly allocated.  It returns 0 with
  exactly the requested entries installed and every other translation unchanged, or -1 when the
  page allocator is exhausted.
\<close>

theorem mappages_correct:
  assumes "vm_inv s root" and "page_aligned va" and "page_aligned sz" and "sz \<noteq> 0"
    and "unat va + unat sz \<le> 2 ^ 38"
    and "\<forall>v < MAXVA. unat (PGROUNDDOWN v - va) < unat sz \<longrightarrow> \<not> has (leaf (mem s) root v) PTE_V"
  shows "\<exists>r t. mappages root va sz pa perm s = Ret r t \<and> vm_ext s root t \<and>
    (r = 0 \<and> (\<forall>v < MAXVA. leaf (mem t) root v =
        (if unat (PGROUNDDOWN v - va) < unat sz then PA2PTE (pa + (PGROUNDDOWN v - va)) OR perm OR PTE_V
         else leaf (mem s) root v)) \<or>
     r = -1 \<and> free_pages t = {})"
  by (rule mappages_spec [OF assms])

lemma vm0_unmapped:
  "v < MAXVA \<Longrightarrow> unat (PGROUNDDOWN v - 4096) < 4096 \<Longrightarrow> \<not> has (leaf (mem vm0) 0x80022000 v) PTE_V"
proof -
  assume v: "v < MAXVA" "unat (PGROUNDDOWN v - 4096) < 4096"
  have "PGROUNDDOWN v \<noteq> 0"
  proof
    assume "PGROUNDDOWN v = 0"
    with v(2) show False by simp
  qed
  with v(1) show ?thesis by (simp add: vm0_def vm0_leaf)
qed

theorem mappages_correct_witness:
  "vm_inv vm0 0x80022000 \<and> (\<exists>r t. mappages 0x80022000 4096 4096 0x80026000 PTE_R vm0 = Ret r t \<and> vm_ext vm0 0x80022000 t)"
  using mappages_correct [OF vm0_inv, where va = 4096 and sz = 4096 and pa = "0x80026000" and perm = PTE_R] vm0_inv vm0_unmapped
  by (auto simp: page_aligned_def)

lemma unat_or_less:
  assumes "unat x < 2 ^ k" and "unat (y :: 'a::len word) < 2 ^ k"
  shows "unat (x OR y) < 2 ^ k"
proof -
  have "take_bit k (unat x OR unat y) = unat x OR unat y"
    using assms by (simp only: take_bit_or take_bit_nat_eq_self)
  then show ?thesis by (metis take_bit_nat_less_exp unsigned_or_eq)
qed

text \<open>
  C10.  Mapping and translating are inverse: after mappages() has returned 0 for a user mapping of
  physical pages, walkaddr() of any address in the range is the corresponding physical page.
\<close>

theorem mappages_walkaddr:
  assumes "vm_inv s root" and "page_aligned va" and "page_aligned sz" and "sz \<noteq> 0"
    and "unat va + unat sz \<le> 2 ^ 38" and "page_aligned pa" and "unat pa + unat sz \<le> 2 ^ 56"
    and "\<forall>v < MAXVA. unat (PGROUNDDOWN v - va) < unat sz \<longrightarrow> \<not> has (leaf (mem s) root v) PTE_V"
    and "has perm PTE_U" and "unat perm < 2 ^ 10" and "mappages root va sz pa perm s = Ret 0 t"
    and "v < MAXVA" and "unat (PGROUNDDOWN v - va) < unat sz"
  shows "walkaddr root v t = Ret (pa + (PGROUNDDOWN v - va)) t"
proof -
  let ?d = "PGROUNDDOWN v - va"
  from mappages_spec [OF assms(1-5,8), of pa perm] assms(11)
  have inv: "vm_inv t root" and lf: "leaf (mem t) root v = PA2PTE (pa + ?d) OR perm OR PTE_V"
    using assms(12,13) by (auto dest: vm_extD)
  have "unat (pa + ?d) = unat pa + unat ?d"
    using assms(7,13) by (intro unat_add_lem [THEN iffD1]) simp
  then have pa: "page_aligned (pa + ?d)" "unat (pa + ?d) < 2 ^ 56"
    using assms(2,6,7,13) page_aligned_add page_aligned_diff [OF page_aligned_PGROUNDDOWN] by auto
  have "unat (perm OR PTE_V) < 2 ^ 10"
    using assms(10) by (intro unat_or_less) (simp_all add: PTE_V_def)
  then have "PTE2PA (leaf (mem t) root v) = pa + ?d"
    unfolding lf by (rule PTE2PA_PA2PTE [OF pa])
  moreover have "uaddr_ok (mem t) root v"
    using assms(9,12) by (simp add: uaddr_ok_def lf has_PTE bit_or_iff) (simp add: PTE_V_def)
  ultimately show ?thesis by (simp add: walkaddr_eq [OF inv])
qed


lemma walk_present:
  assumes "va < MAXVA" and "tab (mem s) root (path va) = Some p"
  shows "walk root va True s = Ret (pte_addr p (PX 0 va)) s"
  using assms
  by (auto simp: walk_def numeral_2_eq_2 kmon rd_pte_def path_def child_def entry_def split: if_splits)

lemma vm0_path [simp]: "path 4096 = [0, 0]" "PX 0 4096 = 1" "(4096 :: uint64) < MAXVA"
  by (simp_all add: path_def PX_def PXSHIFT_def PGSHIFT_def MAXVA_def)

lemma vm0_map: "\<exists>t. mappages 0x80022000 4096 4096 0x80026000 (PTE_R OR PTE_U) vm0 = Ret 0 t"
proof -
  have "tab (mem vm0) 0x80022000 (path 4096) = Some 0x80024000"
    by (simp add: vm0_def vm0_tab del: tab.simps)
  then have w: "walk 0x80022000 4096 True vm0 = Ret (pte_addr 0x80024000 1) vm0"
    using walk_present [of 4096 vm0 "0x80022000" "0x80024000"] by simp
  have "load64 (mem vm0) (pte_addr 0x80024000 1) = 0"
    using vm0_entry [of "0x80024000" 1] by (simp add: vm0_def entry_def)
  moreover have "pte_addr 0x80024000 1 \<noteq> 0" by (simp add: pte_addr_def)
  moreover have "mappages 0x80022000 4096 4096 0x80026000 (PTE_R OR PTE_U) vm0 =
      mappages_loop (Suc 0) 0x80022000 4096 4096 0x80026000 (PTE_R OR PTE_U) vm0"
    by (simp add: mappages_def PGSIZE_def del: mappages_loop.simps)
  ultimately show ?thesis by (simp add: kmon w rd_pte_def wr_pte_def)
qed

theorem mappages_walkaddr_witness:
  "\<exists>t. mappages 0x80022000 4096 4096 0x80026000 (PTE_R OR PTE_U) vm0 = Ret 0 t \<and>
     walkaddr 0x80022000 4100 t = Ret 0x80026000 t"
proof -
  obtain t where t: "mappages 0x80022000 4096 4096 0x80026000 (PTE_R OR PTE_U) vm0 = Ret 0 t"
    using vm0_map by blast
  have pg: "PGROUNDDOWN 4100 = 4096" by (simp add: PGROUNDDOWN_def PGSIZE_def)
  have "walkaddr 0x80022000 4100 t = Ret (0x80026000 + (PGROUNDDOWN 4100 - 4096)) t"
    by (rule mappages_walkaddr [OF vm0_inv _ _ _ _ _ _ _ _ _ t])
      (use vm0_unmapped in \<open>simp_all add: page_aligned_def pg MAXVA_def pte_bits has_def\<close>)
  with t pg show ?thesis by auto
qed

text \<open>
  C6.  copyin() is total: it returns 0 with exactly the bytes at the user addresses when all of
  them are in readable user pages, and -1 when one of them is not; it never changes the state.
\<close>

theorem copyin_correct:
  assumes "vm_inv s root"
  shows "((\<forall>i < len. ureadable (mem s) root (va + of_nat i)) \<longrightarrow>
      copyin root va len s = Ret (0, map (\<lambda>i. ubyte (mem s) root (va + of_nat i)) [0..<len]) s) \<and>
    ((\<exists>i < len. \<not> ureadable (mem s) root (va + of_nat i)) \<longrightarrow> (\<exists>bs. copyin root va len s = Ret (-1, bs) s))"
  by (rule copyin_spec [OF assms])

lemma vm0_not_readable: "\<not> ureadable vm0_mem 0x80022000 4096"
proof -
  have "PGROUNDDOWN 4096 = 4096" by (rule PGROUNDDOWN_aligned) (simp add: page_aligned_def)
  then show ?thesis by (simp add: ureadable_def vm0_uaddr)
qed

theorem copyin_correct_witness:
  "vm_inv vm0 0x80022000 \<and> (\<exists>bs. copyin 0x80022000 4090 10 vm0 = Ret (-1, bs) vm0)"
  using copyin_correct [OF vm0_inv, of 10 4090] vm0_inv vm0_not_readable
  by (auto simp: vm0_def dest!: spec [where x = 6])

text \<open>
  C5.  copyout() followed by copyin(): when every byte of the destination is in a writable user
  page, copyout() returns 0, changes only those user bytes, and copyin() of the same range gives
  the bytes back; when some byte is not writable copyout() returns -1.
\<close>

theorem copyout_correct:
  assumes "as_inv s root" and "length src < 2 ^ 64"
  shows "((\<forall>i < length src. uwritable (mem s) root (va + of_nat i)) \<longrightarrow>
      (\<exists>t. copyout root va src s = Ret 0 t \<and> as_ext s root t \<and>
        copyin root va (length src) t = Ret (0, src) t \<and>
        (\<forall>v. uaddr_ok (mem s) root v \<and> \<not> unat (v - va) < length src \<longrightarrow>
           ubyte (mem t) root v = ubyte (mem s) root v))) \<and>
    ((\<exists>i < length src. \<not> uwritable (mem s) root (va + of_nat i)) \<longrightarrow>
      (\<exists>t. copyout root va src s = Ret (-1) t \<and> as_ext s root t))"
proof (intro conjI impI)
  assume ok: "\<forall>i < length src. uwritable (mem s) root (va + of_nat i)"
  then obtain t where t: "copyout root va src s = Ret 0 t" "as_ext s root t"
      "\<forall>v. uaddr_ok (mem s) root v \<longrightarrow> ubyte (mem t) root v =
         (if unat (v - va) < length src then src ! unat (v - va) else ubyte (mem s) root v)"
    using copyout_spec [OF assms] by blast
  have ua: "uaddr_ok (mem s) root (va + of_nat i)" if "i < length src" for i
    using ok that by (simp add: uwritable_def)
  have "ureadable (mem t) root (va + of_nat i)" if "i < length src" for i
    using ua [OF that] as_sepD(2) [of t root] t(2) as_ext_ok(1) [OF t(2)] by (simp add: as_ext_def ureadable_def)
  moreover have "map (\<lambda>i. ubyte (mem t) root (va + of_nat i)) [0..<length src] = src"
    by (rule nth_equalityI) (use t(3) ua assms(2) in \<open>simp_all add: unat_of_nat_64\<close>)
  ultimately have "copyin root va (length src) t = Ret (0, src) t"
    using copyin_spec [of t root "length src" va] t(2) by (auto simp: as_ext_def dest: as_invD)
  with t show "\<exists>t. copyout root va src s = Ret 0 t \<and> as_ext s root t \<and>
        copyin root va (length src) t = Ret (0, src) t \<and>
        (\<forall>v. uaddr_ok (mem s) root v \<and> \<not> unat (v - va) < length src \<longrightarrow> ubyte (mem t) root v = ubyte (mem s) root v)"
    by auto
next
  assume "\<exists>i < length src. \<not> uwritable (mem s) root (va + of_nat i)"
  then show "\<exists>t. copyout root va src s = Ret (-1) t \<and> as_ext s root t"
    using copyout_spec [OF assms] by blast
qed

theorem copyout_correct_witness:
  "as_inv vm0 0x80022000 \<and>
   (\<exists>t. copyout 0x80022000 100 [104, 105] vm0 = Ret 0 t \<and> copyin 0x80022000 100 (Suc (Suc 0)) t = Ret (0, [104, 105]) t)"
  using copyout_correct [OF vm0_as, of "[104, 105]" 100] vm0_as vm0_writable [of 100] vm0_writable [of 101]
  by (auto simp: vm0_def less_Suc_eq)

end
