(* ===== verification/Block.thy ===== *)
theory Block
  imports Prelude
begin

text \<open>
  Disk blocks as byte arrays and the little-endian fields the kernel and mkfs read and write in
  them.  A block is a function of the byte offset; only offsets below the block size exist.
\<close>

type_synonym block = "nat \<Rightarrow> byte"

named_theorems blk_simps \<open>fields of a block after a write\<close>

definition blk_bytes :: "block \<Rightarrow> nat \<Rightarrow> nat \<Rightarrow> byte list" where
  "blk_bytes b off n = map (\<lambda>i. b (off + i)) [0..<n]"

definition blk_put :: "block \<Rightarrow> nat \<Rightarrow> byte list \<Rightarrow> block" where
  "blk_put b off bs = (\<lambda>x. if off \<le> x \<and> x < off + length bs then bs ! (x - off) else b x)"

definition get32 :: "block \<Rightarrow> nat \<Rightarrow> uint" where
  "get32 b off = le_dec (blk_bytes b off 4)"

definition put32 :: "block \<Rightarrow> nat \<Rightarrow> uint \<Rightarrow> block" where
  "put32 b off w = blk_put b off (le_enc 4 w)"

definition get16 :: "block \<Rightarrow> nat \<Rightarrow> ushort" where
  "get16 b off = le_dec (blk_bytes b off 2)"

definition put16 :: "block \<Rightarrow> nat \<Rightarrow> ushort \<Rightarrow> block" where
  "put16 b off w = blk_put b off (le_enc 2 w)"

lemma length_blk_bytes [simp]: "length (blk_bytes b off n) = n"
  by (simp add: blk_bytes_def)

lemma nth_blk_bytes [simp]: "i < n \<Longrightarrow> blk_bytes b off n ! i = b (off + i)"
  by (simp add: blk_bytes_def)

lemma blk_put_Nil [simp]: "blk_put b off [] = b"
  by (rule ext) (auto simp: blk_put_def)

lemma blk_bytes_put_same [blk_simps]: "n = length bs \<Longrightarrow> blk_bytes (blk_put b off bs) off n = bs"
  by (rule nth_equalityI) (simp_all add: blk_put_def)

lemma blk_bytes_put_other [blk_simps]:
  "off + n \<le> o' \<or> o' + length bs \<le> off \<Longrightarrow> blk_bytes (blk_put b o' bs) off n = blk_bytes b off n"
  by (rule nth_equalityI) (auto simp: blk_put_def)

lemma get32_put32 [blk_simps]: "get32 (put32 b off w) off = w"
  by (simp add: get32_def put32_def blk_simps le_dec_enc)

lemma get32_put32_other [blk_simps]:
  "off + 4 \<le> o' \<or> o' + 4 \<le> off \<Longrightarrow> get32 (put32 b o' w) off = get32 b off"
  by (simp add: get32_def put32_def blk_simps)

lemma get16_put16 [blk_simps]: "get16 (put16 b off w) off = w"
  by (simp add: get16_def put16_def blk_simps le_dec_enc)

lemma get16_put16_other [blk_simps]:
  "off + 2 \<le> o' \<or> o' + 2 \<le> off \<Longrightarrow> get16 (put16 b o' w) off = get16 b off"
  by (simp add: get16_def put16_def blk_simps)

lemma get32_put16_other [blk_simps]:
  "off + 4 \<le> o' \<or> o' + 2 \<le> off \<Longrightarrow> get32 (put16 b o' w) off = get32 b off"
  by (simp add: get32_def put16_def blk_simps)

lemma get16_put32_other [blk_simps]:
  "off + 2 \<le> o' \<or> o' + 4 \<le> off \<Longrightarrow> get16 (put32 b o' w) off = get16 b off"
  by (simp add: get16_def put32_def blk_simps)

lemma blk_bytes_const: "blk_bytes (\<lambda>_. x) off n = replicate n x"
  by (rule nth_equalityI) simp_all

lemma get_zero [blk_simps]: "get32 (\<lambda>_. 0) off = 0" "get16 (\<lambda>_. 0) off = 0"
  by (simp_all add: get32_def get16_def blk_bytes_const le_dec_zeros)

text \<open>An array of 32-bit words written by a loop.\<close>

lemma get32_fold_put32:
  assumes "\<And>i. i < n \<Longrightarrow> off + 4 \<le> a + 4 * i \<or> a + 4 * i + 4 \<le> off"
  shows "get32 (fold (\<lambda>i b. put32 b (a + 4 * i) (f i)) [0..<n] b) off = get32 b off"
  using assms by (induction n) (simp_all add: get32_put32_other)

lemma get32_fold_put32_at:
  "k < n \<Longrightarrow> get32 (fold (\<lambda>i b. put32 b (a + 4 * i) (f i)) [0..<n] b) (a + 4 * k) = f k"
proof (induction n)
  case (Suc n)
  then show ?case
    by (cases "k = n") (simp_all add: get32_put32 get32_put32_other less_Suc_eq)
qed simp

end
