(* ===== verification/Bio.thy ===== *)
theory Bio
  imports Kalloc Block
begin

text \<open>
  kernel/bio.c: the buffer cache.  The buffers are an array indexed by \<open>{..<NBUF}\<close>; index
  \<open>NBUF\<close> is \<open>bcache.head\<close>.  The LRU list is the doubly linked list through
  \<open>b_prev\<close> and \<open>b_next\<close> of the source; \<open>dll\<close> is its list abstraction.
  \<open>disk_rw\<close> is what the disk driver promises: when virtio_disk_rw() returns, the block has
  been transferred.  \<open>dwrites\<close> records the block writes in the order the disk completed them,
  for reasoning about crashes.
\<close>

section \<open>Data\<close>


definition BSIZE :: nat where "BSIZE = 1024"
definition MAXOPBLOCKS :: int where "MAXOPBLOCKS = 10"
definition NBUF :: nat where "NBUF = 30"

record buf =
  b_valid :: int
  b_disk :: int
  b_dev :: uint
  b_blockno :: uint
  b_refcnt :: uint
  b_prev :: nat
  b_next :: nat
  b_data :: block

record bio = kmem +
  bufs :: "nat \<Rightarrow> buf"
  disk :: "nat \<Rightarrow> block"
  dwrites :: "(nat \<times> block) list"

definition upd_buf :: "nat \<Rightarrow> (buf \<Rightarrow> buf) \<Rightarrow> 'a bio_scheme \<Rightarrow> 'a bio_scheme" where
  "upd_buf i f s = s\<lparr>bufs := (bufs s)(i := f (bufs s i))\<rparr>"

definition set_data :: "nat \<Rightarrow> block \<Rightarrow> ('a bio_scheme, unit) kproc" where
  "set_data i d = modify (upd_buf i (\<lambda>b. b\<lparr>b_data := d\<rparr>))"

definition disk_rw :: "nat \<Rightarrow> bool \<Rightarrow> ('a bio_scheme, unit) kproc" where
  "disk_rw i write = modify (\<lambda>s.
     let b = bufs s i; n = unat (b_blockno b) in
     if write then s\<lparr>disk := (disk s)(n := b_data b), dwrites := dwrites s @ [(n, b_data b)]\<rparr>
     else upd_buf i (\<lambda>b. b\<lparr>b_data := disk s n\<rparr>) s)"

section \<open>The functions of bio.c\<close>

definition insert_head :: "nat \<Rightarrow> (nat \<Rightarrow> buf) \<Rightarrow> nat \<Rightarrow> buf" where
  "insert_head b f =
     (let f1 = f(b := (f b)\<lparr>b_next := b_next (f NBUF), b_prev := NBUF\<rparr>);
          n = b_next (f1 NBUF);
          f2 = f1(n := (f1 n)\<lparr>b_prev := b\<rparr>)
      in f2(NBUF := (f2 NBUF)\<lparr>b_next := b\<rparr>))"

definition unlink_buf :: "nat \<Rightarrow> (nat \<Rightarrow> buf) \<Rightarrow> nat \<Rightarrow> buf" where
  "unlink_buf b f =
     (let n = b_next (f b); f1 = f(n := (f n)\<lparr>b_prev := b_prev (f b)\<rparr>);
          p = b_prev (f1 b)
      in f1(p := (f1 p)\<lparr>b_next := b_next (f1 b)\<rparr>))"

definition binit :: "('a bio_scheme, unit) kproc" where
  "binit =
     bind (initlk LkBcache) (\<lambda>_.
     bind (modify (upd_buf NBUF (\<lambda>h. h\<lparr>b_prev := NBUF, b_next := NBUF\<rparr>))) (\<lambda>_.
     forM [0..<NBUF] (\<lambda>b.
       bind (initsleeplock (SlBuf b) ''buffer'') (\<lambda>_.
       modify (\<lambda>s. s\<lparr>bufs := insert_head b (bufs s)\<rparr>)))))"

text \<open>
  The two scans of bget() along the list; a well-formed list has \<open>NBUF\<close> elements, so
  \<open>NBUF + 1\<close> steps reach the head again.
\<close>

fun scan_next :: "nat \<Rightarrow> (nat \<Rightarrow> buf) \<Rightarrow> nat \<Rightarrow> (buf \<Rightarrow> bool) \<Rightarrow> nat option option" where
  "scan_next 0 f b P = None"
| "scan_next (Suc fuel) f b P =
     (if b = NBUF then Some None else if P (f b) then Some (Some b)
      else scan_next fuel f (b_next (f b)) P)"

fun scan_prev :: "nat \<Rightarrow> (nat \<Rightarrow> buf) \<Rightarrow> nat \<Rightarrow> (buf \<Rightarrow> bool) \<Rightarrow> nat option option" where
  "scan_prev 0 f b P = None"
| "scan_prev (Suc fuel) f b P =
     (if b = NBUF then Some None else if P (f b) then Some (Some b)
      else scan_prev fuel f (b_prev (f b)) P)"

definition bget :: "uint \<Rightarrow> uint \<Rightarrow> ('a bio_scheme, nat) kproc" where
  "bget dev blockno =
     bind (acq LkBcache) (\<lambda>_.
     bind (gets (\<lambda>s. scan_next (Suc NBUF) (bufs s) (b_next (bufs s NBUF))
        (\<lambda>b. b_dev b = dev \<and> b_blockno b = blockno))) (\<lambda>r.
     case r of None \<Rightarrow> hang
     | Some (Some b) \<Rightarrow>
        bind (modify (upd_buf b (\<lambda>q. q\<lparr>b_refcnt := b_refcnt q + 1\<rparr>))) (\<lambda>_.
        bind (rel LkBcache) (\<lambda>_.
        bind (acquiresleep (SlBuf b)) (\<lambda>_.
        return b)))
     | Some None \<Rightarrow>
        bind (gets (\<lambda>s. scan_prev (Suc NBUF) (bufs s) (b_prev (bufs s NBUF)) (\<lambda>b. b_refcnt b = 0))) (\<lambda>r.
        case r of None \<Rightarrow> hang
        | Some (Some b) \<Rightarrow>
           bind (modify (upd_buf b (\<lambda>q. q\<lparr>b_dev := dev, b_blockno := blockno, b_valid := 0, b_refcnt := 1\<rparr>))) (\<lambda>_.
           bind (rel LkBcache) (\<lambda>_.
           bind (acquiresleep (SlBuf b)) (\<lambda>_.
           return b)))
        | Some None \<Rightarrow> panic ''bget: no buffers'')))"

definition bread :: "uint \<Rightarrow> uint \<Rightarrow> ('a bio_scheme, nat) kproc" where
  "bread dev blockno =
     bind (bget dev blockno) (\<lambda>b.
     bind (gets (\<lambda>s. b_valid (bufs s b))) (\<lambda>v.
     bind (whenM (v = 0)
        (bind (disk_rw b False) (\<lambda>_.
         modify (upd_buf b (\<lambda>q. q\<lparr>b_valid := 1\<rparr>))))) (\<lambda>_.
     return b)))"

definition bwrite :: "nat \<Rightarrow> ('a bio_scheme, unit) kproc" where
  "bwrite b =
     bind (holdingsleep (SlBuf b)) (\<lambda>h.
     if \<not> h then panic ''bwrite'' else disk_rw b True)"

definition brelse :: "nat \<Rightarrow> ('a bio_scheme, unit) kproc" where
  "brelse b =
     bind (holdingsleep (SlBuf b)) (\<lambda>h.
     if \<not> h then panic ''brelse'' else
     bind (releasesleep (SlBuf b)) (\<lambda>_.
     bind (acq LkBcache) (\<lambda>_.
     bind (modify (upd_buf b (\<lambda>q. q\<lparr>b_refcnt := b_refcnt q - 1\<rparr>))) (\<lambda>_.
     bind (gets (\<lambda>s. b_refcnt (bufs s b))) (\<lambda>r.
     bind (whenM (r = 0) (modify (\<lambda>s. s\<lparr>bufs := insert_head b (unlink_buf b (bufs s))\<rparr>))) (\<lambda>_.
     rel LkBcache))))))"

definition bpin :: "nat \<Rightarrow> ('a bio_scheme, unit) kproc" where
  "bpin b =
     bind (acq LkBcache) (\<lambda>_.
     bind (modify (upd_buf b (\<lambda>q. q\<lparr>b_refcnt := b_refcnt q + 1\<rparr>))) (\<lambda>_.
     rel LkBcache))"

definition bunpin :: "nat \<Rightarrow> ('a bio_scheme, unit) kproc" where
  "bunpin b =
     bind (acq LkBcache) (\<lambda>_.
     bind (modify (upd_buf b (\<lambda>q. q\<lparr>b_refcnt := b_refcnt q - 1\<rparr>))) (\<lambda>_.
     rel LkBcache))"

section \<open>The doubly linked list\<close>

fun linked :: "(nat \<Rightarrow> buf) \<Rightarrow> nat \<Rightarrow> nat list \<Rightarrow> nat \<Rightarrow> bool" where
  "linked f a [] b = (b_next (f a) = b \<and> b_prev (f b) = a)"
| "linked f a (x # xs) b = (b_next (f a) = x \<and> b_prev (f x) = a \<and> linked f x xs b)"

definition dll :: "(nat \<Rightarrow> buf) \<Rightarrow> nat list \<Rightarrow> bool" where
  "dll f xs \<longleftrightarrow> linked f NBUF xs NBUF \<and> distinct xs \<and> set xs = {..<NBUF}"

lemma linked_append:
  "linked f a (xs @ x # ys) b \<longleftrightarrow> linked f a xs x \<and> linked f x ys b"
  by (induction xs arbitrary: a) auto

lemma linked_cong:
  assumes "\<And>u. u \<in> insert a (set xs) \<Longrightarrow> b_next (g u) = b_next (f u)"
    and "\<And>u. u \<in> insert b (set xs) \<Longrightarrow> b_prev (g u) = b_prev (f u)"
  shows "linked g a xs b = linked f a xs b"
  using assms by (induction xs arbitrary: a) auto

lemma insert_head_linked:
  assumes "linked f NBUF xs NBUF" and "distinct xs" and "b \<notin> set xs" and "b \<noteq> NBUF" and "NBUF \<notin> set xs"
  shows "linked (insert_head b f) NBUF (b # xs) NBUF"
proof (cases xs)
  case Nil
  with assms show ?thesis by (simp add: insert_head_def Let_def)
next
  case (Cons x ys)
  with assms have nx: "b_next (f NBUF) = x" "b_prev (f x) = NBUF" "linked f x ys NBUF" by auto
  let ?g = "insert_head b f"
  have "linked ?g x ys NBUF = linked f x ys NBUF"
    by (rule linked_cong) (use assms Cons nx in \<open>auto simp: insert_head_def Let_def\<close>)
  moreover have "b_next (?g NBUF) = b" "b_prev (?g b) = NBUF" "b_next (?g b) = x" "b_prev (?g x) = b"
    using assms Cons nx by (auto simp: insert_head_def Let_def)
  ultimately show ?thesis using Cons nx by simp
qed

lemma unlink_linked:
  assumes "linked f NBUF (ys @ b # zs) NBUF" and "distinct (ys @ b # zs)" and "NBUF \<notin> set (ys @ b # zs)"
  shows "linked (unlink_buf b f) NBUF (ys @ zs) NBUF"
proof -
  have l: "linked f NBUF ys b" "linked f b zs NBUF" using assms(1) by (simp_all add: linked_append)
  show ?thesis
  proof (cases ys rule: rev_cases)
    case Nil
    show ?thesis
    proof (cases zs)
      case (Cons z zs')
      have "linked (unlink_buf b f) z zs' NBUF = linked f z zs' NBUF"
        by (rule linked_cong) (use assms l Nil Cons in \<open>auto simp: unlink_buf_def Let_def\<close>)
      with assms l Nil Cons show ?thesis by (simp add: unlink_buf_def Let_def)
    qed (use assms l Nil in \<open>simp add: unlink_buf_def Let_def\<close>)
  next
    case (snoc ys' y)
    then have y: "linked f NBUF ys' y" "b_next (f y) = b" "b_prev (f b) = y" using l by (simp_all add: linked_append)
    have ly: "linked (unlink_buf b f) NBUF ys' y = linked f NBUF ys' y"
      by (cases zs) (rule linked_cong; use assms l snoc y in \<open>auto simp: unlink_buf_def Let_def\<close>)+
    show ?thesis
    proof (cases zs)
      case Nil
      with assms l snoc y ly show ?thesis by (simp add: linked_append) (simp add: unlink_buf_def Let_def)
    next
      case (Cons z zs')
      have "linked (unlink_buf b f) z zs' NBUF = linked f z zs' NBUF"
        by (rule linked_cong) (use assms l snoc Cons y in \<open>auto simp: unlink_buf_def Let_def\<close>)
      with assms l snoc Cons y ly show ?thesis by (simp add: linked_append) (simp add: unlink_buf_def Let_def)
    qed
  qed
qed

lemma dll_move_front:
  assumes "dll f xs" and "b < NBUF"
  shows "dll (insert_head b (unlink_buf b f)) (b # remove1 b xs)"
proof -
  have "b \<in> set xs" using assms by (simp add: dll_def)
  then obtain ys zs where xs: "xs = ys @ b # zs" by (meson split_list)
  with assms have d: "distinct (ys @ b # zs)" "NBUF \<notin> set (ys @ b # zs)" "set (ys @ b # zs) = {..<NBUF}"
      "linked f NBUF (ys @ b # zs) NBUF" by (auto simp: dll_def)
  have "remove1 b xs = ys @ zs" using d(1) xs by (simp add: remove1_append)
  moreover have "linked (insert_head b (unlink_buf b f)) NBUF (b # ys @ zs) NBUF"
    by (rule insert_head_linked [OF unlink_linked [OF d(4,1,2)]]) (use d assms(2) in auto)
  ultimately show ?thesis using d by (auto simp: dll_def)
qed

lemma dll_same_links:
  assumes "dll f xs" and "\<And>u. b_next (g u) = b_next (f u) \<and> b_prev (g u) = b_prev (f u)"
  shows "dll g xs"
  using assms linked_cong [of NBUF xs g f NBUF] by (simp add: dll_def)

subsection \<open>The scans\<close>

lemma scan_next_list:
  assumes "linked f a xs NBUF" and "NBUF \<notin> set xs" and "length xs < fuel"
  shows "scan_next fuel f (b_next (f a)) P = Some (find (\<lambda>i. P (f i)) xs)"
  using assms
proof (induction xs arbitrary: a fuel)
  case Nil
  then show ?case by (cases fuel) auto
next
  case (Cons x xs)
  then show ?case by (cases fuel) auto
qed

lemma scan_prev_list:
  assumes "linked f NBUF xs b" and "NBUF \<notin> set xs" and "length xs < fuel"
  shows "scan_prev fuel f (b_prev (f b)) P = Some (find (\<lambda>i. P (f i)) (rev xs))"
  using assms
proof (induction xs arbitrary: b fuel rule: rev_induct)
  case Nil
  then show ?case by (cases fuel) auto
next
  case (snoc x xs)
  then show ?case by (cases fuel) (auto simp: linked_append)
qed

declare scan_next.simps [simp del] scan_prev.simps [simp del]

lemma dll_length: "dll f xs \<Longrightarrow> length xs = NBUF"
  by (metis card_lessThan distinct_card dll_def)

lemma dll_scans:
  assumes "dll f xs"
  shows "scan_next (Suc NBUF) f (b_next (f NBUF)) P = Some (find (\<lambda>i. P (f i)) xs)"
    and "scan_prev (Suc NBUF) f (b_prev (f NBUF)) P = Some (find (\<lambda>i. P (f i)) (rev xs))"
proof -
  have l: "linked f NBUF xs NBUF" "NBUF \<notin> set xs" "length xs < Suc NBUF"
    using assms dll_length [OF assms] by (auto simp: dll_def)
  show "scan_next (Suc NBUF) f (b_next (f NBUF)) P = Some (find (\<lambda>i. P (f i)) xs)"
    by (rule scan_next_list [OF l])
  show "scan_prev (Suc NBUF) f (b_prev (f NBUF)) P = Some (find (\<lambda>i. P (f i)) (rev xs))"
    by (rule scan_prev_list [OF l])
qed

lemma find_Some_in: "find P xs = Some x \<Longrightarrow> x \<in> set xs \<and> P x"
  by (auto simp: find_Some_iff)


section \<open>The cache as a map from blocks to contents\<close>

definition cached :: "uint \<Rightarrow> (nat \<Rightarrow> buf) \<Rightarrow> uint \<Rightarrow> nat option" where
  "cached d f b = find (\<lambda>i. b_dev (f i) = d \<and> b_blockno (f i) = b) [0..<NBUF]"

definition uniq :: "uint \<Rightarrow> (nat \<Rightarrow> buf) \<Rightarrow> bool" where
  "uniq d f \<longleftrightarrow> (\<forall>i < NBUF. \<forall>j < NBUF. b_dev (f i) = d \<longrightarrow> b_dev (f j) = d \<longrightarrow>
     b_blockno (f i) = b_blockno (f j) \<longrightarrow> i = j)"

definition blkv :: "uint \<Rightarrow> (nat \<Rightarrow> buf) \<Rightarrow> (nat \<Rightarrow> block) \<Rightarrow> uint \<Rightarrow> block" where
  "blkv d f dk b = (case cached d f b of None \<Rightarrow> dk (unat b)
     | Some i \<Rightarrow> if b_valid (f i) \<noteq> 0 then b_data (f i) else dk (unat b))"

definition rcnt :: "uint \<Rightarrow> (nat \<Rightarrow> buf) \<Rightarrow> uint \<Rightarrow> nat" where
  "rcnt d f b = (case cached d f b of None \<Rightarrow> 0 | Some i \<Rightarrow> unat (b_refcnt (f i)))"

text \<open>A clean cache: an unreferenced buffer may be recycled because the disk has its contents.\<close>

definition clean :: "uint \<Rightarrow> (nat \<Rightarrow> buf) \<Rightarrow> (nat \<Rightarrow> block) \<Rightarrow> bool" where
  "clean d f dk \<longleftrightarrow> (\<forall>i < NBUF. b_dev (f i) = d \<longrightarrow> b_refcnt (f i) = 0 \<longrightarrow> b_valid (f i) \<noteq> 0 \<longrightarrow>
     b_data (f i) = dk (unat (b_blockno (f i))))"

lemma cached_SomeD: "cached d f b = Some i \<Longrightarrow> i < NBUF \<and> b_dev (f i) = d \<and> b_blockno (f i) = b"
  by (auto simp: cached_def find_Some_iff)

lemma cached_NoneD: "cached d f b = None \<Longrightarrow> i < NBUF \<Longrightarrow> b_dev (f i) = d \<Longrightarrow> b_blockno (f i) \<noteq> b"
  by (auto simp: cached_def find_None_iff)

lemma cached_SomeI:
  assumes "uniq d f" and "i < NBUF" and "b_dev (f i) = d" and "b_blockno (f i) = b"
  shows "cached d f b = Some i"
proof (cases "cached d f b")
  case None
  then show ?thesis using cached_NoneD [OF None assms(2,3)] assms(4) by simp
next
  case (Some j)
  then show ?thesis using cached_SomeD [OF Some] assms by (auto simp: uniq_def)
qed

text \<open>
  What the current process may assume between operations on the cache: it holds the sleep locks
  of exactly the buffers in \<open>L\<close>, every other buffer is unlocked, no spin lock is held.
\<close>

definition bio_idle :: "nat set \<Rightarrow> 'a bio_scheme \<Rightarrow> bool" where
  "bio_idle L s \<longleftrightarrow> LkBcache \<notin> held s \<and> (\<forall>l. LkSleep l \<notin> held s) \<and> no_proc_locks s \<and> curproc s \<noteq> None \<and>
     (\<forall>i < NBUF. (sl_locked (slocks s (SlBuf i)) \<noteq> 0) = (i \<in> L)) \<and>
     (\<forall>i \<in> L. i < NBUF \<and> held_sleep s (SlBuf i))"

definition bio_inv :: "uint \<Rightarrow> nat set \<Rightarrow> 'a bio_scheme \<Rightarrow> bool" where
  "bio_inv d L s \<longleftrightarrow> (\<exists>xs. dll (bufs s) xs) \<and> uniq d (bufs s) \<and> clean d (bufs s) (disk s) \<and>
     (\<forall>i < NBUF. b_refcnt (bufs s i) \<noteq> 0 \<longrightarrow> b_dev (bufs s i) = d) \<and>
     (\<forall>i \<in> L. b_refcnt (bufs s i) \<noteq> 0 \<and> b_valid (bufs s i) \<noteq> 0) \<and> bio_idle L s"

text \<open>What two states agree on when only the cache's bookkeeping has changed.\<close>

definition same_world :: "'a bio_scheme \<Rightarrow> 'a bio_scheme \<Rightarrow> bool" where
  "same_world s t \<longleftrightarrow> held t = held s \<and> curproc t = curproc s \<and> mem t = mem s \<and> freelist t = freelist s \<and>
     kend t = kend s \<and> bio.more t = bio.more s \<and> initproc t = initproc s \<and> nextpid t = nextpid s \<and>
     ticks t = ticks s \<and> cons_out t = cons_out s \<and>
     (\<forall>i. slocks t (SlInode i) = slocks s (SlInode i)) \<and>
     (\<forall>p. p_pid (procs t p) = p_pid (procs s p) \<and> p_ofile (procs t p) = p_ofile (procs s p) \<and>
        p_cwd (procs t p) = p_cwd (procs s p) \<and> p_pagetable (procs t p) = p_pagetable (procs s p) \<and>
        p_sz (procs t p) = p_sz (procs s p) \<and> p_killed (procs t p) = p_killed (procs s p) \<and>
        p_trapframe (procs t p) = p_trapframe (procs s p) \<and> p_kstack (procs t p) = p_kstack (procs s p))"

lemma same_world_refl [simp]: "same_world s s"
  by (simp add: same_world_def)

lemma same_world_trans: "same_world s t \<Longrightarrow> same_world t u \<Longrightarrow> same_world s u"
  by (simp add: same_world_def)

lemma upd_buf_simps [simp]:
  "bufs (upd_buf i f s) = (bufs s)(i := f (bufs s i))" "disk (upd_buf i f s) = disk s"
  "dwrites (upd_buf i f s) = dwrites s" "slocks (upd_buf i f s) = slocks s" "held (upd_buf i f s) = held s"
  "curproc (upd_buf i f s) = curproc s" "procs (upd_buf i f s) = procs s" "same_world s (upd_buf i f s)"
  "bio.more (upd_buf i f s) = bio.more s"
  by (simp_all add: upd_buf_def same_world_def)

lemma upd_slock_simps [simp]:
  "bufs (upd_slock l f (s :: 'a bio_scheme)) = bufs s" "disk (upd_slock l f s) = disk s"
  "dwrites (upd_slock l f s) = dwrites s" "slocks (upd_slock l f s) = (slocks s)(l := f (slocks s l))"
  "held (upd_slock l f s) = held s" "curproc (upd_slock l f s) = curproc s" "procs (upd_slock l f s) = procs s"
  "bio.more (upd_slock l f s) = bio.more s"
  by (simp_all add: upd_slock_def)

lemma same_world_slock [simp]: "same_world s (upd_slock (SlBuf i) f s)"
  by (simp add: same_world_def upd_slock_def)

text \<open>bget() on a well-formed list with the buffer's sleep lock free.\<close>

definition take_buf :: "nat \<Rightarrow> (buf \<Rightarrow> buf) \<Rightarrow> 'a bio_scheme \<Rightarrow> 'a bio_scheme" where
  "take_buf i f s = upd_slock (SlBuf i) (\<lambda>k. k\<lparr>sl_locked := 1,
     sl_pid := p_pid (procs s (the (curproc s)))\<rparr>) (upd_buf i f s)"

lemma take_buf_simps [simp]:
  "bufs (take_buf i f s) = (bufs s)(i := f (bufs s i))" "disk (take_buf i f s) = disk s"
  "dwrites (take_buf i f s) = dwrites s" "held (take_buf i f s) = held s"
  "curproc (take_buf i f s) = curproc s" "procs (take_buf i f s) = procs s" "bio.more (take_buf i f s) = bio.more s"
  by (simp_all add: take_buf_def)

lemma upd_take_buf: "upd_buf i f (take_buf i g s) = take_buf i (\<lambda>q. f (g q)) s"
  by (rule bio.equality) (simp_all add: take_buf_def upd_buf_def upd_slock_def)

lemma disk_rw_read:
  "disk_rw i False s = Ret () (upd_buf i (\<lambda>b. b\<lparr>b_data := disk s (unat (b_blockno (bufs s i)))\<rparr>) s)"
  by (simp add: disk_rw_def kmon Let_def)

lemma disk_rw_write:
  "disk_rw i True s = Ret () (s\<lparr>disk := (disk s)(unat (b_blockno (bufs s i)) := b_data (bufs s i)),
     dwrites := dwrites s @ [(unat (b_blockno (bufs s i)), b_data (bufs s i))]\<rparr>)"
  by (simp add: disk_rw_def kmon Let_def)

lemma same_world_take [simp]: "same_world s (take_buf i f s)"
  unfolding take_buf_def by (rule same_world_trans [OF _ same_world_slock]) simp

lemma bget_take:
  assumes "LkBcache \<notin> held s" and "\<forall>l. LkSleep l \<notin> held s" and "curproc s = Some p"
    and "sl_locked (slocks s (SlBuf i)) = 0"
  shows "bind (modify (upd_buf i f)) (\<lambda>_. bind (rel LkBcache) (\<lambda>_. bind (acquiresleep (SlBuf i)) (\<lambda>_. return i)))
      (s\<lparr>held := insert LkBcache (held s)\<rparr>) = Ret i (take_buf i f s)"
proof -
  have "rel LkBcache (upd_buf i f (s\<lparr>held := insert LkBcache (held s)\<rparr>)) = Ret () (upd_buf i f s)"
    using assms(1) by (simp add: rel_cases upd_buf_def)
  moreover have "acquiresleep (SlBuf i) (upd_buf i f s) = Ret () (take_buf i f s)"
    using acquiresleep_eq [of "SlBuf i" "upd_buf i f s" p] assms by (simp add: take_buf_def)
  ultimately show ?thesis by (simp add: bind_apply modify_apply return_apply)
qed

lemma bget_hit:
  assumes "bio_inv d L s" and "cached d (bufs s) b = Some i" and "i \<notin> L"
  shows "bget d b s = Ret i (take_buf i (\<lambda>q. q\<lparr>b_refcnt := b_refcnt q + 1\<rparr>) s)"
proof -
  obtain xs where xs: "dll (bufs s) xs" and u: "uniq d (bufs s)" and idle: "bio_idle L s"
    using assms(1) by (auto simp: bio_inv_def)
  let ?P = "\<lambda>q. b_dev q = d \<and> b_blockno q = b"
  note c = cached_SomeD [OF assms(2)]
  have "find (\<lambda>j. ?P (bufs s j)) xs = Some i"
  proof -
    have "i \<in> set xs" using xs c by (auto simp: dll_def)
    then obtain j where j: "find (\<lambda>j. ?P (bufs s j)) xs = Some j" using c
      by (cases "find (\<lambda>j. ?P (bufs s j)) xs") (auto simp: find_None_iff)
    then have "j \<in> set xs" "?P (bufs s j)" using find_Some_in by fastforce+
    then have "j = i" using u c xs by (auto simp: uniq_def dll_def)
    with j show ?thesis by simp
  qed
  then have sc: "scan_next (Suc NBUF) (bufs s) (b_next (bufs s NBUF)) ?P = Some (Some i)"
    using dll_scans(1) [OF xs] by simp
  obtain p where p: "curproc s = Some p" using idle by (auto simp: bio_idle_def)
  have unl: "sl_locked (slocks s (SlBuf i)) = 0" using idle c assms(3) by (auto simp: bio_idle_def)
  show ?thesis
    unfolding bget_def
    using sc bget_take [OF _ _ p unl] idle
    by (simp add: bind_apply [of "acq _"] bind_apply [of "gets _"] gets_apply acq_cases bio_idle_def)
qed


lemma bget_miss:
  assumes "bio_inv d L s" and "cached d (bufs s) b = None" and "\<exists>i < NBUF. b_refcnt (bufs s i) = 0"
  shows "\<exists>i < NBUF. b_refcnt (bufs s i) = 0 \<and> bget d b s =
    Ret i (take_buf i (\<lambda>q. q\<lparr>b_dev := d, b_blockno := b, b_valid := 0, b_refcnt := 1\<rparr>) s)"
proof -
  obtain xs where xs: "dll (bufs s) xs" and idle: "bio_idle L s"
    using assms(1) by (auto simp: bio_inv_def)
  let ?P = "\<lambda>q. b_dev q = d \<and> b_blockno q = b" and ?R = "\<lambda>q. b_refcnt q = 0"
  have "find (\<lambda>j. ?P (bufs s j)) xs = None"
    using xs cached_NoneD [OF assms(2)] by (auto simp: find_None_iff dll_def)
  then have sc: "scan_next (Suc NBUF) (bufs s) (b_next (bufs s NBUF)) ?P = Some None"
    using dll_scans(1) [OF xs] by simp
  obtain i where i: "find (\<lambda>j. ?R (bufs s j)) (rev xs) = Some i"
    using assms(3) xs by (cases "find (\<lambda>j. ?R (bufs s j)) (rev xs)") (auto simp: find_None_iff dll_def)
  then have i': "i < NBUF" "b_refcnt (bufs s i) = 0"
    using find_Some_in [OF i] xs by (auto simp: dll_def)
  have sp: "scan_prev (Suc NBUF) (bufs s) (b_prev (bufs s NBUF)) ?R = Some (Some i)"
    using dll_scans(2) [OF xs] i by simp
  have "i \<notin> L" using assms(1) i' by (auto simp: bio_inv_def)
  obtain p where p: "curproc s = Some p" using idle by (auto simp: bio_idle_def)
  have unl: "sl_locked (slocks s (SlBuf i)) = 0" using idle i' \<open>i \<notin> L\<close> by (auto simp: bio_idle_def)
  have "bget d b s = Ret i (take_buf i (\<lambda>q. q\<lparr>b_dev := d, b_blockno := b, b_valid := 0, b_refcnt := 1\<rparr>) s)"
    unfolding bget_def
    using sc sp bget_take [OF _ _ p unl] idle
    by (simp add: bind_apply [of "acq _"] bind_apply [of "gets _"] gets_apply acq_cases bio_idle_def)
  with i' show ?thesis by blast
qed

lemma bget_full:
  assumes "bio_inv d L s" and "cached d (bufs s) b = None" and "\<forall>i < NBUF. b_refcnt (bufs s i) \<noteq> 0"
  shows "\<exists>t. bget d b s = Panic ''bget: no buffers'' t"
proof -
  obtain xs where xs: "dll (bufs s) xs" and idle: "bio_idle L s"
    using assms(1) by (auto simp: bio_inv_def)
  have "find (\<lambda>j. b_dev (bufs s j) = d \<and> b_blockno (bufs s j) = b) xs = None"
    "find (\<lambda>j. b_refcnt (bufs s j) = 0) (rev xs) = None"
    using xs assms(3) cached_NoneD [OF assms(2)] by (auto simp: find_None_iff dll_def)
  then show ?thesis
    unfolding bget_def using dll_scans [OF xs] idle
    by (simp add: bind_apply gets_apply acq_cases bio_idle_def panic_apply)
qed

text \<open>A buffer that has just been locked by the current process.\<close>

lemma bio_idle_take:
  assumes "bio_idle L s" and "i < NBUF"
  shows "bio_idle (insert i L) (take_buf i f s)"
proof -
  obtain p where p: "curproc s = Some p" using assms by (auto simp: bio_idle_def)
  have "slocks (take_buf i f s) (SlBuf j) = (if j = i then (slocks s (SlBuf i))\<lparr>sl_locked := 1,
      sl_pid := p_pid (procs s p)\<rparr> else slocks s (SlBuf j))" for j
    using p by (simp add: take_buf_def)
  then show ?thesis using assms p by (auto simp: bio_idle_def held_sleep_def no_proc_locks_def)
qed

lemma bio_idle_bufs: "bio_idle L s \<Longrightarrow> bio_idle L (upd_buf i f s)"
  by (simp add: bio_idle_def held_sleep_def no_proc_locks_def)

text \<open>Everything but the list pointers.\<close>

definition bcont :: "buf \<Rightarrow> int \<times> uint \<times> uint \<times> uint \<times> block" where
  "bcont q = (b_valid q, b_dev q, b_blockno q, b_refcnt q, b_data q)"

lemma bcont_eq: "bcont q = bcont r \<longleftrightarrow> b_valid q = b_valid r \<and> b_dev q = b_dev r \<and> b_blockno q = b_blockno r \<and>
    b_refcnt q = b_refcnt r \<and> b_data q = b_data r"
  by (auto simp: bcont_def)

lemma bcont_list_ops [simp]: "bcont (insert_head b f j) = bcont (f j)" "bcont (unlink_buf b f j) = bcont (f j)"
  by (auto simp: bcont_eq insert_head_def unlink_buf_def Let_def)

lemma cont_cong:
  assumes "\<And>i. i < NBUF \<Longrightarrow> bcont (g i) = bcont (f i)"
  shows "cached d g b = cached d f b" and "uniq d g = uniq d f" and "clean d g dk = clean d f dk"
    and "blkv d g dk b = blkv d f dk b" and "rcnt d g b = rcnt d f b"
proof -
  have e: "b_dev (g i) = b_dev (f i)" "b_blockno (g i) = b_blockno (f i)" "b_valid (g i) = b_valid (f i)"
    "b_refcnt (g i) = b_refcnt (f i)" "b_data (g i) = b_data (f i)" if "i < NBUF" for i
    using assms [OF that] by (auto simp: bcont_eq)
  show c: "cached d g b = cached d f b" unfolding cached_def using e by (intro find_cong) auto
  show "uniq d g = uniq d f" "clean d g dk = clean d f dk" using e by (auto simp: uniq_def clean_def)
  show "blkv d g dk b = blkv d f dk b" "rcnt d g b = rcnt d f b"
    using c e cached_SomeD [of d f b] by (auto simp: blkv_def rcnt_def split: option.splits)
qed

subsection \<open>bread()\<close>

text \<open>The abstract effect of taking a reference to block \<open>b\<close>.\<close>

definition read_ok :: "uint \<Rightarrow> nat set \<Rightarrow> 'a bio_scheme \<Rightarrow> uint \<Rightarrow> nat \<Rightarrow> 'a bio_scheme \<Rightarrow> bool" where
  "read_ok d L s b i t \<longleftrightarrow> bio_inv d (insert i L) t \<and> i \<notin> L \<and> i < NBUF \<and>
     b_dev (bufs t i) = d \<and> b_blockno (bufs t i) = b \<and> b_data (bufs t i) = blkv d (bufs s) (disk s) b \<and>
     disk t = disk s \<and> dwrites t = dwrites s \<and> (\<forall>c. blkv d (bufs t) (disk t) c = blkv d (bufs s) (disk s) c) \<and>
     rcnt d (bufs t) = (rcnt d (bufs s))(b := rcnt d (bufs s) b + 1) \<and>
     (\<forall>j \<in> L. bcont (bufs t j) = bcont (bufs s j)) \<and> same_world s t"


lemma cached_take:
  assumes u: "uniq d f" and i: "i < NBUF" and q: "b_dev q = d" "b_blockno q = b"
    and hm: "cached d f b = Some i \<or> cached d f b = None"
  shows "uniq d (f(i := q))"
    and "cached d (f(i := q)) c = (if c = b then Some i else if cached d f c = Some i then None else cached d f c)"
proof -
  have no: "b_blockno (f j) \<noteq> b" if "j < NBUF" "j \<noteq> i" "b_dev (f j) = d" for j
    using that hm cached_SomeD [of d f b i] cached_NoneD [of d f b j] cached_SomeI [OF u that(1,3) refl] by auto
  show u': "uniq d (f(i := q))"
    unfolding uniq_def
  proof (intro allI impI)
    fix j k
    assume "j < NBUF" "k < NBUF" "b_dev ((f(i := q)) j) = d" "b_dev ((f(i := q)) k) = d"
      "b_blockno ((f(i := q)) j) = b_blockno ((f(i := q)) k)"
    then show "j = k" using u q no [of j] no [of k] by (cases "j = i"; cases "k = i") (auto simp: uniq_def)
  qed
  show "cached d (f(i := q)) c = (if c = b then Some i else if cached d f c = Some i then None else cached d f c)"
  proof (cases "c = b")
    case True
    then show ?thesis using cached_SomeI [OF u' i] q by simp
  next
    case False
    show ?thesis
    proof (cases "cached d f c")
      case None
      have "cached d (f(i := q)) c = None"
        using cached_NoneD [OF None] False q by (auto simp: cached_def find_None_iff)
      then show ?thesis using None False by simp
    next
      case (Some j)
      note j = cached_SomeD [OF Some]
      show ?thesis
      proof (cases "j = i")
        case True
        have "\<not> (b_dev ((f(i := q)) k) = d \<and> b_blockno ((f(i := q)) k) = c)" if "k < NBUF" for k
          using that u j True False q unfolding uniq_def by auto
        then have "cached d (f(i := q)) c = None" by (simp add: cached_def find_None_iff)
        then show ?thesis using True Some False by simp
      next
        case ne: False
        then have "cached d (f(i := q)) c = Some j" using j by (intro cached_SomeI [OF u']) auto
        then show ?thesis using Some False ne by simp
      qed
    qed
  qed
qed

lemma read_ok_upd:
  assumes inv: "bio_inv d L s" and i: "i < NBUF" "i \<notin> L"
    and hm: "cached d (bufs s) b = Some i \<or> cached d (bufs s) b = None \<and> b_refcnt (bufs s i) = 0"
    and q: "b_dev q = d" "b_blockno q = b" "b_valid q \<noteq> 0" "b_data q = blkv d (bufs s) (disk s) b"
      "unat (b_refcnt q) = rcnt d (bufs s) b + 1" "b_next q = b_next (bufs s i)" "b_prev q = b_prev (bufs s i)"
    and t: "bufs t = (bufs s)(i := q)" "disk t = disk s" "dwrites t = dwrites s" "same_world s t"
      "bio_idle (insert i L) t"
  shows "read_ok d L s b i t"
proof -
  obtain xs where xs: "dll (bufs s) xs" and u: "uniq d (bufs s)" and cl: "clean d (bufs s) (disk s)"
    and dv: "\<forall>i < NBUF. b_refcnt (bufs s i) \<noteq> 0 \<longrightarrow> b_dev (bufs s i) = d"
    and LL: "\<forall>i \<in> L. b_refcnt (bufs s i) \<noteq> 0 \<and> b_valid (bufs s i) \<noteq> 0"
    using inv by (auto simp: bio_inv_def)
  have hm': "cached d (bufs s) b = Some i \<or> cached d (bufs s) b = None" using hm by auto
  note c = cached_take [OF u i(1) q(1,2) hm']
  have dll: "dll (bufs t) xs" unfolding t(1) by (rule dll_same_links [OF xs]) (use q in auto)
  have pos: "b_refcnt q \<noteq> 0" using q(5) by (auto simp: unat_eq_0)
  have "clean d (bufs t) (disk t)" using cl pos t(1,2) by (auto simp: clean_def)
  moreover have "\<forall>j < NBUF. b_refcnt (bufs t j) \<noteq> 0 \<longrightarrow> b_dev (bufs t j) = d" using dv q(1) t(1) by auto
  moreover have "\<forall>j \<in> insert i L. b_refcnt (bufs t j) \<noteq> 0 \<and> b_valid (bufs t j) \<noteq> 0"
    using LL pos q(3) t(1) by auto
  ultimately have "bio_inv d (insert i L) t" using dll c(1) t by (auto simp: bio_inv_def)
  moreover have "blkv d (bufs t) (disk t) x = blkv d (bufs s) (disk s) x" for x
  proof (cases "x = b")
    case True
    then show ?thesis using c(2) [of b] q t(1) by (simp add: blkv_def)
  next
    case False
    show ?thesis
    proof (cases "cached d (bufs s) x = Some i")
      case True
      then have "b_refcnt (bufs s i) = 0" using hm False cached_SomeD [OF True] cached_SomeD [of d "bufs s" b i] by auto
      then have "b_valid (bufs s i) \<noteq> 0 \<longrightarrow> b_data (bufs s i) = disk s (unat x)"
        using cl i(1) cached_SomeD [OF True] by (auto simp: clean_def)
      with True False c(2) [of x] t(1,2) show ?thesis by (simp add: blkv_def)
    next
      case ne: False
      with False c(2) [of x] t(1,2) show ?thesis by (auto simp: blkv_def split: option.splits)
    qed
  qed
  moreover have "rcnt d (bufs t) x = ((rcnt d (bufs s))(b := rcnt d (bufs s) b + 1)) x" for x
  proof (cases "x = b")
    case True
    then show ?thesis using c(2) [of b] q(5) t(1) by (simp add: rcnt_def)
  next
    case False
    have "b_refcnt (bufs s i) = 0" if "cached d (bufs s) x = Some i"
      using hm False cached_SomeD [OF that] cached_SomeD [of d "bufs s" b i] by auto
    with False c(2) [of x] t(1) show ?thesis by (auto simp: rcnt_def split: option.splits)
  qed
  ultimately show ?thesis using i q t unfolding read_ok_def by auto
qed

lemma bread_spec:
  assumes inv: "bio_inv d L s" and nl: "\<forall>i \<in> L. b_blockno (bufs s i) \<noteq> b"
    and room: "rcnt d (bufs s) b \<noteq> 0 \<or> (\<exists>i < NBUF. b_refcnt (bufs s i) = 0)"
    and small: "rcnt d (bufs s) b + 1 < 2 ^ 32"
  shows "\<exists>i t. bread d b s = Ret i t \<and> read_ok d L s b i t"
proof (cases "cached d (bufs s) b")
  case (Some i)
  note c = cached_SomeD [OF Some]
  then have iL: "i \<notin> L" using nl by auto
  let ?f = "\<lambda>q. q\<lparr>b_refcnt := b_refcnt q + 1\<rparr>"
  let ?g = "\<lambda>q. if b_valid q = 0 then q\<lparr>b_refcnt := b_refcnt q + 1, b_data := disk s (unat b), b_valid := 1\<rparr> else ?f q"
  note bg = bget_hit [OF inv Some iL]
  have "take_buf i ?f s = take_buf i ?g s" if "b_valid (bufs s i) \<noteq> 0"
    using that by (simp add: take_buf_def upd_buf_def)
  moreover have "take_buf i (\<lambda>q. q\<lparr>b_refcnt := b_refcnt q + 1, b_data := disk s (unat b), b_valid := 1\<rparr>) s = take_buf i ?g s"
    if "b_valid (bufs s i) = 0"
    using that by (simp add: take_buf_def upd_buf_def)
  ultimately have "bread d b s = Ret i (take_buf i ?g s)"
    unfolding bread_def using bg c
    by (cases "b_valid (bufs s i) = 0")
      (simp_all add: bind_apply gets_apply modify_apply when_apply return_apply disk_rw_read upd_take_buf)
  moreover have "unat (b_refcnt (bufs s i) + 1) = unat (b_refcnt (bufs s i)) + 1"
    using small Some by (simp add: unat_word_ariths rcnt_def)
  then have "read_ok d L s b i (take_buf i ?g s)"
    using inv Some c
    by (intro read_ok_upd [OF inv _ iL, where q = "?g (bufs s i)"])
      (auto simp: blkv_def rcnt_def bio_inv_def intro: bio_idle_take)
  ultimately show ?thesis by blast
next
  case None
  then have "\<exists>i < NBUF. b_refcnt (bufs s i) = 0" using room by (auto simp: rcnt_def)
  from bget_miss [OF inv None this] obtain i where i: "i < NBUF" "b_refcnt (bufs s i) = 0"
      "bget d b s = Ret i (take_buf i (\<lambda>q. q\<lparr>b_dev := d, b_blockno := b, b_valid := 0, b_refcnt := 1\<rparr>) s)" by blast
  let ?g = "\<lambda>q. q\<lparr>b_dev := d, b_blockno := b, b_valid := 0, b_refcnt := 1, b_data := disk s (unat b), b_valid := 1\<rparr>"
  have iL: "i \<notin> L" using inv i by (auto simp: bio_inv_def)
  have "bread d b s = Ret i (take_buf i ?g s)"
    unfolding bread_def using i
    by (simp add: bind_apply gets_apply modify_apply when_apply return_apply disk_rw_read upd_take_buf)
  moreover have "read_ok d L s b i (take_buf i ?g s)"
    using inv None i
    by (intro read_ok_upd [OF inv _ iL, where q = "?g (bufs s i)"])
      (auto simp: blkv_def rcnt_def bio_inv_def intro: bio_idle_take)
  ultimately show ?thesis by blast
qed


subsection \<open>brelse(), bwrite() and the pins\<close>

lemma rcnt_upd:
  assumes "uniq d f" and "i < NBUF" and "b_dev (f i) = d"
  shows "rcnt d (f(i := (f i)\<lparr>b_refcnt := r\<rparr>)) = (rcnt d f)(b_blockno (f i) := unat r)"
    and "blkv d (f(i := (f i)\<lparr>b_refcnt := r\<rparr>)) dk b = blkv d f dk b"
    and "uniq d (f(i := (f i)\<lparr>b_refcnt := r\<rparr>))"
proof -
  let ?g = "f(i := (f i)\<lparr>b_refcnt := r\<rparr>)"
  have ci: "cached d f (b_blockno (f i)) = Some i" by (rule cached_SomeI [OF assms refl])
  have c: "cached d ?g c = cached d f c" for c unfolding cached_def by (intro find_cong) auto
  show "uniq d ?g" using assms(1) by (auto simp: uniq_def)
  show "blkv d ?g dk b = blkv d f dk b" by (auto simp: blkv_def c split: option.splits)
  show "rcnt d ?g = (rcnt d f)(b_blockno (f i) := unat r)"
  proof
    fix x
    show "rcnt d ?g x = ((rcnt d f)(b_blockno (f i) := unat r)) x"
      using ci cached_SomeD [of d f x i] by (cases "x = b_blockno (f i)") (auto simp: rcnt_def c split: option.splits)
  qed
qed

definition drop_ok :: "uint \<Rightarrow> nat set \<Rightarrow> 'a bio_scheme \<Rightarrow> nat \<Rightarrow> 'a bio_scheme \<Rightarrow> bool" where
  "drop_ok d L s i t \<longleftrightarrow> bio_inv d (L - {i}) t \<and> disk t = disk s \<and> dwrites t = dwrites s \<and>
     (\<forall>c. blkv d (bufs t) (disk t) c = blkv d (bufs s) (disk s) c) \<and>
     rcnt d (bufs t) = (rcnt d (bufs s))(b_blockno (bufs s i) := rcnt d (bufs s) (b_blockno (bufs s i)) - 1) \<and>
     (\<forall>j \<in> L - {i}. bcont (bufs t j) = bcont (bufs s j)) \<and> same_world s t"

lemma bio_invD:
  assumes "bio_inv d L s" and "i \<in> L"
  shows "i < NBUF" and "b_dev (bufs s i) = d" and "b_refcnt (bufs s i) \<noteq> 0" and "b_valid (bufs s i) \<noteq> 0"
    and "cached d (bufs s) (b_blockno (bufs s i)) = Some i"
    and "rcnt d (bufs s) (b_blockno (bufs s i)) = unat (b_refcnt (bufs s i))"
    and "blkv d (bufs s) dk (b_blockno (bufs s i)) = b_data (bufs s i)"
proof -
  show i: "i < NBUF" and v: "b_valid (bufs s i) \<noteq> 0" and r: "b_refcnt (bufs s i) \<noteq> 0"
    using assms by (auto simp: bio_inv_def bio_idle_def)
  show dv: "b_dev (bufs s i) = d" using assms i r by (auto simp: bio_inv_def)
  show "cached d (bufs s) (b_blockno (bufs s i)) = Some i"
    using assms i dv by (intro cached_SomeI) (auto simp: bio_inv_def)
  then show "rcnt d (bufs s) (b_blockno (bufs s i)) = unat (b_refcnt (bufs s i))"
    "blkv d (bufs s) dk (b_blockno (bufs s i)) = b_data (bufs s i)" using v by (simp_all add: rcnt_def blkv_def)
qed

lemma bio_holding:
  assumes "bio_inv d L s" and "i \<in> L"
  shows "holdingsleep (SlBuf i) s = Ret True s"
proof -
  obtain p where "curproc s = Some p" using assms by (auto simp: bio_inv_def bio_idle_def)
  then show ?thesis using holdingsleep_eq [of "SlBuf i" s p] assms by (auto simp: bio_inv_def bio_idle_def)
qed

lemma same_world_release:
  "same_world s ((upd_slock (SlBuf i) f s)\<lparr>procs := wake_procs ch me P (procs s)\<rparr>)"
  by (simp add: same_world_def upd_slock_def)

lemma brelse_spec:
  assumes inv: "bio_inv d L s" and i: "i \<in> L"
    and keep: "unat (b_refcnt (bufs s i)) = 1 \<longrightarrow> b_data (bufs s i) = disk s (unat (b_blockno (bufs s i)))"
  shows "\<exists>t. brelse i s = Ret () t \<and> drop_ok d L s i t"
proof -
  note D = bio_invD [OF inv i]
  obtain xs where xs: "dll (bufs s) xs" and u: "uniq d (bufs s)" and cl: "clean d (bufs s) (disk s)"
    and dv: "\<forall>i < NBUF. b_refcnt (bufs s i) \<noteq> 0 \<longrightarrow> b_dev (bufs s i) = d"
    and LL: "\<forall>i \<in> L. b_refcnt (bufs s i) \<noteq> 0 \<and> b_valid (bufs s i) \<noteq> 0" and idle: "bio_idle L s"
    using inv by (auto simp: bio_inv_def)
  define s1 where "s1 = (upd_slock (SlBuf i) (\<lambda>k. k\<lparr>sl_locked := 0, sl_pid := 0\<rparr>) s)
      \<lparr>procs := wake_procs (ChSleep (SlBuf i)) (curproc s) {..<NPROC} (procs s)\<rparr>"
  let ?r = "b_refcnt (bufs s i) - 1"
  let ?f = "(bufs s)(i := (bufs s i)\<lparr>b_refcnt := ?r\<rparr>)"
  define g where "g = (if ?r = 0 then insert_head i (unlink_buf i ?f) else ?f)"
  define t where "t = s1\<lparr>bufs := g\<rparr>"
  have rs: "releasesleep (SlBuf i) s = Ret () s1"
    using idle releasesleep_eq [of "SlBuf i" s] by (simp add: s1_def bio_idle_def)
  have "LkBcache \<notin> held s1" "bufs s1 = bufs s" using idle by (simp_all add: s1_def bio_idle_def)
  then have run: "brelse i s = Ret () t"
    using bio_holding [OF inv i] rs
    by (simp add: brelse_def bind_apply gets_apply modify_apply when_apply acq_cases rel_cases t_def g_def upd_buf_def)
  have gc: "bcont (g j) = bcont (?f j)" for j by (simp add: g_def)
  note cc = cont_cong [of g ?f, OF gc]
  have ur: "unat ?r = unat (b_refcnt (bufs s i)) - 1" using D(3) by (simp add: unat_minus_one)
  have dll: "\<exists>ys. dll g ys"
  proof -
    have a: "dll ?f xs" by (rule dll_same_links [OF xs]) simp
    have "dll g (i # remove1 i xs) \<or> dll g xs"
      unfolding g_def using a dll_move_front [OF a D(1)] by (cases "?r = 0") (simp_all only: if_True if_False simp_thms)
    then show ?thesis by blast
  qed
  have cl': "clean d ?f (disk s)"
    using cl keep D(4) ur unfolding clean_def by (auto simp: unat_eq_0 [symmetric])
  have fr: "b_refcnt (g j) = b_refcnt (?f j)" "b_dev (g j) = b_dev (?f j)" "b_valid (g j) = b_valid (?f j)" for j
    using gc [of j] by (simp_all add: bcont_eq)
  have idle': "bio_idle (L - {i}) t"
    using idle by (auto simp: t_def s1_def bio_idle_def no_proc_locks_def held_sleep_def)
  have "bio_inv d (L - {i}) t"
    unfolding bio_inv_def using dll cc(2,3) rcnt_upd(3) [OF u D(1,2)] cl' dv D(2) LL idle' fr
    by (auto simp: t_def s1_def)
  moreover have "same_world s t"
    using same_world_release unfolding t_def s1_def by (simp add: same_world_def)
  moreover have "rcnt d (bufs t) = (rcnt d (bufs s))(b_blockno (bufs s i) := rcnt d (bufs s) (b_blockno (bufs s i)) - 1)"
    using cc(5) rcnt_upd(1) [OF u D(1,2), of ?r] ur D(6) by (simp add: t_def fun_eq_iff)
  moreover have "blkv d (bufs t) (disk t) c = blkv d (bufs s) (disk s) c" for c
    using cc(4) rcnt_upd(2) [OF u D(1,2)] by (simp add: t_def s1_def)
  moreover have "\<forall>j \<in> L - {i}. bcont (bufs t j) = bcont (bufs s j)" using gc by (simp add: t_def)
  ultimately show ?thesis using run unfolding drop_ok_def by (auto simp: t_def s1_def)
qed


lemma bwrite_spec:
  assumes inv: "bio_inv d L s" and i: "i \<in> L"
  shows "\<exists>t. bwrite i s = Ret () t \<and> bio_inv d L t \<and> bufs t = bufs s \<and> same_world s t \<and>
    disk t = (disk s)(unat (b_blockno (bufs s i)) := b_data (bufs s i)) \<and>
    dwrites t = dwrites s @ [(unat (b_blockno (bufs s i)), b_data (bufs s i))] \<and>
    (\<forall>c. blkv d (bufs t) (disk t) c = blkv d (bufs s) (disk s) c)"
proof -
  note D = bio_invD [OF inv i]
  let ?n = "unat (b_blockno (bufs s i))"
  let ?t = "s\<lparr>disk := (disk s)(?n := b_data (bufs s i)), dwrites := dwrites s @ [(?n, b_data (bufs s i))]\<rparr>"
  have run: "bwrite i s = Ret () ?t" using bio_holding [OF inv i] by (simp add: bwrite_def bind_apply disk_rw_write)
  have c: "b_blockno (bufs s j) = b_blockno (bufs s i) \<Longrightarrow> j < NBUF \<Longrightarrow> b_dev (bufs s j) = d \<Longrightarrow> j = i" for j
    using inv D(1,2) by (auto simp: bio_inv_def uniq_def)
  have cl: "clean d (bufs s) (disk s)" using inv by (simp add: bio_inv_def)
  have "clean d (bufs s) (disk ?t)"
    unfolding clean_def
  proof (intro allI impI)
    fix j assume j: "j < NBUF" "b_dev (bufs s j) = d" "b_refcnt (bufs s j) = 0" "b_valid (bufs s j) \<noteq> 0"
    then have "b_blockno (bufs s j) \<noteq> b_blockno (bufs s i)" using c [of j] D(3) by auto
    then have "unat (b_blockno (bufs s j)) \<noteq> ?n" by (simp only: word_unat_eq_iff not_False_eq_True)
    with cl j show "b_data (bufs s j) = disk ?t (unat (b_blockno (bufs s j)))" by (simp add: clean_def)
  qed
  then have "bio_inv d L ?t" using inv by (simp add: bio_inv_def bio_idle_def no_proc_locks_def held_sleep_def)
  moreover have "blkv d (bufs s) (disk ?t) x = blkv d (bufs s) (disk s) x" for x
  proof (cases "x = b_blockno (bufs s i)")
    case True
    then show ?thesis using D(5,4) by (simp add: blkv_def)
  next
    case False
    then have "unat x \<noteq> ?n" by (simp only: word_unat_eq_iff not_False_eq_True)
    then show ?thesis by (simp add: blkv_def split: option.splits)
  qed
  ultimately show ?thesis using run by (auto simp: same_world_def)
qed

lemma uniq_same:
  assumes "\<And>i. b_dev (g i) = b_dev (f i)" and "\<And>i. b_blockno (g i) = b_blockno (f i)"
  shows "uniq d g = uniq d f"
  by (simp add: uniq_def assms)

lemma bio_inv_upd:
  assumes inv: "bio_inv d L s" and i: "i \<in> L"
    and key: "b_dev (f (bufs s i)) = b_dev (bufs s i)" "b_blockno (f (bufs s i)) = b_blockno (bufs s i)"
    and link: "b_next (f (bufs s i)) = b_next (bufs s i)" "b_prev (f (bufs s i)) = b_prev (bufs s i)"
    and live: "b_refcnt (f (bufs s i)) \<noteq> 0" "b_valid (f (bufs s i)) \<noteq> 0"
  shows "bio_inv d L (upd_buf i f s)"
proof -
  let ?g = "(bufs s)(i := f (bufs s i))"
  obtain xs where xs: "dll (bufs s) xs" using inv by (auto simp: bio_inv_def)
  have 1: "dll ?g xs" by (rule dll_same_links [OF xs]) (simp add: link)
  have "uniq d (bufs s)" using inv by (simp add: bio_inv_def)
  moreover have "uniq d ?g = uniq d (bufs s)" by (rule uniq_same) (simp_all add: key)
  ultimately have 2: "uniq d ?g" by simp
  have c: "clean d (bufs s) (disk s)" using inv by (simp add: bio_inv_def)
  have 3: "clean d ?g (disk s)" unfolding clean_def
  proof (intro allI impI)
    fix j assume "j < NBUF" "b_dev (?g j) = d" "b_refcnt (?g j) = 0" "b_valid (?g j) \<noteq> 0"
    then show "b_data (?g j) = disk s (unat (b_blockno (?g j)))"
      using c live by (cases "j = i") (auto simp: clean_def)
  qed
  have dv: "b_dev (bufs s i) = d" by (rule bio_invD(2) [OF inv i])
  have 4: "b_dev (?g j) = d" if "j < NBUF" "b_refcnt (?g j) \<noteq> 0" for j
    using inv that dv key by (cases "j = i") (auto simp: bio_inv_def)
  have 5: "b_refcnt (?g j) \<noteq> 0 \<and> b_valid (?g j) \<noteq> 0" if "j \<in> L" for j
    using inv that live by (cases "j = i") (auto simp: bio_inv_def)
  have 6: "bio_idle L (upd_buf i f s)" using inv by (intro bio_idle_bufs) (simp add: bio_inv_def)
  show ?thesis unfolding bio_inv_def upd_buf_simps using 1 2 3 4 5 6 by blast
qed

lemma set_data_view:
  assumes inv: "bio_inv d L s" and i: "i \<in> L"
  shows "blkv d ((bufs s)(i := (bufs s i)\<lparr>b_data := x\<rparr>)) dk = (blkv d (bufs s) dk)(b_blockno (bufs s i) := x)"
    and "rcnt d ((bufs s)(i := (bufs s i)\<lparr>b_data := x\<rparr>)) = rcnt d (bufs s)"
proof -
  let ?f = "(bufs s)(i := (bufs s i)\<lparr>b_data := x\<rparr>)"
  note D = bio_invD [OF inv i]
  have c: "cached d ?f b = cached d (bufs s) b" for b unfolding cached_def by (intro find_cong) auto
  show "rcnt d ?f = rcnt d (bufs s)" by (rule ext) (simp add: rcnt_def c split: option.split)
  show "blkv d ?f dk = (blkv d (bufs s) dk)(b_blockno (bufs s i) := x)"
  proof
    fix b
    have n: "j \<noteq> i" if "cached d (bufs s) b = Some j" "b \<noteq> b_blockno (bufs s i)" for j
      using cached_SomeD [OF that(1)] that(2) by auto
    show "blkv d ?f dk b = ((blkv d (bufs s) dk)(b_blockno (bufs s i) := x)) b"
    proof (cases "b = b_blockno (bufs s i)")
      case True then show ?thesis using D(4,5) by (simp add: blkv_def c)
    next
      case False
      then show ?thesis using n by (simp add: blkv_def c split: option.split)
    qed
  qed
qed

lemma set_data_spec:
  assumes inv: "bio_inv d L s" and i: "i \<in> L"
  shows "\<exists>t. set_data i x s = Ret () t \<and> bio_inv d L t \<and> same_world s t \<and> disk t = disk s \<and> dwrites t = dwrites s \<and>
    bufs t = (bufs s)(i := (bufs s i)\<lparr>b_data := x\<rparr>) \<and>
    blkv d (bufs t) (disk t) = (blkv d (bufs s) (disk s))(b_blockno (bufs s i) := x) \<and>
    rcnt d (bufs t) = rcnt d (bufs s)"
proof -
  note D = bio_invD [OF inv i]
  have "bio_inv d L (upd_buf i (\<lambda>b. b\<lparr>b_data := x\<rparr>) s)"
    by (rule bio_inv_upd [OF inv i]) (simp_all add: D)
  moreover have "set_data i x s = Ret () (upd_buf i (\<lambda>b. b\<lparr>b_data := x\<rparr>) s)"
    by (simp add: set_data_def modify_apply)
  ultimately show ?thesis by (simp add: set_data_view [OF inv i])
qed

text \<open>Pinning changes the count of a buffer the process has locked.\<close>

lemma pin_inv:
  assumes inv: "bio_inv d L s" and i: "i \<in> L" and r: "r \<noteq> 0"
  shows "bio_inv d L (upd_buf i (\<lambda>q. q\<lparr>b_refcnt := r\<rparr>) s)"
    and "rcnt d ((bufs s)(i := (bufs s i)\<lparr>b_refcnt := r\<rparr>)) = (rcnt d (bufs s))(b_blockno (bufs s i) := unat r)"
    and "blkv d ((bufs s)(i := (bufs s i)\<lparr>b_refcnt := r\<rparr>)) dk b = blkv d (bufs s) dk b"
proof -
  note D = bio_invD [OF inv i]
  have u: "uniq d (bufs s)" using inv by (simp add: bio_inv_def)
  show "bio_inv d L (upd_buf i (\<lambda>q. q\<lparr>b_refcnt := r\<rparr>) s)"
    by (rule bio_inv_upd [OF inv i]) (simp_all add: D r)
  show "rcnt d ((bufs s)(i := (bufs s i)\<lparr>b_refcnt := r\<rparr>)) = (rcnt d (bufs s))(b_blockno (bufs s i) := unat r)"
    by (rule rcnt_upd(1) [OF u D(1,2)])
  show "blkv d ((bufs s)(i := (bufs s i)\<lparr>b_refcnt := r\<rparr>)) dk b = blkv d (bufs s) dk b"
    by (rule rcnt_upd(2) [OF u D(1,2)])
qed

lemma bpin_eq: "LkBcache \<notin> held s \<Longrightarrow> bpin i s = Ret () (upd_buf i (\<lambda>q. q\<lparr>b_refcnt := b_refcnt q + 1\<rparr>) s)"
  by (simp add: bpin_def kmon upd_buf_def)

lemma bunpin_eq: "LkBcache \<notin> held s \<Longrightarrow> bunpin i s = Ret () (upd_buf i (\<lambda>q. q\<lparr>b_refcnt := b_refcnt q - 1\<rparr>) s)"
  by (simp add: bunpin_def kmon upd_buf_def)

text \<open>There is a free buffer as long as fewer than \<open>NBUF\<close> blocks are referenced.\<close>

lemma room_exists:
  assumes inv: "bio_inv d L s" and few: "card {b. rcnt d (bufs s) b \<noteq> 0} < NBUF"
  shows "\<exists>i < NBUF. b_refcnt (bufs s i) = 0"
proof (rule ccontr)
  assume n: "\<not> ?thesis"
  have u: "uniq d (bufs s)" using inv by (simp add: bio_inv_def)
  have all: "b_refcnt (bufs s i) \<noteq> 0" "b_dev (bufs s i) = d" if "i < NBUF" for i
    using n inv that unfolding bio_inv_def by blast+
  have "inj_on (\<lambda>i. b_blockno (bufs s i)) {..<NBUF}"
    by (rule inj_onI) (use u all in \<open>simp add: uniq_def\<close>)
  then have "card ((\<lambda>i. b_blockno (bufs s i)) ` {..<NBUF}) = NBUF" by (simp add: card_image)
  moreover have "rcnt d (bufs s) (b_blockno (bufs s i)) \<noteq> 0" if "i < NBUF" for i
    using all [OF that] cached_SomeI [OF u that _ refl] by (simp add: rcnt_def unat_eq_zero)
  then have "(\<lambda>i. b_blockno (bufs s i)) ` {..<NBUF} \<subseteq> {b. rcnt d (bufs s) b \<noteq> 0}" by blast
  ultimately have "NBUF \<le> card {b. rcnt d (bufs s) b \<noteq> 0}" by (metis card_mono finite)
  with few show False by simp
qed

end
