(* ===== verification/Log.thy ===== *)
theory Log
  imports Bio
begin

text \<open>
  kernel/log.c: the write-ahead log.  \<open>klog\<close> is the global struct log; block numbers keep
  their 32 bits (the C code stores them in ints and passes them on as uints).  The data of the
  on-disk header block is the C struct laid out in little-endian words.  A wait in begin_op() ends
  the run of the process, as everywhere in the development.
\<close>

section \<open>Data\<close>

record logheader =
  lh_n :: int
  lh_block :: "nat \<Rightarrow> uint"

record klog =
  lg_start :: int
  lg_size :: int
  lg_outstanding :: int
  lg_committing :: int
  lg_dev :: int
  lg_lh :: logheader

record fslog = bio +
  klog :: klog

record superblock =
  sb_magic :: uint
  sb_size :: uint
  sb_nblocks :: uint
  sb_ninodes :: uint
  sb_nlog :: uint
  sb_logstart :: uint
  sb_inodestart :: uint
  sb_bmapstart :: uint

definition LOGSIZE :: int where "LOGSIZE = MAXOPBLOCKS * 3"

text \<open>\<open>sizeof(struct logheader)\<close>.\<close>

definition sizeof_logheader :: nat where "sizeof_logheader = 4 + 4 * nat LOGSIZE"

definition upd_log :: "(klog \<Rightarrow> klog) \<Rightarrow> 'a fslog_scheme \<Rightarrow> 'a fslog_scheme" where
  "upd_log f s = s\<lparr>klog := f (klog s)\<rparr>"

definition upd_lh :: "(logheader \<Rightarrow> logheader) \<Rightarrow> 'a fslog_scheme \<Rightarrow> 'a fslog_scheme" where
  "upd_lh f = upd_log (\<lambda>l. l\<lparr>lg_lh := f (lg_lh l)\<rparr>)"

abbreviation log_n :: "'a fslog_scheme \<Rightarrow> int" where
  "log_n s \<equiv> lh_n (lg_lh (klog s))"

abbreviation log_block :: "'a fslog_scheme \<Rightarrow> nat \<Rightarrow> uint" where
  "log_block s \<equiv> lh_block (lg_lh (klog s))"

definition log_dev :: "'a fslog_scheme \<Rightarrow> uint" where
  "log_dev s = word_of_int (lg_dev (klog s))"

section \<open>The functions of log.c\<close>

definition install_one :: "int \<Rightarrow> nat \<Rightarrow> ('a fslog_scheme, unit) kproc" where
  "install_one recovering tail =
     bind (gets (\<lambda>s. (log_dev s, word_of_int (lg_start (klog s) + int tail + 1)))) (\<lambda>(dev, n).
     bind (bread dev n) (\<lambda>lbuf.
     bind (gets (\<lambda>s. (log_dev s, log_block s tail))) (\<lambda>(dev, n).
     bind (bread dev n) (\<lambda>dbuf.
     bind (gets (\<lambda>s. b_data (bufs s lbuf))) (\<lambda>x.
     bind (set_data dbuf x) (\<lambda>_.
     bind (bwrite dbuf) (\<lambda>_.
     bind (whenM (recovering = 0) (bunpin dbuf)) (\<lambda>_.
     bind (brelse lbuf) (\<lambda>_.
     brelse dbuf)))))))))"

definition install_trans :: "int \<Rightarrow> ('a fslog_scheme, unit) kproc" where
  "install_trans recovering = bind (gets log_n) (\<lambda>n. forM [0..<nat n] (install_one recovering))"

definition read_head_word :: "nat \<Rightarrow> nat \<Rightarrow> ('a fslog_scheme, unit) kproc" where
  "read_head_word buf i =
     modify (\<lambda>s. upd_lh (\<lambda>h. h\<lparr>lh_block := (lh_block h)(i := get32 (b_data (bufs s buf)) (4 + 4 * i))\<rparr>) s)"

definition read_head :: "('a fslog_scheme, unit) kproc" where
  "read_head =
     bind (gets (\<lambda>s. (log_dev s, word_of_int (lg_start (klog s))))) (\<lambda>(dev, n).
     bind (bread dev n) (\<lambda>buf.
     bind (modify (\<lambda>s. upd_lh (\<lambda>h. h\<lparr>lh_n := sint (get32 (b_data (bufs s buf)) 0)\<rparr>) s)) (\<lambda>_.
     bind (gets log_n) (\<lambda>n.
     bind (forM [0..<nat n] (read_head_word buf)) (\<lambda>_.
     brelse buf)))))"

definition write_head_word :: "nat \<Rightarrow> nat \<Rightarrow> ('a fslog_scheme, unit) kproc" where
  "write_head_word buf i =
     modify (\<lambda>s. upd_buf buf (\<lambda>q. q\<lparr>b_data := put32 (b_data q) (4 + 4 * i) (log_block s i)\<rparr>) s)"

definition write_head :: "('a fslog_scheme, unit) kproc" where
  "write_head =
     bind (gets (\<lambda>s. (log_dev s, word_of_int (lg_start (klog s))))) (\<lambda>(dev, n).
     bind (bread dev n) (\<lambda>buf.
     bind (modify (\<lambda>s. upd_buf buf (\<lambda>q. q\<lparr>b_data := put32 (b_data q) 0 (word_of_int (log_n s))\<rparr>) s)) (\<lambda>_.
     bind (gets log_n) (\<lambda>n.
     bind (forM [0..<nat n] (write_head_word buf)) (\<lambda>_.
     bind (bwrite buf) (\<lambda>_.
     brelse buf))))))"

definition recover_from_log :: "('a fslog_scheme, unit) kproc" where
  "recover_from_log =
     bind read_head (\<lambda>_.
     bind (install_trans 1) (\<lambda>_.
     bind (modify (upd_lh (\<lambda>h. h\<lparr>lh_n := 0\<rparr>))) (\<lambda>_.
     write_head)))"

definition initlog :: "int \<Rightarrow> superblock \<Rightarrow> ('a fslog_scheme, unit) kproc" where
  "initlog dev sb =
     (if BSIZE \<le> sizeof_logheader then panic ''initlog: too big logheader'' else
      bind (initlk LkLog) (\<lambda>_.
      bind (modify (upd_log (\<lambda>l. l\<lparr>lg_start := sint (sb_logstart sb), lg_size := sint (sb_nlog sb), lg_dev := dev\<rparr>))) (\<lambda>_.
      recover_from_log)))"

definition log_full :: "'a fslog_scheme \<Rightarrow> bool" where
  "log_full s \<longleftrightarrow> LOGSIZE < log_n s + (lg_outstanding (klog s) + 1) * MAXOPBLOCKS"

definition begin_op :: "('a fslog_scheme, unit) kproc" where
  "begin_op =
     bind (acq LkLog) (\<lambda>_.
     bind (sleep_while (\<lambda>s. lg_committing (klog s) \<noteq> 0 \<or> log_full s) ChLog LkLog) (\<lambda>_.
     bind (modify (upd_log (\<lambda>l. l\<lparr>lg_outstanding := lg_outstanding l + 1\<rparr>))) (\<lambda>_.
     rel LkLog)))"

definition write_log_one :: "nat \<Rightarrow> ('a fslog_scheme, unit) kproc" where
  "write_log_one tail =
     bind (gets (\<lambda>s. (log_dev s, word_of_int (lg_start (klog s) + int tail + 1)))) (\<lambda>(dev, n).
     bind (bread dev n) (\<lambda>to.
     bind (gets (\<lambda>s. (log_dev s, log_block s tail))) (\<lambda>(dev, n).
     bind (bread dev n) (\<lambda>from.
     bind (gets (\<lambda>s. b_data (bufs s from))) (\<lambda>x.
     bind (set_data to x) (\<lambda>_.
     bind (bwrite to) (\<lambda>_.
     bind (brelse from) (\<lambda>_.
     brelse to))))))))"

definition write_log :: "('a fslog_scheme, unit) kproc" where
  "write_log = bind (gets log_n) (\<lambda>n. forM [0..<nat n] write_log_one)"

definition commit :: "('a fslog_scheme, unit) kproc" where
  "commit =
     bind (gets log_n) (\<lambda>n.
     whenM (0 < n)
       (bind write_log (\<lambda>_.
        bind write_head (\<lambda>_.
        bind (install_trans 0) (\<lambda>_.
        bind (modify (upd_lh (\<lambda>h. h\<lparr>lh_n := 0\<rparr>))) (\<lambda>_.
        write_head))))))"

definition end_op :: "('a fslog_scheme, unit) kproc" where
  "end_op =
     bind (acq LkLog) (\<lambda>_.
     bind (modify (upd_log (\<lambda>l. l\<lparr>lg_outstanding := lg_outstanding l - 1\<rparr>))) (\<lambda>_.
     bind (gets (\<lambda>s. lg_committing (klog s))) (\<lambda>c.
     if c \<noteq> 0 then panic ''log.committing'' else
     bind (gets (\<lambda>s. lg_outstanding (klog s))) (\<lambda>n.
     bind (if n = 0 then bind (modify (upd_log (\<lambda>l. l\<lparr>lg_committing := 1\<rparr>))) (\<lambda>_. return True)
           else bind (wakeup ChLog) (\<lambda>_. return False)) (\<lambda>do_commit.
     bind (rel LkLog) (\<lambda>_.
     whenM do_commit
       (bind commit (\<lambda>_.
        bind (acq LkLog) (\<lambda>_.
        bind (modify (upd_log (\<lambda>l. l\<lparr>lg_committing := 0\<rparr>))) (\<lambda>_.
        bind (wakeup ChLog) (\<lambda>_.
        rel LkLog)))))))))))"

text \<open>The search of log_write(): the first entry with this block number, or \<open>n\<close>.\<close>

definition log_slot :: "int \<Rightarrow> (nat \<Rightarrow> uint) \<Rightarrow> uint \<Rightarrow> nat" where
  "log_slot n f b = length (takeWhile (\<lambda>i. f i \<noteq> b) [0..<nat n])"

definition log_write :: "nat \<Rightarrow> ('a fslog_scheme, unit) kproc" where
  "log_write b =
     bind (acq LkLog) (\<lambda>_.
     bind (gets klog) (\<lambda>l.
     if LOGSIZE \<le> lh_n (lg_lh l) \<or> lg_size l - 1 \<le> lh_n (lg_lh l) then panic ''too big a transaction'' else
     if lg_outstanding l < 1 then panic ''log_write outside of trans'' else
     bind (gets (\<lambda>s. b_blockno (bufs s b))) (\<lambda>bn.
     let i = log_slot (lh_n (lg_lh l)) (lh_block (lg_lh l)) bn in
     bind (modify (upd_lh (\<lambda>h. h\<lparr>lh_block := (lh_block h)(i := bn)\<rparr>))) (\<lambda>_.
     bind (whenM (int i = lh_n (lg_lh l))
        (bind (bpin b) (\<lambda>_. modify (upd_lh (\<lambda>h. h\<lparr>lh_n := lh_n h + 1\<rparr>))))) (\<lambda>_.
     rel LkLog)))))"

section \<open>Two buffers at a time\<close>

text \<open>
  Both loops of the log copy one block to another through the cache.  Seen through the cache's
  views that is one disk write; the references taken are given back.
\<close>

lemma blkv_clean:
  assumes inv: "bio_inv d L s" and r: "rcnt d (bufs s) b = 0"
  shows "blkv d (bufs s) (disk s) b = disk s (unat b)"
proof (cases "cached d (bufs s) b")
  case None
  then show ?thesis by (simp add: blkv_def)
next
  case (Some i)
  note c = cached_SomeD [OF Some]
  have "b_refcnt (bufs s i) = 0" using r Some by (simp add: rcnt_def unat_eq_zero)
  then show ?thesis using inv c Some by (simp add: blkv_def bio_inv_def clean_def)
qed

lemma bread_room:
  assumes inv: "bio_inv d L s" and nl: "\<forall>i \<in> L. b_blockno (bufs s i) \<noteq> b"
    and room: "card (insert b {x. rcnt d (bufs s) x \<noteq> 0}) \<le> NBUF" and small: "rcnt d (bufs s) b < 2 ^ 31"
  shows "\<exists>i t. bread d b s = Ret i t \<and> read_ok d L s b i t"
proof (rule bread_spec [OF inv nl])
  show "rcnt d (bufs s) b \<noteq> 0 \<or> (\<exists>i < NBUF. b_refcnt (bufs s i) = 0)"
  proof (rule disjCI)
    assume "\<not> (\<exists>i < NBUF. b_refcnt (bufs s i) = 0)"
    then have "\<not> card {x. rcnt d (bufs s) x \<noteq> 0} < NBUF" using room_exists [OF inv] by blast
    with room show "rcnt d (bufs s) b \<noteq> 0" by (intro notI) simp
  qed
  show "rcnt d (bufs s) b + 1 < 2 ^ 32" using small by simp
qed

lemma bread2:
  assumes inv: "bio_inv d {} s" and ab: "a \<noteq> b"
    and room: "card (insert a (insert b {x. rcnt d (bufs s) x \<noteq> 0})) \<le> NBUF"
    and small: "\<And>x. rcnt d (bufs s) x < 2 ^ 31"
  obtains i j t1 t where "bread d a s = Ret i t1" and "bread d b t1 = Ret j t" and "i \<noteq> j" and "bio_inv d {i, j} t"
    and "b_blockno (bufs t i) = a" and "b_blockno (bufs t j) = b"
    and "b_data (bufs t i) = blkv d (bufs s) (disk s) a" and "b_data (bufs t j) = blkv d (bufs s) (disk s) b"
    and "disk t = disk s" and "dwrites t = dwrites s" and "blkv d (bufs t) (disk t) = blkv d (bufs s) (disk s)"
    and "rcnt d (bufs t) = (rcnt d (bufs s))(a := rcnt d (bufs s) a + 1, b := rcnt d (bufs s) b + 1)"
    and "same_world s t1" and "same_world s t"
proof -
  have f: "finite {x. rcnt d (bufs s) x \<noteq> 0}" by (rule finite)
  have "card (insert a {x. rcnt d (bufs s) x \<noteq> 0}) \<le> card (insert a (insert b {x. rcnt d (bufs s) x \<noteq> 0}))"
    by (rule card_mono) auto
  then have "card (insert a {x. rcnt d (bufs s) x \<noteq> 0}) \<le> NBUF" using room by linarith
  then obtain i t1 where r1: "bread d a s = Ret i t1" "read_ok d {} s a i t1"
    using bread_room [OF inv, of a] small by auto
  then have inv1: "bio_inv d {i} t1" and rc1: "rcnt d (bufs t1) = (rcnt d (bufs s))(a := rcnt d (bufs s) a + 1)"
    and bn1: "b_blockno (bufs t1 i) = a" by (auto simp: read_ok_def)
  have "{x. rcnt d (bufs t1) x \<noteq> 0} = insert a {x. rcnt d (bufs s) x \<noteq> 0}" by (auto simp: rc1)
  then have "card (insert b {x. rcnt d (bufs t1) x \<noteq> 0}) \<le> NBUF" using room by (simp add: insert_commute)
  moreover have "rcnt d (bufs t1) b < 2 ^ 31" using small [of b] ab by (simp add: rc1)
  ultimately obtain j t where r2: "bread d b t1 = Ret j t" "read_ok d {i} t1 b j t"
    using bread_room [OF inv1, of b] bn1 ab by auto
  have w: "same_world s t1" "same_world s t"
    using r1 r2 same_world_trans by (auto simp: read_ok_def)
  have ci: "bcont (bufs t i) = bcont (bufs t1 i)" using r2 by (simp add: read_ok_def)
  show thesis
    by (rule that [OF r1(1) r2(1) _ _ _ _ _ _ _ _ _ _ w])
      (use r1 r2 ci ab in \<open>auto simp: read_ok_def bcont_eq fun_eq_iff insert_commute\<close>)
qed

lemma bunpin_spec:
  assumes inv: "bio_inv d L s" and i: "i \<in> L" and r: "2 \<le> rcnt d (bufs s) (b_blockno (bufs s i))"
  shows "\<exists>t. bunpin i s = Ret () t \<and> bio_inv d L t \<and> disk t = disk s \<and> dwrites t = dwrites s \<and> same_world s t \<and>
    blkv d (bufs t) (disk t) = blkv d (bufs s) (disk s) \<and>
    rcnt d (bufs t) = (rcnt d (bufs s))(b_blockno (bufs s i) := rcnt d (bufs s) (b_blockno (bufs s i)) - 1) \<and>
    bufs t = (bufs s)(i := (bufs s i)\<lparr>b_refcnt := b_refcnt (bufs s i) - 1\<rparr>)"
proof -
  note D = bio_invD [OF inv i]
  let ?r = "b_refcnt (bufs s i) - 1"
  have u: "unat ?r = unat (b_refcnt (bufs s i)) - 1" using D(3) by (simp add: unat_minus_one)
  then have "unat ?r \<noteq> 0" using r D(6) by simp
  then have n: "?r \<noteq> 0" by (simp only: unat_eq_zero) simp
  have "LkBcache \<notin> held s" using inv by (simp add: bio_inv_def bio_idle_def)
  then have "bunpin i s = Ret () (upd_buf i (\<lambda>q. q\<lparr>b_refcnt := b_refcnt q - 1\<rparr>) s)" by (rule bunpin_eq)
  also have "upd_buf i (\<lambda>q. q\<lparr>b_refcnt := b_refcnt q - 1\<rparr>) s = upd_buf i (\<lambda>q. q\<lparr>b_refcnt := ?r\<rparr>) s"
    by (simp add: upd_buf_def)
  finally show ?thesis
    using pin_inv [OF inv i n] u D(6) by (simp add: fun_eq_iff)
qed

definition copy_finish :: "nat \<Rightarrow> nat \<Rightarrow> bool \<Rightarrow> ('a bio_scheme, unit) kproc" where
  "copy_finish dst src unpin =
     bind (gets (\<lambda>s. b_data (bufs s src))) (\<lambda>x.
     bind (set_data dst x) (\<lambda>_.
     bind (bwrite dst) (\<lambda>_.
     bind (whenM unpin (bunpin dst)) (\<lambda>_.
     bind (brelse src) (\<lambda>_.
     brelse dst)))))"

lemma copy_finish_spec:
  assumes inv: "bio_inv d {i, j} s" and ij: "i \<noteq> j"
    and a: "b_blockno (bufs s i) = a" and b: "b_blockno (bufs s j) = b" and ab: "a \<noteq> b"
    and x: "b_data (bufs s j) = x"
    and pin: "unpin \<Longrightarrow> 2 \<le> rcnt d (bufs s) a"
    and src: "rcnt d (bufs s) b = 1 \<Longrightarrow> x = disk s (unat b)"
  shows "\<exists>t. copy_finish i j unpin s = Ret () t \<and> bio_inv d {} t \<and> same_world s t \<and>
    disk t = (disk s)(unat a := x) \<and> dwrites t = dwrites s @ [(unat a, x)] \<and>
    blkv d (bufs t) (disk t) = (blkv d (bufs s) (disk s))(a := x) \<and>
    rcnt d (bufs t) = (rcnt d (bufs s))(a := rcnt d (bufs s) a - (if unpin then 2 else 1), b := rcnt d (bufs s) b - 1)"
proof -
  obtain s1 where s1: "set_data i x s = Ret () s1" "bio_inv d {i, j} s1" "same_world s s1" "disk s1 = disk s"
      "dwrites s1 = dwrites s" "bufs s1 = (bufs s)(i := (bufs s i)\<lparr>b_data := x\<rparr>)"
      "blkv d (bufs s1) (disk s1) = (blkv d (bufs s) (disk s))(a := x)" "rcnt d (bufs s1) = rcnt d (bufs s)"
    using set_data_spec [OF inv, of i x] a by auto
  obtain s2 where s2: "bwrite i s1 = Ret () s2" "bio_inv d {i, j} s2" "bufs s2 = bufs s1" "same_world s1 s2"
      "disk s2 = (disk s)(unat a := x)" "dwrites s2 = dwrites s @ [(unat a, x)]"
      "\<forall>c. blkv d (bufs s2) (disk s2) c = blkv d (bufs s1) (disk s1) c"
    using bwrite_spec [OF s1(2), of i] s1 a by auto
  let ?R = "if unpin then (rcnt d (bufs s))(a := rcnt d (bufs s) a - 1) else rcnt d (bufs s)"
  obtain s3 where s3: "whenM unpin (bunpin i) s2 = Ret () s3" "bio_inv d {i, j} s3" "disk s3 = disk s2"
      "dwrites s3 = dwrites s2" "same_world s2 s3" "blkv d (bufs s3) (disk s3) = blkv d (bufs s2) (disk s2)"
      "rcnt d (bufs s3) = ?R" "\<And>k. k \<noteq> i \<Longrightarrow> bufs s3 k = bufs s k" "b_blockno (bufs s3 i) = a" "b_data (bufs s3 i) = x"
  proof (cases unpin)
    case True
    then have "2 \<le> rcnt d (bufs s2) (b_blockno (bufs s2 i))" using pin s2(3) s1 a by simp
    from bunpin_spec [OF s2(2) _ this] True that show thesis using s1 s2 a by (auto simp: when_apply)
  next
    case False
    then show thesis using that [of s2] s1 s2 a by (auto simp: when_apply)
  qed
  have kj: "unat (b_refcnt (bufs s3 j)) = 1 \<longrightarrow> b_data (bufs s3 j) = disk s3 (unat (b_blockno (bufs s3 j)))"
  proof
    assume "unat (b_refcnt (bufs s3 j)) = 1"
    moreover have "bufs s3 j = bufs s j" using s3(8) ij by simp
    ultimately have "rcnt d (bufs s) b = 1" using bio_invD(6) [OF inv, of j] b by simp
    moreover have "unat b \<noteq> unat a" using ab by (simp add: word_unat_eq_iff)
    ultimately show "b_data (bufs s3 j) = disk s3 (unat (b_blockno (bufs s3 j)))"
      using src x b s3(3) s2(5) \<open>bufs s3 j = bufs s j\<close> by simp
  qed
  obtain s4 where s4: "brelse j s3 = Ret () s4" "drop_ok d {i, j} s3 j s4"
    using brelse_spec [OF s3(2) _ kj] by auto
  have m: "{i, j} - {j} = {i}" using ij by auto
  have bc: "bcont (bufs s4 i) = bcont (bufs s3 i)" "disk s4 = disk s3" "bio_inv d {i} s4"
    using s4(2) m by (simp_all add: drop_ok_def)
  have ki: "unat (b_refcnt (bufs s4 i)) = 1 \<longrightarrow> b_data (bufs s4 i) = disk s4 (unat (b_blockno (bufs s4 i)))"
    using bc s3(3,9,10) s2(5) by (simp add: bcont_eq)
  obtain s5 where s5: "brelse i s4 = Ret () s5" "drop_ok d {i} s4 i s5"
    using brelse_spec [OF bc(3) _ ki] by auto
  have run: "copy_finish i j unpin s = Ret () s5"
    using s1(1) s2(1) s3(1) s4(1) s5(1) x by (simp add: copy_finish_def bind_apply gets_apply)
  have w: "same_world s s5"
    using s1(3) s2(4) s3(5) s4(2) s5(2) unfolding drop_ok_def by (meson same_world_trans)
  have bj: "b_blockno (bufs s3 j) = b" "b_blockno (bufs s4 i) = a" using s3(8,9) ij b bc(1) by (simp_all add: bcont_eq)
  have rc: "rcnt d (bufs s5) = (rcnt d (bufs s))(a := rcnt d (bufs s) a - (if unpin then 2 else 1), b := rcnt d (bufs s) b - 1)"
    using s5(2) s4(2) s3(7) bj ab by (auto simp: drop_ok_def fun_eq_iff)
  have "blkv d (bufs s5) (disk s5) c = blkv d (bufs s4) (disk s4) c" "blkv d (bufs s4) (disk s4) c = blkv d (bufs s3) (disk s3) c"
    for c using s5(2) s4(2) unfolding drop_ok_def by blast+
  then have "blkv d (bufs s5) (disk s5) = (blkv d (bufs s) (disk s))(a := x)"
    using s3(6) s2(7) s1(7) by (simp only: fun_eq_iff simp_thms)
  then show ?thesis
    using run w rc s5(2) s4(2) s3(3,4) s2(5,6) by (simp add: drop_ok_def)
qed

lemma same_world_klog: "same_world s t \<Longrightarrow> klog t = klog (s :: 'a fslog_scheme)"
  by (cases s; cases t) (simp add: same_world_def)

lemma same_world_log_dev: "same_world s t \<Longrightarrow> log_dev t = log_dev s"
  by (simp add: log_dev_def same_world_klog)

definition log_area :: "'a fslog_scheme \<Rightarrow> nat \<Rightarrow> uint" where
  "log_area s i = word_of_int (lg_start (klog s) + int i)"

lemma log_area_add: "word_of_int (lg_start (klog s)) + of_nat i + 1 = log_area s (Suc i)"
  by (simp add: log_area_def algebra_simps)

lemma same_world_log_area: "same_world s t \<Longrightarrow> log_area t = log_area s"
  by (simp add: log_area_def fun_eq_iff same_world_klog)

definition refs_fit :: "uint \<Rightarrow> 'a bio_scheme \<Rightarrow> uint set \<Rightarrow> bool" where
  "refs_fit d s B \<longleftrightarrow> card (B \<union> {x. rcnt d (bufs s) x \<noteq> 0}) \<le> NBUF \<and> (\<forall>x. rcnt d (bufs s) x < 2 ^ 31)"

lemma refs_fitD:
  assumes "refs_fit d s {a, b}"
  shows "card (insert a (insert b {x. rcnt d (bufs s) x \<noteq> 0})) \<le> NBUF" and "rcnt d (bufs s) x < 2 ^ 31"
  using assms by (simp_all add: refs_fit_def)

lemma write_log_one_run:
  assumes "bread (log_dev s) (log_area s (Suc k)) s = Ret i t1" and "bread (log_dev s) (log_block s k) t1 = Ret j t"
    and "same_world s t1"
  shows "write_log_one k s = copy_finish i j False t"
  using assms
  by (simp add: write_log_one_def copy_finish_def log_area_add same_world_klog [OF assms(3)]
      same_world_log_dev [OF assms(3)] bind_apply
      gets_apply when_apply cong: outcome.case_cong)

lemma install_one_run:
  assumes "bread (log_dev s) (log_area s (Suc k)) s = Ret j t1" and "bread (log_dev s) (log_block s k) t1 = Ret i t"
    and "same_world s t1"
  shows "install_one r k s = copy_finish i j (r = 0) t"
  using assms
  by (simp add: install_one_def copy_finish_def log_area_add same_world_klog [OF assms(3)]
      same_world_log_dev [OF assms(3)] bind_apply
      gets_apply when_apply cong: outcome.case_cong)

lemma write_log_one_spec:
  assumes inv: "bio_inv d {} s" and d: "d = log_dev s" and ne: "log_area s (Suc k) \<noteq> log_block s k"
    and fit: "refs_fit d s {log_area s (Suc k), log_block s k}"
  shows "\<exists>t. write_log_one k s = Ret () t \<and> bio_inv d {} t \<and> same_world s t \<and>
    disk t = (disk s)(unat (log_area s (Suc k)) := blkv d (bufs s) (disk s) (log_block s k)) \<and>
    dwrites t = dwrites s @ [(unat (log_area s (Suc k)), blkv d (bufs s) (disk s) (log_block s k))] \<and>
    blkv d (bufs t) (disk t) = (blkv d (bufs s) (disk s))(log_area s (Suc k) := blkv d (bufs s) (disk s) (log_block s k)) \<and>
    rcnt d (bufs t) = rcnt d (bufs s)"
proof -
  obtain i j t1 t where r: "bread d (log_area s (Suc k)) s = Ret i t1"
      "bread d (log_block s k) t1 = Ret j t" "i \<noteq> j" "bio_inv d {i, j} t"
      "b_blockno (bufs t i) = log_area s (Suc k)" "b_blockno (bufs t j) = log_block s k"
      "b_data (bufs t j) = blkv d (bufs s) (disk s) (log_block s k)"
      "disk t = disk s" "dwrites t = dwrites s" "blkv d (bufs t) (disk t) = blkv d (bufs s) (disk s)"
      "rcnt d (bufs t) = (rcnt d (bufs s))(log_area s (Suc k) := rcnt d (bufs s) (log_area s (Suc k)) + 1,
         log_block s k := rcnt d (bufs s) (log_block s k) + 1)" "same_world s t1" "same_world s t"
    by (rule bread2 [OF inv ne refs_fitD [OF fit]])
  have src: "blkv d (bufs s) (disk s) (log_block s k) = disk t (unat (log_block s k))"
    if "rcnt d (bufs t) (log_block s k) = 1" using that r(8,11) blkv_clean [OF inv] by simp
  from copy_finish_spec [OF r(4,3,5,6) ne r(7) _ src, of False] obtain u where
    u: "copy_finish i j False t = Ret () u" "bio_inv d {} u" "same_world t u"
      "disk u = (disk t)(unat (log_area s (Suc k)) := blkv d (bufs s) (disk s) (log_block s k))"
      "dwrites u = dwrites t @ [(unat (log_area s (Suc k)), blkv d (bufs s) (disk s) (log_block s k))]"
      "blkv d (bufs u) (disk u) = (blkv d (bufs t) (disk t))(log_area s (Suc k) := blkv d (bufs s) (disk s) (log_block s k))"
      "rcnt d (bufs u) = (rcnt d (bufs t))(log_area s (Suc k) := rcnt d (bufs t) (log_area s (Suc k)) - 1,
         log_block s k := rcnt d (bufs t) (log_block s k) - 1)" by auto
  have "rcnt d (bufs u) = rcnt d (bufs s)" using u(7) r(11) ne by (simp add: fun_eq_iff)
  with u r show ?thesis using write_log_one_run [of s k i t1 j t] d same_world_trans by auto
qed

lemma install_one_spec:
  assumes inv: "bio_inv d {} s" and d: "d = log_dev s" and ne: "log_area s (Suc k) \<noteq> log_block s k"
    and fit: "refs_fit d s {log_area s (Suc k), log_block s k}"
    and pin: "rec = 0 \<Longrightarrow> rcnt d (bufs s) (log_block s k) \<noteq> 0"
  shows "\<exists>t. install_one rec k s = Ret () t \<and> bio_inv d {} t \<and> same_world s t \<and>
    disk t = (disk s)(unat (log_block s k) := blkv d (bufs s) (disk s) (log_area s (Suc k))) \<and>
    dwrites t = dwrites s @ [(unat (log_block s k), blkv d (bufs s) (disk s) (log_area s (Suc k)))] \<and>
    blkv d (bufs t) (disk t) = (blkv d (bufs s) (disk s))(log_block s k := blkv d (bufs s) (disk s) (log_area s (Suc k))) \<and>
    rcnt d (bufs t) = (if rec = 0 then (rcnt d (bufs s))(log_block s k := rcnt d (bufs s) (log_block s k) - 1)
      else rcnt d (bufs s))"
proof -
  obtain j i t1 t where r: "bread d (log_area s (Suc k)) s = Ret j t1"
      "bread d (log_block s k) t1 = Ret i t" "i \<noteq> j" "bio_inv d {i, j} t"
      "b_blockno (bufs t i) = log_block s k" "b_blockno (bufs t j) = log_area s (Suc k)"
      "b_data (bufs t j) = blkv d (bufs s) (disk s) (log_area s (Suc k))"
      "disk t = disk s" "dwrites t = dwrites s" "blkv d (bufs t) (disk t) = blkv d (bufs s) (disk s)"
      "rcnt d (bufs t) = (rcnt d (bufs s))(log_area s (Suc k) := rcnt d (bufs s) (log_area s (Suc k)) + 1,
         log_block s k := rcnt d (bufs s) (log_block s k) + 1)" "same_world s t1" "same_world s t"
    by (rule bread2 [OF inv ne refs_fitD [OF fit]]) (simp add: insert_commute)
  have src: "blkv d (bufs s) (disk s) (log_area s (Suc k)) = disk t (unat (log_area s (Suc k)))"
    if "rcnt d (bufs t) (log_area s (Suc k)) = 1" using that r(8,11) ne blkv_clean [OF inv] by simp
  have p2: "2 \<le> rcnt d (bufs t) (log_block s k)" if "rec = 0" using pin [OF that] r(11) by simp
  from copy_finish_spec [OF r(4,3,5,6) ne [symmetric] r(7) p2 src, of "rec = 0"] obtain u where
    u: "copy_finish i j (rec = 0) t = Ret () u" "bio_inv d {} u" "same_world t u"
      "disk u = (disk t)(unat (log_block s k) := blkv d (bufs s) (disk s) (log_area s (Suc k)))"
      "dwrites u = dwrites t @ [(unat (log_block s k), blkv d (bufs s) (disk s) (log_area s (Suc k)))]"
      "blkv d (bufs u) (disk u) = (blkv d (bufs t) (disk t))(log_block s k := blkv d (bufs s) (disk s) (log_area s (Suc k)))"
      "rcnt d (bufs u) = (rcnt d (bufs t))(log_block s k := rcnt d (bufs t) (log_block s k) - (if rec = 0 then 2 else 1),
         log_area s (Suc k) := rcnt d (bufs t) (log_area s (Suc k)) - 1)" by auto
  have "rcnt d (bufs u) = (if rec = 0 then (rcnt d (bufs s))(log_block s k := rcnt d (bufs s) (log_block s k) - 1)
      else rcnt d (bufs s))" using u(7) r(11) ne by (auto simp: fun_eq_iff)
  with u r show ?thesis using install_one_run [of s k j t1 i t rec] d same_world_trans by auto
qed

section \<open>Sequences of writes\<close>

definition wr_all :: "('k \<times> 'v) list \<Rightarrow> ('k \<Rightarrow> 'v) \<Rightarrow> 'k \<Rightarrow> 'v" where
  "wr_all W f = fold (\<lambda>(k, v) g. g(k := v)) W f"

lemma wr_all_simps [simp]:
  "wr_all [] f = f" "wr_all ((k, v) # W) f = wr_all W (f(k := v))" "wr_all (V @ W) f = wr_all W (wr_all V f)"
  by (simp_all add: wr_all_def)

lemma wr_all_other: "k \<notin> fst ` set W \<Longrightarrow> wr_all W f k = f k"
  by (induction W arbitrary: f) auto

lemma wr_all_at: "distinct (map fst W) \<Longrightarrow> (k, v) \<in> set W \<Longrightarrow> wr_all W f k = v"
proof (induction W arbitrary: f)
  case (Cons p W)
  then show ?case using wr_all_other [of k W] by (cases p) (force simp: image_iff)
qed simp

definition wlist :: "(nat \<Rightarrow> uint) \<Rightarrow> (nat \<Rightarrow> block) \<Rightarrow> nat \<Rightarrow> (uint \<times> block) list" where
  "wlist key val n = map (\<lambda>i. (key i, val i)) [0..<n]"

definition on_disk :: "(uint \<times> block) list \<Rightarrow> (nat \<times> block) list" where
  "on_disk = map (\<lambda>(k, v). (unat k, v))"

lemma wlist_simps [simp]:
  "wlist key val 0 = []" "wlist key val (Suc n) = wlist key val n @ [(key n, val n)]" "length (wlist key val n) = n"
  by (simp_all add: wlist_def)

lemma set_wlist: "set (wlist key val n) = (\<lambda>i. (key i, val i)) ` {..<n}"
  by (auto simp: wlist_def)

lemma on_disk_simps [simp]:
  "on_disk [] = []" "on_disk (V @ W) = on_disk V @ on_disk W" "on_disk ((k, v) # W) = (unat k, v) # on_disk W"
  "length (on_disk W) = length W"
  by (simp_all add: on_disk_def)

lemma fst_on_disk: "fst ` set (on_disk W) = unat ` fst ` set W"
  by (force simp: on_disk_def image_iff)

lemma wr_all_wlist_other: "(\<forall>i < n. key i \<noteq> b) \<Longrightarrow> wr_all (wlist key val n) f b = f b"
  by (rule wr_all_other) (auto simp: set_wlist)

lemma wr_all_wlist_at: "inj_on key {..<n} \<Longrightarrow> i < n \<Longrightarrow> wr_all (wlist key val n) f (key i) = val i"
  by (rule wr_all_at) (auto simp: set_wlist wlist_def distinct_map atLeast0LessThan o_def)

text \<open>The disk and the cache's view take the same writes.\<close>

lemma wr_all_on_disk: "wr_all (on_disk W) f (unat b) = wr_all W (\<lambda>c. f (unat c)) b"
proof (induction W arbitrary: f)
  case (Cons p W)
  have "(\<lambda>c. (f(unat (fst p) := snd p)) (unat c)) = (\<lambda>c. f (unat c))(fst p := snd p)"
    by (auto simp: fun_eq_iff word_unat_eq_iff)
  then show ?case using Cons by (cases p) simp
qed simp

section \<open>The loops of the log\<close>

definition log_layout :: "'a fslog_scheme \<Rightarrow> nat \<Rightarrow> bool" where
  "log_layout s n \<longleftrightarrow> log_n s = int n \<and> inj_on (log_block s) {..<n} \<and>
     0 \<le> lg_start (klog s) \<and> lg_start (klog s) + int n < 2 ^ 32 \<and>
     (\<forall>i < n. \<forall>j \<le> n. log_block s i \<noteq> log_area s j)"

lemma uint_of_int32: "0 \<le> x \<Longrightarrow> x < 2 ^ 32 \<Longrightarrow> uint (word_of_int x :: uint) = x"
  by (simp only: uint_word_of_int_eq) (simp add: take_bit_int_eq_self)

lemma log_area_inj:
  assumes "log_layout s n"
  shows "inj_on (log_area s) {..n}"
proof (rule inj_onI)
  fix i j assume ij: "i \<in> {..n}" "j \<in> {..n}" and e: "log_area s i = log_area s j"
  have u: "uint (log_area s k) = lg_start (klog s) + int k" if "k \<le> n" for k
    unfolding log_area_def by (rule uint_of_int32) (use assms that in \<open>auto simp: log_layout_def\<close>)
  show "i = j" using arg_cong [OF e, of uint] u ij by simp
qed

lemma log_layout_world: "same_world s t \<Longrightarrow> log_layout t n = log_layout s n"
  by (simp add: log_layout_def same_world_klog same_world_log_area)

definition fits_with :: "uint \<Rightarrow> 'a fslog_scheme \<Rightarrow> nat \<Rightarrow> bool" where
  "fits_with d s n \<longleftrightarrow> d = log_dev s \<and> (\<forall>i < n. refs_fit d s {log_area s (Suc i), log_block s i}) \<and>
     refs_fit d s {log_area s 0}"

lemma refs_fit_mono:
  assumes "refs_fit d s B" and "\<And>x. rcnt d (bufs t) x \<le> rcnt d (bufs s) x"
  shows "refs_fit d t B"
proof -
  have "rcnt d (bufs s) x \<noteq> 0" if "rcnt d (bufs t) x \<noteq> 0" for x using assms(2) [of x] that by linarith
  then have "B \<union> {x. rcnt d (bufs t) x \<noteq> 0} \<subseteq> B \<union> {x. rcnt d (bufs s) x \<noteq> 0}" by blast
  then have "card (B \<union> {x. rcnt d (bufs t) x \<noteq> 0}) \<le> card (B \<union> {x. rcnt d (bufs s) x \<noteq> 0})"
    by (rule card_mono [rotated]) simp
  moreover have "rcnt d (bufs t) x < 2 ^ 31" for x
    using assms(2) [of x] assms(1) unfolding refs_fit_def by (meson le_less_trans)
  ultimately show ?thesis using assms(1) unfolding refs_fit_def by (meson order_trans)
qed

text \<open>What the log's loops do to the cache: the writes, in order, and nothing else.\<close>

definition did :: "uint \<Rightarrow> 'a fslog_scheme \<Rightarrow> (uint \<times> block) list \<Rightarrow> (uint \<Rightarrow> nat) \<Rightarrow> 'a fslog_scheme \<Rightarrow> bool" where
  "did d s W R t \<longleftrightarrow> bio_inv d {} t \<and> same_world s t \<and> disk t = wr_all (on_disk W) (disk s) \<and>
     dwrites t = dwrites s @ on_disk W \<and> blkv d (bufs t) (disk t) = wr_all W (blkv d (bufs s) (disk s)) \<and>
     rcnt d (bufs t) = R"

lemma did_refl: "bio_inv d {} s \<Longrightarrow> did d s [] (rcnt d (bufs s)) s"
  by (simp add: did_def)

lemma did_trans: "did d s V R t \<Longrightarrow> did d t W R' u \<Longrightarrow> did d s (V @ W) R' u"
  using same_world_trans by (auto simp: did_def)

lemma did_blkv: "did d s W R t \<Longrightarrow> blkv d (bufs t) (disk t) = wr_all W (blkv d (bufs s) (disk s))"
  unfolding did_def by blast

lemma log_layoutD: "log_layout s n \<Longrightarrow> i < n \<Longrightarrow> j \<le> n \<Longrightarrow> log_block s i \<noteq> log_area s j"
  unfolding log_layout_def by blast

lemma fits_withD: "fits_with d s n \<Longrightarrow> i < n \<Longrightarrow> refs_fit d s {log_area s (Suc i), log_block s i}"
  unfolding fits_with_def by blast

definition log_copies :: "uint \<Rightarrow> 'a fslog_scheme \<Rightarrow> nat \<Rightarrow> (uint \<times> block) list" where
  "log_copies d s n = wlist (\<lambda>i. log_area s (Suc i)) (\<lambda>i. blkv d (bufs s) (disk s) (log_block s i)) n"

definition home_copies :: "uint \<Rightarrow> 'a fslog_scheme \<Rightarrow> nat \<Rightarrow> (uint \<times> block) list" where
  "home_copies d s n = wlist (log_block s) (\<lambda>i. blkv d (bufs s) (disk s) (log_area s (Suc i))) n"

lemma write_log_loop:
  assumes inv: "bio_inv d {} s" and lay: "log_layout s n" and fit: "fits_with d s n" and k: "k \<le> n"
  shows "\<exists>t. forM [0..<k] write_log_one s = Ret () t \<and> did d s (log_copies d s k) (rcnt d (bufs s)) t"
  using k
proof (induction k)
  case 0
  then show ?case using did_refl [OF inv] by (simp add: return_apply log_copies_def)
next
  case (Suc k)
  then obtain t where t: "forM [0..<k] write_log_one s = Ret () t" "did d s (log_copies d s k) (rcnt d (bufs s)) t"
    by auto
  then have w: "same_world s t" and it: "bio_inv d {} t" and rt: "rcnt d (bufs t) = rcnt d (bufs s)"
    by (simp_all add: did_def)
  note e = same_world_klog [OF w] same_world_log_area [OF w] same_world_log_dev [OF w]
  have v: "blkv d (bufs t) (disk t) (log_block s k) = blkv d (bufs s) (disk s) (log_block s k)"
    unfolding did_blkv [OF t(2)] log_copies_def
    by (rule wr_all_wlist_other) (use log_layoutD [OF lay, of k, symmetric] Suc.prems in simp)
  have "refs_fit d t {log_area t (Suc k), log_block t k}"
    unfolding e by (rule refs_fit_mono [OF fits_withD [OF fit]]) (use Suc.prems in \<open>simp_all add: rt\<close>)
  moreover have "log_area t (Suc k) \<noteq> log_block t k" "d = log_dev t"
    using log_layoutD [OF lay, of k "Suc k", symmetric] Suc.prems fit by (simp_all add: e fits_with_def)
  ultimately obtain u where u: "write_log_one k t = Ret () u" "did d t [(log_area s (Suc k), blkv d (bufs s) (disk s) (log_block s k))] (rcnt d (bufs s)) u"
    using write_log_one_spec [OF it, of k] unfolding did_def v rt e by auto
  have "forM [0..<Suc k] write_log_one s = Ret () u" using t u by (simp add: forM_append bind_apply return_apply)
  with did_trans [OF t(2) u(2)] show ?case by (simp add: log_copies_def)
qed

definition unpinned :: "'a fslog_scheme \<Rightarrow> nat \<Rightarrow> (uint \<Rightarrow> nat) \<Rightarrow> uint \<Rightarrow> nat" where
  "unpinned s k R = (\<lambda>b. R b - (if b \<in> log_block s ` {..<k} then 1 else 0))"

lemma install_loop:
  assumes inv: "bio_inv d {} s" and lay: "log_layout s n" and fit: "fits_with d s n"
    and pin: "rec = 0 \<Longrightarrow> \<forall>i < n. rcnt d (bufs s) (log_block s i) \<noteq> 0" and k: "k \<le> n"
  shows "\<exists>t. forM [0..<k] (install_one rec) s = Ret () t \<and>
    did d s (home_copies d s k) (if rec = 0 then unpinned s k (rcnt d (bufs s)) else rcnt d (bufs s)) t"
  using k
proof (induction k)
  case 0
  then show ?case using did_refl [OF inv] by (simp add: return_apply home_copies_def unpinned_def)
next
  case (Suc k)
  then obtain t where t: "forM [0..<k] (install_one rec) s = Ret () t"
      "did d s (home_copies d s k) (if rec = 0 then unpinned s k (rcnt d (bufs s)) else rcnt d (bufs s)) t"
    by auto
  then have w: "same_world s t" and it: "bio_inv d {} t"
    and rt: "rcnt d (bufs t) = (if rec = 0 then unpinned s k (rcnt d (bufs s)) else rcnt d (bufs s))"
    by (simp_all add: did_def)
  note e = same_world_klog [OF w] same_world_log_area [OF w] same_world_log_dev [OF w]
  have kk: "log_block s k \<notin> log_block s ` {..<k}"
    using lay Suc.prems unfolding log_layout_def by (auto dest: inj_onD)
  have v: "blkv d (bufs t) (disk t) (log_area s (Suc k)) = blkv d (bufs s) (disk s) (log_area s (Suc k))"
    unfolding did_blkv [OF t(2)] home_copies_def
    by (rule wr_all_wlist_other) (use log_layoutD [OF lay, of _ "Suc k"] Suc.prems in simp)
  have "refs_fit d t {log_area t (Suc k), log_block t k}"
    unfolding e by (rule refs_fit_mono [OF fits_withD [OF fit]]) (use Suc.prems in \<open>simp_all add: rt unpinned_def\<close>)
  moreover have "log_area t (Suc k) \<noteq> log_block t k" "d = log_dev t"
    using log_layoutD [OF lay, of k "Suc k", symmetric] Suc.prems fit by (simp_all add: e fits_with_def)
  moreover have "rec = 0 \<Longrightarrow> rcnt d (bufs t) (log_block t k) \<noteq> 0"
    using pin Suc.prems kk by (simp add: rt unpinned_def e)
  moreover have "(if rec = 0 then (rcnt d (bufs t))(log_block s k := rcnt d (bufs t) (log_block s k) - 1) else rcnt d (bufs t))
      = (if rec = 0 then unpinned s (Suc k) (rcnt d (bufs s)) else rcnt d (bufs s))"
    using kk by (auto simp: rt unpinned_def fun_eq_iff lessThan_Suc)
  ultimately obtain u where u: "install_one rec k t = Ret () u" "did d t [(log_block s k, blkv d (bufs s) (disk s) (log_area s (Suc k)))]
      (if rec = 0 then unpinned s (Suc k) (rcnt d (bufs s)) else rcnt d (bufs s)) u"
    using install_one_spec [OF it, of k rec] unfolding did_def v e by auto
  have "forM [0..<Suc k] (install_one rec) s = Ret () u" using t u by (simp add: forM_append bind_apply return_apply)
  with did_trans [OF t(2) u(2)] show ?case by (simp add: home_copies_def)
qed

section \<open>The header block\<close>

definition hdr_put :: "logheader \<Rightarrow> block \<Rightarrow> block" where
  "hdr_put h x = fold (\<lambda>i b. put32 b (4 + 4 * i) (lh_block h i)) [0..<nat (lh_n h)] (put32 x 0 (word_of_int (lh_n h)))"

definition hdr_get :: "block \<Rightarrow> logheader \<Rightarrow> logheader" where
  "hdr_get x h = h\<lparr>lh_n := sint (get32 x 0),
     lh_block := (\<lambda>i. if i < nat (sint (get32 x 0)) then get32 x (4 + 4 * i) else lh_block h i)\<rparr>"

text \<open>The header read back is the header written.\<close>

lemma hdr_get_put:
  assumes "0 \<le> lh_n h" and "lh_n h < 2 ^ 31"
  shows "lh_n (hdr_get (hdr_put h x) g) = lh_n h"
    and "i < nat (lh_n h) \<Longrightarrow> lh_block (hdr_get (hdr_put h x) g) i = lh_block h i"
proof -
  have n: "sint (get32 (hdr_put h x) 0) = lh_n h"
    using assms by (simp add: hdr_put_def get32_fold_put32 get32_put32 sint_small)
  then show "lh_n (hdr_get (hdr_put h x) g) = lh_n h" by (simp add: hdr_get_def)
  show "lh_block (hdr_get (hdr_put h x) g) i = lh_block h i" if "i < nat (lh_n h)"
    unfolding hdr_get_def n using that by (simp add: hdr_put_def get32_fold_put32_at)
qed

lemma write_head_words:
  "forM [0..<n] (write_head_word i) s =
     Ret () (upd_buf i (\<lambda>q. q\<lparr>b_data := fold (\<lambda>k b. put32 b (4 + 4 * k) (log_block s k)) [0..<n] (b_data q)\<rparr>) s)"
proof (induction n)
  case 0
  then show ?case by (simp add: return_apply upd_buf_def)
next
  case (Suc n)
  then show ?case
    by (simp add: forM_append bind_apply return_apply write_head_word_def modify_apply)
      (simp add: upd_buf_def)
qed

lemma write_head_fill:
  "bind (modify (\<lambda>s. upd_buf i (\<lambda>q. q\<lparr>b_data := put32 (b_data q) 0 (word_of_int (log_n s))\<rparr>) s)) (\<lambda>_.
   bind (gets log_n) (\<lambda>n. bind (forM [0..<nat n] (write_head_word i)) f)) s =
   bind (set_data i (hdr_put (lg_lh (klog s)) (b_data (bufs s i)))) f s"
proof -
  let ?t = "upd_buf i (\<lambda>q. q\<lparr>b_data := put32 (b_data q) 0 (word_of_int (log_n s))\<rparr>) s"
  have k: "klog ?t = klog s" by (simp add: upd_buf_def)
  show ?thesis
    by (simp add: bind_apply modify_apply gets_apply write_head_words set_data_def k)
      (simp add: upd_buf_def hdr_put_def)
qed

lemma write_head_spec:
  assumes inv: "bio_inv d {} s" and d: "d = log_dev s" and fit: "refs_fit d s {log_area s 0}"
  shows "\<exists>t. write_head s = Ret () t \<and>
    did d s [(log_area s 0, hdr_put (lg_lh (klog s)) (blkv d (bufs s) (disk s) (log_area s 0)))] (rcnt d (bufs s)) t"
proof -
  let ?a = "log_area s 0"
  let ?x = "hdr_put (lg_lh (klog s)) (blkv d (bufs s) (disk s) ?a)"
  obtain i s1 where s1: "bread d ?a s = Ret i s1" "read_ok d {} s ?a i s1"
    using bread_room [OF inv, of ?a] fit by (auto simp: refs_fit_def)
  then have inv1: "bio_inv d {i} s1" and bn1: "b_blockno (bufs s1 i) = ?a" and w1: "same_world s s1"
    and dat: "b_data (bufs s1 i) = blkv d (bufs s) (disk s) ?a" and dk1: "disk s1 = disk s" "dwrites s1 = dwrites s"
    and v1: "blkv d (bufs s1) (disk s1) = blkv d (bufs s) (disk s)"
    and rc1: "rcnt d (bufs s1) = (rcnt d (bufs s))(?a := rcnt d (bufs s) ?a + 1)"
    by (auto simp: read_ok_def)
  obtain s2 where s2: "set_data i ?x s1 = Ret () s2" "bio_inv d {i} s2" "same_world s1 s2" "disk s2 = disk s"
      "dwrites s2 = dwrites s" "bufs s2 = (bufs s1)(i := (bufs s1 i)\<lparr>b_data := ?x\<rparr>)"
      "blkv d (bufs s2) (disk s2) = (blkv d (bufs s) (disk s))(?a := ?x)" "rcnt d (bufs s2) = rcnt d (bufs s1)"
    using set_data_spec [OF inv1, of i ?x] bn1 v1 dk1 by auto
  obtain s3 where s3: "bwrite i s2 = Ret () s3" "bio_inv d {i} s3" "bufs s3 = bufs s2" "same_world s2 s3"
      "disk s3 = (disk s)(unat ?a := ?x)" "dwrites s3 = dwrites s @ [(unat ?a, ?x)]"
      "\<forall>c. blkv d (bufs s3) (disk s3) c = blkv d (bufs s2) (disk s2) c"
    using bwrite_spec [OF s2(2), of i] s2 bn1 by auto
  have "unat (b_refcnt (bufs s3 i)) = 1 \<longrightarrow> b_data (bufs s3 i) = disk s3 (unat (b_blockno (bufs s3 i)))"
    using s3 s2 bn1 by simp
  then obtain s4 where s4: "brelse i s3 = Ret () s4" "drop_ok d {i} s3 i s4"
    using brelse_spec [OF s3(2)] by auto
  have "write_head s = Ret () s4"
    unfolding write_head_def using s1(1) s2(1) s3(1) s4(1) d dat
    by (simp add: bind_gets bind_Ret write_head_fill same_world_klog [OF w1] log_area_def)
  moreover have "blkv d (bufs s4) (disk s4) c = ((blkv d (bufs s) (disk s))(?a := ?x)) c" for c
    using s4(2) s3(7) s2(7) unfolding drop_ok_def by metis
  moreover have "rcnt d (bufs s4) = rcnt d (bufs s)"
  proof -
    have "b_blockno (bufs s3 i) = ?a" "rcnt d (bufs s3) = rcnt d (bufs s1)" using s3(3) s2(6,8) bn1 by simp_all
    then have "rcnt d (bufs s4) = (rcnt d (bufs s1))(?a := rcnt d (bufs s1) ?a - 1)"
      using s4(2) unfolding drop_ok_def by metis
    then show ?thesis by (simp add: rc1)
  qed
  moreover have "same_world s s4" using w1 s2(3) s3(4) s4(2) unfolding drop_ok_def by (meson same_world_trans)
  ultimately show ?thesis using s4(2) s3(5,6) by (auto simp: did_def drop_ok_def)
qed

section \<open>commit()\<close>

lemma upd_lh_simps [simp]:
  "bufs (upd_lh f s) = bufs s" "disk (upd_lh f s) = disk s" "dwrites (upd_lh f s) = dwrites s"
  "klog (upd_lh f s) = (klog s)\<lparr>lg_lh := f (lg_lh (klog s))\<rparr>" "bio_inv d L (upd_lh f s) = bio_inv d L s"
  "log_dev (upd_lh f s) = log_dev s" "log_area (upd_lh f s) = log_area s" "refs_fit d (upd_lh f s) B = refs_fit d s B"
  by (simp_all add: upd_lh_def upd_log_def bio_inv_def bio_idle_def held_sleep_def no_proc_locks_def log_dev_def
      log_area_def refs_fit_def fun_eq_iff)

lemma fits_withD0: "fits_with d s n \<Longrightarrow> refs_fit d s {log_area s 0}"
  unfolding fits_with_def by blast

lemma fits_with_mono:
  assumes "fits_with d s n" and w: "same_world s t" and "\<And>x. rcnt d (bufs t) x \<le> rcnt d (bufs s) x"
  shows "fits_with d t n"
  using assms(1) refs_fit_mono [OF _ assms(3)]
  unfolding fits_with_def same_world_klog [OF w] same_world_log_area [OF w] same_world_log_dev [OF w] by blast

text \<open>
  When the last operation ends, each logged block is pinned once by log_write() and nothing else
  is referenced.
\<close>

definition log_ready :: "uint \<Rightarrow> 'a fslog_scheme \<Rightarrow> nat \<Rightarrow> bool" where
  "log_ready d s n \<longleftrightarrow> bio_inv d {} s \<and> log_layout s n \<and> d = log_dev s \<and> n < NBUF \<and>
     rcnt d (bufs s) = (\<lambda>b. if b \<in> log_block s ` {..<n} then 1 else 0)"

lemma log_ready_fits:
  assumes "log_ready d s n"
  shows "fits_with d s n"
proof -
  have P: "{x. rcnt d (bufs s) x \<noteq> 0} = log_block s ` {..<n}" "\<And>x. rcnt d (bufs s) x \<le> 1" and d: "d = log_dev s" and n: "n < NBUF"
    using assms by (auto simp: log_ready_def split: if_splits)
  have c: "card (insert a (log_block s ` {..<n})) \<le> NBUF" for a
  proof -
    have "card (insert a (log_block s ` {..<n})) \<le> Suc (card (log_block s ` {..<n}))" by (rule card_insert_le_m1) auto
    also have "\<dots> \<le> Suc n" using card_image_le [of "{..<n}" "log_block s"] by simp
    finally show ?thesis using n by linarith
  qed
  have sm: "rcnt d (bufs s) x < 2 ^ 31" for x using P(2) [of x] by (rule le_less_trans) simp
  have "refs_fit d s {log_area s (Suc i), log_block s i}" if "i < n" for i
  proof -
    have "{log_area s (Suc i), log_block s i} \<union> log_block s ` {..<n} = insert (log_area s (Suc i)) (log_block s ` {..<n})"
      using that by auto
    then show ?thesis unfolding refs_fit_def P(1) using c sm by metis
  qed
  moreover have "refs_fit d s {log_area s 0}" unfolding refs_fit_def P(1) using c sm by simp
  ultimately show ?thesis using d by (simp add: fits_with_def)
qed

definition commit_header :: "uint \<Rightarrow> 'a fslog_scheme \<Rightarrow> block" where
  "commit_header d s = hdr_put (lg_lh (klog s)) (blkv d (bufs s) (disk s) (log_area s 0))"

definition clear_header :: "'a fslog_scheme \<Rightarrow> block \<Rightarrow> block" where
  "clear_header s x = hdr_put ((lg_lh (klog s))\<lparr>lh_n := 0\<rparr>) x"

definition installs :: "uint \<Rightarrow> 'a fslog_scheme \<Rightarrow> nat \<Rightarrow> (uint \<times> block) list" where
  "installs d s n = wlist (log_block s) (\<lambda>i. blkv d (bufs s) (disk s) (log_block s i)) n"

definition commit_writes :: "uint \<Rightarrow> 'a fslog_scheme \<Rightarrow> nat \<Rightarrow> (uint \<times> block) list" where
  "commit_writes d s n = log_copies d s n @ [(log_area s 0, commit_header d s)] @ installs d s n @
     [(log_area s 0, clear_header s (commit_header d s))]"

lemma log_area_ne: "log_layout s n \<Longrightarrow> i \<noteq> j \<Longrightarrow> i \<le> n \<Longrightarrow> j \<le> n \<Longrightarrow> log_area s i \<noteq> log_area s j"
  using inj_onD [OF log_area_inj] by fastforce

lemma log_copies_view:
  assumes "log_layout s n" and "i < n"
  shows "wr_all (log_copies d s n) v (log_area s (Suc i)) = blkv d (bufs s) (disk s) (log_block s i)"
proof -
  have "inj_on (\<lambda>i. log_area s (Suc i)) {..<n}"
    by (rule inj_onI) (use log_area_ne [OF assms(1)] in \<open>metis Suc_leI lessThan_iff nat.inject\<close>)
  then show ?thesis
    using wr_all_wlist_at [of "\<lambda>i. log_area s (Suc i)" n i] assms(2) by (simp add: log_copies_def)
qed

lemma log_copies_head:
  assumes "log_layout s n"
  shows "wr_all (log_copies d s n) v (log_area s 0) = v (log_area s 0)"
  unfolding log_copies_def
  by (rule wr_all_wlist_other) (use log_area_ne [OF assms, of "Suc _" 0] in simp)

lemma commit_spec:
  assumes rdy: "log_ready d s n" and n: "0 < n"
  shows "\<exists>t. commit s = Ret () t \<and> bio_inv d {} t \<and> klog t = (klog s)\<lparr>lg_lh := (lg_lh (klog s))\<lparr>lh_n := 0\<rparr>\<rparr> \<and>
    rcnt d (bufs t) = (\<lambda>_. 0) \<and> disk t = wr_all (on_disk (commit_writes d s n)) (disk s) \<and>
    dwrites t = dwrites s @ on_disk (commit_writes d s n)"
proof -
  note fit = log_ready_fits [OF rdy]
  have inv: "bio_inv d {} s" and lay: "log_layout s n" and d: "d = log_dev s" and ln: "log_n s = int n"
    and rc: "rcnt d (bufs s) = (\<lambda>b. if b \<in> log_block s ` {..<n} then 1 else 0)"
    using rdy by (auto simp: log_ready_def log_layout_def)
  obtain s1 where s1: "write_log s = Ret () s1" "did d s (log_copies d s n) (rcnt d (bufs s)) s1"
    using write_log_loop [OF inv lay fit order_refl] by (auto simp: write_log_def bind_gets ln)
  then have w1: "same_world s s1" and i1: "bio_inv d {} s1" and r1: "rcnt d (bufs s1) = rcnt d (bufs s)"
    by (simp_all add: did_def)
  note e1 = same_world_klog [OF w1] same_world_log_area [OF w1] same_world_log_dev [OF w1]
  have f1: "refs_fit d s1 {log_area s1 0}"
    unfolding e1 by (rule refs_fit_mono [OF fits_withD0 [OF fit]]) (simp add: r1)
  have h1: "blkv d (bufs s1) (disk s1) (log_area s 0) = blkv d (bufs s) (disk s) (log_area s 0)"
    unfolding did_blkv [OF s1(2)] by (rule log_copies_head [OF lay])
  obtain s2 where s2: "write_head s1 = Ret () s2" "did d s1 [(log_area s 0, commit_header d s)] (rcnt d (bufs s)) s2"
    using write_head_spec [OF i1 _ f1] d unfolding e1 r1 h1 commit_header_def by auto
  note d2 = did_trans [OF s1(2) s2(2)]
  then have w2: "same_world s s2" and i2: "bio_inv d {} s2" and r2: "rcnt d (bufs s2) = rcnt d (bufs s)"
    by (simp_all add: did_def)
  note e2 = same_world_klog [OF w2] same_world_log_area [OF w2] same_world_log_dev [OF w2]
  have lay2: "log_layout s2 n" using lay log_layout_world [OF w2] by simp
  have fit2: "fits_with d s2 n" by (rule fits_with_mono [OF fit w2]) (simp add: r2)
  have pin2: "\<forall>i < n. rcnt d (bufs s2) (log_block s2 i) \<noteq> 0" by (simp add: r2 rc e2)
  have "blkv d (bufs s2) (disk s2) (log_area s (Suc i)) = blkv d (bufs s) (disk s) (log_block s i)" if "i < n" for i
    unfolding did_blkv [OF d2] using log_copies_view [OF lay that] log_area_ne [OF lay, of 0 "Suc i"] that by simp
  then have hc: "home_copies d s2 n = installs d s n"
    by (simp add: home_copies_def installs_def wlist_def e2)
  obtain s3 where s3: "install_trans 0 s2 = Ret () s3" "did d s2 (installs d s n) (unpinned s2 n (rcnt d (bufs s2))) s3"
    using install_loop [OF i2 lay2 fit2 pin2 order_refl, of 0] hc by (auto simp: install_trans_def bind_gets e2 ln)
  note d3 = did_trans [OF d2 s3(2)]
  have r3: "rcnt d (bufs s3) = (\<lambda>_. 0)"
    using s3(2) by (auto simp: did_def unpinned_def r2 rc e2 fun_eq_iff)
  have w3: "same_world s s3" and i3: "bio_inv d {} s3" using d3 by (simp_all add: did_def)
  note e3 = same_world_klog [OF w3] same_world_log_area [OF w3] same_world_log_dev [OF w3]
  have h3: "blkv d (bufs s3) (disk s3) (log_area s 0) = commit_header d s"
    unfolding did_blkv [OF d3] using wr_all_wlist_other log_layoutD [OF lay, of _ 0] by (simp add: installs_def)
  let ?s3 = "upd_lh (\<lambda>h. h\<lparr>lh_n := 0\<rparr>) s3"
  have "refs_fit d ?s3 {log_area ?s3 0}" by (simp add: refs_fit_def r3 NBUF_def)
  moreover have "bio_inv d {} ?s3" "d = log_dev ?s3" using i3 d e3(3) by simp_all
  ultimately have "\<exists>t. write_head ?s3 = Ret () t \<and> did d ?s3 [(log_area ?s3 0,
      hdr_put (lg_lh (klog ?s3)) (blkv d (bufs ?s3) (disk ?s3) (log_area ?s3 0)))] (rcnt d (bufs ?s3)) t"
    by (intro write_head_spec)
  moreover have "hdr_put (lg_lh (klog ?s3)) (blkv d (bufs ?s3) (disk ?s3) (log_area ?s3 0)) = clear_header s (commit_header d s)"
    "log_area ?s3 0 = log_area s 0" "rcnt d (bufs ?s3) = (\<lambda>_. 0)"
    by (simp_all add: e3(1,2) h3 r3 clear_header_def)
  ultimately obtain s4 where s4: "write_head ?s3 = Ret () s4"
      "did d ?s3 [(log_area s 0, clear_header s (commit_header d s))] (\<lambda>_. 0) s4" by auto
  have "commit s = Ret () s4"
    unfolding commit_def using n s1(1) s2(1) s3(1) s4(1)
    by (simp add: bind_gets bind_modify bind_Ret whenM_def ln)
  moreover have "klog s4 = (klog s)\<lparr>lg_lh := (lg_lh (klog s))\<lparr>lh_n := 0\<rparr>\<rparr>"
    using s4(2) same_world_klog [of ?s3 s4] by (simp add: did_def e3)
  moreover have "disk s4 = wr_all (on_disk (commit_writes d s n)) (disk s)"
    "dwrites s4 = dwrites s @ on_disk (commit_writes d s n)" "bio_inv d {} s4" "rcnt d (bufs s4) = (\<lambda>_. 0)"
    using s4(2) d3 by (simp_all add: did_def commit_writes_def)
  ultimately show ?thesis by blast
qed

section \<open>Recovery\<close>

lemma read_head_words:
  "forM [0..<n] (read_head_word i) s =
     Ret () (upd_lh (\<lambda>h. h\<lparr>lh_block := (\<lambda>k. if k < n then get32 (b_data (bufs s i)) (4 + 4 * k) else lh_block h k)\<rparr>) s)"
proof (induction n)
  case 0
  then show ?case by (simp add: return_apply upd_lh_def upd_log_def)
next
  case (Suc n)
  have "(\<lambda>k. if k < n then get32 x (4 + 4 * k) else g k)(n := get32 x (4 + 4 * n)) =
      (\<lambda>k. if k < Suc n then get32 x (4 + 4 * k) else g k)" for x g
    by (auto simp: fun_eq_iff)
  then show ?case
    using Suc by (simp add: forM_append bind_apply return_apply read_head_word_def modify_apply)
      (simp add: upd_lh_def upd_log_def)
qed

lemma read_head_fill:
  "bind (modify (\<lambda>s. upd_lh (\<lambda>h. h\<lparr>lh_n := sint (get32 (b_data (bufs s i)) 0)\<rparr>) s)) (\<lambda>_.
   bind (gets log_n) (\<lambda>n. bind (forM [0..<nat n] (read_head_word i)) f)) s =
   f () (upd_lh (hdr_get (b_data (bufs s i))) s)"
  by (simp add: krun bind_Ret [OF read_head_words]) (simp add: upd_lh_def upd_log_def hdr_get_def cong: if_cong)

lemma read_head_spec:
  assumes inv: "bio_inv d {} s" and d: "d = log_dev s" and fit: "refs_fit d s {log_area s 0}"
  shows "\<exists>t. read_head s = Ret () t \<and>
    did d (upd_lh (hdr_get (blkv d (bufs s) (disk s) (log_area s 0))) s) [] (rcnt d (bufs s)) t"
proof -
  let ?a = "log_area s 0"
  let ?f = "hdr_get (blkv d (bufs s) (disk s) ?a)"
  obtain i s1 where s1: "bread d ?a s = Ret i s1" "read_ok d {} s ?a i s1"
    using bread_room [OF inv, of ?a] fit by (auto simp: refs_fit_def)
  then have inv1: "bio_inv d {i} (upd_lh ?f s1)" and bn1: "b_blockno (bufs s1 i) = ?a" and w1: "same_world s s1"
    and dat: "b_data (bufs s1 i) = blkv d (bufs s) (disk s) ?a" and dk1: "disk s1 = disk s" "dwrites s1 = dwrites s"
    and v1: "blkv d (bufs s1) (disk s1) = blkv d (bufs s) (disk s)"
    and rc1: "rcnt d (bufs s1) = (rcnt d (bufs s))(?a := rcnt d (bufs s) ?a + 1)"
    by (auto simp: read_ok_def)
  have "b_data (bufs s1 i) = disk s1 (unat ?a)" if "unat (b_refcnt (bufs s1 i)) = 1"
  proof -
    have "rcnt d (bufs s1) ?a = 1" using bio_invD(6) [OF inv1, of i] bn1 that by simp
    then show ?thesis using rc1 dat dk1 blkv_clean [OF inv, of ?a] by simp
  qed
  then have "unat (b_refcnt (bufs (upd_lh ?f s1) i)) = 1 \<longrightarrow>
      b_data (bufs (upd_lh ?f s1) i) = disk (upd_lh ?f s1) (unat (b_blockno (bufs (upd_lh ?f s1) i)))"
    by (simp add: bn1)
  then obtain s2 where s2: "brelse i (upd_lh ?f s1) = Ret () s2" "drop_ok d {i} (upd_lh ?f s1) i s2"
    using brelse_spec [OF inv1] by auto
  have "read_head s = Ret () s2"
    unfolding read_head_def using s1(1) s2(1) d dat
    by (simp add: bind_gets bind_Ret read_head_fill log_area_def)
  moreover have "same_world (upd_lh ?f s) (upd_lh ?f s1)"
    using w1 same_world_klog [OF w1] by (cases s; cases s1) (simp add: same_world_def upd_lh_def upd_log_def)
  then have "same_world (upd_lh ?f s) s2" using s2(2) same_world_trans unfolding drop_ok_def by blast
  moreover have "blkv d (bufs s2) (disk s2) = blkv d (bufs s) (disk s)"
    using s2(2) v1 unfolding drop_ok_def by (simp add: fun_eq_iff)
  moreover have "rcnt d (bufs s2) = rcnt d (bufs s)"
    using s2(2) rc1 bn1 unfolding drop_ok_def by (simp add: fun_eq_iff)
  ultimately show ?thesis using s2(2) dk1 by (auto simp: did_def drop_ok_def)
qed

definition boot_header :: "'a fslog_scheme \<Rightarrow> logheader" where
  "boot_header s = hdr_get (disk s (unat (log_area s 0))) (lg_lh (klog s))"

definition recover_writes :: "'a fslog_scheme \<Rightarrow> nat \<Rightarrow> (uint \<times> block) list" where
  "recover_writes s n = wlist (lh_block (boot_header s)) (\<lambda>i. disk s (unat (log_area s (Suc i)))) n @
     [(log_area s 0, hdr_put ((boot_header s)\<lparr>lh_n := 0\<rparr>) (disk s (unat (log_area s 0))))]"

lemma recover_spec:
  assumes inv: "bio_inv d {} s" and d: "d = log_dev s" and cold: "rcnt d (bufs s) = (\<lambda>_. 0)"
    and lay: "log_layout (upd_lh (\<lambda>_. boot_header s) s) n"
  shows "\<exists>t. recover_from_log s = Ret () t \<and> bio_inv d {} t \<and> log_n t = 0 \<and> rcnt d (bufs t) = (\<lambda>_. 0) \<and>
    disk t = wr_all (on_disk (recover_writes s n)) (disk s)"
proof -
  have v0: "blkv d (bufs s) (disk s) b = disk s (unat b)" for b using blkv_clean [OF inv] cold by simp
  have small: "card ({a, b} \<union> {x. rcnt d (bufs t) x \<noteq> 0}) \<le> NBUF" if "rcnt d (bufs t) = (\<lambda>_. 0)" for a b and t :: "'a fslog_scheme"
    using card_insert_le_m1 [of 2 "{b}" a] by (simp add: that NBUF_def)
  have fit: "refs_fit d t {a, b}" if "rcnt d (bufs t) = (\<lambda>_. 0)" for a b and t :: "'a fslog_scheme"
    unfolding refs_fit_def using small [OF that, of a b] that by simp
  let ?s = "upd_lh (\<lambda>_. boot_header s) s"
  obtain s1 where s1: "read_head s = Ret () s1" "did d ?s [] (\<lambda>_. 0) s1"
    using read_head_spec [OF inv d] fit [OF cold, of "log_area s 0" "log_area s 0"] cold
    by (auto simp: v0 boot_header_def upd_lh_def upd_log_def)
  have w1: "same_world ?s s1" and i1: "bio_inv d {} s1" and r1: "rcnt d (bufs s1) = (\<lambda>_. 0)"
    using s1(2) by (simp_all add: did_def)
  note e1 = same_world_klog [OF w1] same_world_log_area [OF w1] same_world_log_dev [OF w1]
  have lay1: "log_layout s1 n" using lay log_layout_world [OF w1] by simp
  have fit1: "fits_with d s1 n"
    unfolding fits_with_def using fit [OF r1] fit [OF r1, of "log_area s1 0" "log_area s1 0"] d e1(3) by simp
  have v1: "blkv d (bufs s1) (disk s1) b = disk s (unat b)" for b using did_blkv [OF s1(2)] v0 by simp
  have ln: "log_n s1 = int n" using lay1 by (simp add: log_layout_def)
  have "home_copies d s1 n = wlist (lh_block (boot_header s)) (\<lambda>i. disk s (unat (log_area s (Suc i)))) n" (is "_ = ?H")
    by (simp add: home_copies_def v1 e1)
  then obtain s2 where s2: "install_trans 1 s1 = Ret () s2" "did d s1 ?H (\<lambda>_. 0) s2"
    using install_loop [OF i1 lay1 fit1 _ order_refl, of 1] r1 ln by (auto simp: install_trans_def bind_gets)
  note d2 = did_trans [OF s1(2) s2(2)]
  have w2: "same_world ?s s2" and i2: "bio_inv d {} s2" and r2: "rcnt d (bufs s2) = (\<lambda>_. 0)"
    using d2 by (simp_all add: did_def)
  note e2 = same_world_klog [OF w2] same_world_log_area [OF w2] same_world_log_dev [OF w2]
  let ?s2 = "upd_lh (\<lambda>h. h\<lparr>lh_n := 0\<rparr>) s2"
  have h2: "blkv d (bufs s2) (disk s2) (log_area s 0) = disk s (unat (log_area s 0))"
    unfolding did_blkv [OF s2(2)] using log_layoutD [OF lay, of _ 0] by (subst wr_all_wlist_other) (simp_all add: v1)
  have "bio_inv d {} ?s2" "d = log_dev ?s2" "refs_fit d ?s2 {log_area ?s2 0}"
    using i2 d e2(3) fit [OF r2, of "log_area s2 0" "log_area s2 0"] by simp_all
  then have "\<exists>t. write_head ?s2 = Ret () t \<and> did d ?s2 [(log_area ?s2 0,
      hdr_put (lg_lh (klog ?s2)) (blkv d (bufs ?s2) (disk ?s2) (log_area ?s2 0)))] (rcnt d (bufs ?s2)) t"
    by (rule write_head_spec)
  moreover have "hdr_put (lg_lh (klog ?s2)) (blkv d (bufs ?s2) (disk ?s2) (log_area ?s2 0)) =
      hdr_put ((boot_header s)\<lparr>lh_n := 0\<rparr>) (disk s (unat (log_area s 0)))" (is "_ = ?x")
    "log_area ?s2 0 = log_area s 0" "rcnt d (bufs ?s2) = (\<lambda>_. 0)"
    by (simp_all add: e2(1,2) h2 r2)
  ultimately obtain s3 where s3: "write_head ?s2 = Ret () s3" "did d ?s2 [(log_area s 0, ?x)] (\<lambda>_. 0) s3" by auto
  have "recover_from_log s = Ret () s3"
    unfolding recover_from_log_def using s1(1) s2(1) s3(1) by (simp add: bind_Ret bind_modify)
  moreover have "log_n s3 = 0" using s3(2) same_world_klog [of ?s2 s3] by (simp add: did_def)
  moreover have "bio_inv d {} s3" "rcnt d (bufs s3) = (\<lambda>_. 0)" using s3(2) by (simp_all add: did_def)
  moreover have "disk s3 = wr_all (on_disk (recover_writes s n)) (disk s)"
    using s3(2) d2 by (simp add: did_def recover_writes_def)
  ultimately show ?thesis by blast
qed

end
