(* ===== verification/Bio_Prop.thy ===== *)
theory Bio_Prop
  imports Bio
begin

text \<open>
  What the buffer cache promises: binit() builds a cache that satisfies the invariant, bread()
  returns the current content of the block in a buffer no other cached block shares, and the
  invariant survives every operation.
\<close>

section \<open>binit()\<close>

definition fresh_cache :: "'a bio_scheme \<Rightarrow> bool" where
  "fresh_cache s \<longleftrightarrow> held s = {} \<and> (\<forall>i < NBUF. b_refcnt (bufs s i) = 0 \<and> b_dev (bufs s i) = 0 \<and>
     b_valid (bufs s i) = 0)"

definition binit_at :: "'a bio_scheme \<Rightarrow> nat \<Rightarrow> 'a bio_scheme \<Rightarrow> bool" where
  "binit_at s k t \<longleftrightarrow> linked (bufs t) NBUF (rev [0..<k]) NBUF \<and> (\<forall>j. bcont (bufs t j) = bcont (bufs s j)) \<and>
     (\<forall>j < k. sl_locked (slocks t (SlBuf j)) = 0) \<and> held t = {} \<and> procs t = procs s \<and> disk t = disk s"

lemma binit_step:
  assumes "k < NBUF" and "binit_at s k t"
  shows "wp (bind (initsleeplock (SlBuf k) ''buffer'') (\<lambda>_. modify (\<lambda>s. s\<lparr>bufs := insert_head k (bufs s)\<rparr>)))
    (\<lambda>_. binit_at s (Suc k)) t"
proof -
  have "linked (insert_head k (bufs t)) NBUF (k # rev [0..<k]) NBUF"
    by (rule insert_head_linked) (use assms in \<open>auto simp: binit_at_def\<close>)
  then show ?thesis
    using assms(2) by (auto simp: initsleeplock_def wp_simps binit_at_def less_Suc_eq)
qed

lemma binit_at_start:
  assumes "fresh_cache s"
  shows "binit_at s 0 (upd_buf NBUF (\<lambda>h. h\<lparr>b_prev := NBUF, b_next := NBUF\<rparr>) (s\<lparr>held := {}\<rparr>))"
  by (auto simp: binit_at_def upd_buf_def bcont_eq)

lemma binit_spec:
  assumes "fresh_cache s"
  shows "wp binit (\<lambda>_. binit_at s NBUF) s"
proof -
  have "wp (forM [0..<NBUF] (\<lambda>b. bind (initsleeplock (SlBuf b) ''buffer'')
      (\<lambda>_. modify (\<lambda>s. s\<lparr>bufs := insert_head b (bufs s)\<rparr>)))) (\<lambda>_. binit_at s (length [0..<NBUF]))
      (upd_buf NBUF (\<lambda>h. h\<lparr>b_prev := NBUF, b_next := NBUF\<rparr>) (s\<lparr>held := {}\<rparr>))"
    by (rule wp_forM_index [where I = "binit_at s"]) (use binit_step binit_at_start [OF assms] in auto)
  moreover have "held s = {}" using assms by (simp add: fresh_cache_def)
  ultimately show ?thesis by (simp add: binit_def initlk_def wp_simps)
qed

lemma binit_at_inv:
  assumes "fresh_cache s" and "binit_at s NBUF t" and "d \<noteq> 0"
  shows "bio_inv d {} (t\<lparr>curproc := Some p\<rparr>)"
proof -
  have z: "b_refcnt (bufs t i) = 0 \<and> b_dev (bufs t i) = 0 \<and> b_valid (bufs t i) = 0" if "i < NBUF" for i
    using assms(1,2) that by (simp add: fresh_cache_def binit_at_def bcont_eq)
  have "dll (bufs t) (rev [0..<NBUF])" using assms(2) by (auto simp: dll_def binit_at_def)
  moreover have "uniq d (bufs t)" "clean d (bufs t) (disk t)" using z assms(3) by (simp_all add: uniq_def clean_def)
  ultimately show ?thesis
    using z assms(2) by (auto simp: bio_inv_def bio_idle_def no_proc_locks_def binit_at_def)
qed

text \<open>
  C14. The cache after binit() satisfies its invariant for every device but 0 (the device number
  of the zeroed buffers): the buffers form a doubly linked LRU list with no block cached twice.
\<close>

theorem binit_establishes:
  assumes "fresh_cache s" and "d \<noteq> 0"
  shows "\<exists>t. binit s = Ret () t \<and> (\<forall>p. bio_inv d {} (t\<lparr>curproc := Some p\<rparr>))"
proof -
  obtain t where "binit s = Ret () t" "binit_at s NBUF t" using binit_spec [OF assms(1)] by (auto simp: wp_def)
  then show ?thesis using binit_at_inv [OF assms(1) _ assms(2)] by blast
qed

definition buf0 :: buf where
  "buf0 = \<lparr>b_valid = 0, b_disk = 0, b_dev = 0, b_blockno = 0, b_refcnt = 0, b_prev = 0, b_next = 0, b_data = (\<lambda>_. 0)\<rparr>"

definition bio_boot :: bio where
  "bio_boot = \<lparr>held = {}, curproc = None, procs = (\<lambda>_. proc0),
     slocks = (\<lambda>_. \<lparr>sl_locked = 0, sl_name = [], sl_pid = 0\<rparr>), initproc = Some 0, nextpid = 2,
     ticks = 0, cons_out = [], mem = (\<lambda>_. 0), freelist = 0, kend = 0x80021000, bufs = (\<lambda>_. buf0),
     disk = (\<lambda>_ _. 0), dwrites = []\<rparr>"

theorem binit_establishes_witness:
  "fresh_cache bio_boot \<and> (\<exists>t. binit bio_boot = Ret () t \<and> (\<forall>p. bio_inv 1 {} (t\<lparr>curproc := Some p\<rparr>)))"
proof -
  have "fresh_cache bio_boot" by (simp add: fresh_cache_def bio_boot_def buf0_def)
  then show ?thesis using binit_establishes [of bio_boot 1] by simp
qed

section \<open>bread()\<close>

text \<open>
  C11. bread() of a block the caller has not locked, when a buffer is available, returns a locked
  buffer that holds the current content of the block (the cached data if there is any, the disk
  block otherwise); the invariant is kept, so no other buffer caches the same block, the content of
  no block changes and nothing is written to the disk.
\<close>

theorem bread_correct:
  assumes "bio_inv d L s" and "\<forall>i \<in> L. b_blockno (bufs s i) \<noteq> b"
    and "rcnt d (bufs s) b \<noteq> 0 \<or> (\<exists>i < NBUF. b_refcnt (bufs s i) = 0)"
    and "rcnt d (bufs s) b + 1 < 2 ^ 32"
  shows "\<exists>i t. bread d b s = Ret i t \<and> bio_inv d (insert i L) t \<and> i \<notin> L \<and>
    b_dev (bufs t i) = d \<and> b_blockno (bufs t i) = b \<and> b_data (bufs t i) = blkv d (bufs s) (disk s) b \<and>
    (\<forall>c. blkv d (bufs t) (disk t) c = blkv d (bufs s) (disk s) c) \<and>
    rcnt d (bufs t) = (rcnt d (bufs s))(b := rcnt d (bufs s) b + 1) \<and> disk t = disk s \<and> dwrites t = dwrites s"
  using bread_spec [OF assms] unfolding read_ok_def by blast

text \<open>A cache with block 7 on the disk and nothing cached.\<close>

definition bio1 :: bio where
  "bio1 = bio_boot\<lparr>curproc := Some 0, disk := (\<lambda>n i. if n = 7 then 1 else 0),
     bufs := (\<lambda>i. buf0\<lparr>b_next := (if i = NBUF then 0 else Suc i), b_prev := (if i = 0 then NBUF else i - 1)\<rparr>)\<rparr>"

lemma linked_upt:
  assumes "\<And>i. a \<le> i \<Longrightarrow> i \<le> n \<Longrightarrow> b_next (f i) = Suc i" and "\<And>i. a < i \<Longrightarrow> i \<le> Suc n \<Longrightarrow> b_prev (f i) = i - 1" and "a \<le> n"
  shows "linked f a [Suc a..<Suc n] (Suc n)"
  using assms
proof (induction "n - a" arbitrary: a)
  case 0
  then show ?case by simp
next
  case (Suc k)
  then have "[Suc a..<Suc n] = Suc a # [Suc (Suc a)..<Suc n]" by (simp add: upt_conv_Cons del: upt_Suc)
  moreover have "linked f (Suc a) [Suc (Suc a)..<Suc n] (Suc n)"
    by (rule Suc.hyps(1)) (use Suc.prems Suc.hyps(2) in simp_all)
  ultimately show ?case using Suc.prems Suc.hyps(2) by (simp del: upt_Suc)
qed

lemma bio1_list: "dll (bufs bio1) [0..<NBUF]"
proof -
  have u: "[0..<NBUF] = 0 # [Suc 0..<Suc 29]" by (simp add: NBUF_def upt_conv_Cons del: upt_Suc)
  have "linked (bufs bio1) 0 [Suc 0..<Suc 29] (Suc 29)"
    by (rule linked_upt) (auto simp: bio1_def NBUF_def)
  then have "linked (bufs bio1) NBUF (0 # [Suc 0..<Suc 29]) NBUF" by (simp add: bio1_def NBUF_def del: upt_Suc)
  then show ?thesis unfolding dll_def by (simp only: u [symmetric]) auto
qed

lemma bio1_inv: "bio_inv 1 {} bio1"
proof -
  have "\<exists>xs. dll (bufs bio1) xs" using bio1_list by blast
  moreover have "uniq 1 (bufs bio1)" "clean 1 (bufs bio1) (disk bio1)" "bio_idle {} bio1" "\<forall>i < NBUF. b_refcnt (bufs bio1 i) = 0"
    by (simp_all add: bio1_def bio_boot_def buf0_def uniq_def clean_def bio_idle_def no_proc_locks_def)
  ultimately show ?thesis unfolding bio_inv_def by simp
qed

theorem bread_correct_witness:
  "bio_inv 1 {} bio1 \<and> (\<exists>i t. bread 1 7 bio1 = Ret i t \<and> b_data (bufs t i) 0 = 1)"
proof -
  have z: "b_dev (bufs bio1 i) = 0" "b_refcnt (bufs bio1 i) = 0" for i by (simp_all add: bio1_def buf0_def)
  then have "cached 1 (bufs bio1) 7 = None" by (simp add: cached_def find_None_iff)
  then have v: "blkv 1 (bufs bio1) (disk bio1) 7 = disk bio1 7" "rcnt 1 (bufs bio1) 7 = 0"
    by (simp_all add: blkv_def rcnt_def)
  then have "blkv 1 (bufs bio1) (disk bio1) 7 0 = 1" by (simp add: bio1_def bio_boot_def)
  moreover have "0 < NBUF" by (simp add: NBUF_def)
  then have "\<exists>i < NBUF. b_refcnt (bufs bio1 i) = 0" using z by blast
  then have "\<exists>i t. bread 1 7 bio1 = Ret i t \<and> b_data (bufs t i) = blkv 1 (bufs bio1) (disk bio1) 7"
    using bread_correct [OF bio1_inv, of 7] v(2) by auto
  ultimately show ?thesis using bio1_inv by force
qed

end
