(* ===== verification/Log_Crash.thy ===== *)
theory Log_Crash
  imports Log Bio_Prop
begin

text \<open>
  Crash safety of kernel/log.c: whatever prefix of the disk writes of commit() a crash leaves on
  the disk, recover_from_log() after the reboot produces the file system before the
  transaction or the file system after it, and the boundary is the write of the header.  The
  other half of the log's contract, that operations admitted by begin_op() have space in the log, is
  examined at the end.
\<close>

section \<open>Crashes during commit()\<close>

text \<open>
  A crash loses the memory and keeps the block writes completed so far: a prefix of the
  writes of commit().  The views below are by block number.
\<close>

definition disk_view :: "'a bio_scheme \<Rightarrow> uint \<Rightarrow> block" where
  "disk_view s b = disk s (unat b)"

definition in_log :: "'a fslog_scheme \<Rightarrow> nat \<Rightarrow> uint set" where
  "in_log s n = log_area s ` {..n}"

lemma disk_view_writes:
  assumes "disk t = wr_all (on_disk W) (disk s)"
  shows "disk_view t = wr_all W (disk_view s)"
proof
  fix b
  have "(\<lambda>c. disk s (unat c)) = disk_view s" by (rule ext) (simp only: disk_view_def)
  then show "disk_view t b = wr_all W (disk_view s) b"
    using wr_all_on_disk [of W "disk s" b] by (simp only: disk_view_def [of t] assms)
qed

lemma take_wlist: "k \<le> n \<Longrightarrow> take k (wlist key val n) = wlist key val k"
  by (simp add: wlist_def take_map)

lemma length_parts [simp]: "length (log_copies d s n) = n" "length (installs d s n) = n"
  by (simp_all add: log_copies_def installs_def)

lemma take_commit_writes:
  "k \<le> n \<Longrightarrow> take k (commit_writes d s n) = log_copies d s k"
  "j \<le> n \<Longrightarrow> take (Suc (n + j)) (commit_writes d s n) =
     log_copies d s n @ [(log_area s 0, commit_header d s)] @ installs d s j"
  by (simp_all add: commit_writes_def log_copies_def installs_def take_wlist)

lemma hdr_clear: "get32 (hdr_put (h\<lparr>lh_n := 0\<rparr>) x) 0 = 0"
  by (simp add: hdr_put_def get32_put32)

lemma boot_header_clear: "get32 (disk_view s (log_area s 0)) 0 = 0 \<Longrightarrow> lh_n (boot_header s) = 0"
  by (simp add: boot_header_def hdr_get_def disk_view_def)

definition crash_of :: "uint \<Rightarrow> 'a fslog_scheme \<Rightarrow> nat \<Rightarrow> nat \<Rightarrow> 'a fslog_scheme \<Rightarrow> bool" where
  "crash_of d s n k r \<longleftrightarrow> bio_inv d {} r \<and> rcnt d (bufs r) = (\<lambda>_. 0) \<and> log_dev r = d \<and>
     lg_start (klog r) = lg_start (klog s) \<and> disk r = wr_all (on_disk (take k (commit_writes d s n))) (disk s)"

lemma crash_area: "crash_of d s n k r \<Longrightarrow> log_area r = log_area s"
  by (simp add: crash_of_def log_area_def fun_eq_iff)

lemma log_readyD:
  assumes "log_ready d s n"
  shows "bio_inv d {} s" and "log_layout s n" and "n < NBUF" and "log_n s = int n" and "inj_on (log_block s) {..<n}"
    and "b \<notin> log_block s ` {..<n} \<Longrightarrow> blkv d (bufs s) (disk s) b = disk_view s b"
proof -
  show inv: "bio_inv d {} s" and lay: "log_layout s n" and "n < NBUF" using assms unfolding log_ready_def by blast+
  show "log_n s = int n" "inj_on (log_block s) {..<n}" using lay unfolding log_layout_def by blast+
  assume "b \<notin> log_block s ` {..<n}"
  moreover have "rcnt d (bufs s) = (\<lambda>b. if b \<in> log_block s ` {..<n} then 1 else 0)"
    using assms unfolding log_ready_def by blast
  ultimately show "blkv d (bufs s) (disk s) b = disk_view s b" using blkv_clean [OF inv, of b] by (simp add: disk_view_def)
qed

lemma recover_clear:
  assumes c: "crash_of d s n k r" and lay: "log_layout s n" and h: "get32 (disk_view r (log_area s 0)) 0 = 0"
  shows "\<exists>u. recover_from_log r = Ret () u \<and> log_n u = 0 \<and> get32 (disk_view u (log_area s 0)) 0 = 0 \<and>
    (\<forall>b. b \<noteq> log_area s 0 \<longrightarrow> disk_view u b = disk_view r b)"
proof -
  note a = crash_area [OF c]
  have "lh_n (boot_header r) = 0" using h a by (simp add: boot_header_clear)
  then have "log_layout (upd_lh (\<lambda>_. boot_header r) r) 0"
    using c lay by (simp add: log_layout_def crash_of_def)
  then obtain u where u: "recover_from_log r = Ret () u" "log_n u = 0" "disk u = wr_all (on_disk (recover_writes r 0)) (disk r)"
    using recover_spec [of d r 0] c unfolding crash_of_def by blast
  have "recover_writes r 0 = [(log_area s 0, hdr_put ((boot_header r)\<lparr>lh_n := 0\<rparr>) (disk_view r (log_area s 0)))]"
    by (simp add: recover_writes_def a disk_view_def)
  then have "disk_view u = (disk_view r)(log_area s 0 := hdr_put ((boot_header r)\<lparr>lh_n := 0\<rparr>) (disk_view r (log_area s 0)))"
    using disk_view_writes [OF u(3)] by simp
  then have "get32 (disk_view u (log_area s 0)) 0 = 0" "\<forall>b. b \<noteq> log_area s 0 \<longrightarrow> disk_view u b = disk_view r b"
    by (simp_all add: hdr_clear)
  with u(1,2) show ?thesis by blast
qed

lemma old_before_commit:
  assumes lay: "log_layout s n" and k: "k \<le> n" and b: "b \<notin> log_area s ` {1..n}"
  shows "wr_all (take k (commit_writes d s n)) v b = v b"
  unfolding take_commit_writes(1) [OF k] log_copies_def
  by (rule wr_all_wlist_other) (use b k in force)

lemma log_copies_other: "b \<notin> in_log s n \<Longrightarrow> wr_all (log_copies d s n) v b = v b"
  unfolding log_copies_def by (rule wr_all_wlist_other) (force simp: in_log_def)

lemma installs_other: "j \<le> n \<Longrightarrow> b \<notin> log_block s ` {..<n} \<Longrightarrow> wr_all (installs d s j) v b = v b"
  unfolding installs_def by (rule wr_all_wlist_other) force

text \<open>Every block outside the log has its new content once all installs are down.\<close>

lemma installs_view:
  assumes rdy: "log_ready d s n" and b: "b \<notin> in_log s n" and j: "j \<le> n"
  shows "wr_all (installs d s n) (wr_all (log_copies d s n @ [(log_area s 0, x)] @ installs d s j) (disk_view s)) b
    = blkv d (bufs s) (disk s) b"
proof (cases "b \<in> log_block s ` {..<n}")
  case True
  then obtain i where i: "i < n" "b = log_block s i" by auto
  show ?thesis unfolding i(2) installs_def [of d s n] by (rule wr_all_wlist_at [OF log_readyD(5) [OF rdy] i(1)])
next
  case False
  have "b \<noteq> log_area s 0" using b by (auto simp: in_log_def)
  then show ?thesis using False j b log_readyD(6) [OF rdy False] by (simp add: installs_other [of _ n] log_copies_other)
qed

lemma log_layout_boot:
  assumes lay: "log_layout s n" and c: "crash_of d s n k r"
    and hn: "lh_n h = int n" "\<And>i. i < n \<Longrightarrow> lh_block h i = log_block s i"
  shows "log_layout (upd_lh (\<lambda>_. h) r) n"
proof -
  have "inj_on (lh_block h) {..<n} = inj_on (log_block s) {..<n}" by (rule inj_on_cong) (simp add: hn)
  moreover have "lg_start (klog r) = lg_start (klog s)" using c unfolding crash_of_def by blast
  ultimately show ?thesis using lay hn by (simp add: log_layout_def crash_area [OF c])
qed

lemma recover_committed:
  assumes c: "crash_of d s n (Suc (n + j)) r" and rdy: "log_ready d s n" and j: "j \<le> n"
  shows "\<exists>u. recover_from_log r = Ret () u \<and> log_n u = 0 \<and> get32 (disk_view u (log_area s 0)) 0 = 0 \<and>
    (\<forall>b. b \<notin> in_log s n \<longrightarrow> disk_view u b = blkv d (bufs s) (disk s) b)"
proof -
  note a = crash_area [OF c]
  note lay = log_readyD(2) [OF rdy] and n30 = log_readyD(3) [OF rdy] and ln = log_readyD(4) [OF rdy]
  have D: "disk_view r = wr_all (log_copies d s n @ [(log_area s 0, commit_header d s)] @ installs d s j) (disk_view s)"
    using c by (intro disk_view_writes) (simp add: crash_of_def take_commit_writes(2) [OF j])
  have i0: "wr_all (installs d s j) v (log_area s i) = v (log_area s i)" if "i \<le> n" for v i
    by (rule installs_other [OF j]) (use log_layoutD [OF lay _ that] in \<open>metis imageE lessThan_iff\<close>)
  have "disk_view r (log_area s 0) = commit_header d s" unfolding D by (simp add: i0)
  then have bh: "boot_header r = hdr_get (commit_header d s) (lg_lh (klog r))" by (simp add: boot_header_def a disk_view_def)
  have hn: "lh_n (boot_header r) = int n" "\<And>i. i < n \<Longrightarrow> lh_block (boot_header r) i = log_block s i"
    using hdr_get_put [of "lg_lh (klog s)"] ln n30 unfolding bh commit_header_def by (simp_all add: NBUF_def)
  have da: "disk_view r (log_area s (Suc i)) = blkv d (bufs s) (disk s) (log_block s i)" if "i < n" for i
    using log_copies_view [OF lay that] i0 [of "Suc i"] log_area_ne [OF lay, of "Suc i" 0] that
    unfolding D by simp
  have "log_layout (upd_lh (\<lambda>_. boot_header r) r) n"
    by (rule log_layout_boot [OF lay c hn])
  then obtain u where u: "recover_from_log r = Ret () u" "log_n u = 0" "disk u = wr_all (on_disk (recover_writes r n)) (disk r)"
    using recover_spec [of d r n] c unfolding crash_of_def by blast
  have rw: "recover_writes r n = installs d s n @ [(log_area s 0, hdr_put ((boot_header r)\<lparr>lh_n := 0\<rparr>) (disk_view r (log_area s 0)))]"
    using hn da by (simp add: recover_writes_def installs_def wlist_def a disk_view_def)
  have U: "disk_view u = (wr_all (installs d s n) (disk_view r))
      (log_area s 0 := hdr_put ((boot_header r)\<lparr>lh_n := 0\<rparr>) (disk_view r (log_area s 0)))"
    using disk_view_writes [OF u(3)] rw by simp
  have "disk_view u b = blkv d (bufs s) (disk s) b" if "b \<notin> in_log s n" for b
  proof -
    have "b \<noteq> log_area s 0" using that by (auto simp: in_log_def)
    then show ?thesis unfolding U D using installs_view [OF rdy that j] by simp
  qed
  moreover have "get32 (disk_view u (log_area s 0)) 0 = 0" unfolding U by (simp add: hdr_clear)
  ultimately show ?thesis using u by blast
qed

definition crashed :: "uint \<Rightarrow> 'a fslog_scheme \<Rightarrow> (nat \<times> block) list \<Rightarrow> 'a fslog_scheme \<Rightarrow> bool" where
  "crashed d s V r \<longleftrightarrow> bio_inv d {} r \<and> rcnt d (bufs r) = (\<lambda>_. 0) \<and> log_dev r = d \<and>
     lg_start (klog r) = lg_start (klog s) \<and> disk r = wr_all V (disk s)"

lemma crashed_cases:
  assumes "crashed d s (take k (on_disk (commit_writes d s n))) r"
  shows "crash_of d s n k r"
  using assms by (simp add: crashed_def crash_of_def on_disk_def take_map)

lemma crash_of_all:
  assumes "crash_of d s n k r" and "Suc (Suc (n + n)) \<le> k"
  shows "disk_view r = wr_all (commit_writes d s n) (disk_view s)"
proof -
  have "take k (commit_writes d s n) = commit_writes d s n" using assms(2) by (simp add: commit_writes_def)
  then show ?thesis using assms(1) by (intro disk_view_writes) (simp add: crash_of_def)
qed

lemma recover_installed:
  assumes c: "crash_of d s n k r" and k: "Suc (Suc (n + n)) \<le> k" and rdy: "log_ready d s n"
  shows "\<exists>u. recover_from_log r = Ret () u \<and> log_n u = 0 \<and> get32 (disk_view u (log_area s 0)) 0 = 0 \<and>
    (\<forall>b. b \<notin> in_log s n \<longrightarrow> disk_view u b = blkv d (bufs s) (disk s) b)"
proof -
  note D = crash_of_all [OF c k]
  have "get32 (disk_view r (log_area s 0)) 0 = 0"
    unfolding D by (simp add: commit_writes_def clear_header_def hdr_clear)
  then obtain u where u: "recover_from_log r = Ret () u" "log_n u = 0" "get32 (disk_view u (log_area s 0)) 0 = 0"
      "\<forall>b. b \<noteq> log_area s 0 \<longrightarrow> disk_view u b = disk_view r b"
    using recover_clear [OF c log_readyD(2) [OF rdy]] by blast
  have "disk_view u b = blkv d (bufs s) (disk s) b" if "b \<notin> in_log s n" for b
  proof -
    have n0: "b \<noteq> log_area s 0" using that by (auto simp: in_log_def)
    then have "disk_view r b = blkv d (bufs s) (disk s) b"
      using installs_view [OF rdy that, of 0 "commit_header d s"] unfolding D by (simp add: commit_writes_def installs_def)
    then show ?thesis using u(4) n0 by simp
  qed
  with u show ?thesis by blast
qed

lemma recover_uncommitted:
  assumes c: "crash_of d s n k r" and k: "k \<le> n" and lay: "log_layout s n"
    and h: "get32 (disk_view s (log_area s 0)) 0 = 0"
  shows "\<exists>u. recover_from_log r = Ret () u \<and> log_n u = 0 \<and> get32 (disk_view u (log_area s 0)) 0 = 0 \<and>
    (\<forall>b. b \<notin> in_log s n \<longrightarrow> disk_view u b = disk_view s b)"
proof -
  have D: "disk_view r = wr_all (take k (commit_writes d s n)) (disk_view s)"
    using c by (intro disk_view_writes) (simp add: crash_of_def)
  have "log_area s 0 \<notin> log_area s ` {1..n}"
  proof
    assume "log_area s 0 \<in> log_area s ` {1..n}"
    then obtain i where "1 \<le> i" "i \<le> n" "log_area s 0 = log_area s i" by auto
    with log_area_ne [OF lay, of 0 i] show False by simp
  qed
  then have "disk_view r (log_area s 0) = disk_view s (log_area s 0)" unfolding D by (rule old_before_commit [OF lay k])
  then obtain u where u: "recover_from_log r = Ret () u" "log_n u = 0" "get32 (disk_view u (log_area s 0)) 0 = 0"
      "\<forall>b. b \<noteq> log_area s 0 \<longrightarrow> disk_view u b = disk_view r b"
    using recover_clear [OF c lay] h by auto
  have "disk_view u b = disk_view s b" if "b \<notin> in_log s n" for b
  proof -
    have "b \<noteq> log_area s 0" "b \<notin> log_area s ` {1..n}" using that by (auto simp: in_log_def)
    then show ?thesis using u(4) old_before_commit [OF lay k, of b d] unfolding D by simp
  qed
  with u show ?thesis by blast
qed

text \<open>
  C1. A commit is atomic.  From a state with an empty on-disk log, commit() returns, and if the
  machine stops after any number \<open>k\<close> of its disk writes and reboots with a cold cache, then
  recover_from_log() returns with an empty log and every block outside the log has its old
  content if \<open>k\<close> is at most the number of logged blocks (the header was not yet written)
  and its new content otherwise.
\<close>

theorem commit_crash_atomic:
  assumes rdy: "log_ready d s n" and "0 < n" and clear: "get32 (disk_view s (log_area s 0)) 0 = 0"
  shows "\<exists>t. commit s = Ret () t \<and> (\<forall>k r. crashed d s (take k (drop (length (dwrites s)) (dwrites t))) r \<longrightarrow>
    (\<exists>u. recover_from_log r = Ret () u \<and> log_n u = 0 \<and> get32 (disk_view u (log_area s 0)) 0 = 0 \<and>
      (\<forall>b. b \<notin> in_log s n \<longrightarrow>
        disk_view u b = (if k \<le> n then disk_view s b else blkv d (bufs s) (disk s) b))))"
proof -
  obtain t where t: "commit s = Ret () t" "dwrites t = dwrites s @ on_disk (commit_writes d s n)"
    using commit_spec [OF assms(1,2)] by blast
  have "\<exists>u. recover_from_log r = Ret () u \<and> log_n u = 0 \<and> get32 (disk_view u (log_area s 0)) 0 = 0 \<and>
      (\<forall>b. b \<notin> in_log s n \<longrightarrow>
        disk_view u b = (if k \<le> n then disk_view s b else blkv d (bufs s) (disk s) b))"
    if "crashed d s (take k (on_disk (commit_writes d s n))) r" for k r
  proof -
    note c = crashed_cases [OF that]
    consider "k \<le> n" | j where "k = Suc (n + j)" "j \<le> n" | "Suc (Suc (n + n)) \<le> k"
      by (cases "k \<le> n"; cases "k \<le> Suc (n + n)") (auto dest: less_imp_Suc_add simp: not_le)
    then show ?thesis
    proof cases
      case 1 then show ?thesis using recover_uncommitted [OF c _ log_readyD(2) [OF rdy] clear] by simp
    next
      case 2 then show ?thesis using recover_committed [of d s n j r] c rdy by auto
    next
      case 3 then show ?thesis using recover_installed [OF c _ rdy] by auto
    qed
  qed
  with t show ?thesis by auto
qed

text \<open>
  A disk whose log starts at block 2, with block 50 modified in the cache and logged.
\<close>

definition log1 :: fslog where
  "log1 = bio.extend (bio1\<lparr>bufs := (bufs bio1)(0 := (bufs bio1 0)\<lparr>b_dev := 1, b_blockno := 50, b_refcnt := 1, b_valid := 1,
       b_data := (\<lambda>_. 7)\<rparr>)\<rparr>)
     \<lparr>klog = \<lparr>lg_start = 2, lg_size = 30, lg_outstanding = 0, lg_committing = 1, lg_dev = 1,
        lg_lh = \<lparr>lh_n = 1, lh_block = (\<lambda>_. 50)\<rparr>\<rparr>\<rparr>"

lemma log1_simps:
  "bufs log1 = (bufs bio1)(0 := (bufs bio1 0)\<lparr>b_dev := 1, b_blockno := 50, b_refcnt := 1, b_valid := 1, b_data := (\<lambda>_. 7)\<rparr>)"
  "disk log1 = disk bio1" "held log1 = held bio1" "slocks log1 = slocks bio1" "curproc log1 = curproc bio1"
  "klog log1 = \<lparr>lg_start = 2, lg_size = 30, lg_outstanding = 0, lg_committing = 1, lg_dev = 1,
        lg_lh = \<lparr>lh_n = 1, lh_block = (\<lambda>_. 50)\<rparr>\<rparr>"
  by (simp_all add: log1_def bio.defs)

lemma log1_cached: "cached 1 (bufs log1) b = (if b = 50 then Some 0 else None)"
proof (cases "b = 50")
  case True
  have u: "uniq 1 (bufs log1)" by (auto simp: uniq_def log1_simps bio1_def buf0_def)
  show ?thesis using cached_SomeI [OF u, of 0 50] True by (simp add: log1_simps NBUF_def)
next
  case False
  then have "cached 1 (bufs log1) b = None" by (simp add: cached_def find_None_iff log1_simps bio1_def buf0_def)
  then show ?thesis using False by simp
qed

lemma log1_inv: "bio_inv 1 {} log1"
proof -
  have "dll (bufs log1) [0..<NBUF]" by (rule dll_same_links [OF bio1_list]) (simp add: log1_simps)
  moreover have "uniq 1 (bufs log1)" "clean 1 (bufs log1) (disk log1)" "bio_idle {} log1"
    "\<forall>i < NBUF. b_refcnt (bufs log1 i) \<noteq> 0 \<longrightarrow> b_dev (bufs log1 i) = 1"
    by (auto simp: log1_simps bio1_def bio_boot_def buf0_def uniq_def clean_def bio_idle_def no_proc_locks_def)
  ultimately show ?thesis unfolding bio_inv_def by auto
qed

lemma log1_rcnt: "rcnt 1 (bufs log1) = (\<lambda>b. if b = 50 then 1 else 0)"
  by (rule ext) (simp add: rcnt_def log1_cached, simp add: log1_simps)

lemma log1_area: "log_area log1 i = 2 + of_nat i"
  by (simp add: log_area_def log1_simps)

lemma log1_ready: "log_ready 1 log1 1"
proof -
  have b: "log_block log1 = (\<lambda>_. 50)" "log_block log1 ` {..<1} = {50}" by (auto simp: log1_simps)
  have "log_layout log1 1"
    unfolding log_layout_def log1_area b by (auto simp: log1_simps le_Suc_eq lessThan_Suc)
  moreover have "rcnt 1 (bufs log1) = (\<lambda>x. if x \<in> log_block log1 ` {..<1} then 1 else 0)" unfolding b(2) log1_rcnt by simp
  ultimately show ?thesis
    unfolding log_ready_def using log1_inv by (simp add: NBUF_def log_dev_def log1_simps)
qed

theorem commit_crash_atomic_witness:
  "log_ready 1 log1 1 \<and> (\<exists>t. commit log1 = Ret () t \<and>
    (\<forall>k r. crashed 1 log1 (take k (drop (length (dwrites log1)) (dwrites t))) r \<longrightarrow>
      (\<exists>u. recover_from_log r = Ret () u \<and> (\<forall>b. b \<notin> in_log log1 1 \<longrightarrow>
        disk_view u b = (if k \<le> 1 then disk_view log1 b else blkv 1 (bufs log1) (disk log1) b)))))"
proof -
  have "disk_view log1 (log_area log1 0) = (\<lambda>_. 0)"
    by (simp add: disk_view_def log1_area log1_simps bio1_def)
  then have "get32 (disk_view log1 (log_area log1 0)) 0 = 0" by (simp add: get_zero)
  then show ?thesis using commit_crash_atomic [of 1 log1 1] log1_ready by fastforce
qed

section \<open>Space in the log\<close>

text \<open>begin_op() admits an operation or waits; log_write() absorbs a block or takes an entry.\<close>

lemma begin_op_eq:
  assumes "LkLog \<notin> held s" and "lg_committing (klog s) = 0" and "\<not> log_full s"
  shows "begin_op s = Ret () (upd_log (\<lambda>l. l\<lparr>lg_outstanding := lg_outstanding l + 1\<rparr>) s)"
  using assms by (simp add: begin_op_def sleep_while_def kmon log_full_def upd_log_def)

lemma log_slot_new:
  assumes "\<forall>i < n. f i \<noteq> b"
  shows "log_slot (int n) f b = n"
proof -
  have all: "takeWhile (\<lambda>i. f i \<noteq> b) [0..<n] = [0..<n]" using assms by (auto simp: takeWhile_eq_all_conv)
  show ?thesis unfolding log_slot_def nat_int all by simp
qed

lemma log_write_new:
  assumes "LkLog \<notin> held s" and "LkBcache \<notin> held s" and "log_n s = int n" and "int n < LOGSIZE"
    and "int n < lg_size (klog s) - 1" and "1 \<le> lg_outstanding (klog s)"
    and "\<forall>i < n. log_block s i \<noteq> b_blockno (bufs s b)"
  shows "log_write b s = Ret () (upd_lh (\<lambda>h. h\<lparr>lh_block := (lh_block h)(n := b_blockno (bufs s b)), lh_n := lh_n h + 1\<rparr>)
    (upd_buf b (\<lambda>q. q\<lparr>b_refcnt := b_refcnt q + 1\<rparr>) s))"
  using assms by (simp add: log_write_def Let_def log_slot_new kmon bpin_def upd_lh_def upd_log_def upd_buf_def)

lemma log_write_full:
  assumes "LkLog \<notin> held s" and "LOGSIZE \<le> log_n s \<or> lg_size (klog s) - 1 \<le> log_n s"
  shows "log_write b s = Panic ''too big a transaction'' (s\<lparr>held := insert LkLog (held s)\<rparr>)"
  using assms by (simp add: log_write_def kmon)

text \<open>Writing \<open>k\<close> distinct blocks takes \<open>k\<close> entries.\<close>

definition logged :: "'a fslog_scheme \<Rightarrow> nat \<Rightarrow> 'a fslog_scheme \<Rightarrow> bool" where
  "logged s k t \<longleftrightarrow> held t = held s \<and> log_n t = int k \<and> lg_size (klog t) = lg_size (klog s) \<and>
     lg_outstanding (klog t) = lg_outstanding (klog s) \<and> (\<forall>i. b_blockno (bufs t i) = b_blockno (bufs s i)) \<and>
     (\<forall>i < k. log_block t i = b_blockno (bufs s i))"

lemma log_write_step:
  assumes t: "logged s k t" and free: "LkLog \<notin> held s" "LkBcache \<notin> held s" and sz: "lg_size (klog s) \<le> LOGSIZE"
    and out: "1 \<le> lg_outstanding (klog s)" and dis: "inj_on (\<lambda>i. b_blockno (bufs s i)) {..<NBUF}"
    and k: "int k < lg_size (klog s) - 1" "k < NBUF"
  shows "wp (log_write k) (\<lambda>_. logged s (Suc k)) t"
proof -
  have ne: "\<forall>i < k. log_block t i \<noteq> b_blockno (bufs t k)"
    using t dis k(2) by (auto simp: logged_def dest: inj_onD)
  have "log_write k t = Ret () (upd_lh (\<lambda>h. h\<lparr>lh_block := (lh_block h)(k := b_blockno (bufs t k)), lh_n := lh_n h + 1\<rparr>)
      (upd_buf k (\<lambda>q. q\<lparr>b_refcnt := b_refcnt q + 1\<rparr>) t))"
    by (rule log_write_new) (use t free sz out k ne in \<open>auto simp: logged_def\<close>)
  then show ?thesis
    using t by (auto simp: wp_def logged_def upd_lh_def upd_log_def upd_buf_def less_Suc_eq)
qed

lemma log_writes_fill:
  assumes "logged s 0 s" and "LkLog \<notin> held s" "LkBcache \<notin> held s" and "lg_size (klog s) \<le> LOGSIZE"
    and "1 \<le> lg_outstanding (klog s)" and "inj_on (\<lambda>i. b_blockno (bufs s i)) {..<NBUF}"
    and "int m < lg_size (klog s)" and "m < NBUF"
  shows "wp (forM [0..<m] log_write) (\<lambda>_. logged s m) s"
proof -
  have "wp (forM [0..<m] log_write) (\<lambda>_. logged s (length [0..<m])) s"
    by (rule wp_forM_index [where I = "logged s"]) (use assms log_write_step [where s = s] in auto)
  then show ?thesis by simp
qed

text \<open>
  C15. The space begin_op() reserves can exceed the log.  With the log's own size (\<open>nlog\<close> of
  mkfs is LOGSIZE, one block of which is the header), three operations are admitted at once,
  each entitled to MAXOPBLOCKS blocks; 29 distinct blocks are logged, and writing the thirtieth
  panics although the operations stayed within what begin_op() granted.
\<close>

theorem admitted_ops_overflow_log:
  assumes idle: "log_n s = 0" "lg_outstanding (klog s) = 0" "lg_committing (klog s) = 0" "lg_size (klog s) = LOGSIZE"
    and free: "LkLog \<notin> held s" "LkBcache \<notin> held s" and dis: "inj_on (\<lambda>i. b_blockno (bufs s i)) {..<NBUF}"
  shows "\<exists>t u. bind begin_op (\<lambda>_. bind begin_op (\<lambda>_. begin_op)) s = Ret () t \<and>
    3 * MAXOPBLOCKS = int NBUF \<and> forM [0..<29] log_write t = Ret () u \<and>
    (\<exists>v. log_write 29 u = Panic ''too big a transaction'' v)"
proof -
  let ?up = "\<lambda>n. upd_log (\<lambda>l. l\<lparr>lg_outstanding := n\<rparr>) s"
  have b: "begin_op (?up n) = Ret () (?up (n + 1))" if "0 \<le> n" "n \<le> 2" for n
    using that idle free by (subst begin_op_eq) (auto simp: log_full_def upd_log_def LOGSIZE_def MAXOPBLOCKS_def)
  have s0: "s = ?up 0" using idle(2) by (simp add: upd_log_def)
  have run: "bind begin_op (\<lambda>_. bind begin_op (\<lambda>_. begin_op)) s = Ret () (?up 3)"
    by (subst s0) (simp add: bind_apply b)
  let ?t = "?up 3"
  have "wp (forM [0..<29] log_write) (\<lambda>_. logged ?t 29) ?t"
    by (rule log_writes_fill) (use idle free dis in \<open>simp_all add: logged_def upd_log_def LOGSIZE_def MAXOPBLOCKS_def NBUF_def\<close>)
  then obtain u where u: "forM [0..<29] log_write ?t = Ret () u" "logged ?t 29 u" by (auto simp: wp_def)
  then have "log_write 29 u = Panic ''too big a transaction'' (u\<lparr>held := insert LkLog (held u)\<rparr>)"
    using free idle by (intro log_write_full) (auto simp: logged_def upd_log_def LOGSIZE_def MAXOPBLOCKS_def)
  then show ?thesis using run u by (auto simp: MAXOPBLOCKS_def NBUF_def)
qed

definition log2 :: fslog where
  "log2 = bio.extend (bio1\<lparr>bufs := (\<lambda>i. (bufs bio1 i)\<lparr>b_blockno := of_nat i\<rparr>)\<rparr>)
     \<lparr>klog = \<lparr>lg_start = 2, lg_size = 30, lg_outstanding = 0, lg_committing = 0, lg_dev = 1,
        lg_lh = \<lparr>lh_n = 0, lh_block = (\<lambda>_. 0)\<rparr>\<rparr>\<rparr>"

theorem admitted_ops_overflow_log_witness:
  "\<exists>t u v. bind begin_op (\<lambda>_. bind begin_op (\<lambda>_. begin_op)) log2 = Ret () t \<and>
    forM [0..<29] log_write t = Ret () u \<and> log_write 29 u = Panic ''too big a transaction'' v"
proof -
  have u: "unat (of_nat i :: uint) = i" if "i < 30" for i
    using that by (simp add: unat_of_nat take_bit_nat_eq_self)
  have "i = j" if "of_nat i = (of_nat j :: uint)" "i < 30" "j < 30" for i j
    using arg_cong [OF that(1), of unat] u [OF that(2)] u [OF that(3)] by simp
  then have "inj_on (\<lambda>i. b_blockno (bufs log2 i)) {..<NBUF}"
    by (auto simp: inj_on_def log2_def bio.defs NBUF_def)
  then show ?thesis
    using admitted_ops_overflow_log [of log2]
    by (auto simp: log2_def bio.defs LOGSIZE_def MAXOPBLOCKS_def bio1_def bio_boot_def)
qed

end
