(* ===== verification/Fs.thy ===== *)
theory Fs
  imports Log Vm
begin

text \<open>
  kernel/fs.c: blocks, inodes, directories and path names, with either_copyout() and
  either_copyin() of kernel/proc.c, which it calls.  The in-memory inode table is an array indexed by
  \<open>{..<NINODE}\<close>; an inode pointer that may be null is an option.  On-disk inodes and directory
  entries are read and written in the bytes of their blocks.  Path names and directory names are the
  bytes of the C string without its nul; a name is what the array of DIRSIZ bytes holds up to its nul.
  A struct the C code has on its kernel stack and passes by address lives at \<open>klocal\<close>, the
  base of the running process's kernel stack.
\<close>

section \<open>Data\<close>

record inode =
  i_dev :: uint
  i_inum :: uint
  i_ref :: int
  i_valid :: int
  i_type :: ushort
  i_major :: ushort
  i_minor :: ushort
  i_nlink :: ushort
  i_size :: uint
  i_addrs :: "nat \<Rightarrow> uint"

record fs = fslog +
  sb :: superblock
  inodes :: "nat \<Rightarrow> inode"

definition NINODE :: nat where "NINODE = 50"
definition ROOTDEV :: uint where "ROOTDEV = 1"
definition ROOTINO :: uint where "ROOTINO = 1"
definition FSMAGIC :: uint where "FSMAGIC = 0x10203040"
definition NDIRECT :: nat where "NDIRECT = 12"
definition NINDIRECT :: nat where "NINDIRECT = BSIZE div 4"
definition MAXFILE :: nat where "MAXFILE = NDIRECT + NINDIRECT"
definition sizeof_dinode :: nat where "sizeof_dinode = 64"
definition IPB :: nat where "IPB = BSIZE div sizeof_dinode"
definition BPB :: nat where "BPB = BSIZE * 8"
definition DIRSIZ :: nat where "DIRSIZ = 14"
definition sizeof_dirent :: nat where "sizeof_dirent = 16"
definition T_DIR :: ushort where "T_DIR = 1"
definition T_FILE :: ushort where "T_FILE = 2"
definition T_DEVICE :: ushort where "T_DEVICE = 3"

definition IBLOCK :: "uint \<Rightarrow> superblock \<Rightarrow> uint" where
  "IBLOCK i b = i div of_nat IPB + sb_inodestart b"

definition BBLOCK :: "uint \<Rightarrow> superblock \<Rightarrow> uint" where
  "BBLOCK i b = i div of_nat BPB + sb_bmapstart b"

definition upd_inode :: "nat \<Rightarrow> (inode \<Rightarrow> inode) \<Rightarrow> 'a fs_scheme \<Rightarrow> 'a fs_scheme" where
  "upd_inode i f s = s\<lparr>inodes := (inodes s)(i := f (inodes s i))\<rparr>"

definition the_inode :: "nat \<Rightarrow> ('a fs_scheme, inode) kproc" where
  "the_inode i = gets (\<lambda>s. inodes s i)"

definition buf_data :: "nat \<Rightarrow> ('a bio_scheme, block) kproc" where
  "buf_data b = gets (\<lambda>s. b_data (bufs s b))"

definition upd_data :: "nat \<Rightarrow> (block \<Rightarrow> block) \<Rightarrow> ('a bio_scheme, unit) kproc" where
  "upd_data b f = modify (upd_buf b (\<lambda>q. q\<lparr>b_data := f (b_data q)\<rparr>))"

definition kprint :: "byte list \<Rightarrow> ('a machine_scheme, unit) kproc" where
  "kprint bs = modify (\<lambda>s. s\<lparr>cons_out := cons_out s @ bs\<rparr>)"

definition chars :: "string \<Rightarrow> byte list" where
  "chars = map of_char"

definition klocal :: "('a machine_scheme, addr) kproc" where
  "klocal = bind myprocp (\<lambda>p. gets (\<lambda>s. p_kstack (procs s p)))"

section \<open>either_copyout() and either_copyin()\<close>

definition either_copyout :: "bool \<Rightarrow> uint64 \<Rightarrow> byte list \<Rightarrow> ('a kmem_scheme, int) kproc" where
  "either_copyout user_dst dst src =
     bind myproc (\<lambda>mp.
     if user_dst then
       bind (deref mp) (\<lambda>p.
       bind (gets (\<lambda>s. p_pagetable (procs s p))) (\<lambda>pt.
       copyout pt dst src))
     else bind (kwrite dst src) (\<lambda>_. return 0))"

definition either_copyin :: "bool \<Rightarrow> uint64 \<Rightarrow> nat \<Rightarrow> ('a kmem_scheme, int \<times> byte list) kproc" where
  "either_copyin user_src src len =
     bind myproc (\<lambda>mp.
     if user_src then
       bind (deref mp) (\<lambda>p.
       bind (gets (\<lambda>s. p_pagetable (procs s p))) (\<lambda>pt.
       copyin pt src len))
     else bind (gets (\<lambda>s. rd_bytes (mem s) src len)) (\<lambda>bs. return (0, bs)))"

section \<open>Blocks\<close>

definition superblock_of :: "block \<Rightarrow> superblock" where
  "superblock_of x = \<lparr>sb_magic = get32 x 0, sb_size = get32 x 4, sb_nblocks = get32 x 8, sb_ninodes = get32 x 12,
     sb_nlog = get32 x 16, sb_logstart = get32 x 20, sb_inodestart = get32 x 24, sb_bmapstart = get32 x 28\<rparr>"

definition readsb :: "int \<Rightarrow> ('a fs_scheme, unit) kproc" where
  "readsb dev =
     bind (bread (word_of_int dev) 1) (\<lambda>bp.
     bind (buf_data bp) (\<lambda>x.
     bind (modify (\<lambda>s. s\<lparr>sb := superblock_of x\<rparr>)) (\<lambda>_.
     brelse bp)))"

definition fsinit :: "int \<Rightarrow> ('a fs_scheme, unit) kproc" where
  "fsinit dev =
     bind (readsb dev) (\<lambda>_.
     bind (gets sb) (\<lambda>b.
     if sb_magic b \<noteq> FSMAGIC then panic ''invalid file system'' else
     initlog dev b))"

definition zero_block :: "block \<Rightarrow> block" where
  "zero_block x = (\<lambda>i. if i < BSIZE then 0 else x i)"

definition bzero :: "uint \<Rightarrow> uint \<Rightarrow> ('a fs_scheme, unit) kproc" where
  "bzero dev bno =
     bind (bread dev bno) (\<lambda>bp.
     bind (upd_data bp zero_block) (\<lambda>_.
     bind (log_write bp) (\<lambda>_.
     brelse bp)))"

definition bmask :: "nat \<Rightarrow> byte" where
  "bmask bi = push_bit (bi mod 8) 1"

definition bit_free :: "block \<Rightarrow> nat \<Rightarrow> bool" where
  "bit_free x bi \<longleftrightarrow> x (bi div 8) AND bmask bi = 0"

definition bit_set :: "nat \<Rightarrow> block \<Rightarrow> block" where
  "bit_set bi x = x(bi div 8 := x (bi div 8) OR bmask bi)"

definition bit_clear :: "nat \<Rightarrow> block \<Rightarrow> block" where
  "bit_clear bi x = x(bi div 8 := x (bi div 8) AND NOT (bmask bi))"

text \<open>
  balloc(): the outer loop runs over the bitmap blocks, the inner loop is the search of the
  first free bit below the size of the file system.
\<close>

fun balloc_loop :: "uint \<Rightarrow> nat list \<Rightarrow> ('a fs_scheme, uint) kproc" where
  "balloc_loop dev [] = bind (kprint (chars ''balloc: out of blocks'' @ [10])) (\<lambda>_. return 0)"
| "balloc_loop dev (b # bs) =
     bind (gets sb) (\<lambda>sup.
     bind (bread dev (BBLOCK (of_nat b) sup)) (\<lambda>bp.
     bind (buf_data bp) (\<lambda>x.
     case find (bit_free x) [0..<min BPB (unat (sb_size sup) - b)] of
       Some bi \<Rightarrow>
         bind (upd_data bp (bit_set bi)) (\<lambda>_.
         bind (log_write bp) (\<lambda>_.
         bind (brelse bp) (\<lambda>_.
         bind (bzero dev (of_nat (b + bi))) (\<lambda>_.
         return (of_nat (b + bi))))))
     | None \<Rightarrow> bind (brelse bp) (\<lambda>_. balloc_loop dev bs))))"

definition balloc :: "uint \<Rightarrow> ('a fs_scheme, uint) kproc" where
  "balloc dev =
     bind (gets sb) (\<lambda>sup.
     balloc_loop dev (map (\<lambda>k. k * BPB) [0..<(unat (sb_size sup) + BPB - 1) div BPB]))"

definition bfree :: "uint \<Rightarrow> uint \<Rightarrow> ('a fs_scheme, unit) kproc" where
  "bfree dev b =
     bind (gets sb) (\<lambda>sup.
     bind (bread dev (BBLOCK b sup)) (\<lambda>bp.
     bind (buf_data bp) (\<lambda>x.
     let bi = unat b mod BPB in
     if bit_free x bi then panic ''freeing free block'' else
     bind (upd_data bp (bit_clear bi)) (\<lambda>_.
     bind (log_write bp) (\<lambda>_.
     brelse bp)))))"

section \<open>Inodes\<close>

definition iinit :: "('a fs_scheme, unit) kproc" where
  "iinit =
     bind (initlk LkItable) (\<lambda>_.
     forM [0..<NINODE] (\<lambda>i. initsleeplock (SlInode i) ''inode''))"

definition iget :: "uint \<Rightarrow> uint \<Rightarrow> ('a fs_scheme, nat) kproc" where
  "iget dev inum =
     bind (acq LkItable) (\<lambda>_.
     bind (gets inodes) (\<lambda>f.
     case find (\<lambda>i. 0 < i_ref (f i) \<and> i_dev (f i) = dev \<and> i_inum (f i) = inum) [0..<NINODE] of
       Some ip \<Rightarrow>
         bind (modify (upd_inode ip (\<lambda>q. q\<lparr>i_ref := i_ref q + 1\<rparr>))) (\<lambda>_.
         bind (rel LkItable) (\<lambda>_. return ip))
     | None \<Rightarrow>
         (case find (\<lambda>i. i_ref (f i) = 0) [0..<NINODE] of
            None \<Rightarrow> panic ''iget: no inodes''
          | Some ip \<Rightarrow>
             bind (modify (upd_inode ip (\<lambda>q. q\<lparr>i_dev := dev, i_inum := inum, i_ref := 1, i_valid := 0\<rparr>))) (\<lambda>_.
             bind (rel LkItable) (\<lambda>_. return ip)))))"

text \<open>The on-disk inode at byte offset \<open>off\<close> of its block.\<close>

definition dinode_off :: "uint \<Rightarrow> nat" where
  "dinode_off inum = (unat inum mod IPB) * sizeof_dinode"

definition din_addrs :: "block \<Rightarrow> nat \<Rightarrow> nat \<Rightarrow> uint" where
  "din_addrs x off = (\<lambda>k. get32 x (off + 12 + 4 * k))"

fun ialloc_loop :: "uint \<Rightarrow> ushort \<Rightarrow> nat list \<Rightarrow> ('a fs_scheme, nat option) kproc" where
  "ialloc_loop dev type [] = bind (kprint (chars ''ialloc: no inodes'' @ [10])) (\<lambda>_. return None)"
| "ialloc_loop dev type (i # is) =
     (let inum = of_nat i; off = dinode_off inum in
     bind (gets sb) (\<lambda>sup.
     bind (bread dev (IBLOCK inum sup)) (\<lambda>bp.
     bind (buf_data bp) (\<lambda>x.
     if get16 x off = 0 then
       bind (upd_data bp (\<lambda>x. put16 (blk_put x off (replicate sizeof_dinode 0)) off type)) (\<lambda>_.
       bind (log_write bp) (\<lambda>_.
       bind (brelse bp) (\<lambda>_.
       bind (iget dev inum) (\<lambda>ip. return (Some ip)))))
     else bind (brelse bp) (\<lambda>_. ialloc_loop dev type is)))))"

definition ialloc :: "uint \<Rightarrow> ushort \<Rightarrow> ('a fs_scheme, nat option) kproc" where
  "ialloc dev type = bind (gets sb) (\<lambda>sup. ialloc_loop dev type [1..<unat (sb_ninodes sup)])"

definition dinode_put :: "nat \<Rightarrow> inode \<Rightarrow> block \<Rightarrow> block" where
  "dinode_put off ip x =
     (let x1 = put16 x off (i_type ip); x2 = put16 x1 (off + 2) (i_major ip); x3 = put16 x2 (off + 4) (i_minor ip);
          x4 = put16 x3 (off + 6) (i_nlink ip); x5 = put32 x4 (off + 8) (i_size ip)
      in fold (\<lambda>k b. put32 b (off + 12 + 4 * k) (i_addrs ip k)) [0..<NDIRECT + 1] x5)"

definition dinode_get :: "nat \<Rightarrow> block \<Rightarrow> inode \<Rightarrow> inode" where
  "dinode_get off x ip = ip\<lparr>i_type := get16 x off, i_major := get16 x (off + 2), i_minor := get16 x (off + 4),
     i_nlink := get16 x (off + 6), i_size := get32 x (off + 8),
     i_addrs := (\<lambda>k. if k < NDIRECT + 1 then get32 x (off + 12 + 4 * k) else i_addrs ip k)\<rparr>"

definition iupdate :: "nat \<Rightarrow> ('a fs_scheme, unit) kproc" where
  "iupdate ip =
     bind (gets sb) (\<lambda>sup.
     bind (the_inode ip) (\<lambda>q.
     bind (bread (i_dev q) (IBLOCK (i_inum q) sup)) (\<lambda>bp.
     bind (the_inode ip) (\<lambda>q.
     bind (upd_data bp (dinode_put (dinode_off (i_inum q)) q)) (\<lambda>_.
     bind (log_write bp) (\<lambda>_.
     brelse bp))))))"

definition idup :: "nat option \<Rightarrow> ('a fs_scheme, nat) kproc" where
  "idup p =
     bind (acq LkItable) (\<lambda>_.
     bind (deref p) (\<lambda>ip.
     bind (modify (upd_inode ip (\<lambda>q. q\<lparr>i_ref := i_ref q + 1\<rparr>))) (\<lambda>_.
     bind (rel LkItable) (\<lambda>_. return ip))))"

definition ilock :: "nat option \<Rightarrow> ('a fs_scheme, unit) kproc" where
  "ilock p = (case p of None \<Rightarrow> panic ''ilock'' | Some ip \<Rightarrow>
     bind (the_inode ip) (\<lambda>q.
     if i_ref q < 1 then panic ''ilock'' else
     bind (acquiresleep (SlInode ip)) (\<lambda>_.
     bind (the_inode ip) (\<lambda>q.
     whenM (i_valid q = 0)
       (bind (gets sb) (\<lambda>sup.
        bind (bread (i_dev q) (IBLOCK (i_inum q) sup)) (\<lambda>bp.
        bind (buf_data bp) (\<lambda>x.
        bind (modify (upd_inode ip (dinode_get (dinode_off (i_inum q)) x))) (\<lambda>_.
        bind (brelse bp) (\<lambda>_.
        bind (modify (upd_inode ip (\<lambda>q. q\<lparr>i_valid := 1\<rparr>))) (\<lambda>_.
        bind (the_inode ip) (\<lambda>q.
        whenM (i_type q = 0) (panic ''ilock: no type'')))))))))))))"

definition iunlock :: "nat option \<Rightarrow> ('a fs_scheme, unit) kproc" where
  "iunlock p = (case p of None \<Rightarrow> panic ''iunlock'' | Some ip \<Rightarrow>
     bind (holdingsleep (SlInode ip)) (\<lambda>h.
     if \<not> h then panic ''iunlock'' else
     bind (the_inode ip) (\<lambda>q.
     if i_ref q < 1 then panic ''iunlock'' else releasesleep (SlInode ip))))"

section \<open>Inode content\<close>

definition bmap :: "nat \<Rightarrow> uint \<Rightarrow> ('a fs_scheme, uint) kproc" where
  "bmap ip bn =
     (if unat bn < NDIRECT then
        bind (the_inode ip) (\<lambda>q.
        if i_addrs q (unat bn) \<noteq> 0 then return (i_addrs q (unat bn)) else
        bind (balloc (i_dev q)) (\<lambda>addr.
        if addr = 0 then return 0 else
        bind (modify (upd_inode ip (\<lambda>q. q\<lparr>i_addrs := (i_addrs q)(unat bn := addr)\<rparr>))) (\<lambda>_.
        return addr)))
      else let bn = bn - of_nat NDIRECT in
      if unat bn < NINDIRECT then
        bind (the_inode ip) (\<lambda>q.
        bind (if i_addrs q NDIRECT \<noteq> 0 then return (i_addrs q NDIRECT) else
              bind (balloc (i_dev q)) (\<lambda>addr.
              bind (whenM (addr \<noteq> 0) (modify (upd_inode ip (\<lambda>q. q\<lparr>i_addrs := (i_addrs q)(NDIRECT := addr)\<rparr>)))) (\<lambda>_.
              return addr))) (\<lambda>ind.
        if ind = 0 then return 0 else
        bind (bread (i_dev q) ind) (\<lambda>bp.
        bind (buf_data bp) (\<lambda>a.
        bind (if get32 a (4 * unat bn) \<noteq> 0 then return (get32 a (4 * unat bn)) else
              bind (balloc (i_dev q)) (\<lambda>addr.
              bind (whenM (addr \<noteq> 0)
                (bind (upd_data bp (\<lambda>a. put32 a (4 * unat bn) addr)) (\<lambda>_. log_write bp))) (\<lambda>_.
              return addr))) (\<lambda>addr.
        bind (brelse bp) (\<lambda>_. return addr))))))
      else panic ''bmap: out of range'')"

definition itrunc_direct :: "nat \<Rightarrow> nat \<Rightarrow> ('a fs_scheme, unit) kproc" where
  "itrunc_direct ip i =
     bind (the_inode ip) (\<lambda>q.
     whenM (i_addrs q i \<noteq> 0)
       (bind (bfree (i_dev q) (i_addrs q i)) (\<lambda>_.
        modify (upd_inode ip (\<lambda>q. q\<lparr>i_addrs := (i_addrs q)(i := 0)\<rparr>)))))"

definition itrunc_indirect :: "nat \<Rightarrow> nat \<Rightarrow> nat \<Rightarrow> ('a fs_scheme, unit) kproc" where
  "itrunc_indirect ip bp j =
     bind (the_inode ip) (\<lambda>q.
     bind (buf_data bp) (\<lambda>a.
     whenM (get32 a (4 * j) \<noteq> 0) (bfree (i_dev q) (get32 a (4 * j)))))"

definition itrunc :: "nat \<Rightarrow> ('a fs_scheme, unit) kproc" where
  "itrunc ip =
     bind (forM [0..<NDIRECT] (itrunc_direct ip)) (\<lambda>_.
     bind (the_inode ip) (\<lambda>q.
     bind (whenM (i_addrs q NDIRECT \<noteq> 0)
       (bind (bread (i_dev q) (i_addrs q NDIRECT)) (\<lambda>bp.
        bind (forM [0..<NINDIRECT] (itrunc_indirect ip bp)) (\<lambda>_.
        bind (brelse bp) (\<lambda>_.
        bind (bfree (i_dev q) (i_addrs q NDIRECT)) (\<lambda>_.
        modify (upd_inode ip (\<lambda>q. q\<lparr>i_addrs := (i_addrs q)(NDIRECT := 0)\<rparr>)))))))) (\<lambda>_.
     bind (modify (upd_inode ip (\<lambda>q. q\<lparr>i_size := 0\<rparr>))) (\<lambda>_.
     iupdate ip))))"

definition iput :: "nat option \<Rightarrow> ('a fs_scheme, unit) kproc" where
  "iput p =
     bind (acq LkItable) (\<lambda>_.
     bind (deref p) (\<lambda>ip.
     bind (the_inode ip) (\<lambda>q.
     bind (whenM (i_ref q = 1 \<and> i_valid q \<noteq> 0 \<and> i_nlink q = 0)
       (bind (acquiresleep (SlInode ip)) (\<lambda>_.
        bind (rel LkItable) (\<lambda>_.
        bind (itrunc ip) (\<lambda>_.
        bind (modify (upd_inode ip (\<lambda>q. q\<lparr>i_type := 0\<rparr>))) (\<lambda>_.
        bind (iupdate ip) (\<lambda>_.
        bind (modify (upd_inode ip (\<lambda>q. q\<lparr>i_valid := 0\<rparr>))) (\<lambda>_.
        bind (releasesleep (SlInode ip)) (\<lambda>_.
        acq LkItable))))))))) (\<lambda>_.
     bind (modify (upd_inode ip (\<lambda>q. q\<lparr>i_ref := i_ref q - 1\<rparr>))) (\<lambda>_.
     rel LkItable)))))"

definition iunlockput :: "nat option \<Rightarrow> ('a fs_scheme, unit) kproc" where
  "iunlockput ip = bind (iunlock ip) (\<lambda>_. iput ip)"

text \<open>\<open>struct stat\<close> in the layout stati() fills and filestat() copies out.\<close>

record kstat =
  st_dev :: int
  st_ino :: uint
  st_type :: ushort
  st_nlink :: ushort
  st_size :: uint64

definition stati :: "nat \<Rightarrow> ('a fs_scheme, kstat) kproc" where
  "stati ip = bind (the_inode ip) (\<lambda>q. return
     \<lparr>st_dev = sint (i_dev q), st_ino = i_inum q, st_type = i_type q, st_nlink = i_nlink q, st_size = ucast (i_size q)\<rparr>)"

text \<open>The loops of readi() and writei(); \<open>chunk\<close> is the number of bytes of one iteration.\<close>

definition chunk :: "uint \<Rightarrow> uint \<Rightarrow> uint \<Rightarrow> uint" where
  "chunk n tot off = min (n - tot) (of_nat BSIZE - off mod of_nat BSIZE)"

lemma chunk_progress:
  assumes "tot < n"
  shows "unat n - unat (tot + chunk n tot off) < unat n - unat tot"
proof -
  have "unat (off mod 1024) < 1024" by (simp add: unat_mod)
  then have "off mod 1024 < 1024" by (simp add: word_less_nat_alt)
  then have "1024 - off mod 1024 \<noteq> 0" by auto
  moreover have "n - tot \<noteq> 0" using assms by auto
  ultimately have c: "chunk n tot off \<noteq> 0" "chunk n tot off \<le> n - tot" by (auto simp: chunk_def BSIZE_def min_def)
  have "unat (chunk n tot off) \<le> unat n - unat tot"
    using c(2) unat_sub [OF less_imp_le [OF assms]] by (simp add: word_le_nat_alt)
  moreover have "unat n < 2 ^ 32" using unsigned_less [of n] by simp
  moreover have "unat tot < unat n" using assms by (simp add: word_less_nat_alt)
  ultimately have "unat (tot + chunk n tot off) = unat tot + unat (chunk n tot off)"
    by (simp add: unat_word_ariths)
  moreover have "0 < unat (chunk n tot off)" using c(1) by (simp add: unat_gt_0)
  ultimately show ?thesis using \<open>unat tot < unat n\<close> by simp
qed

function readi_loop :: "nat \<Rightarrow> bool \<Rightarrow> uint \<Rightarrow> uint \<Rightarrow> uint \<Rightarrow> uint64 \<Rightarrow> ('a fs_scheme, uint) kproc" where
  "readi_loop ip user_dst n tot off dst =
     (if tot < n then
        bind (bmap ip (off div of_nat BSIZE)) (\<lambda>addr.
        if addr = 0 then return tot else
        bind (the_inode ip) (\<lambda>q.
        bind (bread (i_dev q) addr) (\<lambda>bp.
        bind (buf_data bp) (\<lambda>x.
        bind (either_copyout user_dst dst (blk_bytes x (unat off mod BSIZE) (unat (chunk n tot off)))) (\<lambda>r.
        bind (brelse bp) (\<lambda>_.
        if r = -1 then return (-1)
        else readi_loop ip user_dst n (tot + chunk n tot off) (off + chunk n tot off) (dst + ucast (chunk n tot off))))))))
      else return tot)"
  by pat_completeness auto
termination
  by (relation "measure (\<lambda>(_, _, n, tot, _, _). unat n - unat tot)") (auto simp: chunk_progress)

declare readi_loop.simps [simp del]

definition readi :: "nat \<Rightarrow> bool \<Rightarrow> uint64 \<Rightarrow> uint \<Rightarrow> uint \<Rightarrow> ('a fs_scheme, int) kproc" where
  "readi ip user_dst dst off n =
     bind (the_inode ip) (\<lambda>q.
     if i_size q < off \<or> off + n < off then return 0 else
     let n = (if i_size q < off + n then i_size q - off else n) in
     bind (readi_loop ip user_dst n 0 off dst) (\<lambda>tot. return (sint tot)))"

text \<open>
  writei()'s loop returns the bytes written and the offset reached.  A copy that fails half way has
  already changed the cached block; the block is then released without being logged.
\<close>

function writei_loop :: "nat \<Rightarrow> bool \<Rightarrow> uint \<Rightarrow> uint \<Rightarrow> uint \<Rightarrow> uint64 \<Rightarrow> ('a fs_scheme, uint \<times> uint) kproc" where
  "writei_loop ip user_src n tot off src =
     (if tot < n then
        bind (bmap ip (off div of_nat BSIZE)) (\<lambda>addr.
        if addr = 0 then return (tot, off) else
        bind (the_inode ip) (\<lambda>q.
        bind (bread (i_dev q) addr) (\<lambda>bp.
        bind (either_copyin user_src src (unat (chunk n tot off))) (\<lambda>(r, bs).
        bind (upd_data bp (\<lambda>x. blk_put x (unat off mod BSIZE) bs)) (\<lambda>_.
        if r = -1 then bind (brelse bp) (\<lambda>_. return (tot, off)) else
        bind (log_write bp) (\<lambda>_.
        bind (brelse bp) (\<lambda>_.
        writei_loop ip user_src n (tot + chunk n tot off) (off + chunk n tot off) (src + ucast (chunk n tot off)))))))))
      else return (tot, off))"
  by pat_completeness auto
termination
  by (relation "measure (\<lambda>(_, _, n, tot, _, _). unat n - unat tot)") (auto simp: chunk_progress)

declare writei_loop.simps [simp del]

definition writei :: "nat \<Rightarrow> bool \<Rightarrow> uint64 \<Rightarrow> uint \<Rightarrow> uint \<Rightarrow> ('a fs_scheme, int) kproc" where
  "writei ip user_src src off n =
     bind (the_inode ip) (\<lambda>q.
     if i_size q < off \<or> off + n < off then return (-1) else
     if of_nat (MAXFILE * BSIZE) < off + n then return (-1) else
     bind (writei_loop ip user_src n 0 off src) (\<lambda>(tot, off).
     bind (the_inode ip) (\<lambda>q.
     bind (whenM (i_size q < off) (modify (upd_inode ip (\<lambda>q. q\<lparr>i_size := off\<rparr>)))) (\<lambda>_.
     bind (iupdate ip) (\<lambda>_.
     return (sint tot))))))"

section \<open>Directories\<close>

text \<open>strncmp() on the two arrays; bytes past the end of the list read as the nul.\<close>

fun strncmp_l :: "nat \<Rightarrow> byte list \<Rightarrow> byte list \<Rightarrow> int" where
  "strncmp_l 0 p q = 0"
| "strncmp_l (Suc n) p q =
     (let a = (case p of [] \<Rightarrow> 0 | x # _ \<Rightarrow> x); b = (case q of [] \<Rightarrow> 0 | x # _ \<Rightarrow> x) in
      if a \<noteq> 0 \<and> a = b then strncmp_l n (tl p) (tl q) else uint a - uint b)"

definition namecmp :: "byte list \<Rightarrow> byte list \<Rightarrow> int" where
  "namecmp s t = strncmp_l DIRSIZ s t"

definition de_inum :: "byte list \<Rightarrow> ushort" where
  "de_inum de = le_dec (take 2 de)"

definition de_name :: "byte list \<Rightarrow> byte list" where
  "de_name de = take DIRSIZ (drop 2 de)"

text \<open>strncpy(de.name, name, DIRSIZ): the name, padded with nuls.\<close>

definition de_bytes :: "ushort \<Rightarrow> byte list \<Rightarrow> byte list" where
  "de_bytes inum name = le_enc 2 inum @ take DIRSIZ (takeWhile (\<lambda>c. c \<noteq> 0) name @ replicate DIRSIZ 0)"

definition read_dirent :: "nat \<Rightarrow> uint \<Rightarrow> string \<Rightarrow> ('a fs_scheme, byte list) kproc" where
  "read_dirent dp off msg =
     bind klocal (\<lambda>de.
     bind (readi dp False de off (of_nat sizeof_dirent)) (\<lambda>r.
     if r \<noteq> int sizeof_dirent then panic msg else
     gets (\<lambda>s. rd_bytes (mem s) de sizeof_dirent)))"

text \<open>
  The loop of dirlookup() over the entries; the list holds the byte offsets below the size of the
  directory.  The result carries the offset for \<open>*poff\<close>.
\<close>

definition dirent_offs :: "uint \<Rightarrow> uint list" where
  "dirent_offs sz = map (\<lambda>k. of_nat (k * sizeof_dirent)) [0..<(unat sz + sizeof_dirent - 1) div sizeof_dirent]"

fun dirlookup_loop :: "nat \<Rightarrow> byte list \<Rightarrow> uint list \<Rightarrow> ('a fs_scheme, (nat \<times> uint) option) kproc" where
  "dirlookup_loop dp name [] = return None"
| "dirlookup_loop dp name (off # offs) =
     bind (read_dirent dp off ''dirlookup read'') (\<lambda>de.
     if de_inum de = 0 then dirlookup_loop dp name offs
     else if namecmp name (de_name de) = 0 then
       bind (the_inode dp) (\<lambda>q.
       bind (iget (i_dev q) (ucast (de_inum de))) (\<lambda>ip.
       return (Some (ip, off))))
     else dirlookup_loop dp name offs)"

definition dirlookup :: "nat \<Rightarrow> byte list \<Rightarrow> ('a fs_scheme, (nat \<times> uint) option) kproc" where
  "dirlookup dp name =
     bind (the_inode dp) (\<lambda>q.
     if i_type q \<noteq> T_DIR then panic ''dirlookup not DIR'' else
     dirlookup_loop dp name (dirent_offs (i_size q)))"

text \<open>The search of dirlink() for an empty entry; \<open>off\<close> ends past the last entry if there is none.\<close>

fun dirlink_slot :: "nat \<Rightarrow> uint list \<Rightarrow> uint \<Rightarrow> ('a fs_scheme, uint) kproc" where
  "dirlink_slot dp [] end = return end"
| "dirlink_slot dp (off # offs) end =
     bind (read_dirent dp off ''dirlink read'') (\<lambda>de.
     if de_inum de = 0 then return off else dirlink_slot dp offs end)"

definition dirlink :: "nat \<Rightarrow> byte list \<Rightarrow> uint \<Rightarrow> ('a fs_scheme, int) kproc" where
  "dirlink dp name inum =
     bind (dirlookup dp name) (\<lambda>r.
     case r of
       Some (ip, _) \<Rightarrow> bind (iput (Some ip)) (\<lambda>_. return (-1))
     | None \<Rightarrow>
        bind (the_inode dp) (\<lambda>q.
        bind (dirlink_slot dp (dirent_offs (i_size q))
                (of_nat (length (dirent_offs (i_size q)) * sizeof_dirent))) (\<lambda>off.
        bind klocal (\<lambda>de.
        bind (kwrite de (de_bytes (ucast inum) name)) (\<lambda>_.
        bind (writei dp False de off (of_nat sizeof_dirent)) (\<lambda>r.
        return (if r \<noteq> int sizeof_dirent then -1 else 0)))))))"

section \<open>Paths\<close>

definition slash :: byte where "slash = 47"

text \<open>
  skipelem(): the next path element, cut to DIRSIZ bytes, and the rest of the path without
  leading slashes; None is the null pointer.
\<close>

definition skipelem :: "byte list \<Rightarrow> (byte list \<times> byte list) option" where
  "skipelem path =
     (let path = dropWhile (\<lambda>c. c = slash) path in
      if path = [] then None
      else let elem = takeWhile (\<lambda>c. c \<noteq> slash) path; rest = dropWhile (\<lambda>c. c \<noteq> slash) path in
      Some (take DIRSIZ elem, dropWhile (\<lambda>c. c = slash) rest))"

lemma skipelem_shorter:
  assumes "skipelem path = Some (name, rest)"
  shows "length rest < length path"
proof -
  let ?p = "dropWhile (\<lambda>c. c = slash) path"
  have ne: "?p \<noteq> []" and rest: "rest = dropWhile (\<lambda>c. c = slash) (dropWhile (\<lambda>c. c \<noteq> slash) ?p)"
    using assms by (auto simp: skipelem_def Let_def split: if_splits)
  obtain c cs where p: "?p = c # cs" using ne by (cases ?p) auto
  have "c \<noteq> slash" using hd_dropWhile [of "\<lambda>c. c = slash" path] ne p by simp
  then have "length (dropWhile (\<lambda>c. c \<noteq> slash) ?p) \<le> length cs"
    using p by (simp add: length_dropWhile_le)
  moreover have "length ?p \<le> length path" by (rule length_dropWhile_le)
  moreover have "length rest \<le> length (dropWhile (\<lambda>c. c \<noteq> slash) ?p)" unfolding rest by (rule length_dropWhile_le)
  ultimately show ?thesis using p by simp
qed

text \<open>The loop of namex(): the inode reached and the last element copied into \<open>name\<close>.\<close>

function namex_loop :: "nat \<Rightarrow> byte list \<Rightarrow> bool \<Rightarrow> byte list \<Rightarrow> ('a fs_scheme, (nat \<times> byte list) option) kproc" where
  "namex_loop ip path nameiparent name =
     (case skipelem path of
        None \<Rightarrow> if nameiparent then bind (iput (Some ip)) (\<lambda>_. return None) else return (Some (ip, name))
      | Some (name, path) \<Rightarrow>
         bind (ilock (Some ip)) (\<lambda>_.
         bind (the_inode ip) (\<lambda>q.
         if i_type q \<noteq> T_DIR then bind (iunlockput (Some ip)) (\<lambda>_. return None)
         else if nameiparent \<and> path = [] then bind (iunlock (Some ip)) (\<lambda>_. return (Some (ip, name)))
         else bind (dirlookup ip name) (\<lambda>next.
           case next of
             None \<Rightarrow> bind (iunlockput (Some ip)) (\<lambda>_. return None)
           | Some (nx, _) \<Rightarrow> bind (iunlockput (Some ip)) (\<lambda>_. namex_loop nx path nameiparent name)))))"
  by pat_completeness auto
termination
  by (relation "measure (\<lambda>(_, path, _, _). length path)") (auto dest: skipelem_shorter)

declare namex_loop.simps [simp del]

definition namex :: "byte list \<Rightarrow> bool \<Rightarrow> ('a fs_scheme, (nat \<times> byte list) option) kproc" where
  "namex path nameiparent =
     bind (if path \<noteq> [] \<and> hd path = slash then iget ROOTDEV ROOTINO
           else bind myprocp (\<lambda>p. bind (gets (\<lambda>s. p_cwd (procs s p))) idup)) (\<lambda>ip.
     namex_loop ip path nameiparent [])"

definition namei :: "byte list \<Rightarrow> ('a fs_scheme, nat option) kproc" where
  "namei path = bind (namex path False) (\<lambda>r. return (map_option fst r))"

definition nameiparent :: "byte list \<Rightarrow> ('a fs_scheme, (nat \<times> byte list) option) kproc" where
  "nameiparent path = namex path True"

end
