(* ===== verification/Fs_View.thy ===== *)
theory Fs_View
  imports Fs Log_Crash Vm_Copy
begin

text \<open>
  What a file-system operation sees between begin_op() and end_op(): the contents of the blocks through the
  buffer cache, which it reads with bread() and brelse() and changes with log_write().  The references that
  others hold on the buffers stay as they are; each block logged takes one of the entries the operation still
  has.
\<close>

section \<open>The view of a transaction\<close>

definition view :: "uint \<Rightarrow> 'a bio_scheme \<Rightarrow> uint \<Rightarrow> block" where
  "view d s = blkv d (bufs s) (disk s)"

definition held_blocks :: "nat set \<Rightarrow> 'a bio_scheme \<Rightarrow> uint set" where
  "held_blocks L s = (\<lambda>i. b_blockno (bufs s i)) ` L"

text \<open>The references to a block that are not the operation's own: those of others and those of the log.\<close>

definition orefs :: "uint \<Rightarrow> nat set \<Rightarrow> 'a bio_scheme \<Rightarrow> uint \<Rightarrow> nat" where
  "orefs d L s x = rcnt d (bufs s) x - (if x \<in> held_blocks L s then 1 else 0)"

text \<open>
  An operation that holds the buffers L, at most two at a time, and may log k more blocks: a buffer that only it
  refers to has the contents of the disk, and every block of the log is pinned.
\<close>

definition tx :: "uint \<Rightarrow> nat set \<Rightarrow> nat \<Rightarrow> 'a fslog_scheme \<Rightarrow> bool" where
  "tx d L k s \<longleftrightarrow> bio_inv d L s \<and> card L \<le> 2 \<and> LkLog \<notin> held s \<and> 1 \<le> lg_outstanding (klog s) \<and> 0 \<le> log_n s \<and>
     log_n s + int k \<le> LOGSIZE \<and> log_n s + int k \<le> lg_size (klog s) - 1 \<and>
     card {x. orefs d L s x \<noteq> 0} + k + 2 \<le> NBUF \<and> (\<forall>x. orefs d L s x + k + 1 < 2 ^ 31) \<and>
     (\<forall>i < nat (log_n s). orefs d L s (log_block s i) \<noteq> 0) \<and>
     (\<forall>x \<in> held_blocks L s. orefs d L s x = 0 \<longrightarrow> view d s x = disk s (unat x))"

lemma held_rcnt:
  assumes "bio_inv d L s" and "x \<in> held_blocks L s"
  shows "rcnt d (bufs s) x \<noteq> 0"
proof -
  obtain i where i: "i \<in> L" "x = b_blockno (bufs s i)" using assms(2) by (auto simp: held_blocks_def)
  then show ?thesis using bio_invD(3,6) [OF assms(1) i(1)] by (simp add: unat_eq_zero)
qed

lemma rcnt_orefs: "bio_inv d L s \<Longrightarrow> rcnt d (bufs s) x = orefs d L s x + (if x \<in> held_blocks L s then 1 else 0)"
  using held_rcnt [of d L s x] by (simp add: orefs_def)

lemma inv_finite: "bio_inv d L s \<Longrightarrow> finite L"
  by (rule finite_subset [of _ "{..<NBUF}"]) (auto dest: bio_invD(1))

lemma held_blocks_inj: "bio_inv d L s \<Longrightarrow> i \<in> L \<Longrightarrow> j \<in> L \<Longrightarrow> b_blockno (bufs s i) = b_blockno (bufs s j) \<Longrightarrow> i = j"
  using bio_invD(5) [of d L s i] bio_invD(5) [of d L s j] by (metis option.inject)

section \<open>What an operation leaves alone\<close>

definition same_fs :: "'a fslog_scheme \<Rightarrow> 'a fslog_scheme \<Rightarrow> bool" where
  "same_fs s t \<longleftrightarrow> same_world (s\<lparr>klog := klog t\<rparr>) t \<and> (\<exists>h. klog t = (klog s)\<lparr>lg_lh := h\<rparr>)"

lemma same_world_fs: "same_world s t \<Longrightarrow> same_fs s t"
  using same_world_klog [of s t] unfolding same_fs_def by (intro conjI exI [of _ "lg_lh (klog s)"]) simp_all

lemma same_fs_refl [simp]: "same_fs s s"
  by (rule same_world_fs) simp

lemma same_fs_trans: "same_fs s t \<Longrightarrow> same_fs t u \<Longrightarrow> same_fs s u"
proof -
  assume a: "same_fs s t" "same_fs t u"
  have m: "bio.more u = bio.more (s\<lparr>klog := klog u\<rparr>)"
    using a by (cases s; cases t; cases u) (auto simp: same_fs_def same_world_def)
  have "same_world (s\<lparr>klog := klog u\<rparr>) u"
    using a m by (simp add: same_fs_def same_world_def)
  moreover have "\<exists>h. klog u = (klog s)\<lparr>lg_lh := h\<rparr>" using a by (auto simp: same_fs_def)
  ultimately show "same_fs s u" by (simp add: same_fs_def)
qed

section \<open>The operations on buffers\<close>

lemma txD:
  assumes "tx d L k s"
  shows "bio_inv d L s" and "card L \<le> 2" and "LkLog \<notin> held s" and "1 \<le> lg_outstanding (klog s)"
    and "log_n s + int k \<le> LOGSIZE" and "log_n s + int k \<le> lg_size (klog s) - 1" and "0 \<le> log_n s"
    and "card {x. orefs d L s x \<noteq> 0} + k + 2 \<le> NBUF" and "orefs d L s x + k + 1 < 2 ^ 31"
    and "i < nat (log_n s) \<Longrightarrow> orefs d L s (log_block s i) \<noteq> 0"
    and "x \<in> held_blocks L s \<Longrightarrow> orefs d L s x = 0 \<Longrightarrow> view d s x = disk s (unat x)"
  using assms by (auto simp: tx_def)

text \<open>Two states with the same references, log and contents.\<close>

lemma tx_cong:
  assumes "tx d L k s" and "bio_inv d M t" and "card M \<le> 2" and "same_world s t" and "orefs d M t = orefs d L s"
    and "\<And>x. x \<in> held_blocks M t \<Longrightarrow> orefs d L s x = 0 \<Longrightarrow> view d t x = disk t (unat x)"
  shows "tx d M k t"
proof -
  have "klog t = klog s" "held t = held s" using assms(4) same_world_klog by (auto simp: same_world_def)
  then show ?thesis using assms unfolding tx_def by simp
qed

lemma held_blocks_insert: "held_blocks (insert i L) s = insert (b_blockno (bufs s i)) (held_blocks L s)"
  by (simp add: held_blocks_def)

lemma held_blocks_cong: "\<forall>j \<in> L. bcont (bufs t j) = bcont (bufs s j) \<Longrightarrow> held_blocks L t = held_blocks L s"
  by (auto simp: held_blocks_def bcont_eq image_def)

definition got :: "uint \<Rightarrow> nat set \<Rightarrow> nat \<Rightarrow> 'a fslog_scheme \<Rightarrow> uint \<Rightarrow> nat \<Rightarrow> 'a fslog_scheme \<Rightarrow> bool" where
  "got d L k s b i t \<longleftrightarrow> tx d (insert i L) k t \<and> i \<notin> L \<and> b_blockno (bufs t i) = b \<and> b_data (bufs t i) = view d s b \<and>
     view d t = view d s \<and> same_world s t \<and> (\<forall>j \<in> L. bcont (bufs t j) = bcont (bufs s j))"

lemma tx_bread:
  assumes s: "tx d L k s" and L: "card L < 2" and b: "b \<notin> held_blocks L s"
  shows "\<exists>i t. bread d b s = Ret i t \<and> got d L k s b i t"
proof -
  note D = txD [OF s]
  have f: "finite L" using D(1) by (rule inv_finite)
  have "{x. rcnt d (bufs s) x \<noteq> 0} \<subseteq> {x. orefs d L s x \<noteq> 0} \<union> held_blocks L s"
    using rcnt_orefs [OF D(1)] by auto
  then have "card (insert b {x. rcnt d (bufs s) x \<noteq> 0}) \<le> card (insert b ({x. orefs d L s x \<noteq> 0} \<union> held_blocks L s))"
    by (intro card_mono) auto
  also have "\<dots> \<le> Suc (card {x. orefs d L s x \<noteq> 0} + card (held_blocks L s))"
    using card_insert_le_m1 [of "Suc (card {x. orefs d L s x \<noteq> 0} + card (held_blocks L s))"
        "{x. orefs d L s x \<noteq> 0} \<union> held_blocks L s" b] card_Un_le [of "{x. orefs d L s x \<noteq> 0}" "held_blocks L s"] by simp
  also have "\<dots> \<le> NBUF" using D(8) L card_image_le [OF f, of "\<lambda>i. b_blockno (bufs s i)"] by (simp add: held_blocks_def)
  finally have room: "card (insert b {x. rcnt d (bufs s) x \<noteq> 0}) \<le> NBUF" .
  have "rcnt d (bufs s) b < 2 ^ 31" using rcnt_orefs [OF D(1), of b] D(9) [of b] by simp
  with bread_room [OF D(1) _ room] b obtain i t where t: "bread d b s = Ret i t" "read_ok d L s b i t"
    by (auto simp: held_blocks_def)
  then have T: "bio_inv d (insert i L) t" "i \<notin> L" "b_blockno (bufs t i) = b" "b_data (bufs t i) = view d s b" "view d t = view d s"
      "disk t = disk s" "rcnt d (bufs t) = (rcnt d (bufs s))(b := rcnt d (bufs s) b + 1)" "\<forall>j \<in> L. bcont (bufs t j) = bcont (bufs s j)"
      "same_world s t" by (auto simp: read_ok_def view_def)
  have h: "held_blocks (insert i L) t = insert b (held_blocks L s)"
    using held_blocks_cong [OF T(8)] T(3) by (simp add: held_blocks_insert)
  have o: "orefs d (insert i L) t = orefs d L s" using b T(7) h by (auto simp: orefs_def fun_eq_iff)
  have "view d t x = disk t (unat x)" if "x \<in> held_blocks (insert i L) t" "orefs d L s x = 0" for x
    using that D(11) [of x] blkv_clean [OF D(1), of b] rcnt_orefs [OF D(1), of b] b h T(5,6) by (auto simp: view_def)
  then have "tx d (insert i L) k t"
    by (intro tx_cong [OF s T(1) _ T(9) o]) (use L f T(2) in auto)
  then show ?thesis using t(1) T unfolding got_def by blast
qed

lemma tx_brelse:
  assumes s: "tx d L k s" and i: "i \<in> L"
  shows "\<exists>t. brelse i s = Ret () t \<and> tx d (L - {i}) k t \<and> view d t = view d s \<and> same_world s t \<and>
    (\<forall>j \<in> L - {i}. bcont (bufs t j) = bcont (bufs s j))"
proof -
  note D = txD [OF s]
  note I = bio_invD [OF D(1) i]
  let ?b = "b_blockno (bufs s i)"
  have hb: "?b \<in> held_blocks L s" using i by (simp add: held_blocks_def)
  have "unat (b_refcnt (bufs s i)) = 1 \<longrightarrow> b_data (bufs s i) = disk s (unat ?b)"
    using rcnt_orefs [OF D(1), of ?b] hb I(6) I(7) [of "disk s"] D(11) [OF hb] by (simp add: view_def)
  from brelse_spec [OF D(1) i this] obtain t where t: "brelse i s = Ret () t" "drop_ok d L s i t" by blast
  then have T: "bio_inv d (L - {i}) t" "view d t = view d s" "disk t = disk s" "same_world s t"
      "rcnt d (bufs t) = (rcnt d (bufs s))(?b := rcnt d (bufs s) ?b - 1)" "\<forall>j \<in> L - {i}. bcont (bufs t j) = bcont (bufs s j)"
    by (auto simp: drop_ok_def view_def)
  have h: "held_blocks (L - {i}) t = held_blocks L s - {?b}"
    unfolding held_blocks_cong [OF T(6)] unfolding held_blocks_def
    using inj_on_image_set_diff [of "\<lambda>j. b_blockno (bufs s j)" L L "{i}"] held_blocks_inj [OF D(1)] i by (simp add: inj_on_def)
  have o: "orefs d (L - {i}) t = orefs d L s"
    using hb T(5) h by (auto simp: orefs_def fun_eq_iff)
  have c: "card (L - {i}) \<le> 2" using D(2) card_Diff1_le [of L i] by linarith
  have "tx d (L - {i}) k t"
    by (rule tx_cong [OF s T(1) c T(4) o]) (use D(11) T(2,3) h in simp)
  then show ?thesis using t(1) T by blast
qed

section \<open>Logged writes\<close>

lemma log_slot_old:
  assumes "j < n" and "f j = b"
  shows "log_slot (int n) f b < n" and "f (log_slot (int n) f b) = b"
proof -
  let ?t = "takeWhile (\<lambda>i. f i \<noteq> b) [0..<n]"
  have "length ?t \<noteq> n"
  proof
    assume "length ?t = n"
    then have "?t = [0..<n]" by (metis takeWhile_eq_take take_all length_upt diff_zero order_refl)
    then have "\<forall>i \<in> set [0..<n]. f i \<noteq> b" by (simp add: takeWhile_eq_all_conv)
    then show False using assms by auto
  qed
  moreover have "length ?t \<le> n" using length_takeWhile_le [of "\<lambda>i. f i \<noteq> b" "[0..<n]"] by simp
  ultimately have l: "length ?t < n" by simp
  then show "log_slot (int n) f b < n" by (simp add: log_slot_def)
  have "f ([0..<n] ! length ?t) = b" using nth_length_takeWhile [of "\<lambda>i. f i \<noteq> b" "[0..<n]"] l by simp
  then show "f (log_slot (int n) f b) = b" using l by (simp add: log_slot_def)
qed

lemma log_write_old:
  assumes "LkLog \<notin> held s" and "log_n s = int n" and "int n < LOGSIZE" and "int n < lg_size (klog s) - 1"
    and "1 \<le> lg_outstanding (klog s)" and "j < n" and "log_block s j = b_blockno (bufs s i)"
  shows "log_write i s = Ret () s"
proof -
  let ?k = "log_slot (int n) (log_block s) (b_blockno (bufs s i))"
  have k: "?k < n" "log_block s ?k = b_blockno (bufs s i)" using log_slot_old [of j n "log_block s"] assms(6,7) by simp_all
  have "(log_block s)(?k := b_blockno (bufs s i)) = log_block s" using k(2) by auto
  then have "upd_lh (\<lambda>h. h\<lparr>lh_block := (lh_block h)(?k := b_blockno (bufs s i))\<rparr>) s = s"
    by (simp add: upd_lh_def upd_log_def)
  then show ?thesis
    using assms(1-5) k(1) by (simp add: log_write_def Let_def kmon upd_lh_def upd_log_def)
qed

text \<open>The two kinds of log_write(): a block that is in the log already, and one that is added and pinned.\<close>

definition pins :: "nat \<Rightarrow> 'a fslog_scheme \<Rightarrow> 'a fslog_scheme" where
  "pins i s = upd_lh (\<lambda>h. h\<lparr>lh_block := (lh_block h)(nat (log_n s) := b_blockno (bufs s i)), lh_n := lh_n h + 1\<rparr>)
     (upd_buf i (\<lambda>q. q\<lparr>b_refcnt := b_refcnt q + 1\<rparr>) s)"

lemma log_write_cases:
  assumes "LkLog \<notin> held s" and "LkBcache \<notin> held s" and "0 \<le> log_n s" and "log_n s < LOGSIZE"
    and "log_n s < lg_size (klog s) - 1" and "1 \<le> lg_outstanding (klog s)"
  shows "log_write i s = Ret () (if b_blockno (bufs s i) \<in> log_block s ` {..<nat (log_n s)} then s else pins i s)"
proof -
  obtain n where n: "log_n s = int n" using assms(3) nonneg_int_cases by blast
  show ?thesis
  proof (cases "b_blockno (bufs s i) \<in> log_block s ` {..<n}")
    case True
    then obtain j where "j < n" "log_block s j = b_blockno (bufs s i)" by auto
    then show ?thesis using log_write_old [of s n j i] assms n True by simp
  next
    case False
    then have "\<forall>j < n. log_block s j \<noteq> b_blockno (bufs s i)" by (metis image_eqI lessThan_iff)
    then show ?thesis using log_write_new [of s n i] assms n False by (simp add: pins_def)
  qed
qed

lemma pins_simps:
  "bufs (pins i s) = (bufs s)(i := (bufs s i)\<lparr>b_refcnt := b_refcnt (bufs s i) + 1\<rparr>)" "disk (pins i s) = disk s"
  "held (pins i s) = held s" "log_n (pins i s) = log_n s + 1" "lg_size (klog (pins i s)) = lg_size (klog s)"
  "lg_outstanding (klog (pins i s)) = lg_outstanding (klog s)"
  "log_block (pins i s) = (log_block s)(nat (log_n s) := b_blockno (bufs s i))"
  by (simp_all add: pins_def upd_lh_def upd_log_def upd_buf_def)

lemma pins_world: "same_fs s (pins i s)"
  unfolding same_fs_def same_world_def
  by (cases s) (auto simp: pins_def upd_lh_def upd_log_def upd_buf_def intro!: exI [of _ "lg_lh (klog (pins i s))"])

lemma bio_inv_klog: "bio_inv d L (s\<lparr>klog := l\<rparr>) = bio_inv d L s"
  by (simp add: bio_inv_def bio_idle_def no_proc_locks_def held_sleep_def)

lemma pins_inv: "bio_inv d L s \<Longrightarrow> i \<in> L \<Longrightarrow> b_refcnt (bufs s i) + 1 \<noteq> 0 \<Longrightarrow> bio_inv d L (pins i s)"
  using bio_inv_upd [of d L s i "\<lambda>q. q\<lparr>b_refcnt := b_refcnt q + 1\<rparr>"] bio_invD(2,4) [of d L s i]
  by (simp add: pins_def upd_lh_def upd_log_def bio_inv_klog)

text \<open>
  A block whose data have just been changed: everything of a transaction but that the contents of this block
  need not be those of the disk.
\<close>

lemma tx_pins:
  assumes s: "bio_inv d L s" "card L \<le> 2" "LkLog \<notin> held s" "1 \<le> lg_outstanding (klog s)" "0 \<le> log_n s"
      "log_n s + int (Suc k) \<le> LOGSIZE" "log_n s + int (Suc k) \<le> lg_size (klog s) - 1"
      "card {x. orefs d L s x \<noteq> 0} + Suc k + 2 \<le> NBUF" "\<And>x. orefs d L s x + Suc k + 1 < 2 ^ 31"
      "\<And>j. j < nat (log_n s) \<Longrightarrow> orefs d L s (log_block s j) \<noteq> 0"
    and clean: "\<And>x. x \<in> held_blocks L s \<Longrightarrow> x \<noteq> b_blockno (bufs s i) \<Longrightarrow> orefs d L s x = 0 \<Longrightarrow> view d s x = disk s (unat x)"
    and i: "i \<in> L"
  shows "\<exists>t. log_write i s = Ret () t \<and> tx d L k t \<and> view d t = view d s \<and> same_fs s t \<and>
    (\<forall>j. b_blockno (bufs t j) = b_blockno (bufs s j) \<and> b_data (bufs t j) = b_data (bufs s j))"
proof -
  let ?b = "b_blockno (bufs s i)"
  have b: "?b \<in> held_blocks L s" using i by (simp add: held_blocks_def)
  have lk: "LkBcache \<notin> held s" using s(1) by (simp add: bio_inv_def bio_idle_def)
  have run: "log_write i s = Ret () (if ?b \<in> log_block s ` {..<nat (log_n s)} then s else pins i s)"
    using s lk by (intro log_write_cases) auto
  show ?thesis
  proof (cases "?b \<in> log_block s ` {..<nat (log_n s)}")
    case True
    then have nz: "orefs d L s ?b \<noteq> 0" using s(10) by auto
    have "view d s x = disk s (unat x)" if "x \<in> held_blocks L s" "orefs d L s x = 0" for x
      by (rule clean [OF that(1) _ that(2)]) (use nz that(2) in auto)
    moreover have "orefs d L s x + k + 1 < 2 ^ 31" for x using s(9) [of x] by simp
    ultimately have "tx d L k s" unfolding tx_def by (intro conjI allI impI ballI) (use s(1-8) s(10) in simp_all)
    then show ?thesis using run True by auto
  next
    case False
    let ?r = "b_refcnt (bufs s i) + 1"
    have ur: "unat (b_refcnt (bufs s i)) = orefs d L s ?b + 1"
      using bio_invD(6) [OF s(1) i] rcnt_orefs [OF s(1), of ?b] b by simp
    then have u: "unat ?r = unat (b_refcnt (bufs s i)) + 1" using s(9) [of ?b] by (simp add: unat_word_ariths)
    then have nz: "?r \<noteq> 0" by (metis add_is_0 one_neq_zero unat_0)
    note P = pin_inv [OF s(1) i nz]
    have inv: "bio_inv d L (pins i s)" by (rule pins_inv [OF s(1) i nz])
    have h: "held_blocks L (pins i s) = held_blocks L s" by (auto simp: held_blocks_def pins_simps image_def)
    have v: "view d (pins i s) = view d s" using P(3) by (simp add: view_def pins_simps fun_eq_iff)
    have o: "orefs d L (pins i s) = (orefs d L s)(?b := orefs d L s ?b + 1)"
      using P(2) u ur b h by (auto simp: orefs_def pins_simps fun_eq_iff)
    have "{x. orefs d L (pins i s) x \<noteq> 0} = insert ?b {x. orefs d L s x \<noteq> 0}" by (auto simp: o)
    then have c: "card {x. orefs d L (pins i s) x \<noteq> 0} \<le> Suc (card {x. orefs d L s x \<noteq> 0})"
      by (simp add: card_insert_if)
    have "tx d L k (pins i s)"
      unfolding tx_def
    proof (intro conjI allI impI ballI)
      show "orefs d L (pins i s) x + k + 1 < 2 ^ 31" for x using s(9) [of x] by (auto simp: o)
      show "orefs d L (pins i s) (log_block (pins i s) j) \<noteq> 0" if "j < nat (log_n (pins i s))" for j
        using that s(5) s(10) [of j] by (auto simp: pins_simps o nat_add_distrib less_Suc_eq)
      show "view d (pins i s) x = disk (pins i s) (unat x)" if "x \<in> held_blocks L (pins i s)" "orefs d L (pins i s) x = 0" for x
        using that clean [of x] v h by (auto simp: o pins_simps split: if_splits)
    qed (use s c inv in \<open>simp_all add: pins_simps\<close>)
    then show ?thesis using run False v pins_world [of s i] by (simp add: pins_simps)
  qed
qed

text \<open>Changing the data of a held buffer and logging it.\<close>

lemma tx_write:
  assumes s: "tx d L (Suc k) s" and i: "i \<in> L"
  shows "\<exists>s1 t. upd_data i f s = Ret () s1 \<and> log_write i s1 = Ret () t \<and> tx d L k t \<and>
    view d t = (view d s)(b_blockno (bufs s i) := f (b_data (bufs s i))) \<and> same_fs s t \<and>
    (\<forall>j. b_blockno (bufs t j) = b_blockno (bufs s j)) \<and> (\<forall>j. j \<noteq> i \<longrightarrow> b_data (bufs t j) = b_data (bufs s j))"
proof -
  note D = txD [OF s]
  let ?b = "b_blockno (bufs s i)" and ?x = "f (b_data (bufs s i))"
  let ?s = "upd_buf i (\<lambda>q. q\<lparr>b_data := f (b_data q)\<rparr>) s"
  have inv: "bio_inv d L ?s"
    by (rule bio_inv_upd [OF D(1) i]) (simp_all add: bio_invD(3,4) [OF D(1) i])
  note V = set_data_view [OF D(1) i, of ?x]
  have v: "view d ?s = (view d s)(?b := ?x)" using V(1) by (simp add: view_def)
  have h: "held_blocks L ?s = held_blocks L s" by (auto simp: held_blocks_def image_def)
  have o: "orefs d L ?s = orefs d L s" using V(2) h by (simp add: orefs_def fun_eq_iff)
  have e: "klog ?s = klog s" "held ?s = held s" "disk ?s = disk s" "b_blockno (bufs ?s i) = ?b" by (simp_all add: upd_buf_def)
  have "\<exists>t. log_write i ?s = Ret () t \<and> tx d L k t \<and> view d t = view d ?s \<and> same_fs ?s t \<and>
      (\<forall>j. b_blockno (bufs t j) = b_blockno (bufs ?s j) \<and> b_data (bufs t j) = b_data (bufs ?s j))"
  proof (rule tx_pins [OF inv D(2) _ _ _ _ _ _ _ _ _ i])
    show "view d ?s x = disk ?s (unat x)" if "x \<in> held_blocks L ?s" "x \<noteq> b_blockno (bufs ?s i)" "orefs d L ?s x = 0" for x
      using that D(11) [of x] by (simp add: h o v)
  qed (unfold e o; rule D; assumption?)+
  then obtain t where t: "log_write i ?s = Ret () t" "tx d L k t" "view d t = view d ?s" "same_fs ?s t"
      "\<forall>j. b_blockno (bufs t j) = b_blockno (bufs ?s j) \<and> b_data (bufs t j) = b_data (bufs ?s j)" by blast
  have "same_fs s ?s" by (rule same_world_fs) simp
  then have "same_fs s t" using t(4) same_fs_trans by blast
  moreover have "upd_data i f s = Ret () ?s" by (simp add: upd_data_def modify_apply)
  ultimately show ?thesis using t v by auto
qed

lemma same_world_same_fs: "same_world s t \<Longrightarrow> same_fs t u \<Longrightarrow> same_fs s u" "same_fs s t \<Longrightarrow> same_world t u \<Longrightarrow> same_fs s u"
  using same_fs_trans same_world_fs by blast+

text \<open>Reading, changing, logging and releasing a block.\<close>

lemma tx_modify:
  assumes s: "tx d L (Suc k) s" and L: "card L < 2" and b: "b \<notin> held_blocks L s"
  shows "\<exists>i t1 t2 t3 t. bread d b s = Ret i t1 \<and> upd_data i f t1 = Ret () t2 \<and> log_write i t2 = Ret () t3 \<and> brelse i t3 = Ret () t \<and>
    tx d L k t \<and> view d t = (view d s)(b := f (view d s b)) \<and> same_world s t1 \<and> same_fs s t \<and>
    (\<forall>j \<in> L. b_blockno (bufs t j) = b_blockno (bufs s j) \<and> b_data (bufs t j) = b_data (bufs s j))"
proof -
  obtain i t1 where t1: "bread d b s = Ret i t1" "got d L (Suc k) s b i t1" using tx_bread [OF s L b] by blast
  have g: "tx d (insert i L) (Suc k) t1" "i \<notin> L" "b_blockno (bufs t1 i) = b" "b_data (bufs t1 i) = view d s b"
    "view d t1 = view d s" "same_world s t1" "\<forall>j \<in> L. bcont (bufs t1 j) = bcont (bufs s j)"
    using t1(2) by (auto simp: got_def)
  obtain u t2 where t2: "upd_data i f t1 = Ret () u" "log_write i u = Ret () t2" "tx d (insert i L) k t2"
      "view d t2 = (view d t1)(b := f (view d s b))" "same_fs t1 t2" "\<forall>j. b_blockno (bufs t2 j) = b_blockno (bufs t1 j)"
      "\<forall>j. j \<noteq> i \<longrightarrow> b_data (bufs t2 j) = b_data (bufs t1 j)"
    using tx_write [OF g(1) insertI1, of f] g(3,4) by auto
  obtain t where t: "brelse i t2 = Ret () t" "tx d (insert i L - {i}) k t" "view d t = view d t2" "same_world t2 t"
      "\<forall>j \<in> insert i L - {i}. bcont (bufs t j) = bcont (bufs t2 j)"
    using tx_brelse [OF t2(3) insertI1] by blast
  have m: "insert i L - {i} = L" using g(2) by auto
  have "same_fs s t" using g(6) t2(5) t(4) same_world_same_fs by blast
  moreover have "b_blockno (bufs t j) = b_blockno (bufs s j) \<and> b_data (bufs t j) = b_data (bufs s j)" if j: "j \<in> L" for j
  proof -
    have "bcont (bufs t j) = bcont (bufs t2 j)" "bcont (bufs t1 j) = bcont (bufs s j)" "j \<noteq> i"
      using g(2,7) t(5) j unfolding m by auto
    then show ?thesis using t2(6,7) by (simp add: bcont_eq)
  qed
  moreover have "view d t = (view d s)(b := f (view d s b))" using t(3) t2(4) g(5) by simp
  ultimately show ?thesis using t1(1) t2(1,2) t(1,2) g(6) unfolding m by blast
qed

end
