(* ===== verification/Fs_Alloc.thy ===== *)
theory Fs_Alloc
  imports Fs_View
begin

text \<open>
  The block allocator of kernel/fs.c over the bitmap: the set of free blocks that balloc() and bfree() read and
  write in the bitmap blocks of a transaction's view.
\<close>

section \<open>The bitmap as a set of blocks\<close>

lemma bmask_bit: "bit (bmask bi) n \<longleftrightarrow> n = bi mod 8"
  using mod_less_divisor [of 8 bi] by (auto simp: bmask_def push_bit_eq_mult bit_exp_iff)

lemma bit_free_bit: "bit_free x bi \<longleftrightarrow> \<not> bit (x (bi div 8)) (bi mod 8)"
proof
  assume "bit_free x bi"
  then have "\<not> bit (x (bi div 8) AND bmask bi) (bi mod 8)" by (simp add: bit_free_def)
  then show "\<not> bit (x (bi div 8)) (bi mod 8)" by (simp add: bit_and_iff bmask_bit)
next
  assume "\<not> bit (x (bi div 8)) (bi mod 8)"
  then show "bit_free x bi" unfolding bit_free_def by (intro bit_eqI) (auto simp: bit_and_iff bmask_bit)
qed

lemma div_mod_8: "bi div 8 = bj div 8 \<and> bi mod 8 = bj mod 8 \<longleftrightarrow> bi = bj" for bi bj :: nat
  by (metis div_mult_mod_eq)

lemma bit_free_set: "bit_free (bit_set bi x) bj \<longleftrightarrow> bj \<noteq> bi \<and> bit_free x bj"
  using div_mod_8 [of bi bj] by (auto simp: bit_free_bit bit_set_def bit_or_iff bmask_bit)

lemma bit_free_clear: "bit_free (bit_clear bi x) bj \<longleftrightarrow> bj = bi \<or> bit_free x bj"
  using div_mod_8 [of bi bj] mod_less_divisor [of 8 bj]
  by (auto simp: bit_free_bit bit_clear_def bit_and_iff bit_not_iff bmask_bit)

definition nblocks :: "'a fs_scheme \<Rightarrow> nat" where
  "nblocks s = unat (sb_size (sb s))"

definition block_free :: "uint \<Rightarrow> 'a fs_scheme \<Rightarrow> nat \<Rightarrow> bool" where
  "block_free d s b = bit_free (view d s (BBLOCK (of_nat b) (sb s))) (b mod BPB)"

definition free_blocks :: "uint \<Rightarrow> 'a fs_scheme \<Rightarrow> nat set" where
  "free_blocks d s = {b. b < nblocks s \<and> block_free d s b}"

definition bitmap_blocks :: "'a fs_scheme \<Rightarrow> uint set" where
  "bitmap_blocks s = (\<lambda>b. BBLOCK (of_nat b) (sb s)) ` {..<nblocks s}"

text \<open>
  Block 0 and the bitmap itself are never free; the operation holds no block that balloc() touches.
\<close>

definition bitmap_ok :: "uint \<Rightarrow> nat set \<Rightarrow> 'a fs_scheme \<Rightarrow> bool" where
  "bitmap_ok d L s \<longleftrightarrow> 0 \<notin> free_blocks d s \<and> of_nat ` free_blocks d s \<inter> bitmap_blocks s = {} \<and>
     held_blocks L s \<inter> (of_nat ` free_blocks d s \<union> bitmap_blocks s) = {}"

lemma bitmap_blocksI: "n < nblocks s \<Longrightarrow> BBLOCK (of_nat n) (sb s) \<in> bitmap_blocks s"
  unfolding bitmap_blocks_def by (rule imageI) simp

lemma nblocks_less: "nblocks s < 2 ^ 32"
  using unsigned_less [of "sb_size (sb s)"] by (simp add: nblocks_def)

lemma BBLOCK_nat: "n < 2 ^ 32 \<Longrightarrow> BBLOCK (of_nat n) b = of_nat (n div BPB) + sb_bmapstart b"
proof -
  assume n: "n < 2 ^ 32"
  have "(of_nat n :: uint) div of_nat BPB = of_nat (n div BPB)"
    using n by (intro word_unat_eq_iff [THEN iffD2])
      (simp add: unat_div unat_of_nat take_bit_nat_eq_self BPB_def BSIZE_def div_le_dividend le_less_trans)
  then show ?thesis by (simp add: BBLOCK_def)
qed

lemma of_nat_inj32: "a < 2 ^ 32 \<Longrightarrow> b < 2 ^ 32 \<Longrightarrow> (of_nat a :: uint) = of_nat b \<longleftrightarrow> a = b"
  by (simp add: word_unat_eq_iff unat_of_nat take_bit_nat_eq_self)

lemma BBLOCK_eq: "a < 2 ^ 32 \<Longrightarrow> b < 2 ^ 32 \<Longrightarrow> BBLOCK (of_nat a) x = BBLOCK (of_nat b) x \<longleftrightarrow> a div BPB = b div BPB"
  using of_nat_inj32 [of "a div BPB" "b div BPB"] div_le_dividend [of a BPB] div_le_dividend [of b BPB]
  by (simp add: BBLOCK_nat)

section \<open>balloc()\<close>

lemma same_fsD:
  fixes s t :: "'a fs_scheme"
  assumes "same_fs s t"
  shows "sb t = sb s" and "inodes t = inodes s" and "fs.more t = fs.more s" and "mem t = mem s" and "held t = held s"
    and "curproc t = curproc s" and "cons_out t = cons_out s" and "kend t = kend s" and "freelist t = freelist s"
    and "p_pagetable (procs t p) = p_pagetable (procs s p)" and "p_kstack (procs t p) = p_kstack (procs s p)"
    and "slocks t (SlInode i) = slocks s (SlInode i)" and "p_pid (procs t p) = p_pid (procs s p)"
proof -
  have "bio.more t = bio.more (s\<lparr>klog := klog t\<rparr>)" using assms by (simp add: same_fs_def same_world_def)
  then show "sb t = sb s" "inodes t = inodes s" "fs.more t = fs.more s" by (cases s; cases t; simp)+
qed (use assms in \<open>simp_all add: same_fs_def same_world_def\<close>)

lemma tx_cons [simp]: "tx d L k (s\<lparr>cons_out := x\<rparr>) = tx d L k s"
  by (simp add: tx_def bio_inv_def bio_idle_def no_proc_locks_def held_sleep_def orefs_def held_blocks_def view_def)

lemma view_cons [simp]: "view d (s\<lparr>cons_out := x\<rparr>) = view d s"
  by (simp add: view_def)

lemma free_blocks_cong:
  fixes s t :: "'a fs_scheme"
  assumes "view d t = view d s" and "sb t = sb s"
  shows "free_blocks d t = free_blocks d s" and "bitmap_blocks t = bitmap_blocks s" and "nblocks t = nblocks s"
  using assms by (simp_all add: free_blocks_def block_free_def bitmap_blocks_def nblocks_def)

lemma same_fs_cons:
  fixes s t :: "'a fslog_scheme"
  assumes "same_fs s t"
  shows "same_fs (s\<lparr>cons_out := x\<rparr>) (t\<lparr>cons_out := x\<rparr>)"
proof -
  have "bio.more (t\<lparr>cons_out := x\<rparr>) = bio.more (s\<lparr>cons_out := x, klog := klog t\<rparr>)"
    using assms by (cases s; cases t) (simp add: same_fs_def same_world_def)
  then show ?thesis using assms by (simp add: same_fs_def same_world_def)
qed

text \<open>What balloc() returns: the lowest free block, or 0 and a message.\<close>

definition balloc_view :: "uint \<Rightarrow> 'a fs_scheme \<Rightarrow> nat \<Rightarrow> uint \<Rightarrow> block" where
  "balloc_view d s b = (let v = view d s; c = BBLOCK (of_nat b) (sb s); w = v(c := bit_set (b mod BPB) (v c))
     in w(of_nat b := zero_block (w (of_nat b))))"

definition keeps :: "nat set \<Rightarrow> 'a bio_scheme \<Rightarrow> 'a bio_scheme \<Rightarrow> bool" where
  "keeps L s t \<longleftrightarrow> (\<forall>j \<in> L. b_blockno (bufs t j) = b_blockno (bufs s j) \<and> b_data (bufs t j) = b_data (bufs s j))"

definition balloc_ok :: "uint \<Rightarrow> nat set \<Rightarrow> nat \<Rightarrow> 'a fs_scheme \<Rightarrow> uint \<Rightarrow> 'a fs_scheme \<Rightarrow> bool" where
  "balloc_ok d L k s r t \<longleftrightarrow> keeps L s t \<and>
     (if free_blocks d s = {} then r = 0 \<and> tx d L (Suc (Suc k)) t \<and> view d t = view d s \<and>
         same_fs (s\<lparr>cons_out := cons_out s @ chars ''balloc: out of blocks'' @ [10]\<rparr>) t
      else r = of_nat (Min (free_blocks d s)) \<and> tx d L k t \<and> view d t = balloc_view d s (Min (free_blocks d s)) \<and> same_fs s t)"

lemma keeps_trans: "keeps L s t \<Longrightarrow> keeps L t u \<Longrightarrow> keeps L s u"
  by (simp add: keeps_def)

lemma keeps_bcont: "\<forall>j \<in> L. bcont (bufs t j) = bcont (bufs s j) \<Longrightarrow> keeps L s t"
  by (simp add: keeps_def bcont_eq)

lemma keeps_held: "keeps L s t \<Longrightarrow> held_blocks L t = held_blocks L s"
  by (auto simp: keeps_def held_blocks_def image_def)

text \<open>The search in one bitmap block.\<close>

lemma find_free:
  fixes s :: "'a fs_scheme"
  assumes "m * BPB < nblocks s" and x: "x = view d s (BBLOCK (of_nat (m * BPB)) (sb s))"
    and low: "\<forall>b \<in> free_blocks d s. m * BPB \<le> b"
  shows "find (bit_free x) [0..<min BPB (nblocks s - m * BPB)] = Some bi \<Longrightarrow>
      bi < BPB \<and> m * BPB + bi \<in> free_blocks d s \<and> Min (free_blocks d s) = m * BPB + bi"
    and "find (bit_free x) [0..<min BPB (nblocks s - m * BPB)] = None \<Longrightarrow> \<forall>b \<in> free_blocks d s. Suc m * BPB \<le> b"
proof -
  have BPB: "0 < BPB" by (simp add: BPB_def BSIZE_def)
  have f: "m * BPB + j \<in> free_blocks d s \<longleftrightarrow> m * BPB + j < nblocks s \<and> bit_free x j" if "j < BPB" for j
  proof -
    have "BBLOCK (of_nat (m * BPB + j)) (sb s) = BBLOCK (of_nat (m * BPB)) (sb s)" if "m * BPB + j < nblocks s"
      using that nblocks_less [of s] \<open>j < BPB\<close> by (subst BBLOCK_eq) (auto simp: BPB_def BSIZE_def)
    then show ?thesis using that BPB by (auto simp: free_blocks_def block_free_def x)
  qed
  have split: "\<exists>j. b = m * BPB + j" if "b \<in> free_blocks d s" for b using low that le_Suc_ex by blast
  show "\<forall>b \<in> free_blocks d s. Suc m * BPB \<le> b" if none: "find (bit_free x) [0..<min BPB (nblocks s - m * BPB)] = None"
  proof
    fix b assume b: "b \<in> free_blocks d s"
    then obtain j where j: "b = m * BPB + j" using split by blast
    show "Suc m * BPB \<le> b"
    proof (rule ccontr)
      assume "\<not> Suc m * BPB \<le> b"
      then have "j < BPB" using j by simp
      then have "bit_free x j" "j < nblocks s - m * BPB" using f b j by auto
      then show False using none \<open>j < BPB\<close> by (auto simp: find_None_iff)
    qed
  qed
  assume "find (bit_free x) [0..<min BPB (nblocks s - m * BPB)] = Some bi"
  then have bi: "bi < BPB" "m * BPB + bi < nblocks s" "bit_free x bi" "\<forall>j < bi. \<not> bit_free x j"
    by (auto simp: find_Some_iff)
  then have mem: "m * BPB + bi \<in> free_blocks d s" using f by simp
  have "m * BPB + bi \<le> b" if b: "b \<in> free_blocks d s" for b
  proof -
    obtain j where j: "b = m * BPB + j" using split [OF b] by blast
    show ?thesis using f [of j] bi b j by (metis add_le_cancel_left linorder_not_less order_less_trans)
  qed
  then have "Min (free_blocks d s) = m * BPB + bi" using mem by (intro Min_eqI) (auto simp: free_blocks_def)
  then show "bi < BPB \<and> m * BPB + bi \<in> free_blocks d s \<and> Min (free_blocks d s) = m * BPB + bi" using bi mem by simp
qed

lemma bzero_eq:
  assumes s: "tx d L (Suc k) s" and L: "card L < 2" and b: "b \<notin> held_blocks L s"
  shows "\<exists>t. bzero d b s = Ret () t \<and> tx d L k t \<and> view d t = (view d s)(b := zero_block (view d s b)) \<and> same_fs s t \<and> keeps L s t"
proof -
  obtain i t1 t2 t3 t where t: "bread d b s = Ret i t1" "upd_data i zero_block t1 = Ret () t2" "log_write i t2 = Ret () t3"
      "brelse i t3 = Ret () t" "tx d L k t" "view d t = (view d s)(b := zero_block (view d s b))" "same_fs s t"
      "\<forall>j \<in> L. b_blockno (bufs t j) = b_blockno (bufs s j) \<and> b_data (bufs t j) = b_data (bufs s j)"
    using tx_modify [OF s L b, of zero_block] by blast
  then have "bzero d b s = Ret () t" by (simp add: bzero_def bind_Ret)
  then show ?thesis using t by (auto simp: keeps_def)
qed

text \<open>The end of balloc() once a free bit is found in the buffer i.\<close>

lemma balloc_found:
  fixes s :: "'a fs_scheme"
  assumes t1: "tx d (insert i L) (Suc (Suc k)) s" and L: "card L < 2" and i: "i \<notin> L"
    and c: "b_blockno (bufs s i) = BBLOCK (of_nat b) (sb s)" and x: "b_data (bufs s i) = view d s (BBLOCK (of_nat b) (sb s))"
    and b: "of_nat b \<notin> held_blocks L s"
  shows "\<exists>t2 t3 t4 t. upd_data i (bit_set (b mod BPB)) s = Ret () t2 \<and> log_write i t2 = Ret () t3 \<and> brelse i t3 = Ret () t4 \<and>
    bzero d (of_nat b) t4 = Ret () t \<and> tx d L k t \<and> view d t = balloc_view d s b \<and> same_fs s t \<and> keeps L s t"
proof -
  let ?c = "BBLOCK (of_nat b) (sb s)"
  obtain t2 t3 where t3: "upd_data i (bit_set (b mod BPB)) s = Ret () t2" "log_write i t2 = Ret () t3" "tx d (insert i L) (Suc k) t3"
      "view d t3 = (view d s)(?c := bit_set (b mod BPB) (view d s ?c))" "same_fs s t3"
      "\<forall>j. b_blockno (bufs t3 j) = b_blockno (bufs s j)" "\<forall>j. j \<noteq> i \<longrightarrow> b_data (bufs t3 j) = b_data (bufs s j)"
    using tx_write [OF t1 insertI1, of "bit_set (b mod BPB)"] unfolding c x by blast
  obtain t4 where t4: "brelse i t3 = Ret () t4" "tx d (insert i L - {i}) (Suc k) t4" "view d t4 = view d t3" "same_world t3 t4"
      "\<forall>j \<in> insert i L - {i}. bcont (bufs t4 j) = bcont (bufs t3 j)"
    using tx_brelse [OF t3(3) insertI1] by blast
  have m: "insert i L - {i} = L" using i by auto
  have k1: "keeps L s t3" using t3(6,7) i by (auto simp: keeps_def)
  have k: "keeps L s t4" using keeps_trans [OF k1 keeps_bcont] t4(5) unfolding m by blast
  then have "of_nat b \<notin> held_blocks L t4" using b keeps_held by blast
  then obtain t where t: "bzero d (of_nat b) t4 = Ret () t" "tx d L k t"
      "view d t = (view d t4)(of_nat b := zero_block (view d t4 (of_nat b)))" "same_fs t4 t" "keeps L t4 t"
    using bzero_eq [OF t4(2) [unfolded m] L] by blast
  have "same_fs s t" using t3(5) t4(4) t(4) same_world_same_fs same_fs_trans by blast
  moreover have "view d t = balloc_view d s b" using t(3) t4(3) t3(4) by (simp add: balloc_view_def Let_def)
  ultimately show ?thesis using t3(1,2) t4(1) t keeps_trans [OF k t(5)] by blast
qed

declare of_nat_mult [simp del] of_nat_add [simp del]

lemma balloc_loop_ok:
  fixes s :: "'a fs_scheme"
  assumes "tx d L (Suc (Suc k)) s" and L: "card L < 2" and "bitmap_ok d L s" and "\<forall>b \<in> free_blocks d s. m * BPB \<le> b"
    and M: "M = (nblocks s + BPB - 1) div BPB"
  shows "\<exists>r t. balloc_loop d (map (\<lambda>j. j * BPB) [m..<M]) s = Ret r t \<and> balloc_ok d L k s r t"
  using assms
proof (induction "M - m" arbitrary: m s)
  case 0
  have BPB: "0 < BPB" by (simp add: BPB_def BSIZE_def)
  have "M \<le> m" using 0(1) by simp
  then have "(nblocks s + BPB - 1) div BPB < Suc m" using 0(6) by simp
  then have "nblocks s + BPB - 1 < Suc m * BPB" using div_less_iff_less_mult [OF BPB] by blast
  then have "nblocks s \<le> m * BPB" using BPB by simp
  then have "free_blocks d s = {}" using 0(5) by (force simp: free_blocks_def)
  then show ?case
    using \<open>M \<le> m\<close> 0(2) by (auto simp: balloc_ok_def kprint_def kmon keeps_def)
next
  case (Suc n)
  have BPB: "0 < BPB" by (simp add: BPB_def BSIZE_def)
  have m: "m < M" using Suc(2) by simp
  have nb: "m * BPB < nblocks s"
  proof -
    have "m * BPB + BPB \<le> M * BPB" using m by (metis Suc_leI add.commute mult_Suc mult_le_mono1)
    also have "\<dots> \<le> nblocks s + BPB - 1" unfolding Suc(7) by (rule div_times_less_eq_dividend)
    finally show ?thesis using BPB by simp
  qed
  let ?c = "BBLOCK (of_nat (m * BPB)) (sb s)"
  have "?c \<in> bitmap_blocks s" using nb by (rule bitmap_blocksI)
  then have c: "?c \<notin> held_blocks L s" using Suc.prems(3) by (auto simp only: bitmap_ok_def)
  obtain i t1 where t1: "bread d ?c s = Ret i t1" "got d L (Suc (Suc k)) s ?c i t1"
    using tx_bread [OF Suc.prems(1) L c] by blast
  have g: "tx d (insert i L) (Suc (Suc k)) t1" "i \<notin> L" "b_blockno (bufs t1 i) = ?c" "b_data (bufs t1 i) = view d s ?c"
    "view d t1 = view d s" "same_world s t1" "keeps L s t1"
    using t1(2) by (auto simp: got_def keeps_bcont)
  note F = find_free [OF nb refl Suc.prems(4)]
  have w: "same_fs s t1" using g(6) by (rule same_world_fs)
  have e: "buf_data i t1 = Ret (view d s ?c) t1" using g(4) by (simp add: buf_data_def gets_apply)
  have lst: "[m..<M] = m # [Suc m..<M]" using m by (rule upt_conv_Cons)
  show ?case
  proof (cases "find (bit_free (view d s ?c)) [0..<min BPB (nblocks s - m * BPB)]")
    case (Some bi)
    note f = F(1) [OF Some]
    let ?b = "m * BPB + bi"
    have "?b < nblocks s" using f by (simp add: free_blocks_def)
    then have lt: "?b < 2 ^ 32" "m * BPB < 2 ^ 32" using nblocks_less [of s] by simp_all
    have cb: "BBLOCK (of_nat ?b) (sb s) = ?c" "?b mod BPB = bi"
      using f by (simp_all only: BBLOCK_eq [OF lt]) simp_all
    have hb: "of_nat ?b \<notin> held_blocks L t1"
      unfolding keeps_held [OF g(7)] using f Suc.prems(3) by (auto simp: bitmap_ok_def)
    obtain t2 t3 t4 t where t: "upd_data i (bit_set bi) t1 = Ret () t2" "log_write i t2 = Ret () t3" "brelse i t3 = Ret () t4"
        "bzero d (of_nat ?b) t4 = Ret () t" "tx d L k t" "view d t = balloc_view d t1 ?b" "same_fs t1 t" "keeps L t1 t"
      using balloc_found [OF g(1) L g(2), of ?b] g(3,4,5) hb cb same_fsD(1) [OF w] by auto
    have "balloc_loop d (map (\<lambda>j. j * BPB) [m..<M]) s = Ret (of_nat ?b) t"
      using Some t1(1) t(1-4) e unfolding lst
      by (simp add: bind_gets bind_Ret return_apply nblocks_def)
    moreover have "balloc_ok d L k s (of_nat ?b) t"
      using f t(5-8) g(5,7) w same_fsD(1) [OF w] keeps_trans same_fs_trans
      by (auto simp: balloc_ok_def balloc_view_def)
    ultimately show ?thesis by blast
  next
    case None
    obtain t where t: "brelse i t1 = Ret () t" "tx d (insert i L - {i}) (Suc (Suc k)) t" "view d t = view d t1" "same_world t1 t"
        "\<forall>j \<in> insert i L - {i}. bcont (bufs t j) = bcont (bufs t1 j)"
      using tx_brelse [OF g(1) insertI1] by blast
    have Li: "insert i L - {i} = L" using g(2) by auto
    have v: "view d t = view d s" "same_fs s t" "keeps L s t"
      using t(3-5) g(5,6) w keeps_trans [OF g(7) keeps_bcont] same_world_same_fs unfolding Li by auto
    note sm = free_blocks_cong [OF v(1) same_fsD(1) [OF v(2)]]
    have ok: "bitmap_ok d L t" using Suc.prems(3) sm keeps_held [OF v(3)] by (simp add: bitmap_ok_def)
    have "n = M - Suc m" "\<forall>b \<in> free_blocks d t. Suc m * BPB \<le> b" "M = (nblocks t + BPB - 1) div BPB"
      using Suc.hyps(2) F(2) [OF None] Suc.prems(5) unfolding sm by simp_all
    then obtain r u where u: "balloc_loop d (map (\<lambda>j. j * BPB) [Suc m..<M]) t = Ret r u" "balloc_ok d L k t r u"
      using Suc.hyps(1) [of "Suc m" t, OF _ t(2) [unfolded Li] L ok] by blast
    have "balloc_loop d (map (\<lambda>j. j * BPB) [m..<M]) s = Ret r u"
      using None t1(1) t(1) u(1) e unfolding lst by (simp add: bind_gets bind_Ret nblocks_def)
    moreover have "balloc_ok d L k s r u"
      using u(2) v sm same_fsD(1,7) [OF v(2)] keeps_trans [OF v(3)] same_fs_trans [OF v(2)]
        same_fs_trans [OF same_fs_cons [OF v(2)]]
      by (auto simp: balloc_ok_def balloc_view_def)
    ultimately show ?thesis by blast
  qed
qed

lemma balloc_spec:
  assumes "tx d L (Suc (Suc k)) s" and "card L < 2" and "bitmap_ok d L s"
  shows "\<exists>r t. balloc d s = Ret r t \<and> balloc_ok d L k s r t"
  using balloc_loop_ok [OF assms, of 0] by (simp add: balloc_def bind_gets nblocks_def)

lemma free_blocks_finite [simp]: "finite (free_blocks d s)"
  by (simp add: free_blocks_def)

lemma free_blocks_less: "b \<in> free_blocks d s \<Longrightarrow> b < nblocks s \<and> b < 2 ^ 32"
  using nblocks_less [of s] by (auto simp: free_blocks_def)

lemma unat_of_nat32: "b < 2 ^ 32 \<Longrightarrow> unat (of_nat b :: uint) = b"
  by (simp add: unat_of_nat take_bit_nat_eq_self)

text \<open>The free set after a change of one bit of the bitmap.\<close>

lemma free_blocks_upd:
  fixes s t :: "'a fs_scheme"
  assumes b: "b < nblocks s" and sb: "sb t = sb s"
    and v: "\<And>c. c \<in> bitmap_blocks s \<Longrightarrow> view d t c = (if c = BBLOCK (of_nat b) (sb s) then f (view d s c) else view d s c)"
    and f: "\<And>j. j < BPB \<Longrightarrow> bit_free (f (view d s (BBLOCK (of_nat b) (sb s)))) j \<longleftrightarrow> (if j = b mod BPB then P else bit_free (view d s (BBLOCK (of_nat b) (sb s))) j)"
  shows "free_blocks d t = (if P then insert b (free_blocks d s) else free_blocks d s - {b})"
proof -
  have lt: "x < 2 ^ 32" if "x < nblocks s" for x using that nblocks_less [of s] by simp
  have "block_free d t x \<longleftrightarrow> (if x = b then P else block_free d s x)" if x: "x < nblocks s" for x
  proof (cases "BBLOCK (of_nat x) (sb s) = BBLOCK (of_nat b) (sb s)")
    case True
    then have "x div BPB = b div BPB" using BBLOCK_eq [OF lt [OF x] lt [OF b]] by blast
    then have "x mod BPB = b mod BPB \<longleftrightarrow> x = b" by (metis div_mult_mod_eq)
    moreover have "x mod BPB < BPB" by (simp add: BPB_def BSIZE_def)
    ultimately show ?thesis using v [OF bitmap_blocksI [OF x]] f True by (simp add: block_free_def sb)
  next
    case False
    then show ?thesis using v [OF bitmap_blocksI [OF x]] by (auto simp: block_free_def sb)
  qed
  then show ?thesis using b by (auto simp: free_blocks_def nblocks_def sb split: if_splits)
qed

lemma balloc_free_blocks:
  fixes s t :: "'a fs_scheme"
  assumes ok: "bitmap_ok d L s" and b: "b \<in> free_blocks d s" and v: "view d t = balloc_view d s b" and sb: "sb t = sb s"
  shows "free_blocks d t = free_blocks d s - {b}"
proof -
  have nb: "of_nat b \<notin> bitmap_blocks s" using ok b by (auto simp: bitmap_ok_def)
  have "free_blocks d t = (if False then insert b (free_blocks d s) else free_blocks d s - {b})"
    by (rule free_blocks_upd [where f = "bit_set (b mod BPB)"])
      (use free_blocks_less [OF b] sb v nb in \<open>auto simp: balloc_view_def Let_def bit_free_set\<close>)
  then show ?thesis by simp
qed

lemma bfree_eq:
  fixes s :: "'a fs_scheme"
  assumes s: "tx d L (Suc k) s" and L: "card L < 2" and h: "BBLOCK (of_nat b) (sb s) \<notin> held_blocks L s"
    and b: "b < nblocks s" "b \<notin> free_blocks d s"
  shows "\<exists>t. bfree d (of_nat b) s = Ret () t \<and> tx d L k t \<and> same_fs s t \<and> keeps L s t \<and>
    view d t = (view d s)(BBLOCK (of_nat b) (sb s) := bit_clear (b mod BPB) (view d s (BBLOCK (of_nat b) (sb s)))) \<and>
    free_blocks d t = insert b (free_blocks d s)"
proof -
  let ?c = "BBLOCK (of_nat b) (sb s)"
  have u: "unat (of_nat b :: uint) = b" using b nblocks_less [of s] by (intro unat_of_nat32) simp
  obtain i t1 t2 t3 t where t: "bread d ?c s = Ret i t1" "upd_data i (bit_clear (b mod BPB)) t1 = Ret () t2" "log_write i t2 = Ret () t3"
      "brelse i t3 = Ret () t" "tx d L k t" "view d t = (view d s)(?c := bit_clear (b mod BPB) (view d s ?c))" "same_fs s t"
      "\<forall>j \<in> L. b_blockno (bufs t j) = b_blockno (bufs s j) \<and> b_data (bufs t j) = b_data (bufs s j)"
    using tx_modify [OF s L h, of "bit_clear (b mod BPB)"] by blast
  moreover have "b_data (bufs t1 i) = view d s ?c" using tx_bread [OF s L h] t(1) by (auto simp: got_def)
  moreover have "\<not> bit_free (view d s ?c) (b mod BPB)" using b by (simp add: free_blocks_def block_free_def)
  ultimately have "bfree d (of_nat b) s = Ret () t"
    by (simp add: bfree_def bind_gets bind_Ret buf_data_def gets_apply Let_def u)
  moreover have "free_blocks d t = (if True then insert b (free_blocks d s) else free_blocks d s - {b})"
    by (rule free_blocks_upd [where f = "bit_clear (b mod BPB)"])
      (use b t(6) same_fsD(1) [OF t(7)] in \<open>auto simp: bit_free_clear\<close>)
  ultimately show ?thesis using t by (auto simp: keeps_def)
qed

lemma balloc_ok_some:
  fixes s t :: "'a fs_scheme"
  assumes ok: "bitmap_ok d L s" and r: "balloc_ok d L k s r t" and ne: "free_blocks d s \<noteq> {}"
  shows "unat r \<in> free_blocks d s" and "of_nat (unat r) = r" and "r \<noteq> 0" and "tx d L k t" and "same_fs s t" and "keeps L s t"
    and "free_blocks d t = free_blocks d s - {unat r}" and "bitmap_ok d L t" and "i < BSIZE \<Longrightarrow> view d t r i = 0"
    and "c \<noteq> r \<Longrightarrow> c \<notin> bitmap_blocks s \<Longrightarrow> view d t c = view d s c"
proof -
  let ?b = "Min (free_blocks d s)"
  have b: "?b \<in> free_blocks d s" using ne by (simp add: Min_in)
  have R: "r = of_nat ?b" "view d t = balloc_view d s ?b"
    and t: "tx d L k t" "same_fs s t" "keeps L s t" using r ne by (simp_all add: balloc_ok_def)
  show "tx d L k t" "same_fs s t" "keeps L s t" by (rule t)+
  have u: "unat r = ?b" unfolding R(1) using free_blocks_less [OF b] by (intro unat_of_nat32) simp
  then show "unat r \<in> free_blocks d s" "of_nat (unat r) = r" using b R(1) by simp_all
  have "?b \<noteq> 0" using ok b by (metis bitmap_ok_def)
  then show "r \<noteq> 0" using u by (metis unat_0)
  note sb = same_fsD(1) [OF t(2)]
  show f: "free_blocks d t = free_blocks d s - {unat r}" using balloc_free_blocks [OF ok b R(2) sb] u by simp
  have bb: "bitmap_blocks t = bitmap_blocks s" by (simp add: bitmap_blocks_def nblocks_def sb)
  show "bitmap_ok d L t" using ok unfolding bitmap_ok_def f bb keeps_held [OF t(3)] by blast
  show "view d t r i = 0" if "i < BSIZE" using that unfolding R by (simp add: balloc_view_def Let_def zero_block_def)
  show "view d t c = view d s c" if "c \<noteq> r" "c \<notin> bitmap_blocks s"
    using that bitmap_blocksI [of ?b s] free_blocks_less [OF b] unfolding R by (auto simp: balloc_view_def Let_def)
qed

text \<open>
  C13. The block allocator is a set of blocks kept in the bitmap.  In a transaction with room for three more log
  entries, balloc() returns 0 and changes nothing when no block is free; otherwise it returns a free block, which
  is then no longer free and reads as zeros, while every other block outside the bitmap keeps its contents; and
  bfree() of that block makes the free set what it was.
\<close>

theorem balloc_correct:
  fixes s :: "'a fs_scheme"
  assumes "tx d L (Suc (Suc (Suc k))) s" and "card L < 2" and "bitmap_ok d L s"
  shows "\<exists>r t. balloc d s = Ret r t \<and>
    (if free_blocks d s = {} then r = 0 \<and> view d t = view d s
     else r \<noteq> 0 \<and> unat r \<in> free_blocks d s \<and> free_blocks d t = free_blocks d s - {unat r} \<and> (\<forall>i < BSIZE. view d t r i = 0) \<and>
       (\<forall>c. c \<noteq> r \<longrightarrow> c \<notin> bitmap_blocks s \<longrightarrow> view d t c = view d s c) \<and> bitmap_ok d L t \<and> tx d L (Suc k) t \<and>
       (\<exists>u. bfree d r t = Ret () u \<and> tx d L k u \<and> free_blocks d u = free_blocks d s))"
proof -
  obtain r t where t: "balloc d s = Ret r t" "balloc_ok d L (Suc k) s r t" using balloc_spec [OF assms] by blast
  show ?thesis
  proof (cases "free_blocks d s = {}")
    case True
    then show ?thesis using t by (auto simp: balloc_ok_def)
  next
    case False
    note B = balloc_ok_some [OF assms(3) t(2) False]
    have nb: "nblocks t = nblocks s" by (simp add: nblocks_def same_fsD(1) [OF B(5)])
    have "BBLOCK (of_nat (unat r)) (sb t) \<in> bitmap_blocks t" using free_blocks_less [OF B(1)] nb by (intro bitmap_blocksI) simp
    then have h: "BBLOCK (of_nat (unat r)) (sb t) \<notin> held_blocks L t" using B(8) by (auto simp: bitmap_ok_def)
    obtain u where "bfree d r t = Ret () u" "tx d L k u" "free_blocks d u = insert (unat r) (free_blocks d t)"
      using bfree_eq [OF B(4) assms(2) h] free_blocks_less [OF B(1)] nb B(2,7) by auto
    then show ?thesis using t B False by (intro exI [of _ r] exI [of _ t]) (simp add: insert_absorb)
  qed
qed

section \<open>A file system of 64 blocks\<close>

text \<open>
  Nothing is cached.  The bitmap is block 45, blocks 0 to 47 are in use.  Inode 0 is a directory whose contents
  are two entries in block 46; inode 1 is a file of 1500 bytes in the blocks 46 and 47.
\<close>

definition disk1 :: "nat \<Rightarrow> block" where
  "disk1 n = (if n = 45 then (\<lambda>i. if i < 6 then 255 else 0)
     else if n = 46 then blk_put (blk_put (\<lambda>_. 0) 0 (de_bytes 1 (chars ''.''))) 16 (de_bytes 2 (chars ''a''))
     else if n = 47 then (\<lambda>_. 9) else (\<lambda>_. 0))"

definition inode1 :: inode where
  "inode1 = \<lparr>i_dev = 1, i_inum = 1, i_ref = 1, i_valid = 1, i_type = T_DIR, i_major = 0, i_minor = 0, i_nlink = 1, i_size = 32,
     i_addrs = (\<lambda>k. if k = 0 then 46 else if k = 1 then 47 else 0)\<rparr>"

definition fs1 :: fs where
  "fs1 = fslog.extend (bio.extend (bio1\<lparr>disk := disk1\<rparr>)
       \<lparr>klog = \<lparr>lg_start = 2, lg_size = 30, lg_outstanding = 1, lg_committing = 0, lg_dev = 1,
          lg_lh = \<lparr>lh_n = 0, lh_block = (\<lambda>_. 0)\<rparr>\<rparr>\<rparr>)
     \<lparr>sb = \<lparr>sb_magic = FSMAGIC, sb_size = 64, sb_nblocks = 18, sb_ninodes = 200, sb_nlog = 30, sb_logstart = 2,
          sb_inodestart = 32, sb_bmapstart = 45\<rparr>,
      inodes = (\<lambda>i. if i = 1 then inode1\<lparr>i_inum := 2, i_type := T_FILE, i_size := 1500\<rparr> else inode1)\<rparr>"

lemma fs1_simps:
  "bufs fs1 = bufs bio1" "disk fs1 = disk1" "held fs1 = {}" "slocks fs1 = slocks bio1" "curproc fs1 = Some 0" "procs fs1 = procs bio1"
  "mem fs1 = (\<lambda>_. 0)"
  "klog fs1 = \<lparr>lg_start = 2, lg_size = 30, lg_outstanding = 1, lg_committing = 0, lg_dev = 1, lg_lh = \<lparr>lh_n = 0, lh_block = (\<lambda>_. 0)\<rparr>\<rparr>"
  "inodes fs1 = (\<lambda>i. if i = 1 then inode1\<lparr>i_inum := 2, i_type := T_FILE, i_size := 1500\<rparr> else inode1)"
  "sb_size (sb fs1) = 64" "sb_bmapstart (sb fs1) = 45" "sb_inodestart (sb fs1) = 32"
  by (simp_all add: fs1_def fslog.defs bio.defs bio1_def bio_boot_def)

lemma fs1_cached: "cached 1 (bufs fs1) b = None"
  by (simp add: cached_def find_None_iff fs1_simps bio1_def buf0_def)

lemma fs1_view: "view 1 fs1 b = disk1 (unat b)"
  by (simp add: view_def blkv_def fs1_cached) (simp add: fs1_simps)

lemma fs1_tx: "k \<le> 28 \<Longrightarrow> tx 1 {} k fs1"
proof -
  assume k: "k \<le> 28"
  have "dll (bufs fs1) [0..<NBUF]" using bio1_list by (simp add: fs1_simps)
  then have "bio_inv 1 {} fs1"
    by (auto simp: bio_inv_def fs1_simps bio1_def bio_boot_def buf0_def uniq_def clean_def bio_idle_def no_proc_locks_def)
  then show ?thesis
    using k by (simp add: tx_def orefs_def held_blocks_def rcnt_def fs1_cached) (simp add: fs1_simps LOGSIZE_def MAXOPBLOCKS_def NBUF_def)
qed

lemma fs1_bitmap: "BBLOCK (of_nat b) (sb fs1) = 45" if "b < 64"
  using that by (subst BBLOCK_nat) (simp_all add: fs1_simps BPB_def BSIZE_def)

lemma fs1_free: "free_blocks 1 fs1 = {48..<64}" "bitmap_blocks fs1 = {45}"
proof -
  have nb: "nblocks fs1 = 64" by (simp add: nblocks_def fs1_simps)
  have "block_free 1 fs1 b \<longleftrightarrow> 48 \<le> b" if "b < 64" for b
  proof -
    have m: "b mod BPB = b" using that by (simp add: BPB_def BSIZE_def)
    have "(255 :: byte) = - 1" by simp
    then have "bit (255 :: byte) n" if "n < 8" for n using that by (simp only:) (simp add: bit_minus_1_iff)
    then show ?thesis using that by (auto simp: block_free_def fs1_bitmap [OF that] m fs1_view disk1_def bit_free_bit)
  qed
  then show "free_blocks 1 fs1 = {48..<64}" by (auto simp: free_blocks_def nb)
  show "bitmap_blocks fs1 = {45}" using fs1_bitmap by (auto simp: bitmap_blocks_def nb image_def intro: exI [of _ 0])
qed

lemma fs1_bitmap_ok: "bitmap_ok 1 {} fs1"
proof -
  have "(of_nat b :: uint) \<noteq> 45" if "b \<in> {48..<64}" for b
    using of_nat_inj32 [of b 45] that by auto
  then show ?thesis by (auto simp: bitmap_ok_def fs1_free held_blocks_def)
qed

theorem balloc_correct_witness:
  "tx 1 {} 3 fs1 \<and> bitmap_ok 1 {} fs1 \<and> (\<exists>r t. balloc 1 fs1 = Ret r t \<and> unat r \<in> {48..<64} \<and> free_blocks 1 t = {48..<64} - {unat r} \<and>
     (\<forall>i < BSIZE. view 1 t r i = 0) \<and> view 1 t 47 = view 1 fs1 47 \<and> (\<exists>u. bfree 1 r t = Ret () u \<and> free_blocks 1 u = {48..<64}))"
proof -
  have "tx 1 {} 3 fs1" by (rule fs1_tx) simp
  then obtain r t where t: "balloc 1 fs1 = Ret r t" "unat r \<in> {48..<64}" "free_blocks 1 t = {48..<64} - {unat r}"
      "\<forall>i < BSIZE. view 1 t r i = 0" "\<forall>c. c \<noteq> r \<longrightarrow> c \<notin> {45} \<longrightarrow> view 1 t c = view 1 fs1 c"
      "\<exists>u. bfree 1 r t = Ret () u \<and> free_blocks 1 u = {48..<64}"
    using balloc_correct [of 1 "{}" 0 fs1] fs1_bitmap_ok unfolding fs1_free
    by (simp add: numeral_3_eq_3 del: One_nat_def) blast
  moreover have "r \<noteq> 47" using t(2) by auto
  ultimately show ?thesis using fs1_tx [of 3] fs1_bitmap_ok by auto
qed

declare of_nat_mult [simp] of_nat_add [simp]

end
