(* ===== verification/Fs_Read.thy ===== *)
theory Fs_Read
  imports Fs_Alloc
begin

text \<open>
  The contents of a file: the block numbers in the inode and in its indirect block, the bytes behind them, and
  readi(), which copies them out.  Where it copies to is an interface: either_copyout() to the kernel's memory or
  to the pages of the user.
\<close>

section \<open>Files in the view\<close>

definition addr_of :: "uint \<Rightarrow> 'a bio_scheme \<Rightarrow> inode \<Rightarrow> nat \<Rightarrow> uint" where
  "addr_of d s q bn = (if bn < NDIRECT then i_addrs q bn
     else if i_addrs q NDIRECT = 0 then 0 else get32 (view d s (i_addrs q NDIRECT)) (4 * (bn - NDIRECT)))"

definition file_byte :: "uint \<Rightarrow> 'a bio_scheme \<Rightarrow> inode \<Rightarrow> nat \<Rightarrow> byte" where
  "file_byte d s q off = view d s (addr_of d s q (off div BSIZE)) (off mod BSIZE)"

text \<open>The blocks of the bytes below n are allocated.\<close>

definition mapped :: "uint \<Rightarrow> 'a bio_scheme \<Rightarrow> inode \<Rightarrow> nat \<Rightarrow> bool" where
  "mapped d s q n \<longleftrightarrow> n \<le> MAXFILE * BSIZE \<and> (\<forall>off < n. addr_of d s q (off div BSIZE) \<noteq> 0)"

lemma addr_of_cong: "view d t = view d s \<Longrightarrow> addr_of d t q = addr_of d s q"
  by (rule ext) (simp add: addr_of_def)

lemma file_byte_cong: "view d t = view d s \<Longrightarrow> file_byte d t q = file_byte d s q"
  using addr_of_cong [of d t s q] by (simp add: file_byte_def fun_eq_iff)

lemma mapped_cong: "view d t = view d s \<Longrightarrow> mapped d t q n = mapped d s q n"
  using addr_of_cong [of d t s q] by (simp add: mapped_def)

lemma bmap_mapped:
  fixes s :: "'a fs_scheme"
  assumes s: "tx d L k s" and L: "card L < 2" and d: "i_dev (inodes s ip) = d" and bn: "bn < MAXFILE"
    and a: "addr_of d s (inodes s ip) bn \<noteq> 0" and h: "i_addrs (inodes s ip) NDIRECT \<notin> held_blocks L s"
  shows "\<exists>t. bmap ip (of_nat bn) s = Ret (addr_of d s (inodes s ip) bn) t \<and> tx d L k t \<and> view d t = view d s \<and> same_fs s t \<and> keeps L s t"
proof -
  let ?q = "inodes s ip"
  have u: "unat (of_nat bn :: uint) = bn" using bn by (intro unat_of_nat32) (simp add: MAXFILE_def NDIRECT_def NINDIRECT_def BSIZE_def)
  show ?thesis
  proof (cases "bn < NDIRECT")
    case True
    then have "bmap ip (of_nat bn) s = Ret (addr_of d s ?q bn) s"
      using a u by (simp add: bmap_def the_inode_def bind_gets return_apply addr_of_def)
    then show ?thesis using s by (auto simp: keeps_def)
  next
    case False
    let ?i = "i_addrs ?q NDIRECT"
    have i: "?i \<noteq> 0" and a': "addr_of d s ?q bn = get32 (view d s ?i) (4 * (bn - NDIRECT))" using a False by (auto simp: addr_of_def)
    have "(of_nat bn :: uint) - of_nat NDIRECT = of_nat (bn - NDIRECT)" using False by simp
    then have u': "unat ((of_nat bn :: uint) - of_nat NDIRECT) = bn - NDIRECT"
      using bn by (simp only:) (intro unat_of_nat32, simp add: MAXFILE_def NDIRECT_def NINDIRECT_def BSIZE_def)
    have lt: "bn - NDIRECT < NINDIRECT" using bn False by (simp add: MAXFILE_def)
    obtain b t1 where t1: "bread d ?i s = Ret b t1" "got d L k s ?i b t1" using tx_bread [OF s L h] by blast
    have g: "tx d (insert b L) k t1" "b \<notin> L" "b_data (bufs t1 b) = view d s ?i" "view d t1 = view d s" "same_world s t1"
        "\<forall>j \<in> L. bcont (bufs t1 j) = bcont (bufs s j)"
      using t1(2) by (auto simp: got_def)
    obtain t where t: "brelse b t1 = Ret () t" "tx d (insert b L - {b}) k t" "view d t = view d t1" "same_world t1 t"
        "\<forall>j \<in> insert b L - {b}. bcont (bufs t j) = bcont (bufs t1 j)"
      using tx_brelse [OF g(1) insertI1] by blast
    have m: "insert b L - {b} = L" using g(2) by auto
    have "bmap ip (of_nat bn) s = Ret (addr_of d s ?q bn) t"
      using False lt i a a' t1(1) t(1) g(3) d u u'
      by (simp add: bmap_def Let_def the_inode_def bind_gets bind_return bind_Ret buf_data_def return_apply)
    moreover have "keeps L s t" using keeps_trans [OF keeps_bcont keeps_bcont] g(6) t(5) unfolding m by blast
    moreover have "same_fs s t" using g(5) t(4) same_world_fs same_fs_trans by blast
    ultimately show ?thesis using t(2,3) g(4) unfolding m by auto
  qed
qed

section \<open>Where the bytes go\<close>

lemma tx_mem [simp]: "tx d L k (s\<lparr>mem := m, freelist := f\<rparr>) = tx d L k s" "view d (s\<lparr>mem := m, freelist := f\<rparr>) = view d s"
  by (simp_all add: tx_def bio_inv_def bio_idle_def no_proc_locks_def held_sleep_def orefs_def held_blocks_def view_def)

lemma same_fs_mem:
  fixes s t :: "'a fslog_scheme"
  assumes "same_fs s t"
  shows "same_fs (s\<lparr>mem := m, freelist := f\<rparr>) (t\<lparr>mem := m, freelist := f\<rparr>)"
proof -
  have "bio.more (t\<lparr>mem := m, freelist := f\<rparr>) = bio.more (s\<lparr>mem := m, freelist := f, klog := klog t\<rparr>)"
    using assms by (cases s; cases t) (simp add: same_fs_def same_world_def)
  then show ?thesis using assms by (simp add: same_fs_def same_world_def)
qed

text \<open>Nothing but memory has changed.\<close>

definition same_file :: "'a fslog_scheme \<Rightarrow> 'a fslog_scheme \<Rightarrow> bool" where
  "same_file s t \<longleftrightarrow> (\<exists>m f. same_fs (s\<lparr>mem := m, freelist := f\<rparr>) t)"

lemma same_fs_file: "same_fs s t \<Longrightarrow> same_file s t"
  unfolding same_file_def by (rule exI [of _ "mem s"], rule exI [of _ "freelist s"]) simp

lemma only_mem_file: "only_mem s t \<Longrightarrow> same_file s t"
  unfolding same_file_def using same_fs_refl by (elim only_memE) blast

lemma same_file_trans: "same_file s t \<Longrightarrow> same_file t u \<Longrightarrow> same_file s u"
proof -
  assume "same_file s t" "same_file t u"
  then obtain m f m' f' where a: "same_fs (s\<lparr>mem := m, freelist := f\<rparr>) t" "same_fs (t\<lparr>mem := m', freelist := f'\<rparr>) u"
    by (auto simp: same_file_def)
  have "same_fs (s\<lparr>mem := m', freelist := f'\<rparr>) (t\<lparr>mem := m', freelist := f'\<rparr>)" using same_fs_mem [OF a(1), where m = m' and f = f'] by simp
  from same_fs_trans [OF this a(2)] show ?thesis unfolding same_file_def by blast
qed

lemma same_fileD:
  fixes s t :: "'a fs_scheme"
  assumes "same_file s t"
  shows "sb t = sb s" and "inodes t = inodes s" and "curproc t = curproc s" and "held t = held s"
    and "p_pagetable (procs t p) = p_pagetable (procs s p)" and "p_kstack (procs t p) = p_kstack (procs s p)"
    and "slocks t (SlInode i) = slocks s (SlInode i)" and "cons_out t = cons_out s"
  using assms same_fsD [where s = "s\<lparr>mem := m, freelist := f\<rparr>" and t = t for m f] by (auto simp: same_file_def)

text \<open>
  The contract of either_copyout(): a destination that is fine takes the bytes and changes in no other place, and
  the file system does not change what is there.
\<close>

locale copy_sink =
  fixes user :: bool and fine :: "'a fs_scheme \<Rightarrow> uint64 \<Rightarrow> bool" and byte_at :: "'a fs_scheme \<Rightarrow> uint64 \<Rightarrow> byte"
  assumes copy_fine: "\<forall>i < length bs. fine s (a + of_nat i) \<Longrightarrow> bs \<noteq> [] \<Longrightarrow> length bs < 2 ^ 32 \<Longrightarrow>
      \<exists>t. either_copyout user a bs s = Ret 0 t \<and> only_mem s t \<and> fine t = fine s \<and>
        (\<forall>v. fine s v \<longrightarrow> byte_at t v = (if unat (v - a) < length bs then bs ! unat (v - a) else byte_at s v))"
    and fine_same: "same_fs s t \<Longrightarrow> fine t = fine s"
    and byte_same: "same_fs s t \<Longrightarrow> byte_at t = byte_at s"

lemma shift_range:
  fixes v a :: uint64
  assumes "m \<le> N" and "N < 2 ^ 32"
  shows "unat (v - (a + of_nat m)) < N - m \<longleftrightarrow> m \<le> unat (v - a) \<and> unat (v - a) < N"
    and "m \<le> unat (v - a) \<Longrightarrow> unat (v - (a + of_nat m)) = unat (v - a) - m"
proof -
  have um: "unat (of_nat m :: uint64) = m" using assms by (intro unat_of_nat_64) simp
  have e: "v - (a + of_nat m) = (v - a) - of_nat m" by simp
  show sub: "unat (v - (a + of_nat m)) = unat (v - a) - m" if "m \<le> unat (v - a)"
    unfolding e using that um by (simp add: unat_sub word_le_nat_alt)
  have "2 ^ 64 - m \<le> unat (v - (a + of_nat m))" if "\<not> m \<le> unat (v - a)"
    unfolding e using that um unat_sub_if' [of "v - a" "of_nat m"] by (auto simp: word_le_nat_alt)
  then show "unat (v - (a + of_nat m)) < N - m \<longleftrightarrow> m \<le> unat (v - a) \<and> unat (v - a) < N"
    using sub assms by (cases "m \<le> unat (v - a)") auto
qed

lemma chunk_nat:
  assumes "tot \<le> n"
  shows "unat (chunk n tot off) = min (unat n - unat tot) (BSIZE - unat off mod BSIZE)"
proof -
  have "unat (n - tot) = unat n - unat tot" using assms by (rule unat_sub)
  moreover have "unat (off mod 1024) = unat off mod 1024" by (simp add: unat_mod)
  moreover from this have "unat (1024 - off mod 1024) = 1024 - unat off mod 1024"
    by (subst unat_sub) (simp_all add: word_le_nat_alt less_imp_le)
  ultimately show ?thesis by (auto simp: chunk_def BSIZE_def min_def word_le_nat_alt)
qed

lemma same_block:
  assumes "off mod BSIZE + j < BSIZE"
  shows "(off + j) div BSIZE = off div BSIZE \<and> (off + j) mod BSIZE = off mod BSIZE + j"
proof -
  have e: "off + j = (off mod BSIZE + j) + off div BSIZE * BSIZE" using div_mult_mod_eq [of off BSIZE] by simp
  have z: "BSIZE \<noteq> 0" by (simp add: BSIZE_def)
  show ?thesis using assms unfolding e div_mult_self1 [OF z] mod_mult_self1 by simp
qed

text \<open>One round of the loop: the bytes of one block.\<close>

context copy_sink
begin

lemma read_chunk:
  fixes s :: "'a fs_scheme"
  assumes s: "tx d {} k s" and d: "i_dev (inodes s ip) = d" and mp: "mapped d s (inodes s ip) (off + m)"
    and m: "0 < m" "off mod BSIZE + m \<le> BSIZE" and f: "\<forall>i < m. fine s (dst + of_nat i)"
  shows "\<exists>t1 i t2 t3 t4. bmap ip (of_nat (off div BSIZE)) s = Ret (addr_of d s (inodes s ip) (off div BSIZE)) t1 \<and>
    inodes t1 = inodes s \<and> bread d (addr_of d s (inodes s ip) (off div BSIZE)) t1 = Ret i t2 \<and>
    either_copyout user dst (blk_bytes (b_data (bufs t2 i)) (off mod BSIZE) m) t2 = Ret 0 t3 \<and> brelse i t3 = Ret () t4 \<and>
    tx d {} k t4 \<and> view d t4 = view d s \<and> same_file s t4 \<and> fine t4 = fine s \<and>
    (\<forall>v. fine s v \<longrightarrow> byte_at t4 v = (if unat (v - dst) < m then file_byte d s (inodes s ip) (off + unat (v - dst)) else byte_at s v))"
proof -
  let ?q = "inodes s ip" and ?a = "addr_of d s (inodes s ip) (off div BSIZE)"
  have BS: "BSIZE = 1024" by (simp add: BSIZE_def)
  have "off < MAXFILE * BSIZE" using mp m by (simp add: mapped_def)
  then have bn: "off div BSIZE < MAXFILE" by (simp add: less_mult_imp_div_less)
  have a: "?a \<noteq> 0" using mp m by (simp add: mapped_def)
  obtain t1 where t1: "bmap ip (of_nat (off div BSIZE)) s = Ret ?a t1" "tx d {} k t1" "view d t1 = view d s" "same_fs s t1"
    using bmap_mapped [OF s _ d bn a] by (auto simp: held_blocks_def)
  obtain i t2 where t2: "bread d ?a t1 = Ret i t2" "got d {} k t1 ?a i t2" using tx_bread [OF t1(2), of ?a] by (auto simp: held_blocks_def)
  have g: "tx d {i} k t2" "b_data (bufs t2 i) = view d s ?a" "view d t2 = view d s" "same_fs s t2"
    using t2(2) t1(3) same_world_same_fs(2) [OF t1(4)] by (simp_all add: got_def)
  let ?bs = "blk_bytes (view d s ?a) (off mod BSIZE) m"
  have "length ?bs < 2 ^ 32" "?bs \<noteq> []" using m BS by (auto simp: blk_bytes_def)
  then obtain t3 where t3: "either_copyout user dst ?bs t2 = Ret 0 t3" "only_mem t2 t3" "fine t3 = fine s"
      "\<forall>v. fine s v \<longrightarrow> byte_at t3 v = (if unat (v - dst) < m then ?bs ! unat (v - dst) else byte_at s v)"
    using copy_fine [of ?bs t2 dst] f fine_same [OF g(4)] byte_same [OF g(4)] by auto
  have "tx d {i} k t3" "view d t3 = view d s" using t3(2) g(1,3) by (auto elim!: only_memE)
  then obtain t4 where t4: "brelse i t3 = Ret () t4" "tx d ({i} - {i}) k t4" "view d t4 = view d s" "same_world t3 t4"
    using tx_brelse [of d "{i}" k t3 i] by auto
  have "same_file s t4"
    using same_fs_file [OF g(4)] only_mem_file [OF t3(2)] same_fs_file [OF same_world_fs [OF t4(4)]] same_file_trans by blast
  moreover have "?bs ! j = file_byte d s ?q (off + j)" if "j < m" for j
    using that m same_block [of off j] by (simp add: file_byte_def)
  moreover have "inodes t1 = inodes s" by (rule same_fsD(2) [OF t1(4)])
  ultimately show ?thesis
    using t1(1) t2(1) t3 t4 g(2) fine_same [OF same_world_fs [OF t4(4)]] byte_same [OF same_world_fs [OF t4(4)]] by auto
qed

end

lemma unat_add32: "unat a + unat b < 2 ^ 32 \<Longrightarrow> unat (a + b) = unat a + unat b" for a b :: uint
  by (simp add: unat_word_ariths)

lemma off_block: "(off :: uint) div of_nat BSIZE = of_nat (unat off div BSIZE)"
proof -
  have "unat off div BSIZE < 2 ^ 32" using unat32_less [of off] div_le_dividend [of "unat off" BSIZE] by linarith
  then show ?thesis by (intro word_unat_eq_iff [THEN iffD2]) (simp add: unat_div unat_of_nat32 BSIZE_def)
qed

lemma maxfile_less: "n \<le> MAXFILE * BSIZE \<Longrightarrow> n < 2 ^ 32"
  by (simp add: MAXFILE_def NDIRECT_def NINDIRECT_def BSIZE_def)

context copy_sink
begin

lemma readi_loop_ok:
  fixes s :: "'a fs_scheme"
  assumes "tx d {} k s" and "i_dev (inodes s ip) = d" and "tot \<le> n"
    and "mapped d s (inodes s ip) (unat off + (unat n - unat tot))" and "\<forall>i < unat n - unat tot. fine s (dst + of_nat i)"
  shows "\<exists>t. readi_loop ip user n tot off dst s = Ret n t \<and> tx d {} k t \<and> view d t = view d s \<and> same_file s t \<and> fine t = fine s \<and>
    (\<forall>v. fine s v \<longrightarrow> byte_at t v =
       (if unat (v - dst) < unat n - unat tot then file_byte d s (inodes s ip) (unat off + unat (v - dst)) else byte_at s v))"
  using assms
proof (induction "unat n - unat tot" arbitrary: tot off dst s rule: less_induct)
  case less
  show ?case
  proof (cases "tot < n")
    case False
    then have "tot = n" using less.prems(3) by simp
    then show ?thesis
      using less.prems by (intro exI [of _ s]) (simp add: readi_loop.simps [of ip user n n] return_apply same_fs_file)
  next
    case True
    define N where "N = unat n - unat tot"
    define m where "m = min N (BSIZE - unat off mod BSIZE)"
    have N: "0 < N" "N < 2 ^ 32" using True unat32_less [of n] by (auto simp: N_def word_less_nat_alt)
    have "unat off mod BSIZE < BSIZE" by (simp add: BSIZE_def)
    then have m: "0 < m" "m \<le> N" "unat off mod BSIZE + m \<le> BSIZE" "m < 2 ^ 32" using N by (auto simp: m_def)
    have c: "unat (chunk n tot off) = m" using chunk_nat [OF less.prems(3), of off] by (simp add: m_def N_def)
    have mp: "mapped d s (inodes s ip) (unat off + m)" using less.prems(4) m by (auto simp: mapped_def N_def)
    have lim: "unat off + N < 2 ^ 32" using less.prems(4) by (intro maxfile_less) (simp add: mapped_def N_def)
    have f: "\<forall>i < m. fine s (dst + of_nat i)" using less.prems(5) m by (auto simp: N_def)
    let ?a = "addr_of d s (inodes s ip) (unat off div BSIZE)"
    obtain t1 i t2 t3 t4 where t: "bmap ip (of_nat (unat off div BSIZE)) s = Ret ?a t1" "inodes t1 = inodes s" "bread d ?a t1 = Ret i t2"
        "either_copyout user dst (blk_bytes (b_data (bufs t2 i)) (unat off mod BSIZE) m) t2 = Ret 0 t3" "brelse i t3 = Ret () t4"
        "tx d {} k t4" "view d t4 = view d s" "same_file s t4" "fine t4 = fine s"
        "\<forall>v. fine s v \<longrightarrow> byte_at t4 v = (if unat (v - dst) < m then file_byte d s (inodes s ip) (unat off + unat (v - dst)) else byte_at s v)"
      using read_chunk [OF less.prems(1,2) mp m(1,3) f] by blast
    let ?c = "chunk n tot off"
    have a: "?a \<noteq> 0" using mp m by (simp add: mapped_def)
    have run: "readi_loop ip user n tot off dst s = readi_loop ip user n (tot + ?c) (off + ?c) (dst + ucast ?c) t4"
      by (subst readi_loop.simps)
        (use True t(1-5) a less.prems(2) c in \<open>simp add: off_block bind_Ret the_inode_def buf_data_def bind_gets\<close>)
    have u: "unat (tot + ?c) = unat tot + m" "unat (off + ?c) = unat off + m"
      using unat_add32 [of tot ?c] unat_add32 [of off ?c] c m(2) lim unat32_less [of n] less.prems(3) by (auto simp: N_def word_le_nat_alt)
    have cd: "(ucast ?c :: uint64) = of_nat m" using ucast_of_nat [of ?c] c by simp
    have N': "unat n - unat (tot + ?c) = N - m" using u by (simp add: N_def)
    have ino: "inodes t4 = inodes s" by (rule same_fileD(2) [OF t(8)])
    have f4: "\<forall>i < N - m. fine t4 (dst + ucast ?c + of_nat i)"
    proof (intro allI impI)
      fix i assume "i < N - m"
      then have "fine s (dst + of_nat (m + i))" using less.prems(5) [rule_format, of "m + i"] by (simp add: N_def)
      then show "fine t4 (dst + ucast ?c + of_nat i)" by (simp add: t(9) cd add.assoc)
    qed
    have dec: "unat n - unat (tot + ?c) < unat n - unat tot" using N' m(1) N(1) by (simp add: N_def)
    have le: "tot + ?c \<le> n" using u(1) m(2) N(1) by (simp add: word_le_nat_alt N_def)
    have mp4: "mapped d t4 (inodes t4 ip) (unat (off + ?c) + (unat n - unat (tot + ?c)))"
    proof -
      have "unat off + m + (N - m) = unat off + N" using m(2) by simp
      then show ?thesis using less.prems(4) [folded N_def] unfolding N' u(2) ino mapped_cong [OF t(7)] by (simp only:)
    qed
    have d4: "i_dev (inodes t4 ip) = d" using less.prems(2) ino by simp
    note IH = less.hyps [OF dec t(6) d4 le mp4, of "dst + ucast ?c", unfolded N', OF f4, unfolded u(2) ino]
    obtain t' where t': "readi_loop ip user n (tot + ?c) (off + ?c) (dst + ucast ?c) t4 = Ret n t'" "tx d {} k t'" "view d t' = view d t4"
        "same_file t4 t'" "fine t' = fine t4"
        "\<forall>v. fine t4 v \<longrightarrow> byte_at t' v = (if unat (v - (dst + ucast ?c)) < N - m
           then file_byte d t4 (inodes s ip) (unat off + m + unat (v - (dst + ucast ?c))) else byte_at t4 v)"
      using IH by blast
    have "byte_at t' v = (if unat (v - dst) < N then file_byte d s (inodes s ip) (unat off + unat (v - dst)) else byte_at s v)"
      if v: "fine s v" for v
      using t'(6) t(10) v t(9) m(2) shift_range [OF m(2) N(2), of v dst] file_byte_cong [OF t(7)] unfolding cd by auto
    then show ?thesis
      using run t' t(7-9) same_file_trans by (auto simp: N_def [symmetric])
  qed
qed

end

text \<open>The number of bytes readi() delivers.\<close>

definition avail :: "inode \<Rightarrow> uint \<Rightarrow> uint \<Rightarrow> nat" where
  "avail q off n = min (unat n) (unat (i_size q) - unat off)"

definition file_ok :: "uint \<Rightarrow> 'a bio_scheme \<Rightarrow> inode \<Rightarrow> bool" where
  "file_ok d s q \<longleftrightarrow> i_dev q = d \<and> mapped d s q (unat (i_size q))"

context copy_sink
begin

lemma readi_ok:
  fixes s :: "'a fs_scheme"
  assumes s: "tx d {} k s" and q: "file_ok d s (inodes s ip)" and off: "off \<le> i_size (inodes s ip)" and n: "unat off + unat n < 2 ^ 32"
    and f: "\<forall>i < avail (inodes s ip) off n. fine s (dst + of_nat i)"
  shows "\<exists>t. readi ip user dst off n s = Ret (int (avail (inodes s ip) off n)) t \<and> tx d {} k t \<and> view d t = view d s \<and> same_file s t \<and>
    (\<forall>v. fine s v \<longrightarrow> byte_at t v = (if unat (v - dst) < avail (inodes s ip) off n
       then file_byte d s (inodes s ip) (unat off + unat (v - dst)) else byte_at s v))"
proof -
  let ?q = "inodes s ip" and ?N = "avail (inodes s ip) off n"
  have u: "unat (off + n) = unat off + unat n" using n by (rule unat_add32)
  define n' where "n' = (if i_size ?q < off + n then i_size ?q - off else n)"
  have un: "unat n' = ?N" using u off by (auto simp: n'_def avail_def unat_sub word_less_nat_alt word_le_nat_alt)
  have guard: "\<not> (i_size ?q < off \<or> off + n < off)" using off u by (auto simp: word_less_nat_alt word_le_nat_alt)
  have mp: "mapped d s ?q (unat off + (unat n' - unat (0 :: uint)))"
    using q off unfolding un by (auto simp: file_ok_def mapped_def avail_def word_le_nat_alt)
  have dv: "i_dev ?q = d" using q by (simp add: file_ok_def)
  from readi_loop_ok [OF s dv _ mp, of dst] obtain t where t: "readi_loop ip user n' 0 off dst s = Ret n' t" "tx d {} k t" "view d t = view d s"
      "same_file s t" "\<forall>v. fine s v \<longrightarrow> byte_at t v = (if unat (v - dst) < ?N then file_byte d s ?q (unat off + unat (v - dst)) else byte_at s v)"
    using f un by auto
  have "?N \<le> MAXFILE * BSIZE" using mp un by (simp add: mapped_def)
  then have "unat n' < 2 ^ 31" unfolding un by (simp add: MAXFILE_def NDIRECT_def NINDIRECT_def BSIZE_def)
  then have "readi ip user dst off n s = Ret (int ?N) t"
    using t(1) guard un sint_small32 [of n'] by (simp add: readi_def the_inode_def bind_gets Let_def n'_def [symmetric] bind_Ret return_apply)
  then show ?thesis using t by blast
qed

end

text \<open>The kernel's own memory, and the pages of the process that may be written.\<close>

definition user_root :: "'a machine_scheme \<Rightarrow> addr" where
  "user_root s = p_pagetable (procs s (the (curproc s)))"

definition user_fine :: "'a fs_scheme \<Rightarrow> uint64 \<Rightarrow> bool" where
  "user_fine s v \<longleftrightarrow> curproc s \<noteq> None \<and> as_inv s (user_root s) \<and> uwritable (mem s) (user_root s) v"

interpretation kernel_sink: copy_sink False "\<lambda>_ _. True" "\<lambda>s. mem s"
proof (unfold_locales, goal_cases)
  case (1 bs s a)
  let ?t = "s\<lparr>mem := wr_bytes (mem s) a bs\<rparr>"
  have "either_copyout False a bs s = Ret 0 ?t"
    by (simp add: either_copyout_def myproc_def bind_gets kwrite_def bind_modify return_apply set_mem_def)
  moreover have "mem ?t v = (if unat (v - a) < length bs then bs ! unat (v - a) else mem s v)" for v
    by (simp add: wr_bytes_def)
  ultimately show ?case by (intro exI [of _ ?t]) simp
qed (simp_all add: same_fsD(4))

interpretation user_sink: copy_sink True user_fine "\<lambda>s. ubyte (mem s) (user_root s)"
proof (unfold_locales, goal_cases)
  case (1 bs s a)
  let ?r = "user_root s"
  have "user_fine s (a + of_nat 0)" using 1 by (metis length_greater_0_conv)
  then obtain p where p: "curproc s = Some p" and inv: "as_inv s ?r" by (auto simp: user_fine_def)
  have r: "?r = p_pagetable (procs s p)" by (simp add: user_root_def p)
  have w: "\<forall>i < length bs. uwritable (mem s) ?r (a + of_nat i)" using 1 by (simp add: user_fine_def)
  have "length bs < 2 ^ 64" using 1(3) by simp
  from copyout_spec [OF inv this, of a] w obtain t where t: "copyout ?r a bs s = Ret 0 t" "as_ext s ?r t"
      "\<forall>v. uaddr_ok (mem s) ?r v \<longrightarrow> ubyte (mem t) ?r v = (if unat (v - a) < length bs then bs ! unat (v - a) else ubyte (mem s) ?r v)"
    by blast
  have o: "only_mem s t" "as_inv t ?r" using t(2) by (simp_all add: as_ext_def)
  have root: "user_root t = ?r" "curproc t = Some p" using only_memD(3,4) [OF o(1)] p by (simp_all add: user_root_def)
  have "either_copyout True a bs s = Ret 0 t"
    using t(1) by (simp add: either_copyout_def myproc_def bind_gets p deref_def bind_return r)
  moreover have "user_fine t = user_fine s"
    using as_ext_ok(2) [OF t(2)] o(2) inv p root by (auto simp: user_fine_def fun_eq_iff)
  ultimately show ?case using t(3) o(1) root by (auto simp: user_fine_def uwritable_def)
next
  case (2 s t)
  then have "as_inv t (user_root s) = as_inv s (user_root s)" by (intro as_inv_cong) (simp_all add: same_fsD)
  then show ?case using same_fsD(4,6,10) [OF 2] by (intro ext) (simp add: user_fine_def user_root_def)
next
  case (3 s t)
  then show ?case using same_fsD [OF 3] by (simp add: user_root_def)
qed


text \<open>The state \<open>fs1\<close> with the page table of \<open>vm0\<close>: one writable user page at address 0.\<close>

definition fs_u :: fs where
  "fs_u = fs1\<lparr>mem := vm0_mem, freelist := 0, kend := 0x80022000, procs := (\<lambda>q. procs fs1 q\<lparr>p_pagetable := 0x80022000\<rparr>)\<rparr>"

lemma fs_u_tx: "k \<le> 28 \<Longrightarrow> tx 1 {} k fs_u" "view 1 fs_u = view 1 fs1" "inodes fs_u = inodes fs1" "curproc fs_u = Some 0"
    "mem fs_u = vm0_mem" "p_pagetable (procs fs_u 0) = 0x80022000"
  using fs1_tx [of k]
  by (simp_all add: fs_u_def tx_def bio_inv_def bio_idle_def no_proc_locks_def held_sleep_def orefs_def held_blocks_def view_def fs1_simps)

lemma fs_u_as: "as_inv fs_u 0x80022000"
  using vm0_as by (subst as_inv_cong [of _ vm0]) (simp_all add: fs_u_def vm0_def fs1_simps)


end
