(* ===== verification/Ring.thy ===== *)
theory Ring
  imports Prelude
begin

text \<open>
  Ring buffers indexed by free-running counters, as the pipe, the console and the UART use
  them.  The locale \<open>bounded_queue\<close> is the contract their clients rely on; \<open>ring\<close> is
  the list a pair of counters stands for.  The counters may wrap: the buffer size divides the range of
  the counter type.
\<close>

section \<open>The contract\<close>

datatype 'x qop = Put 'x | Get

locale bounded_queue =
  fixes items :: "'s \<Rightarrow> 'x list"
    and cap :: nat
    and inv :: "'s \<Rightarrow> bool"
    and put :: "'x \<Rightarrow> 's \<Rightarrow> 's"
    and get :: "'s \<Rightarrow> 'x \<times> 's"
  assumes put_items: "inv s \<Longrightarrow> length (items s) < cap \<Longrightarrow> items (put x s) = items s @ [x]"
    and put_inv: "inv s \<Longrightarrow> length (items s) < cap \<Longrightarrow> inv (put x s)"
    and get_items: "inv s \<Longrightarrow> items s \<noteq> [] \<Longrightarrow> items s = fst (get s) # items (snd (get s))"
    and get_inv: "inv s \<Longrightarrow> items s \<noteq> [] \<Longrightarrow> inv (snd (get s))"
    and cap_bound: "inv s \<Longrightarrow> length (items s) \<le> cap"
begin

text \<open>
  A sequence of operations in which a put to a full queue and a get from an empty one wait: they
  are skipped.  \<open>qrun\<close> returns the values taken out, in order.
\<close>

fun qrun :: "'x qop list \<Rightarrow> 's \<Rightarrow> 'x list \<times> 's" where
  "qrun [] s = ([], s)"
| "qrun (Put x # ops) s = (if length (items s) < cap then qrun ops (put x s) else qrun ops s)"
| "qrun (Get # ops) s =
     (if items s \<noteq> [] then let (xs, t) = qrun ops (snd (get s)) in (fst (get s) # xs, t) else qrun ops s)"

fun accepted :: "'x qop list \<Rightarrow> 's \<Rightarrow> 'x list" where
  "accepted [] s = []"
| "accepted (Put x # ops) s = (if length (items s) < cap then x # accepted ops (put x s) else accepted ops s)"
| "accepted (Get # ops) s = (if items s \<noteq> [] then accepted ops (snd (get s)) else accepted ops s)"

text \<open>What comes out, followed by what is still inside, is what was inside followed by what went in.\<close>

lemma fifo:
  assumes "inv s"
  shows "fst (qrun ops s) @ items (snd (qrun ops s)) = items s @ accepted ops s"
  using assms
proof (induction ops arbitrary: s)
  case (Cons op ops)
  show ?case
  proof (cases op)
    case (Put x)
    then show ?thesis using Cons put_items [OF Cons.prems, of x] put_inv [OF Cons.prems, of x] by auto
  next
    case Get
    then show ?thesis
      using Cons.IH [of "snd (get s)"] Cons.IH [of s] Cons.prems get_items [OF Cons.prems] get_inv [OF Cons.prems]
      by (auto simp: Let_def split: prod.splits)
  qed
qed simp

lemma qrun_inv: "inv s \<Longrightarrow> inv (snd (qrun ops s))"
proof (induction ops arbitrary: s)
  case (Cons op ops)
  have g: "inv (snd (qrun ops (snd (get s))))" if "items s \<noteq> []" using Cons get_inv [OF _ that] by blast
  show ?case
    using Cons put_inv [of s] g by (cases op) (auto simp: Let_def split: prod.splits)
qed simp

lemma qrun_bounded: "inv s \<Longrightarrow> length (items (snd (qrun ops s))) \<le> cap"
  by (simp add: qrun_inv cap_bound)

end

section \<open>The list between two counters\<close>

definition ring :: "(nat \<Rightarrow> 'x) \<Rightarrow> nat \<Rightarrow> 'a::len word \<Rightarrow> 'a word \<Rightarrow> 'x list" where
  "ring buf N r w = map (\<lambda>i. buf (unat (r + of_nat i) mod N)) [0..<unat (w - r)]"

lemma length_ring [simp]: "length (ring buf N r w) = unat (w - r)"
  by (simp add: ring_def)

lemma ring_empty: "ring buf N r w = [] \<longleftrightarrow> w = r"
proof -
  have "ring buf N r w = [] \<longleftrightarrow> unat (w - r) = 0" by (simp add: ring_def)
  also have "\<dots> \<longleftrightarrow> w = r" by (simp only: unat_eq_zero) simp
  finally show ?thesis .
qed

text \<open>The counters wrap where the buffer does.\<close>

lemma ring_index:
  fixes r :: "'a::len word"
  assumes "N dvd 2 ^ LENGTH('a)"
  shows "unat (r + of_nat i) mod N = (unat r + i) mod N"
proof -
  have "unat (r + of_nat i) = (unat r + i) mod 2 ^ LENGTH('a)"
    by (simp add: unat_word_ariths unat_of_nat take_bit_eq_mod mod_simps)
  then show ?thesis using assms by (simp add: mod_mod_cancel)
qed

lemma ring_put:
  fixes r w :: "'a::len word"
  assumes N: "N dvd 2 ^ LENGTH('a)" "N < 2 ^ LENGTH('a)" and room: "unat (w - r) < N"
  shows "ring (buf(unat w mod N := x)) N r (w + 1) = ring buf N r w @ [x]"
proof -
  let ?n = "unat (w - r)"
  have w: "w = r + of_nat ?n" by simp
  have "unat (w - r + 1) = (?n + 1) mod 2 ^ LENGTH('a)"
    using unat_word_ariths(1) [of "w - r" 1] by simp
  then have l: "unat (w + 1 - r) = Suc ?n" using room N(2) by (simp add: algebra_simps)
  have ix: "unat w mod N = (unat r + ?n) mod N" using ring_index [OF N(1), of r ?n] w by simp
  have ne: "(unat r + i) mod N \<noteq> (unat r + ?n) mod N" if "i < ?n" for i
  proof
    assume "(unat r + i) mod N = (unat r + ?n) mod N"
    then have "N dvd unat r + ?n - (unat r + i)" using that mod_eq_dvd_iff_nat [of "unat r + i" "unat r + ?n" N] by simp
    then have "N dvd ?n - i" by simp
    then have "N \<le> ?n - i" using that by (intro dvd_imp_le) simp_all
    then show False using room by simp
  qed
  have "ring (buf(unat w mod N := x)) N r (w + 1) =
      map (\<lambda>i. (buf(unat w mod N := x)) ((unat r + i) mod N)) [0..<Suc ?n]"
    by (simp only: ring_def l ring_index [OF N(1)])
  also have "\<dots> = map (\<lambda>i. buf ((unat r + i) mod N)) [0..<?n] @ [x]"
    using ne ix by simp
  finally show ?thesis by (simp add: ring_def ring_index [OF N(1)])
qed

lemma ring_put_length:
  fixes r w :: "'a::len word"
  assumes "N < 2 ^ LENGTH('a)" and "unat (w - r) < N"
  shows "unat (w + 1 - r) = Suc (unat (w - r))"
  using unat_word_ariths(1) [of "w - r" 1] assms by (simp add: algebra_simps)

lemma ring_get:
  fixes r w :: "'a::len word"
  assumes "w \<noteq> r"
  shows "ring buf N r w = buf (unat r mod N) # ring buf N (r + 1) w"
proof -
  have "w - r \<noteq> 0" using assms by simp
  then have "unat (w - r - 1) = unat (w - r) - 1" and p: "0 < unat (w - r)" by (simp_all add: unat_minus_one unat_gt_0)
  then have l: "unat (w - r) = Suc (unat (w - (r + 1)))" by (simp add: diff_diff_eq)
  show ?thesis
    unfolding ring_def l upt_conv_Cons [OF zero_less_Suc] map_Suc_upt [symmetric]
    by (simp add: algebra_simps)
qed

lemma ring_full_iff:
  fixes r w :: "'a::len word"
  assumes "N < 2 ^ LENGTH('a)"
  shows "w = r + of_nat N \<longleftrightarrow> unat (w - r) = N"
proof
  assume "unat (w - r) = N"
  then have "of_nat (unat (w - r)) = (of_nat N :: 'a word)" by simp
  then show "w = r + of_nat N" by (simp add: algebra_simps)
next
  assume "w = r + of_nat N"
  then show "unat (w - r) = N" using assms by (simp add: unat_of_nat take_bit_nat_eq_self)
qed

end
