(* ===== verification/Uart.thy ===== *)
theory Uart
  imports Fs Ring
begin

text \<open>
  kernel/uart.c, with consputc() of kernel/console.c on top of it.  The 16550a chip is seen through its
  registers: \<open>uart_rx\<close> are the received bytes the driver has not read yet (bit 0 of LSR says
  there is one), \<open>uart_room\<close> is how many bytes the transmitter accepts before LSR_TX_IDLE is clear,
  and a byte written to THR is sent, that is appended to \<open>cons_out\<close>.  A loop that waits for
  LSR_TX_IDLE ends when the transmitter has drained.  \<open>uart_regs\<close> holds the values of the control
  registers.
\<close>

section \<open>State\<close>

record uart = fs +
  uart_tx_buf :: "nat \<Rightarrow> byte"
  uart_tx_w :: uint64
  uart_tx_r :: uint64
  uart_rx :: "byte list"
  uart_room :: nat
  uart_regs :: "nat \<Rightarrow> byte"
  panicked :: int
  pr_locking :: int

definition UART_TX_BUF_SIZE :: nat where "UART_TX_BUF_SIZE = 32"
definition IER :: nat where "IER = 1"
definition FCR :: nat where "FCR = 2"
definition LCR :: nat where "LCR = 3"
definition IER_RX_ENABLE :: byte where "IER_RX_ENABLE = 1"
definition IER_TX_ENABLE :: byte where "IER_TX_ENABLE = 2"
definition FCR_FIFO_ENABLE :: byte where "FCR_FIFO_ENABLE = 1"
definition FCR_FIFO_CLEAR :: byte where "FCR_FIFO_CLEAR = 6"
definition LCR_EIGHT_BITS :: byte where "LCR_EIGHT_BITS = 3"
definition LCR_BAUD_LATCH :: byte where "LCR_BAUD_LATCH = 0x80"

definition WriteReg :: "nat \<Rightarrow> byte \<Rightarrow> ('a uart_scheme, unit) kproc" where
  "WriteReg r v = modify (\<lambda>s. s\<lparr>uart_regs := (uart_regs s)(r := v)\<rparr>)"

definition write_THR :: "byte \<Rightarrow> ('a uart_scheme, unit) kproc" where
  "write_THR c = modify (\<lambda>s. s\<lparr>cons_out := cons_out s @ [c], uart_room := uart_room s - 1\<rparr>)"

section \<open>The driver\<close>

definition uartinit :: "('a uart_scheme, unit) kproc" where
  "uartinit =
     bind (WriteReg IER 0) (\<lambda>_.
     bind (WriteReg LCR LCR_BAUD_LATCH) (\<lambda>_.
     bind (WriteReg 0 0x03) (\<lambda>_.
     bind (WriteReg 1 0x00) (\<lambda>_.
     bind (WriteReg LCR LCR_EIGHT_BITS) (\<lambda>_.
     bind (WriteReg FCR (FCR_FIFO_ENABLE OR FCR_FIFO_CLEAR)) (\<lambda>_.
     bind (WriteReg IER (IER_TX_ENABLE OR IER_RX_ENABLE)) (\<lambda>_.
     initlk LkUart)))))))"

text \<open>
  uartstart(): each iteration takes one byte out of the buffer, so the number of buffered bytes
  bounds the loop.
\<close>

fun uartstart_loop :: "nat \<Rightarrow> ('a uart_scheme, unit) kproc" where
  "uartstart_loop 0 = hang"
| "uartstart_loop (Suc fuel) =
     bind (gets (\<lambda>s. uart_tx_w s = uart_tx_r s)) (\<lambda>empty.
     if empty then return () else
     bind (gets (\<lambda>s. uart_room s = 0)) (\<lambda>busy.
     if busy then return () else
     bind (gets (\<lambda>s. uart_tx_buf s (unat (uart_tx_r s) mod UART_TX_BUF_SIZE))) (\<lambda>c.
     bind (modify (\<lambda>s. s\<lparr>uart_tx_r := uart_tx_r s + 1\<rparr>)) (\<lambda>_.
     bind (wakeup ChUartR) (\<lambda>_.
     bind (write_THR c) (\<lambda>_.
     uartstart_loop fuel))))))"

definition uartstart :: "('a uart_scheme, unit) kproc" where
  "uartstart = bind (gets (\<lambda>s. unat (uart_tx_w s - uart_tx_r s))) (\<lambda>n. uartstart_loop (Suc n))"

definition uartputc :: "byte \<Rightarrow> ('a uart_scheme, unit) kproc" where
  "uartputc c =
     bind (acq LkUart) (\<lambda>_.
     bind (gets panicked) (\<lambda>pan.
     if pan \<noteq> 0 then hang else
     bind (sleep_while (\<lambda>s. uart_tx_w s = uart_tx_r s + of_nat UART_TX_BUF_SIZE) ChUartR LkUart) (\<lambda>_.
     bind (modify (\<lambda>s. s\<lparr>uart_tx_buf := (uart_tx_buf s)(unat (uart_tx_w s) mod UART_TX_BUF_SIZE := c)\<rparr>)) (\<lambda>_.
     bind (modify (\<lambda>s. s\<lparr>uart_tx_w := uart_tx_w s + 1\<rparr>)) (\<lambda>_.
     bind uartstart (\<lambda>_.
     rel LkUart))))))"

definition uartputc_sync :: "byte \<Rightarrow> ('a uart_scheme, unit) kproc" where
  "uartputc_sync c =
     bind (gets panicked) (\<lambda>pan.
     if pan \<noteq> 0 then hang else
     bind (modify (\<lambda>s. s\<lparr>uart_room := max 1 (uart_room s)\<rparr>)) (\<lambda>_.
     write_THR c))"

definition uartgetc :: "('a uart_scheme, int) kproc" where
  "uartgetc =
     bind (gets uart_rx) (\<lambda>rx.
     case rx of
       c # rest \<Rightarrow> bind (modify (\<lambda>s. s\<lparr>uart_rx := rest\<rparr>)) (\<lambda>_. return (uint c))
     | [] \<Rightarrow> return (-1))"

definition BACKSPACE :: int where "BACKSPACE = 0x100"

definition consputc :: "int \<Rightarrow> ('a uart_scheme, unit) kproc" where
  "consputc c =
     (if c = BACKSPACE then
        bind (uartputc_sync 8) (\<lambda>_. bind (uartputc_sync 32) (\<lambda>_. uartputc_sync 8))
      else uartputc_sync (word_of_int c))"

section \<open>What the driver does\<close>

lemma uartputc_sync_eq:
  "panicked s = 0 \<Longrightarrow> uartputc_sync c s = Ret () (s\<lparr>cons_out := cons_out s @ [c], uart_room := max 1 (uart_room s) - 1\<rparr>)"
  by (simp add: uartputc_sync_def write_THR_def kmon)

text \<open>The bytes in the transmit buffer.\<close>

definition tx_items :: "'a uart_scheme \<Rightarrow> byte list" where
  "tx_items s = ring (uart_tx_buf s) UART_TX_BUF_SIZE (uart_tx_r s) (uart_tx_w s)"

definition tx_ok :: "'a uart_scheme \<Rightarrow> bool" where
  "tx_ok s \<longleftrightarrow> unat (uart_tx_w s - uart_tx_r s) \<le> UART_TX_BUF_SIZE"

definition tx_put :: "byte \<Rightarrow> 'a uart_scheme \<Rightarrow> 'a uart_scheme" where
  "tx_put c s = s\<lparr>uart_tx_buf := (uart_tx_buf s)(unat (uart_tx_w s) mod UART_TX_BUF_SIZE := c), uart_tx_w := uart_tx_w s + 1\<rparr>"

definition tx_get :: "'a uart_scheme \<Rightarrow> byte \<times> 'a uart_scheme" where
  "tx_get s = (uart_tx_buf s (unat (uart_tx_r s) mod UART_TX_BUF_SIZE), s\<lparr>uart_tx_r := uart_tx_r s + 1\<rparr>)"

lemma tx_items_put: "tx_ok s \<Longrightarrow> length (tx_items s) < UART_TX_BUF_SIZE \<Longrightarrow> tx_items (tx_put x s) = tx_items s @ [x]"
  unfolding tx_items_def tx_put_def UART_TX_BUF_SIZE_def by (simp add: ring_put)

lemma tx_items_get: "tx_items s \<noteq> [] \<Longrightarrow> tx_items s = fst (tx_get s) # tx_items (snd (tx_get s))"
  unfolding tx_items_def tx_get_def UART_TX_BUF_SIZE_def by (simp add: ring_empty ring_get)

interpretation uart_queue: bounded_queue tx_items UART_TX_BUF_SIZE tx_ok tx_put tx_get
proof
  fix s :: "'a uart_scheme" and x
  assume ok: "tx_ok s"
  show "length (tx_items s) \<le> UART_TX_BUF_SIZE" using ok by (simp add: tx_items_def tx_ok_def)
  {
    assume room: "length (tx_items s) < UART_TX_BUF_SIZE"
    show "tx_items (tx_put x s) = tx_items s @ [x]" by (rule tx_items_put [OF ok room])
    then have "length (tx_items (tx_put x s)) \<le> UART_TX_BUF_SIZE" using room by simp
    then show "tx_ok (tx_put x s)" by (simp add: tx_items_def tx_ok_def)
  next
    assume ne: "tx_items s \<noteq> []"
    show g: "tx_items s = fst (tx_get s) # tx_items (snd (tx_get s))" by (rule tx_items_get [OF ne])
    have "length (tx_items s) \<le> UART_TX_BUF_SIZE" using ok by (simp add: tx_items_def tx_ok_def)
    then have "length (tx_items (snd (tx_get s))) \<le> UART_TX_BUF_SIZE" using arg_cong [OF g, of length] by simp
    then show "tx_ok (snd (tx_get s))" by (simp add: tx_items_def tx_ok_def)
  }
qed

text \<open>uartstart() sends a prefix of the buffered bytes, as many as the transmitter takes.\<close>

definition tx_sent :: "nat \<Rightarrow> 'a uart_scheme \<Rightarrow> 'a uart_scheme \<Rightarrow> bool" where
  "tx_sent k s t \<longleftrightarrow> cons_out t = cons_out s @ take k (tx_items s) \<and> tx_items t = drop k (tx_items s) \<and>
     held t = held s \<and> panicked t = panicked s \<and> uart_room t = uart_room s - k \<and> tx_ok t \<and>
     uart_tx_w t = uart_tx_w s \<and> uart_tx_buf t = uart_tx_buf s \<and> uart_rx t = uart_rx s"

lemma tx_sent_0: "tx_ok s \<Longrightarrow> tx_sent 0 s s"
  by (simp add: tx_sent_def)

lemma uartstart_loop_spec:
  assumes "tx_ok s" and "no_proc_locks s" and "length (tx_items s) < fuel"
  shows "\<exists>t. uartstart_loop fuel s = Ret () t \<and> tx_sent (min (length (tx_items s)) (uart_room s)) s t"
  using assms
proof (induction fuel arbitrary: s)
  case (Suc fuel)
  show ?case
  proof (cases "tx_items s = [] \<or> uart_room s = 0")
    case True
    then have "uartstart_loop (Suc fuel) s = Ret () s"
      by (auto simp: tx_items_def ring_empty kmon)
    then show ?thesis using True tx_sent_0 [OF Suc.prems(1)] by auto
  next
    case False
    then have ne: "tx_items s \<noteq> []" and room: "uart_room s \<noteq> 0" by auto
    let ?c = "fst (tx_get s)" and ?s1 = "snd (tx_get s)"
    have g: "tx_items s = ?c # tx_items ?s1" and ok1: "tx_ok ?s1"
      using uart_queue.get_items [OF Suc.prems(1) ne] uart_queue.get_inv [OF Suc.prems(1) ne] .
    define s2 where "s2 = ?s1\<lparr>procs := wake_procs ChUartR (curproc s) {..<NPROC} (procs s),
      cons_out := cons_out s @ [?c], uart_room := uart_room s - 1\<rparr>"
    have same: "tx_items s2 = tx_items ?s1" "tx_ok s2 = tx_ok ?s1" "uart_room s2 = uart_room s - 1" "held s2 = held s"
      "cons_out s2 = cons_out s @ [?c]" "panicked s2 = panicked s" "uart_tx_w s2 = uart_tx_w s" "uart_tx_buf s2 = uart_tx_buf s" "uart_rx s2 = uart_rx s"
      by (simp_all add: s2_def tx_items_def tx_ok_def tx_get_def)
    have "no_proc_locks ?s1" using Suc.prems(2) by (simp add: no_proc_locks_def tx_get_def)
    then have "wakeup ChUartR ?s1 = Ret () (?s1\<lparr>procs := wake_procs ChUartR (curproc s) {..<NPROC} (procs s)\<rparr>)"
      by (subst wakeup_eq) (simp_all add: tx_get_def)
    then have run: "uartstart_loop (Suc fuel) s = uartstart_loop fuel s2"
      using ne room by (simp add: krun bind_Ret write_THR_def tx_items_def ring_empty s2_def tx_get_def)
    have "no_proc_locks s2" using Suc.prems(2) by (simp add: no_proc_locks_def same)
    then obtain t where t: "uartstart_loop fuel s2 = Ret () t" "tx_sent (min (length (tx_items s2)) (uart_room s2)) s2 t"
      using Suc.IH [of s2] Suc.prems(3) ok1 g same by (metis Suc_less_SucD length_Cons)
    have "tx_sent (min (length (tx_items s)) (uart_room s)) s t"
      using t(2) room g same unfolding tx_sent_def by (cases "uart_room s") auto
    with t run show ?thesis by auto
  qed
qed simp

declare uartstart_loop.simps [simp del]

lemma uartputc_spec:
  assumes "tx_ok s" and "no_proc_locks s" and "LkUart \<notin> held s" and "panicked s = 0"
    and "length (tx_items s) < UART_TX_BUF_SIZE"
  shows "\<exists>t k. uartputc c s = Ret () t \<and> k = min (Suc (length (tx_items s))) (uart_room s) \<and>
    cons_out t = cons_out s @ take k (tx_items s @ [c]) \<and> tx_items t = drop k (tx_items s @ [c]) \<and> tx_ok t \<and>
    held t = held s \<and> uart_rx t = uart_rx s"
proof -
  let ?s1 = "s\<lparr>held := insert LkUart (held s)\<rparr>"
  have nf: "uart_tx_w s \<noteq> uart_tx_r s + of_nat UART_TX_BUF_SIZE"
    using assms(5) ring_full_iff [of UART_TX_BUF_SIZE "uart_tx_w s" "uart_tx_r s"]
    by (simp add: tx_items_def UART_TX_BUF_SIZE_def)
  have e: "tx_items ?s1 = tx_items s" "tx_ok ?s1 = tx_ok s" "cons_out (tx_put c ?s1) = cons_out s" "uart_room (tx_put c ?s1) = uart_room s"
    "held (tx_put c ?s1) = insert LkUart (held s)" "uart_rx (tx_put c ?s1) = uart_rx s"
    by (simp_all add: tx_items_def tx_ok_def tx_put_def)
  have it: "tx_items (tx_put c ?s1) = tx_items s @ [c]" "tx_ok (tx_put c ?s1)"
    using uart_queue.put_items [of ?s1 c] uart_queue.put_inv [of ?s1 c] assms(1,5) e by simp_all
  have "no_proc_locks (tx_put c ?s1)" using assms(2) by (simp add: no_proc_locks_def tx_put_def)
  then obtain t where t: "uartstart_loop (Suc (length (tx_items s @ [c]))) (tx_put c ?s1) = Ret () t"
      "tx_sent (min (length (tx_items s @ [c])) (uart_room s)) (tx_put c ?s1) t"
    using uartstart_loop_spec [of "tx_put c ?s1" "Suc (length (tx_items s @ [c]))"] it e by auto
  have "unat (uart_tx_w (tx_put c ?s1) - uart_tx_r (tx_put c ?s1)) = length (tx_items s @ [c])"
    using it(1) unfolding tx_items_def by (metis length_ring)
  then have "uartstart (tx_put c ?s1) = Ret () t" using t(1) by (simp add: uartstart_def bind_gets)
  moreover have "held t = insert LkUart (held s)" using t(2) e by (simp add: tx_sent_def)
  ultimately have "uartputc c s = Ret () (t\<lparr>held := held s\<rparr>)"
    using assms(3,4) nf unfolding uartputc_def
    by (simp add: bind_apply gets_apply acq_cases rel_cases modify_apply sleep_while_def when_apply tx_put_def)
  moreover have "tx_items (t\<lparr>held := held s\<rparr>) = tx_items t" "tx_ok (t\<lparr>held := held s\<rparr>) = tx_ok t"
    by (simp_all add: tx_items_def tx_ok_def)
  ultimately show ?thesis using t(2) it e by (auto simp: tx_sent_def)
qed

end
