(* ===== verification/Kprintf.thy ===== *)
theory Kprintf
  imports Uart
begin

text \<open>
  kernel/printf.c: formatted output on the console.  The variable arguments are a list of
  machine words and strings; the format is the bytes of the C string without its nul.
\<close>

section \<open>Numbers\<close>

definition digits :: "byte list" where
  "digits = chars ''0123456789abcdef''"

text \<open>
  The bytes printint() stores in \<open>buf\<close>, least significant digit first.  The callers pass
  base 10 or 16.
\<close>

function digit_bytes :: "nat \<Rightarrow> nat \<Rightarrow> byte list" where
  "digit_bytes x base =
     digits ! (x mod base) # (if x div base = 0 \<or> base < 2 then [] else digit_bytes (x div base) base)"
  by pat_completeness auto
termination
  by (relation "measure fst") (auto simp: div_eq_0_iff intro!: div_less_dividend intro: Suc_lessI)

declare digit_bytes.simps [simp del]

definition print_buf :: "64 word \<Rightarrow> nat \<Rightarrow> bool \<Rightarrow> byte list" where
  "print_buf xx base sign =
     (let neg = (sign \<and> sint xx < 0); x = (if neg then - xx else xx) in
      digit_bytes (unat x) base @ (if neg then [45] else []))"

definition printint :: "64 word \<Rightarrow> nat \<Rightarrow> bool \<Rightarrow> ('a uart_scheme, unit) kproc" where
  "printint xx base sign = forM (rev (print_buf xx base sign)) (\<lambda>c. consputc (uint c))"

fun printptr_loop :: "nat \<Rightarrow> uint64 \<Rightarrow> ('a uart_scheme, unit) kproc" where
  "printptr_loop 0 x = return ()"
| "printptr_loop (Suc i) x =
     bind (consputc (uint (digits ! unat (drop_bit 60 x)))) (\<lambda>_. printptr_loop i (push_bit 4 x))"

definition printptr :: "uint64 \<Rightarrow> ('a uart_scheme, unit) kproc" where
  "printptr x =
     bind (consputc 48) (\<lambda>_.
     bind (consputc 120) (\<lambda>_.
     printptr_loop 16 x))"

section \<open>printf()\<close>

datatype va = VInt uint64 | VStr "byte list option"

text \<open>va_arg(ap, int) sign-extends the low half, va_arg(ap, uint64) takes the whole word.\<close>

fun va_int :: "va list \<Rightarrow> 64 word" where
  "va_int (VInt x # _) = word_of_int (sint (ucast x :: 32 word))"
| "va_int _ = 0"

fun va_long :: "va list \<Rightarrow> 64 word" where
  "va_long (VInt x # _) = x"
| "va_long _ = 0"

fun va_str :: "va list \<Rightarrow> byte list" where
  "va_str (VStr (Some s) # _) = s"
| "va_str _ = chars ''(null)''"

function printf_loop :: "byte list \<Rightarrow> va list \<Rightarrow> ('a uart_scheme, unit) kproc" where
  "printf_loop [] ap = return ()"
| "printf_loop (cx # fmt) ap =
     (if cx \<noteq> 37 then bind (consputc (uint cx)) (\<lambda>_. printf_loop fmt ap)
      else
        let c0 = (case fmt of [] \<Rightarrow> 0 | x # _ \<Rightarrow> x);
            c1 = (if c0 \<noteq> 0 then case drop 1 fmt of [] \<Rightarrow> 0 | x # _ \<Rightarrow> x else 0);
            c2 = (if c1 \<noteq> 0 then case drop 2 fmt of [] \<Rightarrow> 0 | x # _ \<Rightarrow> x else 0)
        in
        if c0 = 100 then bind (printint (va_int ap) 10 True) (\<lambda>_. printf_loop (drop 1 fmt) (tl ap))
        else if c0 = 108 \<and> c1 = 100 then bind (printint (va_long ap) 10 True) (\<lambda>_. printf_loop (drop 2 fmt) (tl ap))
        else if c0 = 108 \<and> c1 = 108 \<and> c2 = 100 then bind (printint (va_long ap) 10 True) (\<lambda>_. printf_loop (drop 3 fmt) (tl ap))
        else if c0 = 117 then bind (printint (va_int ap) 10 False) (\<lambda>_. printf_loop (drop 1 fmt) (tl ap))
        else if c0 = 108 \<and> c1 = 117 then bind (printint (va_long ap) 10 False) (\<lambda>_. printf_loop (drop 2 fmt) (tl ap))
        else if c0 = 108 \<and> c1 = 108 \<and> c2 = 117 then bind (printint (va_long ap) 10 False) (\<lambda>_. printf_loop (drop 3 fmt) (tl ap))
        else if c0 = 120 then bind (printint (va_int ap) 16 False) (\<lambda>_. printf_loop (drop 1 fmt) (tl ap))
        else if c0 = 108 \<and> c1 = 120 then bind (printint (va_long ap) 16 False) (\<lambda>_. printf_loop (drop 2 fmt) (tl ap))
        else if c0 = 108 \<and> c1 = 108 \<and> c2 = 120 then bind (printint (va_long ap) 16 False) (\<lambda>_. printf_loop (drop 3 fmt) (tl ap))
        else if c0 = 112 then bind (printptr (va_long ap)) (\<lambda>_. printf_loop (drop 1 fmt) (tl ap))
        else if c0 = 115 then bind (forM (va_str ap) (\<lambda>c. consputc (uint c))) (\<lambda>_. printf_loop (drop 1 fmt) (tl ap))
        else if c0 = 37 then bind (consputc 37) (\<lambda>_. printf_loop (drop 1 fmt) ap)
        else if c0 = 0 then return ()
        else bind (consputc 37) (\<lambda>_. bind (consputc (uint c0)) (\<lambda>_. printf_loop (drop 1 fmt) ap)))"
  by pat_completeness auto
termination
  by (relation "measure (\<lambda>(fmt, _). length fmt)") auto

declare printf_loop.simps [simp del]

definition printf :: "byte list \<Rightarrow> va list \<Rightarrow> ('a uart_scheme, int) kproc" where
  "printf fmt ap =
     bind (gets pr_locking) (\<lambda>locking.
     bind (whenM (locking \<noteq> 0) (acq LkPr)) (\<lambda>_.
     bind (printf_loop fmt ap) (\<lambda>_.
     bind (whenM (locking \<noteq> 0) (rel LkPr)) (\<lambda>_.
     return 0))))"

definition kpanic :: "byte list \<Rightarrow> ('a uart_scheme, unit) kproc" where
  "kpanic s =
     bind (modify (\<lambda>s. s\<lparr>pr_locking := 0\<rparr>)) (\<lambda>_.
     bind (printf (chars ''panic: '') []) (\<lambda>_.
     bind (printf (chars ''%s'' @ [10]) [VStr (Some s)]) (\<lambda>_.
     bind (modify (\<lambda>s. s\<lparr>panicked := 1\<rparr>)) (\<lambda>_.
     hang))))"

definition printfinit :: "('a uart_scheme, unit) kproc" where
  "printfinit =
     bind (initlk LkPr) (\<lambda>_.
     modify (\<lambda>s. s\<lparr>pr_locking := 1\<rparr>))"

end
