(* ===== verification/Console.thy ===== *)
theory Console
  imports Kprintf
begin

text \<open>
  kernel/console.c: line-edited input and user output, with the interrupt side of the UART
  (uartintr() of kernel/uart.c) and procdump() of kernel/proc.c, which the console calls.
\<close>

section \<open>State\<close>

text \<open>The device switch: which driver functions a major number has.\<close>

datatype devfn = ConsoleRead | ConsoleWrite

record console = uart +
  cons_buf :: "nat \<Rightarrow> byte"
  cons_r :: uint
  cons_w :: uint
  cons_e :: uint
  devsw :: "nat \<Rightarrow> devfn option \<times> devfn option"

definition INPUT_BUF_SIZE :: nat where "INPUT_BUF_SIZE = 128"
definition CONSOLE :: nat where "CONSOLE = 1"
definition NDEV :: nat where "NDEV = 10"

text \<open>\<open>C(x)\<close>: the control characters.\<close>

definition Ctrl :: "char \<Rightarrow> byte" where
  "Ctrl x = of_char x - 64"

section \<open>procdump()\<close>

fun state_name :: "procstate \<Rightarrow> string" where
  "state_name UNUSED = ''unused''"
| "state_name USED = ''used''"
| "state_name SLEEPING = ''sleep ''"
| "state_name RUNNABLE = ''runble''"
| "state_name RUNNING = ''run   ''"
| "state_name ZOMBIE = ''zombie''"

definition procdump_one :: "nat \<Rightarrow> ('a uart_scheme, unit) kproc" where
  "procdump_one p =
     bind (gets (\<lambda>s. procs s p)) (\<lambda>q.
     whenM (p_state q \<noteq> UNUSED)
       (bind (printf (chars ''%d %s %s'') [VInt (word_of_int (p_pid q)), VStr (Some (chars (state_name (p_state q)))),
                VStr (Some (takeWhile (\<lambda>c. c \<noteq> 0) (p_name q)))]) (\<lambda>_.
        bind (printf [10] []) (\<lambda>_. return ()))))"

definition procdump :: "('a uart_scheme, unit) kproc" where
  "procdump = bind (printf [10] []) (\<lambda>_. forM [0..<NPROC] procdump_one)"

section \<open>Input\<close>

definition cons_prev :: "'a console_scheme \<Rightarrow> byte" where
  "cons_prev s = cons_buf s (unat (cons_e s - 1) mod INPUT_BUF_SIZE)"

text \<open>The loop that erases a line; at most \<open>cons_e - cons_w\<close> characters can be erased.\<close>

fun kill_line :: "nat \<Rightarrow> ('a console_scheme, unit) kproc" where
  "kill_line 0 = hang"
| "kill_line (Suc fuel) =
     bind (gets (\<lambda>s. cons_e s \<noteq> cons_w s \<and> cons_prev s \<noteq> 10)) (\<lambda>go.
     if \<not> go then return () else
     bind (modify (\<lambda>s. s\<lparr>cons_e := cons_e s - 1\<rparr>)) (\<lambda>_.
     bind (consputc BACKSPACE) (\<lambda>_.
     kill_line fuel)))"

definition consoleintr_char :: "byte \<Rightarrow> ('a console_scheme, unit) kproc" where
  "consoleintr_char c =
     bind (gets (\<lambda>s. cons_e s - cons_r s < of_nat INPUT_BUF_SIZE)) (\<lambda>room.
     whenM (c \<noteq> 0 \<and> room)
       (let c = (if c = 13 then 10 else c) in
        bind (consputc (uint c)) (\<lambda>_.
        bind (modify (\<lambda>s. s\<lparr>cons_buf := (cons_buf s)(unat (cons_e s) mod INPUT_BUF_SIZE := c), cons_e := cons_e s + 1\<rparr>)) (\<lambda>_.
        bind (gets (\<lambda>s. cons_e s - cons_r s = of_nat INPUT_BUF_SIZE)) (\<lambda>full.
        whenM (c = 10 \<or> c = Ctrl (CHR ''D'') \<or> full)
          (bind (modify (\<lambda>s. s\<lparr>cons_w := cons_e s\<rparr>)) (\<lambda>_.
           wakeup ChConsR)))))))"

definition consoleintr :: "byte \<Rightarrow> ('a console_scheme, unit) kproc" where
  "consoleintr c =
     bind (acq LkCons) (\<lambda>_.
     bind (if c = Ctrl (CHR ''P'') then procdump
           else if c = Ctrl (CHR ''U'') then
             bind (gets (\<lambda>s. unat (cons_e s - cons_w s))) (\<lambda>n. kill_line (Suc n))
           else if c = Ctrl (CHR ''H'') \<or> c = 0x7f then
             bind (gets (\<lambda>s. cons_e s \<noteq> cons_w s)) (\<lambda>any.
             whenM any
               (bind (modify (\<lambda>s. s\<lparr>cons_e := cons_e s - 1\<rparr>)) (\<lambda>_.
                consputc BACKSPACE)))
           else consoleintr_char c) (\<lambda>_.
     rel LkCons))"

text \<open>uartintr(): every received byte goes to the console; the bytes waiting bound the loop.\<close>

fun uartintr_loop :: "nat \<Rightarrow> ('a console_scheme, unit) kproc" where
  "uartintr_loop 0 = hang"
| "uartintr_loop (Suc fuel) =
     bind uartgetc (\<lambda>c.
     if c = -1 then return () else
     bind (consoleintr (word_of_int c)) (\<lambda>_.
     uartintr_loop fuel))"

definition uartintr :: "('a console_scheme, unit) kproc" where
  "uartintr =
     bind (gets (\<lambda>s. length (uart_rx s))) (\<lambda>n.
     bind (uartintr_loop (Suc n)) (\<lambda>_.
     bind (acq LkUart) (\<lambda>_.
     bind uartstart (\<lambda>_.
     rel LkUart))))"

section \<open>The device functions\<close>

fun consolewrite_loop :: "bool \<Rightarrow> uint64 \<Rightarrow> nat \<Rightarrow> int \<Rightarrow> ('a console_scheme, int) kproc" where
  "consolewrite_loop user_src src 0 i = return i"
| "consolewrite_loop user_src src (Suc n) i =
     bind (either_copyin user_src (src + word_of_int i) 1) (\<lambda>(r, bs).
     if r = -1 then return i else
     bind (uartputc (hd bs)) (\<lambda>_.
     consolewrite_loop user_src src n (i + 1)))"

definition consolewrite :: "bool \<Rightarrow> uint64 \<Rightarrow> int \<Rightarrow> ('a console_scheme, int) kproc" where
  "consolewrite user_src src n = consolewrite_loop user_src src (nat n) 0"

text \<open>
  The loop of consoleread() with \<open>n\<close> bytes still wanted; the result is the number of
  bytes left, or None when the process was killed while waiting.
\<close>

fun consoleread_loop :: "bool \<Rightarrow> nat \<Rightarrow> uint64 \<Rightarrow> nat \<Rightarrow> ('a console_scheme, nat option) kproc" where
  "consoleread_loop user_dst target dst 0 = return (Some 0)"
| "consoleread_loop user_dst target dst (Suc n) =
     bind (sleep_unless_killed (\<lambda>s. cons_r s = cons_w s) ChConsR LkCons) (\<lambda>ok.
     if \<not> ok then return None else
     bind (gets (\<lambda>s. cons_buf s (unat (cons_r s) mod INPUT_BUF_SIZE))) (\<lambda>c.
     bind (modify (\<lambda>s. s\<lparr>cons_r := cons_r s + 1\<rparr>)) (\<lambda>_.
     if c = Ctrl (CHR ''D'') then
       bind (whenM (Suc n < target) (modify (\<lambda>s. s\<lparr>cons_r := cons_r s - 1\<rparr>))) (\<lambda>_.
       return (Some (Suc n)))
     else
       bind (either_copyout user_dst dst [c]) (\<lambda>r.
       if r = -1 then return (Some (Suc n))
       else if c = 10 then return (Some n)
       else consoleread_loop user_dst target (dst + 1) n))))"

definition consoleread :: "bool \<Rightarrow> uint64 \<Rightarrow> int \<Rightarrow> ('a console_scheme, int) kproc" where
  "consoleread user_dst dst n =
     bind (acq LkCons) (\<lambda>_.
     bind (if n \<le> 0 then return (Some (nat n)) else consoleread_loop user_dst (nat n) dst (nat n)) (\<lambda>left.
     bind (rel LkCons) (\<lambda>_.
     case left of None \<Rightarrow> return (-1) | Some k \<Rightarrow> return (if n \<le> 0 then 0 else n - int k))))"

definition consoleinit :: "('a console_scheme, unit) kproc" where
  "consoleinit =
     bind (initlk LkCons) (\<lambda>_.
     bind uartinit (\<lambda>_.
     modify (\<lambda>s. s\<lparr>devsw := (devsw s)(CONSOLE := (Some ConsoleRead, Some ConsoleWrite))\<rparr>)))"

end
