(* ===== verification/File.thy ===== *)
theory File
  imports Console
begin

text \<open>
  kernel/file.c and kernel/pipe.c: the table of open files and pipes.  The two call each other, so they
  share a theory.  A pipe lives in a page of its own from kalloc(); it is kept as a typed record under the
  page's address.  A loop that waits ends the run of the process at the sleep(); what follows the
  sleep() in such a loop is never reached in the same run.
\<close>

section \<open>Data\<close>

datatype ftype = FD_NONE | FD_PIPE | FD_INODE | FD_DEVICE

record kfile =
  f_type :: ftype
  f_ref :: int
  f_readable :: bool
  f_writable :: bool
  f_pipe :: addr
  f_ip :: "nat option"
  f_off :: uint
  f_major :: ushort

record pipe =
  pi_data :: "nat \<Rightarrow> byte"
  pi_nread :: uint
  pi_nwrite :: uint
  pi_readopen :: int
  pi_writeopen :: int

record kernel = console +
  ftable :: "nat \<Rightarrow> kfile"
  pipes :: "addr \<Rightarrow> pipe"

definition NFILE :: nat where "NFILE = 100"
definition PIPESIZE :: nat where "PIPESIZE = 1024"

definition upd_file :: "nat \<Rightarrow> (kfile \<Rightarrow> kfile) \<Rightarrow> 'a kernel_scheme \<Rightarrow> 'a kernel_scheme" where
  "upd_file f g s = s\<lparr>ftable := (ftable s)(f := g (ftable s f))\<rparr>"

definition upd_pipe :: "addr \<Rightarrow> (pipe \<Rightarrow> pipe) \<Rightarrow> 'a kernel_scheme \<Rightarrow> 'a kernel_scheme" where
  "upd_pipe p g s = s\<lparr>pipes := (pipes s)(p := g (pipes s p))\<rparr>"

definition the_file :: "nat \<Rightarrow> ('a kernel_scheme, kfile) kproc" where
  "the_file f = gets (\<lambda>s. ftable s f)"

definition the_pipe :: "addr \<Rightarrow> ('a kernel_scheme, pipe) kproc" where
  "the_pipe p = gets (\<lambda>s. pipes s p)"

section \<open>Allocation and reference counts\<close>

definition fileinit :: "('a kernel_scheme, unit) kproc" where
  "fileinit = initlk LkFtable"

definition filealloc :: "('a kernel_scheme, nat option) kproc" where
  "filealloc =
     bind (acq LkFtable) (\<lambda>_.
     bind (gets ftable) (\<lambda>t.
     case find (\<lambda>f. f_ref (t f) = 0) [0..<NFILE] of
       Some f \<Rightarrow>
         bind (modify (upd_file f (\<lambda>q. q\<lparr>f_ref := 1\<rparr>))) (\<lambda>_.
         bind (rel LkFtable) (\<lambda>_. return (Some f)))
     | None \<Rightarrow> bind (rel LkFtable) (\<lambda>_. return None)))"

definition filedup :: "nat \<Rightarrow> ('a kernel_scheme, nat) kproc" where
  "filedup f =
     bind (acq LkFtable) (\<lambda>_.
     bind (the_file f) (\<lambda>q.
     if f_ref q < 1 then panic ''filedup'' else
     bind (modify (upd_file f (\<lambda>q. q\<lparr>f_ref := f_ref q + 1\<rparr>))) (\<lambda>_.
     bind (rel LkFtable) (\<lambda>_. return f))))"

section \<open>Pipes\<close>

definition pipeclose :: "addr \<Rightarrow> bool \<Rightarrow> ('a kernel_scheme, unit) kproc" where
  "pipeclose pi writable =
     bind (acq (LkPipe pi)) (\<lambda>_.
     bind (if writable then
             bind (modify (upd_pipe pi (\<lambda>q. q\<lparr>pi_writeopen := 0\<rparr>))) (\<lambda>_. wakeup (ChPipeRead pi))
           else
             bind (modify (upd_pipe pi (\<lambda>q. q\<lparr>pi_readopen := 0\<rparr>))) (\<lambda>_. wakeup (ChPipeWrite pi))) (\<lambda>_.
     bind (the_pipe pi) (\<lambda>q.
     if pi_readopen q = 0 \<and> pi_writeopen q = 0 then
       bind (rel (LkPipe pi)) (\<lambda>_. kfree pi)
     else rel (LkPipe pi))))"

text \<open>
  The loop of pipewrite() with \<open>n\<close> bytes to go and \<open>i\<close> written; None when the reader
  is gone or the process was killed.
\<close>

fun pipewrite_loop :: "addr \<Rightarrow> nat \<Rightarrow> uint64 \<Rightarrow> nat \<Rightarrow> int \<Rightarrow> ('a kernel_scheme, int option) kproc" where
  "pipewrite_loop pi pr addr 0 i = return (Some i)"
| "pipewrite_loop pi pr addr (Suc n) i =
     bind (the_pipe pi) (\<lambda>q.
     bind (if pi_readopen q = 0 then return True else bind (killed pr) (\<lambda>k. return (k \<noteq> 0))) (\<lambda>stop.
     if stop then return None
     else if pi_nwrite q = pi_nread q + of_nat PIPESIZE then
       bind (wakeup (ChPipeRead pi)) (\<lambda>_.
       bind (sleep (ChPipeWrite pi) (LkPipe pi)) (\<lambda>_. return (Some i)))
     else
       bind (gets (\<lambda>s. p_pagetable (procs s pr))) (\<lambda>pt.
       bind (copyin pt (addr + word_of_int i) 1) (\<lambda>(r, bs).
       if r = -1 then return (Some i) else
       bind (modify (upd_pipe pi (\<lambda>q. q\<lparr>pi_data := (pi_data q)(unat (pi_nwrite q) mod PIPESIZE := hd bs),
                                          pi_nwrite := pi_nwrite q + 1\<rparr>))) (\<lambda>_.
       pipewrite_loop pi pr addr n (i + 1))))))"

definition pipewrite :: "addr \<Rightarrow> uint64 \<Rightarrow> int \<Rightarrow> ('a kernel_scheme, int) kproc" where
  "pipewrite pi addr n =
     bind myprocp (\<lambda>pr.
     bind (acq (LkPipe pi)) (\<lambda>_.
     bind (pipewrite_loop pi pr addr (nat n) 0) (\<lambda>r.
     case r of
       None \<Rightarrow> bind (rel (LkPipe pi)) (\<lambda>_. return (-1))
     | Some i \<Rightarrow>
        bind (wakeup (ChPipeRead pi)) (\<lambda>_.
        bind (rel (LkPipe pi)) (\<lambda>_.
        return i)))))"

fun piperead_loop :: "addr \<Rightarrow> nat \<Rightarrow> uint64 \<Rightarrow> nat \<Rightarrow> int \<Rightarrow> ('a kernel_scheme, int) kproc" where
  "piperead_loop pi pr addr 0 i = return i"
| "piperead_loop pi pr addr (Suc n) i =
     bind (the_pipe pi) (\<lambda>q.
     if pi_nread q = pi_nwrite q then return i else
     bind (modify (upd_pipe pi (\<lambda>q. q\<lparr>pi_nread := pi_nread q + 1\<rparr>))) (\<lambda>_.
     bind (gets (\<lambda>s. p_pagetable (procs s pr))) (\<lambda>pt.
     bind (copyout pt (addr + word_of_int i) [pi_data q (unat (pi_nread q) mod PIPESIZE)]) (\<lambda>r.
     if r = -1 then return i else piperead_loop pi pr addr n (i + 1)))))"

definition piperead :: "addr \<Rightarrow> uint64 \<Rightarrow> int \<Rightarrow> ('a kernel_scheme, int) kproc" where
  "piperead pi addr n =
     bind myprocp (\<lambda>pr.
     bind (acq (LkPipe pi)) (\<lambda>_.
     bind (sleep_unless_killed (\<lambda>s. pi_nread (pipes s pi) = pi_nwrite (pipes s pi) \<and> pi_writeopen (pipes s pi) \<noteq> 0)
             (ChPipeRead pi) (LkPipe pi)) (\<lambda>ok.
     if \<not> ok then bind (rel (LkPipe pi)) (\<lambda>_. return (-1)) else
     bind (piperead_loop pi pr addr (nat n) 0) (\<lambda>i.
     bind (wakeup (ChPipeWrite pi)) (\<lambda>_.
     bind (rel (LkPipe pi)) (\<lambda>_.
     return i))))))"

section \<open>Operations on open files\<close>

definition fileclose :: "nat \<Rightarrow> ('a kernel_scheme, unit) kproc" where
  "fileclose f =
     bind (acq LkFtable) (\<lambda>_.
     bind (the_file f) (\<lambda>q.
     if f_ref q < 1 then panic ''fileclose'' else
     bind (modify (upd_file f (\<lambda>q. q\<lparr>f_ref := f_ref q - 1\<rparr>))) (\<lambda>_.
     bind (the_file f) (\<lambda>ff.
     if 0 < f_ref ff then rel LkFtable else
     bind (modify (upd_file f (\<lambda>q. q\<lparr>f_ref := 0, f_type := FD_NONE\<rparr>))) (\<lambda>_.
     bind (rel LkFtable) (\<lambda>_.
     if f_type ff = FD_PIPE then pipeclose (f_pipe ff) (f_writable ff)
     else if f_type ff = FD_INODE \<or> f_type ff = FD_DEVICE then
       bind begin_op (\<lambda>_.
       bind (iput (f_ip ff)) (\<lambda>_.
       end_op))
     else return ()))))))"

text \<open>\<open>struct stat\<close> as filestat() copies it out; \<open>pad\<close> are the four bytes of padding the compiler leaves.\<close>

definition stat_bytes :: "kstat \<Rightarrow> byte list \<Rightarrow> byte list" where
  "stat_bytes st pad = le_enc 4 (word_of_int (st_dev st) :: uint) @ le_enc 4 (st_ino st) @ le_enc 2 (st_type st) @
     le_enc 2 (st_nlink st) @ pad @ le_enc 8 (st_size st)"

definition filestat :: "nat \<Rightarrow> uint64 \<Rightarrow> ('a kernel_scheme, int) kproc" where
  "filestat f addr =
     bind myprocp (\<lambda>p.
     bind (the_file f) (\<lambda>q.
     if f_type q = FD_INODE \<or> f_type q = FD_DEVICE then
       bind (ilock (f_ip q)) (\<lambda>_.
       bind (deref (f_ip q)) (\<lambda>ip.
       bind (stati ip) (\<lambda>st.
       bind (iunlock (f_ip q)) (\<lambda>_.
       bind klocal (\<lambda>a.
       bind (gets (\<lambda>s. rd_bytes (mem s) (a + 12) 4)) (\<lambda>pad.
       bind (gets (\<lambda>s. p_pagetable (procs s p))) (\<lambda>pt.
       bind (copyout pt addr (stat_bytes st pad)) (\<lambda>r.
       return (if r < 0 then -1 else 0)))))))))
     else return (-1)))"

fun call_read :: "devfn \<Rightarrow> bool \<Rightarrow> uint64 \<Rightarrow> int \<Rightarrow> ('a kernel_scheme, int) kproc" where
  "call_read ConsoleRead user addr n = consoleread user addr n"
| "call_read ConsoleWrite user addr n = consolewrite user addr n"

definition fileread :: "nat \<Rightarrow> uint64 \<Rightarrow> int \<Rightarrow> ('a kernel_scheme, int) kproc" where
  "fileread f addr n =
     bind (the_file f) (\<lambda>q.
     if \<not> f_readable q then return (-1) else
     case f_type q of
       FD_PIPE \<Rightarrow> piperead (f_pipe q) addr n
     | FD_DEVICE \<Rightarrow>
        if sint (f_major q) < 0 \<or> int NDEV \<le> sint (f_major q) then return (-1) else
        bind (gets (\<lambda>s. fst (devsw s (unat (f_major q))))) (\<lambda>d.
        case d of None \<Rightarrow> return (-1) | Some fn \<Rightarrow> call_read fn True addr n)
     | FD_INODE \<Rightarrow>
        bind (ilock (f_ip q)) (\<lambda>_.
        bind (deref (f_ip q)) (\<lambda>ip.
        bind (the_file f) (\<lambda>q.
        bind (readi ip True addr (f_off q) (word_of_int n)) (\<lambda>r.
        bind (whenM (0 < r) (modify (upd_file f (\<lambda>q. q\<lparr>f_off := f_off q + word_of_int r\<rparr>)))) (\<lambda>_.
        bind (iunlock (f_ip q)) (\<lambda>_.
        return r))))))
     | FD_NONE \<Rightarrow> panic ''fileread'')"

definition WRITE_MAX :: int where "WRITE_MAX = ((MAXOPBLOCKS - 1 - 1 - 2) div 2) * int BSIZE"

text \<open>
  The loop of filewrite() over transactions of at most \<open>WRITE_MAX\<close> bytes; the result is the
  number of bytes written.
\<close>

function filewrite_loop :: "nat \<Rightarrow> uint64 \<Rightarrow> int \<Rightarrow> int \<Rightarrow> ('a kernel_scheme, int) kproc" where
  "filewrite_loop f addr n i =
     (if i < n then
        let n1 = min (n - i) WRITE_MAX in
        bind begin_op (\<lambda>_.
        bind (the_file f) (\<lambda>q.
        bind (ilock (f_ip q)) (\<lambda>_.
        bind (deref (f_ip q)) (\<lambda>ip.
        bind (the_file f) (\<lambda>q.
        bind (writei ip True (addr + word_of_int i) (f_off q) (word_of_int n1)) (\<lambda>r.
        bind (whenM (0 < r) (modify (upd_file f (\<lambda>q. q\<lparr>f_off := f_off q + word_of_int r\<rparr>)))) (\<lambda>_.
        bind (iunlock (f_ip q)) (\<lambda>_.
        bind end_op (\<lambda>_.
        if r \<noteq> n1 then return i else filewrite_loop f addr n (i + n1))))))))))
      else return i)"
  by pat_completeness auto
termination
  by (relation "measure (\<lambda>(_, _, n, i). nat (n - i))") (auto simp: WRITE_MAX_def MAXOPBLOCKS_def BSIZE_def)

declare filewrite_loop.simps [simp del]

definition filewrite :: "nat \<Rightarrow> uint64 \<Rightarrow> int \<Rightarrow> ('a kernel_scheme, int) kproc" where
  "filewrite f addr n =
     bind (the_file f) (\<lambda>q.
     if \<not> f_writable q then return (-1) else
     case f_type q of
       FD_PIPE \<Rightarrow> pipewrite (f_pipe q) addr n
     | FD_DEVICE \<Rightarrow>
        if sint (f_major q) < 0 \<or> int NDEV \<le> sint (f_major q) then return (-1) else
        bind (gets (\<lambda>s. snd (devsw s (unat (f_major q))))) (\<lambda>d.
        case d of None \<Rightarrow> return (-1) | Some fn \<Rightarrow> call_read fn True addr n)
     | FD_INODE \<Rightarrow>
        bind (filewrite_loop f addr n 0) (\<lambda>i. return (if i = n then n else -1))
     | FD_NONE \<Rightarrow> panic ''filewrite'')"

section \<open>pipealloc()\<close>

definition pipealloc_bad :: "addr \<Rightarrow> nat option \<Rightarrow> nat option \<Rightarrow> ('a kernel_scheme, (nat \<times> nat) option) kproc" where
  "pipealloc_bad pi f0 f1 =
     bind (whenM (pi \<noteq> 0) (kfree pi)) (\<lambda>_.
     bind (case f0 of None \<Rightarrow> return () | Some f \<Rightarrow> fileclose f) (\<lambda>_.
     bind (case f1 of None \<Rightarrow> return () | Some f \<Rightarrow> fileclose f) (\<lambda>_.
     return None)))"

text \<open>The two files of a new pipe; None is the return value -1.\<close>

definition pipealloc :: "('a kernel_scheme, (nat \<times> nat) option) kproc" where
  "pipealloc =
     bind filealloc (\<lambda>r0.
     case r0 of None \<Rightarrow> pipealloc_bad 0 None None | Some f0 \<Rightarrow>
     bind filealloc (\<lambda>r1.
     case r1 of None \<Rightarrow> pipealloc_bad 0 (Some f0) None | Some f1 \<Rightarrow>
     bind kalloc (\<lambda>pi.
     if pi = 0 then pipealloc_bad 0 (Some f0) (Some f1) else
     bind (modify (upd_pipe pi (\<lambda>q. q\<lparr>pi_readopen := 1, pi_writeopen := 1, pi_nwrite := 0, pi_nread := 0\<rparr>))) (\<lambda>_.
     bind (initlk (LkPipe pi)) (\<lambda>_.
     bind (modify (upd_file f0 (\<lambda>q. q\<lparr>f_type := FD_PIPE, f_readable := True, f_writable := False, f_pipe := pi\<rparr>))) (\<lambda>_.
     bind (modify (upd_file f1 (\<lambda>q. q\<lparr>f_type := FD_PIPE, f_readable := False, f_writable := True, f_pipe := pi\<rparr>))) (\<lambda>_.
     return (Some (f0, f1)))))))))"

end
