(* ===== verification/Proc.thy ===== *)
theory Proc
  imports File
begin

text \<open>
  The life cycle of processes in kernel/proc.c: allocation, the user page table, fork, exit,
  wait, reparenting and the first process.  Trap frames are read and written in the page that holds
  them, at the offsets of \<open>struct trapframe\<close>.  Addresses of kernel code are decided by the
  linker and are fields of the state.
\<close>

section \<open>Trap frames\<close>

datatype tfreg =
    TF_kernel_satp | TF_kernel_sp | TF_kernel_trap | TF_epc | TF_kernel_hartid | TF_ra | TF_sp | TF_gp | TF_tp
  | TF_t0 | TF_t1 | TF_t2 | TF_s0 | TF_s1 | TF_a0 | TF_a1 | TF_a2 | TF_a3 | TF_a4 | TF_a5 | TF_a6 | TF_a7
  | TF_s2 | TF_s3 | TF_s4 | TF_s5 | TF_s6 | TF_s7 | TF_s8 | TF_s9 | TF_s10 | TF_s11 | TF_t3 | TF_t4 | TF_t5 | TF_t6

fun tf_off :: "tfreg \<Rightarrow> uint64" where
  "tf_off TF_kernel_satp = 0" | "tf_off TF_kernel_sp = 8" | "tf_off TF_kernel_trap = 16" | "tf_off TF_epc = 24"
| "tf_off TF_kernel_hartid = 32" | "tf_off TF_ra = 40" | "tf_off TF_sp = 48" | "tf_off TF_gp = 56" | "tf_off TF_tp = 64"
| "tf_off TF_t0 = 72" | "tf_off TF_t1 = 80" | "tf_off TF_t2 = 88" | "tf_off TF_s0 = 96" | "tf_off TF_s1 = 104"
| "tf_off TF_a0 = 112" | "tf_off TF_a1 = 120" | "tf_off TF_a2 = 128" | "tf_off TF_a3 = 136" | "tf_off TF_a4 = 144"
| "tf_off TF_a5 = 152" | "tf_off TF_a6 = 160" | "tf_off TF_a7 = 168" | "tf_off TF_s2 = 176" | "tf_off TF_s3 = 184"
| "tf_off TF_s4 = 192" | "tf_off TF_s5 = 200" | "tf_off TF_s6 = 208" | "tf_off TF_s7 = 216" | "tf_off TF_s8 = 224"
| "tf_off TF_s9 = 232" | "tf_off TF_s10 = 240" | "tf_off TF_s11 = 248" | "tf_off TF_t3 = 256" | "tf_off TF_t4 = 264"
| "tf_off TF_t5 = 272" | "tf_off TF_t6 = 280"

definition sizeof_trapframe :: nat where "sizeof_trapframe = 288"

lemma tf_off_apart: "r \<noteq> r' \<Longrightarrow> unat (tf_off r) + 8 \<le> unat (tf_off r') \<or> unat (tf_off r') + 8 \<le> unat (tf_off r)"
  by (cases r; cases r') simp_all

lemma tf_off_bound: "unat (tf_off r) \<le> 280"
  by (cases r) simp_all

definition tf_get :: "nat \<Rightarrow> tfreg \<Rightarrow> ('a kmem_scheme, uint64) kproc" where
  "tf_get p r = gets (\<lambda>s. load64 (mem s) (p_trapframe (procs s p) + tf_off r))"

definition tf_set :: "nat \<Rightarrow> tfreg \<Rightarrow> uint64 \<Rightarrow> ('a kmem_scheme, unit) kproc" where
  "tf_set p r v = modify (\<lambda>s. set_mem (\<lambda>m. store64 m (p_trapframe (procs s p) + tf_off r) v) s)"

section \<open>State\<close>

record os = kernel +
  sym_trampoline :: addr
  sym_uservec :: addr
  sym_userret :: addr
  sym_forkret :: addr
  sym_usertrap :: addr
  sym_kernelvec :: addr

definition the_proc :: "nat \<Rightarrow> ('a machine_scheme, proc) kproc" where
  "the_proc p = gets (\<lambda>s. procs s p)"

definition set_proc :: "nat \<Rightarrow> (proc \<Rightarrow> proc) \<Rightarrow> ('a machine_scheme, unit) kproc" where
  "set_proc p f = modify (upd_proc p f)"

text \<open>safestrcpy() on the bytes of a fixed array; the loop stops at the nul or one byte before the end.\<close>

definition safestrcpy_l :: "nat \<Rightarrow> byte list \<Rightarrow> byte list \<Rightarrow> byte list" where
  "safestrcpy_l n dst src =
     (let k = takeWhile (\<lambda>c. c \<noteq> 0) src;
          w = (if n - 1 \<le> length k then take (n - 1) k @ [0] else take n (k @ [0, 0]))
      in w @ drop (length w) dst)"

section \<open>Allocation\<close>

definition procinit :: "('a machine_scheme, unit) kproc" where
  "procinit =
     bind (initlk LkPid) (\<lambda>_.
     bind (initlk LkWait) (\<lambda>_.
     forM [0..<NPROC] (\<lambda>p.
       bind (initlk (LkProc p)) (\<lambda>_.
       set_proc p (\<lambda>q. q\<lparr>p_state := UNUSED, p_kstack := KSTACK p\<rparr>)))))"

definition proc_pagetable :: "nat \<Rightarrow> ('a os_scheme, addr) kproc" where
  "proc_pagetable p =
     bind uvmcreate (\<lambda>pagetable.
     if pagetable = 0 then return 0 else
     bind (gets sym_trampoline) (\<lambda>tramp.
     bind (mappages pagetable TRAMPOLINE PGSIZE tramp (PTE_R OR PTE_X)) (\<lambda>r.
     if r < 0 then bind (uvmfree pagetable 0) (\<lambda>_. return 0) else
     bind (the_proc p) (\<lambda>q.
     bind (mappages pagetable TRAPFRAME PGSIZE (p_trapframe q) (PTE_R OR PTE_W)) (\<lambda>r.
     if r < 0 then
       bind (uvmunmap pagetable TRAMPOLINE 1 False) (\<lambda>_.
       bind (uvmfree pagetable 0) (\<lambda>_. return 0))
     else return pagetable)))))"

definition proc_freepagetable :: "addr \<Rightarrow> uint64 \<Rightarrow> ('a os_scheme, unit) kproc" where
  "proc_freepagetable pagetable sz =
     bind (uvmunmap pagetable TRAMPOLINE 1 False) (\<lambda>_.
     bind (uvmunmap pagetable TRAPFRAME 1 False) (\<lambda>_.
     uvmfree pagetable sz))"

definition freeproc :: "nat \<Rightarrow> ('a os_scheme, unit) kproc" where
  "freeproc p =
     bind (the_proc p) (\<lambda>q.
     bind (whenM (p_trapframe q \<noteq> 0) (kfree (p_trapframe q))) (\<lambda>_.
     bind (set_proc p (\<lambda>q. q\<lparr>p_trapframe := 0\<rparr>)) (\<lambda>_.
     bind (whenM (p_pagetable q \<noteq> 0) (proc_freepagetable (p_pagetable q) (p_sz q))) (\<lambda>_.
     set_proc p (\<lambda>q. q\<lparr>p_pagetable := 0, p_sz := 0, p_pid := 0, p_parent := None, p_name := (p_name q)[0 := 0],
       p_chan := None, p_killed := 0, p_xstate := 0, p_state := UNUSED\<rparr>)))))"

fun allocproc_scan :: "nat list \<Rightarrow> ('a machine_scheme, nat option) kproc" where
  "allocproc_scan [] = return None"
| "allocproc_scan (p # ps) =
     bind (acq (LkProc p)) (\<lambda>_.
     bind (the_proc p) (\<lambda>q.
     if p_state q = UNUSED then return (Some p)
     else bind (rel (LkProc p)) (\<lambda>_. allocproc_scan ps)))"

definition context0 :: kcontext where
  "context0 = \<lparr>ctx_ra = 0, ctx_sp = 0, ctx_s = replicate 12 0\<rparr>"

definition allocproc :: "('a os_scheme, nat option) kproc" where
  "allocproc =
     bind (allocproc_scan [0..<NPROC]) (\<lambda>r.
     case r of None \<Rightarrow> return None | Some p \<Rightarrow>
     bind allocpid (\<lambda>pid.
     bind (set_proc p (\<lambda>q. q\<lparr>p_pid := pid, p_state := USED\<rparr>)) (\<lambda>_.
     bind kalloc (\<lambda>tf.
     bind (set_proc p (\<lambda>q. q\<lparr>p_trapframe := tf\<rparr>)) (\<lambda>_.
     if tf = 0 then
       bind (freeproc p) (\<lambda>_. bind (rel (LkProc p)) (\<lambda>_. return None))
     else
     bind (proc_pagetable p) (\<lambda>pt.
     bind (set_proc p (\<lambda>q. q\<lparr>p_pagetable := pt\<rparr>)) (\<lambda>_.
     if pt = 0 then
       bind (freeproc p) (\<lambda>_. bind (rel (LkProc p)) (\<lambda>_. return None))
     else
     bind (gets sym_forkret) (\<lambda>fr.
     bind (set_proc p (\<lambda>q. q\<lparr>p_context := context0\<lparr>ctx_ra := fr, ctx_sp := p_kstack q + PGSIZE\<rparr>\<rparr>)) (\<lambda>_.
     return (Some p))))))))))"

section \<open>The first process\<close>

definition initcode :: "byte list" where
  "initcode =
    [0x17, 0x05, 0x00, 0x00, 0x13, 0x05, 0x45, 0x02,
     0x97, 0x05, 0x00, 0x00, 0x93, 0x85, 0x35, 0x02,
     0x93, 0x08, 0x70, 0x00, 0x73, 0x00, 0x00, 0x00,
     0x93, 0x08, 0x20, 0x00, 0x73, 0x00, 0x00, 0x00,
     0xef, 0xf0, 0x9f, 0xff, 0x2f, 0x69, 0x6e, 0x69,
     0x74, 0x00, 0x00, 0x24, 0x00, 0x00, 0x00, 0x00,
     0x00, 0x00, 0x00, 0x00]"

definition userinit :: "('a os_scheme, unit) kproc" where
  "userinit =
     bind allocproc (\<lambda>r.
     bind (modify (\<lambda>s. s\<lparr>initproc := r\<rparr>)) (\<lambda>_.
     bind (deref r) (\<lambda>p.
     bind (the_proc p) (\<lambda>q.
     bind (uvmfirst (p_pagetable q) initcode) (\<lambda>_.
     bind (set_proc p (\<lambda>q. q\<lparr>p_sz := PGSIZE\<rparr>)) (\<lambda>_.
     bind (tf_set p TF_epc 0) (\<lambda>_.
     bind (tf_set p TF_sp PGSIZE) (\<lambda>_.
     bind (set_proc p (\<lambda>q. q\<lparr>p_name := safestrcpy_l 16 (p_name q) (chars ''initcode'')\<rparr>)) (\<lambda>_.
     bind (namei [slash]) (\<lambda>cwd.
     bind (set_proc p (\<lambda>q. q\<lparr>p_cwd := cwd\<rparr>)) (\<lambda>_.
     bind (set_proc p (\<lambda>q. q\<lparr>p_state := RUNNABLE\<rparr>)) (\<lambda>_.
     rel (LkProc p)))))))))))))"

section \<open>Memory\<close>

definition growproc :: "int \<Rightarrow> ('a os_scheme, int) kproc" where
  "growproc n =
     bind myprocp (\<lambda>p.
     bind (the_proc p) (\<lambda>q.
     if 0 < n then
       bind (uvmalloc (p_pagetable q) (p_sz q) (p_sz q + word_of_int n) PTE_W) (\<lambda>sz.
       if sz = 0 then return (-1) else
       bind (set_proc p (\<lambda>q. q\<lparr>p_sz := sz\<rparr>)) (\<lambda>_. return 0))
     else if n < 0 then
       bind (uvmdealloc (p_pagetable q) (p_sz q) (p_sz q + word_of_int n)) (\<lambda>sz.
       bind (set_proc p (\<lambda>q. q\<lparr>p_sz := sz\<rparr>)) (\<lambda>_. return 0))
     else
       bind (set_proc p (\<lambda>q'. q'\<lparr>p_sz := p_sz q\<rparr>)) (\<lambda>_. return 0)))"

section \<open>fork()\<close>

definition fork_ofile :: "nat \<Rightarrow> nat \<Rightarrow> nat \<Rightarrow> ('a os_scheme, unit) kproc" where
  "fork_ofile p np i =
     bind (the_proc p) (\<lambda>q.
     case p_ofile q ! i of None \<Rightarrow> return () | Some f \<Rightarrow>
     bind (filedup f) (\<lambda>f. set_proc np (\<lambda>q. q\<lparr>p_ofile := (p_ofile q)[i := Some f]\<rparr>)))"

definition fork :: "('a os_scheme, int) kproc" where
  "fork =
     bind myprocp (\<lambda>p.
     bind allocproc (\<lambda>r.
     case r of None \<Rightarrow> return (-1) | Some np \<Rightarrow>
     bind (the_proc p) (\<lambda>q.
     bind (the_proc np) (\<lambda>nq.
     bind (uvmcopy (p_pagetable q) (p_pagetable nq) (p_sz q)) (\<lambda>e.
     if e < 0 then
       bind (freeproc np) (\<lambda>_. bind (rel (LkProc np)) (\<lambda>_. return (-1)))
     else
     bind (set_proc np (\<lambda>x. x\<lparr>p_sz := p_sz q\<rparr>)) (\<lambda>_.
     bind (gets (\<lambda>s. rd_bytes (mem s) (p_trapframe q) sizeof_trapframe)) (\<lambda>tf.
     bind (kwrite (p_trapframe nq) tf) (\<lambda>_.
     bind (tf_set np TF_a0 0) (\<lambda>_.
     bind (forM [0..<NOFILE] (fork_ofile p np)) (\<lambda>_.
     bind (idup (p_cwd q)) (\<lambda>cwd.
     bind (set_proc np (\<lambda>x. x\<lparr>p_cwd := Some cwd\<rparr>)) (\<lambda>_.
     bind (set_proc np (\<lambda>x. x\<lparr>p_name := safestrcpy_l 16 (p_name x) (p_name q)\<rparr>)) (\<lambda>_.
     bind (gets (\<lambda>s. p_pid (procs s np))) (\<lambda>pid.
     bind (rel (LkProc np)) (\<lambda>_.
     bind (acq LkWait) (\<lambda>_.
     bind (set_proc np (\<lambda>x. x\<lparr>p_parent := Some p\<rparr>)) (\<lambda>_.
     bind (rel LkWait) (\<lambda>_.
     bind (acq (LkProc np)) (\<lambda>_.
     bind (set_proc np (\<lambda>x. x\<lparr>p_state := RUNNABLE\<rparr>)) (\<lambda>_.
     bind (rel (LkProc np)) (\<lambda>_.
     return pid)))))))))))))))))))))"

section \<open>exit() and wait()\<close>

text \<open>wakeup() on a process pointer that may be null: nothing sleeps on the null channel.\<close>

definition wakeup_proc :: "nat option \<Rightarrow> ('a machine_scheme, unit) kproc" where
  "wakeup_proc p = (case p of Some q \<Rightarrow> wakeup (ChProc q) | None \<Rightarrow>
     forM [0..<NPROC] (\<lambda>i. bind myproc (\<lambda>me.
       whenM (Some i \<noteq> me) (bind (acq (LkProc i)) (\<lambda>_. rel (LkProc i))))))"

definition reparent_one :: "nat \<Rightarrow> nat \<Rightarrow> ('a machine_scheme, unit) kproc" where
  "reparent_one p pp =
     bind (the_proc pp) (\<lambda>q.
     whenM (p_parent q = Some p)
       (bind (gets initproc) (\<lambda>ip.
        bind (set_proc pp (\<lambda>q. q\<lparr>p_parent := ip\<rparr>)) (\<lambda>_.
        wakeup_proc ip))))"

definition reparent :: "nat \<Rightarrow> ('a machine_scheme, unit) kproc" where
  "reparent p = forM [0..<NPROC] (reparent_one p)"

definition exit_close :: "nat \<Rightarrow> nat \<Rightarrow> ('a os_scheme, unit) kproc" where
  "exit_close p fd =
     bind (the_proc p) (\<lambda>q.
     case p_ofile q ! fd of None \<Rightarrow> return () | Some f \<Rightarrow>
     bind (fileclose f) (\<lambda>_.
     set_proc p (\<lambda>q. q\<lparr>p_ofile := (p_ofile q)[fd := None]\<rparr>)))"

definition exit :: "int \<Rightarrow> ('a os_scheme, unit) kproc" where
  "exit status =
     bind myprocp (\<lambda>p.
     bind (gets initproc) (\<lambda>ip.
     if ip = Some p then panic ''init exiting'' else
     bind (forM [0..<NOFILE] (exit_close p)) (\<lambda>_.
     bind begin_op (\<lambda>_.
     bind (the_proc p) (\<lambda>q.
     bind (iput (p_cwd q)) (\<lambda>_.
     bind end_op (\<lambda>_.
     bind (set_proc p (\<lambda>q. q\<lparr>p_cwd := None\<rparr>)) (\<lambda>_.
     bind (acq LkWait) (\<lambda>_.
     bind (reparent p) (\<lambda>_.
     bind (the_proc p) (\<lambda>q.
     bind (wakeup_proc (p_parent q)) (\<lambda>_.
     bind (acq (LkProc p)) (\<lambda>_.
     bind (set_proc p (\<lambda>q. q\<lparr>p_xstate := status, p_state := ZOMBIE\<rparr>)) (\<lambda>_.
     bind (rel LkWait) (\<lambda>_.
     bind sched (\<lambda>_.
     panic ''zombie exit''))))))))))))))))"

text \<open>
  One pass of wait() over the table: a child that was reaped (its pid, or the error when its
  status cannot be copied out), or whether there is a child at all.
\<close>

fun wait_scan :: "nat \<Rightarrow> uint64 \<Rightarrow> nat list \<Rightarrow> bool \<Rightarrow> ('a os_scheme, int + bool) kproc" where
  "wait_scan p addr [] havekids = return (Inr havekids)"
| "wait_scan p addr (pp # pps) havekids =
     bind (the_proc pp) (\<lambda>q.
     if p_parent q \<noteq> Some p then wait_scan p addr pps havekids else
     bind (acq (LkProc pp)) (\<lambda>_.
     bind (the_proc pp) (\<lambda>q.
     if p_state q = ZOMBIE then
       bind (if addr \<noteq> 0 then
               bind (gets (\<lambda>s. p_pagetable (procs s p))) (\<lambda>pt.
               copyout pt addr (le_enc 4 (word_of_int (p_xstate q) :: uint)))
             else return 0) (\<lambda>r.
       if r < 0 then
         bind (rel (LkProc pp)) (\<lambda>_. bind (rel LkWait) (\<lambda>_. return (Inl (-1))))
       else
         bind (freeproc pp) (\<lambda>_.
         bind (rel (LkProc pp)) (\<lambda>_.
         bind (rel LkWait) (\<lambda>_.
         return (Inl (p_pid q))))))
     else bind (rel (LkProc pp)) (\<lambda>_. wait_scan p addr pps True))))"

definition wait :: "uint64 \<Rightarrow> ('a os_scheme, int) kproc" where
  "wait addr =
     bind myprocp (\<lambda>p.
     bind (acq LkWait) (\<lambda>_.
     bind (wait_scan p addr [0..<NPROC] False) (\<lambda>r.
     case r of Inl v \<Rightarrow> return v
     | Inr havekids \<Rightarrow>
        bind (if \<not> havekids then return True else bind (killed p) (\<lambda>k. return (k \<noteq> 0))) (\<lambda>stop.
        if stop then bind (rel LkWait) (\<lambda>_. return (-1))
        else bind (sleep (ChProc p) LkWait) (\<lambda>_. return (-1))))))"

end
