(* ===== verification/Exec.thy ===== *)
theory Exec
  imports Proc
begin

text \<open>
  kernel/exec.c: loading a program.  The argument vector is the list of the addresses of the
  kernel pages that hold the argument strings.  The C code leaves through the label \<open>bad\<close> from many
  places; here the phases return None on such an exit together with the size to free, and \<open>exec\<close>
  performs the clean-up.
\<close>

section \<open>ELF headers\<close>

definition ELF_MAGIC :: uint where "ELF_MAGIC = 0x464C457F"
definition ELF_PROG_LOAD :: uint where "ELF_PROG_LOAD = 1"
definition MAXARG :: nat where "MAXARG = 32"
definition USERSTACK :: uint64 where "USERSTACK = 2"
definition sizeof_elfhdr :: nat where "sizeof_elfhdr = 64"
definition sizeof_proghdr :: nat where "sizeof_proghdr = 56"

definition field :: "byte list \<Rightarrow> nat \<Rightarrow> nat \<Rightarrow> byte list" where
  "field bs off n = take n (drop off bs)"

record elfhdr =
  eh_magic :: uint
  eh_entry :: uint64
  eh_phoff :: uint64
  eh_phnum :: ushort

definition elfhdr_of :: "byte list \<Rightarrow> elfhdr" where
  "elfhdr_of b = \<lparr>eh_magic = le_dec (field b 0 4), eh_entry = le_dec (field b 24 8), eh_phoff = le_dec (field b 32 8),
     eh_phnum = le_dec (field b 56 2)\<rparr>"

record proghdr =
  ph_type :: uint
  ph_flags :: uint
  ph_off :: uint64
  ph_vaddr :: uint64
  ph_filesz :: uint64
  ph_memsz :: uint64

definition proghdr_of :: "byte list \<Rightarrow> proghdr" where
  "proghdr_of b = \<lparr>ph_type = le_dec (field b 0 4), ph_flags = le_dec (field b 4 4), ph_off = le_dec (field b 8 8),
     ph_vaddr = le_dec (field b 16 8), ph_filesz = le_dec (field b 32 8), ph_memsz = le_dec (field b 40 8)\<rparr>"

definition flags2perm :: "uint \<Rightarrow> uint64" where
  "flags2perm flags =
     (let perm = (if flags AND 1 \<noteq> 0 then PTE_X else 0)
      in if flags AND 2 \<noteq> 0 then perm OR PTE_W else perm)"

section \<open>Loading\<close>

text \<open>loadseg(): the list holds the page offsets below \<open>sz\<close>.\<close>

fun loadseg_loop :: "addr \<Rightarrow> uint64 \<Rightarrow> nat \<Rightarrow> uint \<Rightarrow> uint \<Rightarrow> uint list \<Rightarrow> ('a os_scheme, int) kproc" where
  "loadseg_loop pagetable va ip off sz [] = return 0"
| "loadseg_loop pagetable va ip off sz (i # is) =
     bind (walkaddr pagetable (va + ucast i)) (\<lambda>pa.
     if pa = 0 then panic ''loadseg: address should exist'' else
     let n = (if sz - i < 4096 then sz - i else 4096) in
     bind (readi ip False pa (off + i) n) (\<lambda>r.
     if r \<noteq> sint n then return (-1) else loadseg_loop pagetable va ip off sz is))"

definition loadseg :: "addr \<Rightarrow> uint64 \<Rightarrow> nat \<Rightarrow> uint \<Rightarrow> uint \<Rightarrow> ('a os_scheme, int) kproc" where
  "loadseg pagetable va ip off sz =
     loadseg_loop pagetable va ip off sz (map (\<lambda>k. of_nat (k * 4096)) [0..<(unat sz + 4095) div 4096])"

text \<open>
  The program headers, at file offsets \<open>off\<close>, \<open>off + sizeof(ph)\<close>, and so on.  The result is the new
  size, Inl with the size so far when the loading fails.
\<close>

fun load_segments :: "addr \<Rightarrow> nat \<Rightarrow> nat \<Rightarrow> uint \<Rightarrow> uint64 \<Rightarrow> ('a os_scheme, uint64 + uint64) kproc" where
  "load_segments pagetable ip 0 off sz = return (Inr sz)"
| "load_segments pagetable ip (Suc n) off sz =
     bind klocal (\<lambda>a.
     bind (readi ip False (a + 64) off (of_nat sizeof_proghdr)) (\<lambda>r.
     if r \<noteq> int sizeof_proghdr then return (Inl sz) else
     bind (gets (\<lambda>s. proghdr_of (rd_bytes (mem s) (a + 64) sizeof_proghdr))) (\<lambda>ph.
     if ph_type ph \<noteq> ELF_PROG_LOAD then load_segments pagetable ip n (off + of_nat sizeof_proghdr) sz
     else if ph_memsz ph < ph_filesz ph then return (Inl sz)
     else if ph_vaddr ph + ph_memsz ph < ph_vaddr ph then return (Inl sz)
     else if ph_vaddr ph mod PGSIZE \<noteq> 0 then return (Inl sz)
     else
       bind (uvmalloc pagetable sz (ph_vaddr ph + ph_memsz ph) (flags2perm (ph_flags ph))) (\<lambda>sz1.
       if sz1 = 0 then return (Inl sz) else
       bind (loadseg pagetable (ph_vaddr ph) ip (ucast (ph_off ph)) (ucast (ph_filesz ph))) (\<lambda>r.
       if r < 0 then return (Inl sz1)
       else load_segments pagetable ip n (off + of_nat sizeof_proghdr) sz1)))))"

section \<open>The argument stack\<close>

definition align16 :: "uint64 \<Rightarrow> uint64" where
  "align16 sp = sp - sp mod 16"

text \<open>Pushing the argument strings; the result is the stack pointer and the pointers pushed.\<close>

fun push_args :: "addr \<Rightarrow> uint64 \<Rightarrow> addr list \<Rightarrow> uint64 list \<Rightarrow> uint64 \<Rightarrow> ('a os_scheme, (uint64 \<times> uint64 list) option) kproc" where
  "push_args pagetable stackbase [] ustack sp = return (Some (sp, ustack))"
| "push_args pagetable stackbase (a # argv) ustack sp =
     (if MAXARG \<le> length ustack then return None else
      bind (gets (\<lambda>s. strlen (mem s) a)) (\<lambda>len.
      case len of None \<Rightarrow> hang | Some len \<Rightarrow>
      let sp = align16 (sp - of_nat (len + 1)) in
      if sp < stackbase then return None else
      bind (gets (\<lambda>s. rd_bytes (mem s) a (len + 1))) (\<lambda>str.
      bind (copyout pagetable sp str) (\<lambda>r.
      if r < 0 then return None
      else push_args pagetable stackbase argv (ustack @ [sp]) sp))))"

definition push_vector :: "addr \<Rightarrow> uint64 \<Rightarrow> uint64 list \<Rightarrow> uint64 \<Rightarrow> ('a os_scheme, uint64 option) kproc" where
  "push_vector pagetable stackbase ustack sp =
     (let sp = align16 (sp - of_nat (length ustack + 1) * 8) in
      if sp < stackbase then return None else
      bind (copyout pagetable sp (concat (map (le_enc 8) (ustack @ [0])))) (\<lambda>r.
      return (if r < 0 then None else Some sp)))"

text \<open>The last path element, which becomes the process name.\<close>

definition last_elem :: "byte list \<Rightarrow> byte list" where
  "last_elem path = rev (takeWhile (\<lambda>c. c \<noteq> slash) (rev path))"

section \<open>exec()\<close>

definition exec_bad :: "addr \<Rightarrow> uint64 \<Rightarrow> nat option \<Rightarrow> ('a os_scheme, int) kproc" where
  "exec_bad pagetable sz ip =
     bind (whenM (pagetable \<noteq> 0) (proc_freepagetable pagetable sz)) (\<lambda>_.
     bind (whenM (ip \<noteq> None) (bind (iunlockput ip) (\<lambda>_. end_op))) (\<lambda>_.
     return (-1)))"

text \<open>From the loaded program to the commit.\<close>

definition exec_stack :: "addr \<Rightarrow> uint64 \<Rightarrow> byte list \<Rightarrow> addr list \<Rightarrow> uint64 \<Rightarrow> ('a os_scheme, int) kproc" where
  "exec_stack pagetable sz path argv entry =
     bind myprocp (\<lambda>p.
     bind (the_proc p) (\<lambda>q0.
     let sz = PGROUNDUP sz in
     bind (uvmalloc pagetable sz (sz + (USERSTACK + 1) * PGSIZE) PTE_W) (\<lambda>sz1.
     if sz1 = 0 then exec_bad pagetable sz None else
     bind (uvmclear pagetable (sz1 - (USERSTACK + 1) * PGSIZE)) (\<lambda>_.
     let stackbase = sz1 - USERSTACK * PGSIZE in
     bind (push_args pagetable stackbase argv [] sz1) (\<lambda>r.
     case r of None \<Rightarrow> exec_bad pagetable sz1 None | Some (sp, ustack) \<Rightarrow>
     bind (push_vector pagetable stackbase ustack sp) (\<lambda>r.
     case r of None \<Rightarrow> exec_bad pagetable sz1 None | Some sp \<Rightarrow>
     bind (tf_set p TF_a1 sp) (\<lambda>_.
     bind (set_proc p (\<lambda>q. q\<lparr>p_name := safestrcpy_l 16 (p_name q) (last_elem path)\<rparr>)) (\<lambda>_.
     bind (the_proc p) (\<lambda>q.
     bind (set_proc p (\<lambda>q. q\<lparr>p_pagetable := pagetable, p_sz := sz1\<rparr>)) (\<lambda>_.
     bind (tf_set p TF_epc entry) (\<lambda>_.
     bind (tf_set p TF_sp sp) (\<lambda>_.
     bind (proc_freepagetable (p_pagetable q) (p_sz q0)) (\<lambda>_.
     return (int (length ustack)))))))))))))))"

definition exec :: "byte list \<Rightarrow> addr list \<Rightarrow> ('a os_scheme, int) kproc" where
  "exec path argv =
     bind myprocp (\<lambda>p.
     bind begin_op (\<lambda>_.
     bind (namei path) (\<lambda>r.
     case r of None \<Rightarrow> bind end_op (\<lambda>_. return (-1)) | Some ip \<Rightarrow>
     bind (ilock (Some ip)) (\<lambda>_.
     bind klocal (\<lambda>a.
     bind (readi ip False a 0 (of_nat sizeof_elfhdr)) (\<lambda>r.
     if r \<noteq> int sizeof_elfhdr then exec_bad 0 0 (Some ip) else
     bind (gets (\<lambda>s. elfhdr_of (rd_bytes (mem s) a sizeof_elfhdr))) (\<lambda>elf.
     if eh_magic elf \<noteq> ELF_MAGIC then exec_bad 0 0 (Some ip) else
     bind (proc_pagetable p) (\<lambda>pagetable.
     if pagetable = 0 then exec_bad 0 0 (Some ip) else
     bind (load_segments pagetable ip (unat (eh_phnum elf)) (ucast (eh_phoff elf)) 0) (\<lambda>r.
     case r of Inl sz \<Rightarrow> exec_bad pagetable sz (Some ip) | Inr sz \<Rightarrow>
     bind (iunlockput (Some ip)) (\<lambda>_.
     bind end_op (\<lambda>_.
     exec_stack pagetable sz path argv (eh_entry elf))))))))))))"

end
