(* ===== verification/Sysfile.thy ===== *)
theory Sysfile
  imports Exec
begin

text \<open>
  Fetching system-call arguments (kernel/syscall.c) and the file-system calls of
  kernel/sysfile.c.  The calls return the value that goes to a0; a \<open>goto bad\<close> is a call
  of the clean-up definition next to the call that jumps.  Strings fetched from user space are the bytes
  before the nul.
\<close>

section \<open>Arguments\<close>

definition MAXPATH :: nat where "MAXPATH = 128"

definition fetchaddr :: "uint64 \<Rightarrow> ('a os_scheme, uint64 option) kproc" where
  "fetchaddr addr =
     bind myprocp (\<lambda>p.
     bind (the_proc p) (\<lambda>q.
     if p_sz q \<le> addr \<or> p_sz q < addr + 8 then return None else
     bind (copyin (p_pagetable q) addr 8) (\<lambda>(r, bs).
     return (if r \<noteq> 0 then None else Some (le_dec bs)))))"

definition fetchstr :: "uint64 \<Rightarrow> nat \<Rightarrow> ('a os_scheme, byte list option) kproc" where
  "fetchstr addr mx =
     bind myprocp (\<lambda>p.
     bind (the_proc p) (\<lambda>q.
     bind (copyinstr (p_pagetable q) addr mx) (\<lambda>(r, bs).
     return (if r < 0 then None else Some (takeWhile (\<lambda>c. c \<noteq> 0) bs)))))"

definition argraw :: "nat \<Rightarrow> ('a os_scheme, uint64) kproc" where
  "argraw n =
     bind myprocp (\<lambda>p.
     if n = 0 then tf_get p TF_a0 else if n = 1 then tf_get p TF_a1 else if n = 2 then tf_get p TF_a2
     else if n = 3 then tf_get p TF_a3 else if n = 4 then tf_get p TF_a4 else if n = 5 then tf_get p TF_a5
     else panic ''argraw'')"

definition argint :: "nat \<Rightarrow> ('a os_scheme, int) kproc" where
  "argint n = bind (argraw n) (\<lambda>v. return (sint (ucast v :: uint)))"

definition argaddr :: "nat \<Rightarrow> ('a os_scheme, uint64) kproc" where
  "argaddr n = argraw n"

definition argstr :: "nat \<Rightarrow> nat \<Rightarrow> ('a os_scheme, byte list option) kproc" where
  "argstr n mx = bind (argaddr n) (\<lambda>addr. fetchstr addr mx)"

section \<open>File descriptors\<close>

definition argfd :: "nat \<Rightarrow> ('a os_scheme, (nat \<times> nat) option) kproc" where
  "argfd n =
     bind (argint n) (\<lambda>fd.
     if fd < 0 \<or> int NOFILE \<le> fd then return None else
     bind myprocp (\<lambda>p.
     bind (the_proc p) (\<lambda>q.
     return (case p_ofile q ! nat fd of None \<Rightarrow> None | Some f \<Rightarrow> Some (nat fd, f)))))"

definition fdalloc :: "nat \<Rightarrow> ('a os_scheme, int) kproc" where
  "fdalloc f =
     bind myprocp (\<lambda>p.
     bind (the_proc p) (\<lambda>q.
     case find (\<lambda>fd. p_ofile q ! fd = None) [0..<NOFILE] of
       None \<Rightarrow> return (-1)
     | Some fd \<Rightarrow>
        bind (set_proc p (\<lambda>q. q\<lparr>p_ofile := (p_ofile q)[fd := Some f]\<rparr>)) (\<lambda>_.
        return (int fd))))"

definition sys_dup :: "('a os_scheme, int) kproc" where
  "sys_dup =
     bind (argfd 0) (\<lambda>r.
     case r of None \<Rightarrow> return (-1) | Some (_, f) \<Rightarrow>
     bind (fdalloc f) (\<lambda>fd.
     if fd < 0 then return (-1) else
     bind (filedup f) (\<lambda>_. return fd)))"

definition sys_read :: "('a os_scheme, int) kproc" where
  "sys_read =
     bind (argaddr 1) (\<lambda>p.
     bind (argint 2) (\<lambda>n.
     bind (argfd 0) (\<lambda>r.
     case r of None \<Rightarrow> return (-1) | Some (_, f) \<Rightarrow> fileread f p n)))"

definition sys_write :: "('a os_scheme, int) kproc" where
  "sys_write =
     bind (argaddr 1) (\<lambda>p.
     bind (argint 2) (\<lambda>n.
     bind (argfd 0) (\<lambda>r.
     case r of None \<Rightarrow> return (-1) | Some (_, f) \<Rightarrow> filewrite f p n)))"

definition close_fd :: "nat \<Rightarrow> ('a os_scheme, unit) kproc" where
  "close_fd fd = bind myprocp (\<lambda>p. set_proc p (\<lambda>q. q\<lparr>p_ofile := (p_ofile q)[fd := None]\<rparr>))"

definition sys_close :: "('a os_scheme, int) kproc" where
  "sys_close =
     bind (argfd 0) (\<lambda>r.
     case r of None \<Rightarrow> return (-1) | Some (fd, f) \<Rightarrow>
     bind (close_fd fd) (\<lambda>_.
     bind (fileclose f) (\<lambda>_.
     return 0)))"

definition sys_fstat :: "('a os_scheme, int) kproc" where
  "sys_fstat =
     bind (argaddr 1) (\<lambda>st.
     bind (argfd 0) (\<lambda>r.
     case r of None \<Rightarrow> return (-1) | Some (_, f) \<Rightarrow> filestat f st))"

section \<open>Links\<close>

definition link_bad :: "nat \<Rightarrow> ('a os_scheme, int) kproc" where
  "link_bad ip =
     bind (ilock (Some ip)) (\<lambda>_.
     bind (modify (upd_inode ip (\<lambda>q. q\<lparr>i_nlink := i_nlink q - 1\<rparr>))) (\<lambda>_.
     bind (iupdate ip) (\<lambda>_.
     bind (iunlockput (Some ip)) (\<lambda>_.
     bind end_op (\<lambda>_.
     return (-1))))))"

definition sys_link :: "('a os_scheme, int) kproc" where
  "sys_link =
     bind (argstr 0 MAXPATH) (\<lambda>r0.
     case r0 of None \<Rightarrow> return (-1) | Some old \<Rightarrow>
     bind (argstr 1 MAXPATH) (\<lambda>r1.
     case r1 of None \<Rightarrow> return (-1) | Some new \<Rightarrow>
     bind begin_op (\<lambda>_.
     bind (namei old) (\<lambda>r.
     case r of None \<Rightarrow> bind end_op (\<lambda>_. return (-1)) | Some ip \<Rightarrow>
     bind (ilock (Some ip)) (\<lambda>_.
     bind (the_inode ip) (\<lambda>q.
     if i_type q = T_DIR then
       bind (iunlockput (Some ip)) (\<lambda>_. bind end_op (\<lambda>_. return (-1)))
     else
     bind (modify (upd_inode ip (\<lambda>q. q\<lparr>i_nlink := i_nlink q + 1\<rparr>))) (\<lambda>_.
     bind (iupdate ip) (\<lambda>_.
     bind (iunlock (Some ip)) (\<lambda>_.
     bind (nameiparent new) (\<lambda>r.
     case r of None \<Rightarrow> link_bad ip | Some (dp, name) \<Rightarrow>
     bind (ilock (Some dp)) (\<lambda>_.
     bind (the_inode dp) (\<lambda>dq.
     bind (the_inode ip) (\<lambda>q.
     bind (if i_dev dq \<noteq> i_dev q then return True
           else bind (dirlink dp name (i_inum q)) (\<lambda>r. return (r < 0))) (\<lambda>fail.
     if fail then bind (iunlockput (Some dp)) (\<lambda>_. link_bad ip) else
     bind (iunlockput (Some dp)) (\<lambda>_.
     bind (iput (Some ip)) (\<lambda>_.
     bind end_op (\<lambda>_.
     return 0)))))))))))))))))"

fun isdirempty_loop :: "nat \<Rightarrow> uint list \<Rightarrow> ('a os_scheme, bool) kproc" where
  "isdirempty_loop dp [] = return True"
| "isdirempty_loop dp (off # offs) =
     bind (read_dirent dp off ''isdirempty: readi'') (\<lambda>de.
     if de_inum de \<noteq> 0 then return False else isdirempty_loop dp offs)"

definition isdirempty :: "nat \<Rightarrow> ('a os_scheme, bool) kproc" where
  "isdirempty dp = bind (the_inode dp) (\<lambda>q. isdirempty_loop dp (drop 2 (dirent_offs (i_size q))))"

definition unlink_bad :: "nat \<Rightarrow> ('a os_scheme, int) kproc" where
  "unlink_bad dp =
     bind (iunlockput (Some dp)) (\<lambda>_.
     bind end_op (\<lambda>_.
     return (-1)))"

definition sys_unlink :: "('a os_scheme, int) kproc" where
  "sys_unlink =
     bind (argstr 0 MAXPATH) (\<lambda>r.
     case r of None \<Rightarrow> return (-1) | Some path \<Rightarrow>
     bind begin_op (\<lambda>_.
     bind (nameiparent path) (\<lambda>r.
     case r of None \<Rightarrow> bind end_op (\<lambda>_. return (-1)) | Some (dp, name) \<Rightarrow>
     bind (ilock (Some dp)) (\<lambda>_.
     if namecmp name (chars ''.'') = 0 \<or> namecmp name (chars ''..'') = 0 then unlink_bad dp else
     bind (dirlookup dp name) (\<lambda>r.
     case r of None \<Rightarrow> unlink_bad dp | Some (ip, off) \<Rightarrow>
     bind (ilock (Some ip)) (\<lambda>_.
     bind (the_inode ip) (\<lambda>q.
     if sint (i_nlink q) < 1 then panic ''unlink: nlink < 1'' else
     bind (if i_type q = T_DIR then bind (isdirempty ip) (\<lambda>e. return (\<not> e)) else return False) (\<lambda>busy.
     if busy then bind (iunlockput (Some ip)) (\<lambda>_. unlink_bad dp) else
     bind klocal (\<lambda>de.
     bind (kwrite de (replicate sizeof_dirent 0)) (\<lambda>_.
     bind (writei dp False de off (of_nat sizeof_dirent)) (\<lambda>r.
     if r \<noteq> int sizeof_dirent then panic ''unlink: writei'' else
     bind (whenM (i_type q = T_DIR)
       (bind (modify (upd_inode dp (\<lambda>q. q\<lparr>i_nlink := i_nlink q - 1\<rparr>))) (\<lambda>_. iupdate dp))) (\<lambda>_.
     bind (iunlockput (Some dp)) (\<lambda>_.
     bind (modify (upd_inode ip (\<lambda>q. q\<lparr>i_nlink := i_nlink q - 1\<rparr>))) (\<lambda>_.
     bind (iupdate ip) (\<lambda>_.
     bind (iunlockput (Some ip)) (\<lambda>_.
     bind end_op (\<lambda>_.
     return 0)))))))))))))))))"

section \<open>Creating and opening\<close>

definition create_fail :: "nat \<Rightarrow> nat \<Rightarrow> ('a os_scheme, nat option) kproc" where
  "create_fail ip dp =
     bind (modify (upd_inode ip (\<lambda>q. q\<lparr>i_nlink := 0\<rparr>))) (\<lambda>_.
     bind (iupdate ip) (\<lambda>_.
     bind (iunlockput (Some ip)) (\<lambda>_.
     bind (iunlockput (Some dp)) (\<lambda>_.
     return None))))"

definition create :: "byte list \<Rightarrow> ushort \<Rightarrow> ushort \<Rightarrow> ushort \<Rightarrow> ('a os_scheme, nat option) kproc" where
  "create path type major minor =
     bind (nameiparent path) (\<lambda>r.
     case r of None \<Rightarrow> return None | Some (dp, name) \<Rightarrow>
     bind (ilock (Some dp)) (\<lambda>_.
     bind (dirlookup dp name) (\<lambda>r.
     case r of
       Some (ip, _) \<Rightarrow>
         bind (iunlockput (Some dp)) (\<lambda>_.
         bind (ilock (Some ip)) (\<lambda>_.
         bind (the_inode ip) (\<lambda>q.
         if type = T_FILE \<and> (i_type q = T_FILE \<or> i_type q = T_DEVICE) then return (Some ip) else
         bind (iunlockput (Some ip)) (\<lambda>_. return None))))
     | None \<Rightarrow>
        bind (the_inode dp) (\<lambda>dq.
        bind (ialloc (i_dev dq) type) (\<lambda>r.
        case r of None \<Rightarrow> bind (iunlockput (Some dp)) (\<lambda>_. return None) | Some ip \<Rightarrow>
        bind (ilock (Some ip)) (\<lambda>_.
        bind (modify (upd_inode ip (\<lambda>q. q\<lparr>i_major := major, i_minor := minor, i_nlink := 1\<rparr>))) (\<lambda>_.
        bind (iupdate ip) (\<lambda>_.
        bind (the_inode ip) (\<lambda>q.
        bind (if type = T_DIR then
                bind (dirlink ip (chars ''.'') (i_inum q)) (\<lambda>r.
                if r < 0 then return True else
                bind (dirlink ip (chars ''..'') (i_inum dq)) (\<lambda>r. return (r < 0)))
              else return False) (\<lambda>fail.
        if fail then create_fail ip dp else
        bind (dirlink dp name (i_inum q)) (\<lambda>r.
        if r < 0 then create_fail ip dp else
        bind (whenM (type = T_DIR)
          (bind (modify (upd_inode dp (\<lambda>q. q\<lparr>i_nlink := i_nlink q + 1\<rparr>))) (\<lambda>_. iupdate dp))) (\<lambda>_.
        bind (iunlockput (Some dp)) (\<lambda>_.
        return (Some ip))))))))))))))"

definition O_RDONLY :: uint where "O_RDONLY = 0"
definition O_WRONLY :: uint where "O_WRONLY = 1"
definition O_RDWR :: uint where "O_RDWR = 2"
definition O_CREATE :: uint where "O_CREATE = 0x200"
definition O_TRUNC :: uint where "O_TRUNC = 0x400"

text \<open>The inode sys_open() works on, locked; None after the clean-up of a failure.\<close>

definition open_inode :: "byte list \<Rightarrow> uint \<Rightarrow> ('a os_scheme, nat option) kproc" where
  "open_inode path omode =
     (if omode AND O_CREATE \<noteq> 0 then
        bind (create path T_FILE 0 0) (\<lambda>r.
        case r of None \<Rightarrow> bind end_op (\<lambda>_. return None) | Some ip \<Rightarrow> return (Some ip))
      else
        bind (namei path) (\<lambda>r.
        case r of None \<Rightarrow> bind end_op (\<lambda>_. return None) | Some ip \<Rightarrow>
        bind (ilock (Some ip)) (\<lambda>_.
        bind (the_inode ip) (\<lambda>q.
        if i_type q = T_DIR \<and> omode \<noteq> O_RDONLY then
          bind (iunlockput (Some ip)) (\<lambda>_. bind end_op (\<lambda>_. return None))
        else return (Some ip)))))"

definition open_fail :: "nat option \<Rightarrow> nat \<Rightarrow> ('a os_scheme, int) kproc" where
  "open_fail f ip =
     bind (case f of None \<Rightarrow> return () | Some f \<Rightarrow> fileclose f) (\<lambda>_.
     bind (iunlockput (Some ip)) (\<lambda>_.
     bind end_op (\<lambda>_.
     return (-1))))"

definition sys_open :: "('a os_scheme, int) kproc" where
  "sys_open =
     bind (argint 1) (\<lambda>om.
     let omode = word_of_int om in
     bind (argstr 0 MAXPATH) (\<lambda>r.
     case r of None \<Rightarrow> return (-1) | Some path \<Rightarrow>
     bind begin_op (\<lambda>_.
     bind (open_inode path omode) (\<lambda>r.
     case r of None \<Rightarrow> return (-1) | Some ip \<Rightarrow>
     bind (the_inode ip) (\<lambda>q.
     if i_type q = T_DEVICE \<and> (sint (i_major q) < 0 \<or> int NDEV \<le> sint (i_major q)) then open_fail None ip else
     bind filealloc (\<lambda>r.
     case r of None \<Rightarrow> open_fail None ip | Some f \<Rightarrow>
     bind (fdalloc f) (\<lambda>fd.
     if fd < 0 then open_fail (Some f) ip else
     bind (if i_type q = T_DEVICE then modify (upd_file f (\<lambda>x. x\<lparr>f_type := FD_DEVICE, f_major := i_major q\<rparr>))
           else modify (upd_file f (\<lambda>x. x\<lparr>f_type := FD_INODE, f_off := 0\<rparr>))) (\<lambda>_.
     bind (modify (upd_file f (\<lambda>x. x\<lparr>f_ip := Some ip, f_readable := (omode AND O_WRONLY = 0),
             f_writable := (omode AND O_WRONLY \<noteq> 0 \<or> omode AND O_RDWR \<noteq> 0)\<rparr>))) (\<lambda>_.
     bind (whenM (omode AND O_TRUNC \<noteq> 0 \<and> i_type q = T_FILE) (itrunc ip)) (\<lambda>_.
     bind (iunlock (Some ip)) (\<lambda>_.
     bind end_op (\<lambda>_.
     return fd))))))))))))"

definition sys_mkdir :: "('a os_scheme, int) kproc" where
  "sys_mkdir =
     bind begin_op (\<lambda>_.
     bind (argstr 0 MAXPATH) (\<lambda>r.
     bind (case r of None \<Rightarrow> return None | Some path \<Rightarrow> create path T_DIR 0 0) (\<lambda>r.
     case r of None \<Rightarrow> bind end_op (\<lambda>_. return (-1)) | Some ip \<Rightarrow>
     bind (iunlockput (Some ip)) (\<lambda>_.
     bind end_op (\<lambda>_.
     return 0)))))"

definition sys_mknod :: "('a os_scheme, int) kproc" where
  "sys_mknod =
     bind begin_op (\<lambda>_.
     bind (argint 1) (\<lambda>major.
     bind (argint 2) (\<lambda>minor.
     bind (argstr 0 MAXPATH) (\<lambda>r.
     bind (case r of None \<Rightarrow> return None
           | Some path \<Rightarrow> create path T_DEVICE (word_of_int major) (word_of_int minor)) (\<lambda>r.
     case r of None \<Rightarrow> bind end_op (\<lambda>_. return (-1)) | Some ip \<Rightarrow>
     bind (iunlockput (Some ip)) (\<lambda>_.
     bind end_op (\<lambda>_.
     return 0)))))))"

definition sys_chdir :: "('a os_scheme, int) kproc" where
  "sys_chdir =
     bind myprocp (\<lambda>p.
     bind begin_op (\<lambda>_.
     bind (argstr 0 MAXPATH) (\<lambda>r.
     bind (case r of None \<Rightarrow> return None | Some path \<Rightarrow> namei path) (\<lambda>r.
     case r of None \<Rightarrow> bind end_op (\<lambda>_. return (-1)) | Some ip \<Rightarrow>
     bind (ilock (Some ip)) (\<lambda>_.
     bind (the_inode ip) (\<lambda>q.
     if i_type q \<noteq> T_DIR then
       bind (iunlockput (Some ip)) (\<lambda>_. bind end_op (\<lambda>_. return (-1)))
     else
     bind (iunlock (Some ip)) (\<lambda>_.
     bind (the_proc p) (\<lambda>pq.
     bind (iput (p_cwd pq)) (\<lambda>_.
     bind end_op (\<lambda>_.
     bind (set_proc p (\<lambda>q. q\<lparr>p_cwd := Some ip\<rparr>)) (\<lambda>_.
     return 0)))))))))))"

section \<open>exec and pipe\<close>

text \<open>
  sys_exec() copies the argument strings into pages of their own.  The loop returns the pages taken so
  far and whether it reached the terminating null.
\<close>

fun exec_args :: "nat \<Rightarrow> uint64 \<Rightarrow> addr list \<Rightarrow> ('a os_scheme, addr list \<times> bool) kproc" where
  "exec_args 0 uargv argv = return (argv, False)"
| "exec_args (Suc n) uargv argv =
     bind (fetchaddr uargv) (\<lambda>r.
     case r of None \<Rightarrow> return (argv, False) | Some uarg \<Rightarrow>
     if uarg = 0 then return (argv, True) else
     bind kalloc (\<lambda>pg.
     if pg = 0 then return (argv, False) else
     bind (fetchstr uarg 4096) (\<lambda>r.
     case r of None \<Rightarrow> return (argv @ [pg], False) | Some str \<Rightarrow>
     bind (kwrite pg (str @ [0])) (\<lambda>_.
     exec_args n (uargv + 8) (argv @ [pg])))))"

definition sys_exec :: "('a os_scheme, int) kproc" where
  "sys_exec =
     bind (argaddr 1) (\<lambda>uargv.
     bind (argstr 0 MAXPATH) (\<lambda>r.
     case r of None \<Rightarrow> return (-1) | Some path \<Rightarrow>
     bind (exec_args MAXARG uargv []) (\<lambda>(argv, ok).
     if ok then
       bind (exec path argv) (\<lambda>ret.
       bind (forM argv kfree) (\<lambda>_. return ret))
     else bind (forM argv kfree) (\<lambda>_. return (-1)))))"

definition pipe_undo :: "nat \<Rightarrow> nat \<Rightarrow> ('a os_scheme, int) kproc" where
  "pipe_undo rf wr =
     bind (fileclose rf) (\<lambda>_.
     bind (fileclose wr) (\<lambda>_.
     return (-1)))"

definition sys_pipe :: "('a os_scheme, int) kproc" where
  "sys_pipe =
     bind myprocp (\<lambda>p.
     bind (argaddr 0) (\<lambda>fdarray.
     bind pipealloc (\<lambda>r.
     case r of None \<Rightarrow> return (-1) | Some (rf, wr) \<Rightarrow>
     bind (fdalloc rf) (\<lambda>fd0.
     if fd0 < 0 then pipe_undo rf wr else
     bind (fdalloc wr) (\<lambda>fd1.
     if fd1 < 0 then bind (close_fd (nat fd0)) (\<lambda>_. pipe_undo rf wr) else
     bind (the_proc p) (\<lambda>q.
     bind (copyout (p_pagetable q) fdarray (le_enc 4 (word_of_int fd0 :: uint))) (\<lambda>r.
     bind (if r < 0 then return r
           else copyout (p_pagetable q) (fdarray + 4) (le_enc 4 (word_of_int fd1 :: uint))) (\<lambda>r.
     if r < 0 then
       bind (close_fd (nat fd0)) (\<lambda>_. bind (close_fd (nat fd1)) (\<lambda>_. pipe_undo rf wr))
     else return 0))))))))"

end
