(* ===== verification/Syscall.thy ===== *)
theory Syscall
  imports Sysfile
begin

text \<open>
  kernel/sysproc.c and the dispatch of system calls in kernel/syscall.c.  The value a handler
  returns is what goes to register a0, so an \<open>int\<close> result is extended to 64 bits.
\<close>

section \<open>The process calls\<close>

definition sys_exit :: "('a os_scheme, uint64) kproc" where
  "sys_exit =
     bind (argint 0) (\<lambda>n.
     bind (exit n) (\<lambda>_.
     return 0))"

definition sys_getpid :: "('a os_scheme, uint64) kproc" where
  "sys_getpid =
     bind myprocp (\<lambda>p.
     bind (the_proc p) (\<lambda>q.
     return (word_of_int (p_pid q))))"

definition sys_fork :: "('a os_scheme, uint64) kproc" where
  "sys_fork = bind fork (\<lambda>r. return (word_of_int r))"

definition sys_wait :: "('a os_scheme, uint64) kproc" where
  "sys_wait =
     bind (argaddr 0) (\<lambda>p.
     bind (wait p) (\<lambda>r. return (word_of_int r)))"

definition sys_sbrk :: "('a os_scheme, uint64) kproc" where
  "sys_sbrk =
     bind (argint 0) (\<lambda>n.
     bind myprocp (\<lambda>p.
     bind (the_proc p) (\<lambda>q.
     bind (growproc n) (\<lambda>r.
     if r < 0 then return (-1) else return (p_sz q)))))"

definition sys_sleep :: "('a os_scheme, uint64) kproc" where
  "sys_sleep =
     bind (argint 0) (\<lambda>n.
     let n = (if n < 0 then 0 else n) in
     bind (acq LkTicks) (\<lambda>_.
     bind (gets ticks) (\<lambda>ticks0.
     bind (sleep_unless_killed (\<lambda>s. ticks s - ticks0 < word_of_int n) ChTicks LkTicks) (\<lambda>ok.
     bind (rel LkTicks) (\<lambda>_.
     return (if ok then 0 else -1))))))"

definition sys_kill :: "('a os_scheme, uint64) kproc" where
  "sys_kill =
     bind (argint 0) (\<lambda>pid.
     bind (kill pid) (\<lambda>r. return (word_of_int r)))"

definition sys_uptime :: "('a os_scheme, uint64) kproc" where
  "sys_uptime =
     bind (acq LkTicks) (\<lambda>_.
     bind (gets ticks) (\<lambda>xticks.
     bind (rel LkTicks) (\<lambda>_.
     return (ucast xticks))))"

section \<open>Dispatch\<close>

datatype sysnum =
    SYS_fork | SYS_exit | SYS_wait | SYS_pipe | SYS_read | SYS_kill | SYS_exec | SYS_fstat | SYS_chdir
  | SYS_dup | SYS_getpid | SYS_sbrk | SYS_sleep | SYS_uptime | SYS_open | SYS_write | SYS_mknod
  | SYS_unlink | SYS_link | SYS_mkdir | SYS_close

fun sys_no :: "sysnum \<Rightarrow> int" where
  "sys_no SYS_fork = 1" | "sys_no SYS_exit = 2" | "sys_no SYS_wait = 3" | "sys_no SYS_pipe = 4"
| "sys_no SYS_read = 5" | "sys_no SYS_kill = 6" | "sys_no SYS_exec = 7" | "sys_no SYS_fstat = 8"
| "sys_no SYS_chdir = 9" | "sys_no SYS_dup = 10" | "sys_no SYS_getpid = 11" | "sys_no SYS_sbrk = 12"
| "sys_no SYS_sleep = 13" | "sys_no SYS_uptime = 14" | "sys_no SYS_open = 15" | "sys_no SYS_write = 16"
| "sys_no SYS_mknod = 17" | "sys_no SYS_unlink = 18" | "sys_no SYS_link = 19" | "sys_no SYS_mkdir = 20"
| "sys_no SYS_close = 21"

definition sys_all :: "sysnum list" where
  "sys_all = [SYS_fork, SYS_exit, SYS_wait, SYS_pipe, SYS_read, SYS_kill, SYS_exec, SYS_fstat, SYS_chdir,
     SYS_dup, SYS_getpid, SYS_sbrk, SYS_sleep, SYS_uptime, SYS_open, SYS_write, SYS_mknod,
     SYS_unlink, SYS_link, SYS_mkdir, SYS_close]"

definition ret64 :: "('a os_scheme, int) kproc \<Rightarrow> ('a os_scheme, uint64) kproc" where
  "ret64 m = bind m (\<lambda>r. return (word_of_int r))"

fun handler :: "sysnum \<Rightarrow> ('a os_scheme, uint64) kproc" where
  "handler SYS_fork = sys_fork"
| "handler SYS_exit = sys_exit"
| "handler SYS_wait = sys_wait"
| "handler SYS_pipe = ret64 sys_pipe"
| "handler SYS_read = ret64 sys_read"
| "handler SYS_kill = sys_kill"
| "handler SYS_exec = ret64 sys_exec"
| "handler SYS_fstat = ret64 sys_fstat"
| "handler SYS_chdir = ret64 sys_chdir"
| "handler SYS_dup = ret64 sys_dup"
| "handler SYS_getpid = sys_getpid"
| "handler SYS_sbrk = sys_sbrk"
| "handler SYS_sleep = sys_sleep"
| "handler SYS_uptime = sys_uptime"
| "handler SYS_open = ret64 sys_open"
| "handler SYS_write = ret64 sys_write"
| "handler SYS_mknod = ret64 sys_mknod"
| "handler SYS_unlink = ret64 sys_unlink"
| "handler SYS_link = ret64 sys_link"
| "handler SYS_mkdir = ret64 sys_mkdir"
| "handler SYS_close = ret64 sys_close"

text \<open>The table \<open>syscalls\<close>: the entry at an index, None for a null entry.\<close>

definition syscalls :: "int \<Rightarrow> ('a os_scheme, uint64) kproc option" where
  "syscalls num = map_option handler (find (\<lambda>c. sys_no c = num) sys_all)"

definition NELEM_syscalls :: int where "NELEM_syscalls = 22"

definition syscall :: "('a os_scheme, unit) kproc" where
  "syscall =
     bind myprocp (\<lambda>p.
     bind (tf_get p TF_a7) (\<lambda>a7.
     let num = sint (ucast a7 :: uint) in
     case (if 0 < num \<and> num < NELEM_syscalls then syscalls num else None) of
       Some h \<Rightarrow> bind h (\<lambda>r. tf_set p TF_a0 r)
     | None \<Rightarrow>
        bind (the_proc p) (\<lambda>q.
        bind (printf (chars ''%d %s: unknown sys call %d'' @ [10])
          [VInt (word_of_int (p_pid q)), VStr (Some (takeWhile (\<lambda>c. c \<noteq> 0) (p_name q))), VInt (word_of_int num)]) (\<lambda>_.
        tf_set p TF_a0 (-1)))))"

end
