(* ===== verification/Virtio.thy ===== *)
theory Virtio
  imports Syscall
begin

text \<open>
  kernel/virtio_disk.c: the driver of the virtio block device.  The three structures the driver
  shares with the device are kept as the C structs they are; their pages are allocated as the code does.  What
  a register reads as is decided by the device from the registers written so far, and is the field
  \<open>vd_reg\<close> of the state.  The addresses of the driver's own arrays and of the block
  buffers are decided by the linker.
\<close>

section \<open>Data\<close>

definition NUM :: nat where "NUM = 8"

record virtq_desc =
  d_addr :: uint64
  d_len :: uint
  d_flags :: ushort
  d_next :: ushort

record virtq_avail =
  av_flags :: ushort
  av_idx :: ushort
  av_ring :: "nat \<Rightarrow> ushort"
  av_unused :: ushort

record virtq_used_elem =
  ue_id :: uint
  ue_len :: uint

record virtq_used =
  us_flags :: ushort
  us_idx :: ushort
  us_ring :: "nat \<Rightarrow> virtq_used_elem"

record virtio_blk_req =
  rq_type :: uint
  rq_reserved :: uint
  rq_sector :: uint64

record vdisk = os +
  vd_desc_page :: addr
  vd_avail_page :: addr
  vd_used_page :: addr
  vd_desc :: "nat \<Rightarrow> virtq_desc"
  vd_avail :: virtq_avail
  vd_used :: virtq_used
  vd_free :: "nat \<Rightarrow> bool"
  vd_used_idx :: ushort
  vd_info_b :: "nat \<Rightarrow> nat option"
  vd_info_status :: "nat \<Rightarrow> byte"
  vd_ops :: "nat \<Rightarrow> virtio_blk_req"
  vd_regs :: "(nat \<times> uint) list"
  vd_reg :: "(nat \<times> uint) list \<Rightarrow> nat \<Rightarrow> uint"
  sym_ops :: "nat \<Rightarrow> addr"
  sym_status :: "nat \<Rightarrow> addr"
  sym_data :: "nat \<Rightarrow> addr"

definition VRING_DESC_F_NEXT :: ushort where "VRING_DESC_F_NEXT = 1"
definition VRING_DESC_F_WRITE :: ushort where "VRING_DESC_F_WRITE = 2"
definition VIRTIO_BLK_T_IN :: uint where "VIRTIO_BLK_T_IN = 0"
definition VIRTIO_BLK_T_OUT :: uint where "VIRTIO_BLK_T_OUT = 1"

definition VIRTIO_MMIO_MAGIC_VALUE :: nat where "VIRTIO_MMIO_MAGIC_VALUE = 0x000"
definition VIRTIO_MMIO_VERSION :: nat where "VIRTIO_MMIO_VERSION = 0x004"
definition VIRTIO_MMIO_DEVICE_ID :: nat where "VIRTIO_MMIO_DEVICE_ID = 0x008"
definition VIRTIO_MMIO_VENDOR_ID :: nat where "VIRTIO_MMIO_VENDOR_ID = 0x00c"
definition VIRTIO_MMIO_DEVICE_FEATURES :: nat where "VIRTIO_MMIO_DEVICE_FEATURES = 0x010"
definition VIRTIO_MMIO_DRIVER_FEATURES :: nat where "VIRTIO_MMIO_DRIVER_FEATURES = 0x020"
definition VIRTIO_MMIO_QUEUE_SEL :: nat where "VIRTIO_MMIO_QUEUE_SEL = 0x030"
definition VIRTIO_MMIO_QUEUE_NUM_MAX :: nat where "VIRTIO_MMIO_QUEUE_NUM_MAX = 0x034"
definition VIRTIO_MMIO_QUEUE_NUM :: nat where "VIRTIO_MMIO_QUEUE_NUM = 0x038"
definition VIRTIO_MMIO_QUEUE_READY :: nat where "VIRTIO_MMIO_QUEUE_READY = 0x044"
definition VIRTIO_MMIO_QUEUE_NOTIFY :: nat where "VIRTIO_MMIO_QUEUE_NOTIFY = 0x050"
definition VIRTIO_MMIO_INTERRUPT_STATUS :: nat where "VIRTIO_MMIO_INTERRUPT_STATUS = 0x060"
definition VIRTIO_MMIO_INTERRUPT_ACK :: nat where "VIRTIO_MMIO_INTERRUPT_ACK = 0x064"
definition VIRTIO_MMIO_STATUS :: nat where "VIRTIO_MMIO_STATUS = 0x070"
definition VIRTIO_MMIO_QUEUE_DESC_LOW :: nat where "VIRTIO_MMIO_QUEUE_DESC_LOW = 0x080"
definition VIRTIO_MMIO_QUEUE_DESC_HIGH :: nat where "VIRTIO_MMIO_QUEUE_DESC_HIGH = 0x084"
definition VIRTIO_MMIO_DRIVER_DESC_LOW :: nat where "VIRTIO_MMIO_DRIVER_DESC_LOW = 0x090"
definition VIRTIO_MMIO_DRIVER_DESC_HIGH :: nat where "VIRTIO_MMIO_DRIVER_DESC_HIGH = 0x094"
definition VIRTIO_MMIO_DEVICE_DESC_LOW :: nat where "VIRTIO_MMIO_DEVICE_DESC_LOW = 0x0a0"
definition VIRTIO_MMIO_DEVICE_DESC_HIGH :: nat where "VIRTIO_MMIO_DEVICE_DESC_HIGH = 0x0a4"

definition VIRTIO_CONFIG_S_ACKNOWLEDGE :: uint where "VIRTIO_CONFIG_S_ACKNOWLEDGE = 1"
definition VIRTIO_CONFIG_S_DRIVER :: uint where "VIRTIO_CONFIG_S_DRIVER = 2"
definition VIRTIO_CONFIG_S_DRIVER_OK :: uint where "VIRTIO_CONFIG_S_DRIVER_OK = 4"
definition VIRTIO_CONFIG_S_FEATURES_OK :: uint where "VIRTIO_CONFIG_S_FEATURES_OK = 8"

text \<open>\<open>*R(r)\<close> as a read and as a write.\<close>

definition vreg_read :: "nat \<Rightarrow> ('a vdisk_scheme, uint) kproc" where
  "vreg_read r = gets (\<lambda>s. vd_reg s (vd_regs s) r)"

definition vreg_write :: "nat \<Rightarrow> uint \<Rightarrow> ('a vdisk_scheme, unit) kproc" where
  "vreg_write r v = modify (\<lambda>s. s\<lparr>vd_regs := vd_regs s @ [(r, v)]\<rparr>)"

section \<open>Initialisation\<close>

definition unwanted_features :: "nat list" where
  "unwanted_features = [5, 7, 11, 12, 27, 29, 28]"

definition features_kept :: "uint \<Rightarrow> uint" where
  "features_kept f = fold (\<lambda>b x. x AND NOT (push_bit b 1)) unwanted_features f"

definition virtio_found :: "('a vdisk_scheme, bool) kproc" where
  "virtio_found =
     bind (vreg_read VIRTIO_MMIO_MAGIC_VALUE) (\<lambda>m.
     if m \<noteq> 0x74726976 then return False else
     bind (vreg_read VIRTIO_MMIO_VERSION) (\<lambda>v.
     if v \<noteq> 2 then return False else
     bind (vreg_read VIRTIO_MMIO_DEVICE_ID) (\<lambda>d.
     if d \<noteq> 2 then return False else
     bind (vreg_read VIRTIO_MMIO_VENDOR_ID) (\<lambda>n.
     return (n = 0x554d4551)))))"

definition desc0 :: virtq_desc where "desc0 = \<lparr>d_addr = 0, d_len = 0, d_flags = 0, d_next = 0\<rparr>"
definition avail0 :: virtq_avail where "avail0 = \<lparr>av_flags = 0, av_idx = 0, av_ring = \<lambda>_. 0, av_unused = 0\<rparr>"
definition used0 :: virtq_used where "used0 = \<lparr>us_flags = 0, us_idx = 0, us_ring = \<lambda>_. \<lparr>ue_id = 0, ue_len = 0\<rparr>\<rparr>"

text \<open>The queue memory: three pages, zeroed, whose addresses go to the device.\<close>

definition virtio_queue :: "('a vdisk_scheme, unit) kproc" where
  "virtio_queue =
     bind kalloc (\<lambda>dsc.
     bind kalloc (\<lambda>avl.
     bind kalloc (\<lambda>usd.
     bind (modify (\<lambda>s. s\<lparr>vd_desc_page := dsc, vd_avail_page := avl, vd_used_page := usd\<rparr>)) (\<lambda>_.
     if dsc = 0 \<or> avl = 0 \<or> usd = 0 then panic ''virtio disk kalloc'' else
     bind (kmemset dsc 0 (ucast PGSIZE)) (\<lambda>_.
     bind (kmemset avl 0 (ucast PGSIZE)) (\<lambda>_.
     bind (kmemset usd 0 (ucast PGSIZE)) (\<lambda>_.
     bind (modify (\<lambda>s. s\<lparr>vd_desc := \<lambda>_. desc0, vd_avail := avail0, vd_used := used0\<rparr>)) (\<lambda>_.
     bind (vreg_write VIRTIO_MMIO_QUEUE_NUM (of_nat NUM)) (\<lambda>_.
     bind (vreg_write VIRTIO_MMIO_QUEUE_DESC_LOW (ucast dsc)) (\<lambda>_.
     bind (vreg_write VIRTIO_MMIO_QUEUE_DESC_HIGH (ucast (drop_bit 32 dsc))) (\<lambda>_.
     bind (vreg_write VIRTIO_MMIO_DRIVER_DESC_LOW (ucast avl)) (\<lambda>_.
     bind (vreg_write VIRTIO_MMIO_DRIVER_DESC_HIGH (ucast (drop_bit 32 avl))) (\<lambda>_.
     bind (vreg_write VIRTIO_MMIO_DEVICE_DESC_LOW (ucast usd)) (\<lambda>_.
     vreg_write VIRTIO_MMIO_DEVICE_DESC_HIGH (ucast (drop_bit 32 usd))))))))))))))))"

definition virtio_disk_init :: "('a vdisk_scheme, unit) kproc" where
  "virtio_disk_init =
     bind (initlk LkDisk) (\<lambda>_.
     bind virtio_found (\<lambda>ok.
     if \<not> ok then panic ''could not find virtio disk'' else
     bind (vreg_write VIRTIO_MMIO_STATUS 0) (\<lambda>_.
     let status = VIRTIO_CONFIG_S_ACKNOWLEDGE in
     bind (vreg_write VIRTIO_MMIO_STATUS status) (\<lambda>_.
     let status = status OR VIRTIO_CONFIG_S_DRIVER in
     bind (vreg_write VIRTIO_MMIO_STATUS status) (\<lambda>_.
     bind (vreg_read VIRTIO_MMIO_DEVICE_FEATURES) (\<lambda>features.
     bind (vreg_write VIRTIO_MMIO_DRIVER_FEATURES (features_kept features)) (\<lambda>_.
     bind (vreg_write VIRTIO_MMIO_STATUS (status OR VIRTIO_CONFIG_S_FEATURES_OK)) (\<lambda>_.
     bind (vreg_read VIRTIO_MMIO_STATUS) (\<lambda>status.
     if status AND VIRTIO_CONFIG_S_FEATURES_OK = 0 then panic ''virtio disk FEATURES_OK unset'' else
     bind (vreg_write VIRTIO_MMIO_QUEUE_SEL 0) (\<lambda>_.
     bind (vreg_read VIRTIO_MMIO_QUEUE_READY) (\<lambda>ready.
     if ready \<noteq> 0 then panic ''virtio disk should not be ready'' else
     bind (vreg_read VIRTIO_MMIO_QUEUE_NUM_MAX) (\<lambda>mx.
     if mx = 0 then panic ''virtio disk has no queue 0''
     else if mx < of_nat NUM then panic ''virtio disk max queue too short'' else
     bind virtio_queue (\<lambda>_.
     bind (vreg_write VIRTIO_MMIO_QUEUE_READY 1) (\<lambda>_.
     bind (modify (\<lambda>s. s\<lparr>vd_free := \<lambda>i. if i < NUM then True else vd_free s i\<rparr>)) (\<lambda>_.
     vreg_write VIRTIO_MMIO_STATUS (status OR VIRTIO_CONFIG_S_DRIVER_OK))))))))))))))))"

section \<open>Descriptors\<close>

definition alloc_desc :: "('a vdisk_scheme, nat option) kproc" where
  "alloc_desc =
     bind (gets vd_free) (\<lambda>fr.
     case find fr [0..<NUM] of None \<Rightarrow> return None | Some i \<Rightarrow>
     bind (modify (\<lambda>s. s\<lparr>vd_free := (vd_free s)(i := False)\<rparr>)) (\<lambda>_. return (Some i)))"

definition free_desc :: "nat \<Rightarrow> ('a vdisk_scheme, unit) kproc" where
  "free_desc i =
     (if NUM \<le> i then panic ''free_desc 1'' else
      bind (gets (\<lambda>s. vd_free s i)) (\<lambda>f.
      if f then panic ''free_desc 2'' else
      bind (modify (\<lambda>s. s\<lparr>vd_desc := (vd_desc s)(i := desc0), vd_free := (vd_free s)(i := True)\<rparr>)) (\<lambda>_.
      wakeup ChDiskFree)))"

text \<open>free_chain() frees a descriptor in every round, and panics when it meets a free one.\<close>

fun free_chain_loop :: "nat \<Rightarrow> nat \<Rightarrow> ('a vdisk_scheme, unit) kproc" where
  "free_chain_loop 0 i = hang"
| "free_chain_loop (Suc fuel) i =
     bind (gets (\<lambda>s. vd_desc s i)) (\<lambda>d.
     bind (free_desc i) (\<lambda>_.
     if d_flags d AND VRING_DESC_F_NEXT \<noteq> 0 then free_chain_loop fuel (unat (d_next d)) else return ()))"

definition free_chain :: "nat \<Rightarrow> ('a vdisk_scheme, unit) kproc" where
  "free_chain i = free_chain_loop (Suc NUM) i"

fun alloc3_loop :: "nat \<Rightarrow> nat list \<Rightarrow> ('a vdisk_scheme, nat list option) kproc" where
  "alloc3_loop 0 idx = return (Some idx)"
| "alloc3_loop (Suc n) idx =
     bind alloc_desc (\<lambda>r.
     case r of None \<Rightarrow> bind (forM idx free_desc) (\<lambda>_. return None)
     | Some i \<Rightarrow> alloc3_loop n (idx @ [i]))"

definition alloc3_desc :: "('a vdisk_scheme, nat list option) kproc" where
  "alloc3_desc = alloc3_loop 3 []"

section \<open>Requests\<close>

text \<open>
  The loop that waits for three descriptors.  A run of sleep() does not come back, so what
  follows it is not reached; the process tries again in the run that resumes it.
\<close>

definition alloc3_wait :: "('a vdisk_scheme, nat list) kproc" where
  "alloc3_wait =
     bind alloc3_desc (\<lambda>r.
     case r of Some idx \<Rightarrow> return idx
     | None \<Rightarrow> bind (sleep ChDiskFree LkDisk) (\<lambda>_. hang))"

definition virtio_format :: "nat \<Rightarrow> bool \<Rightarrow> nat list \<Rightarrow> 'a vdisk_scheme \<Rightarrow> 'a vdisk_scheme" where
  "virtio_format b write idx s =
     (let i0 = idx ! 0; i1 = idx ! 1; i2 = idx ! 2;
          sector = ucast (b_blockno (bufs s b) * of_nat (BSIZE div 512)) in
      s\<lparr>vd_ops := (vd_ops s)(i0 := \<lparr>rq_type = (if write then VIRTIO_BLK_T_OUT else VIRTIO_BLK_T_IN),
                                rq_reserved = 0, rq_sector = sector\<rparr>),
        vd_desc := (vd_desc s)
          (i0 := \<lparr>d_addr = sym_ops s i0, d_len = 16, d_flags = VRING_DESC_F_NEXT, d_next = of_nat i1\<rparr>,
           i1 := \<lparr>d_addr = sym_data s b, d_len = of_nat BSIZE,
                  d_flags = (if write then 0 else VRING_DESC_F_WRITE) OR VRING_DESC_F_NEXT, d_next = of_nat i2\<rparr>,
           i2 := \<lparr>d_addr = sym_status s i0, d_len = 1, d_flags = VRING_DESC_F_WRITE, d_next = 0\<rparr>),
        vd_info_status := (vd_info_status s)(i0 := 0xff)\<rparr>)"

definition virtio_submit :: "nat \<Rightarrow> bool \<Rightarrow> nat list \<Rightarrow> ('a vdisk_scheme, unit) kproc" where
  "virtio_submit b write idx =
     bind (modify (virtio_format b write idx)) (\<lambda>_.
     bind (modify (upd_buf b (\<lambda>x. x\<lparr>b_disk := 1\<rparr>))) (\<lambda>_.
     bind (modify (\<lambda>s. s\<lparr>vd_info_b := (vd_info_b s)(idx ! 0 := Some b)\<rparr>)) (\<lambda>_.
     bind (modify (\<lambda>s. s\<lparr>vd_avail := (vd_avail s)\<lparr>av_ring :=
             (av_ring (vd_avail s))(unat (av_idx (vd_avail s)) mod NUM := of_nat (idx ! 0))\<rparr>\<rparr>)) (\<lambda>_.
     bind (modify (\<lambda>s. s\<lparr>vd_avail := (vd_avail s)\<lparr>av_idx := av_idx (vd_avail s) + 1\<rparr>\<rparr>)) (\<lambda>_.
     vreg_write VIRTIO_MMIO_QUEUE_NOTIFY 0)))))"

definition virtio_finish :: "nat list \<Rightarrow> ('a vdisk_scheme, unit) kproc" where
  "virtio_finish idx =
     bind (modify (\<lambda>s. s\<lparr>vd_info_b := (vd_info_b s)(idx ! 0 := None)\<rparr>)) (\<lambda>_.
     free_chain (idx ! 0))"

definition virtio_disk_rw :: "nat \<Rightarrow> bool \<Rightarrow> ('a vdisk_scheme, unit) kproc" where
  "virtio_disk_rw b write =
     bind (acq LkDisk) (\<lambda>_.
     bind alloc3_wait (\<lambda>idx.
     bind (virtio_submit b write idx) (\<lambda>_.
     bind (sleep_while (\<lambda>s. b_disk (bufs s b) = 1) (ChBuf b) LkDisk) (\<lambda>_.
     bind (virtio_finish idx) (\<lambda>_.
     rel LkDisk)))))"

section \<open>The interrupt\<close>

fun virtio_intr_loop :: "nat \<Rightarrow> ('a vdisk_scheme, unit) kproc" where
  "virtio_intr_loop 0 = hang"
| "virtio_intr_loop (Suc fuel) =
     bind (gets (\<lambda>s. vd_used_idx s \<noteq> us_idx (vd_used s))) (\<lambda>more.
     if \<not> more then return () else
     bind (gets (\<lambda>s. unat (ue_id (us_ring (vd_used s) (unat (vd_used_idx s) mod NUM))))) (\<lambda>ident.
     bind (gets (\<lambda>s. vd_info_status s ident)) (\<lambda>st.
     if st \<noteq> 0 then panic ''virtio_disk_intr status'' else
     bind (gets (\<lambda>s. vd_info_b s ident)) (\<lambda>r.
     bind (deref r) (\<lambda>b.
     bind (modify (upd_buf b (\<lambda>x. x\<lparr>b_disk := 0\<rparr>))) (\<lambda>_.
     bind (wakeup (ChBuf b)) (\<lambda>_.
     bind (modify (\<lambda>s. s\<lparr>vd_used_idx := vd_used_idx s + 1\<rparr>)) (\<lambda>_.
     virtio_intr_loop fuel))))))))"

definition virtio_disk_intr :: "('a vdisk_scheme, unit) kproc" where
  "virtio_disk_intr =
     bind (acq LkDisk) (\<lambda>_.
     bind (vreg_read VIRTIO_MMIO_INTERRUPT_STATUS) (\<lambda>st.
     bind (vreg_write VIRTIO_MMIO_INTERRUPT_ACK (st AND 3)) (\<lambda>_.
     bind (gets (\<lambda>s. unat (us_idx (vd_used s) - vd_used_idx s))) (\<lambda>n.
     bind (virtio_intr_loop (Suc n)) (\<lambda>_.
     rel LkDisk)))))"

end
