(* ===== verification/Csr.thy ===== *)
theory Csr
  imports Virtio
begin

text \<open>
  The control and status registers of a hart and the accessors of kernel/riscv.h, each of
  which is one csrr or csrw instruction, with the platform-level interrupt controller of
  kernel/plic.c.  The controller is a device: \<open>plic_irq\<close> is what its claim register
  reads as, and \<open>plic_writes\<close> is what has been written to it.
\<close>

section \<open>Registers\<close>

datatype csr =
    CSR_mhartid | CSR_mstatus | CSR_mepc | CSR_sstatus | CSR_sip | CSR_sie | CSR_mie | CSR_sepc | CSR_medeleg | CSR_mideleg
  | CSR_stvec | CSR_stimecmp | CSR_menvcfg | CSR_pmpcfg0 | CSR_pmpaddr0 | CSR_satp | CSR_scause | CSR_stval | CSR_mcounteren | CSR_time

record hart = vdisk +
  csrs :: "csr \<Rightarrow> uint64"
  reg_tp :: uint64
  plic_irq :: uint
  plic_writes :: "(addr \<times> uint) list"
  kernel_pagetable :: addr
  forkret_first :: bool
  started :: int
  user_jump :: "(addr \<times> uint64) option"
  sym_etext :: addr
  sym_main :: addr

definition csrr :: "csr \<Rightarrow> ('a hart_scheme, uint64) kproc" where
  "csrr c = gets (\<lambda>s. csrs s c)"

definition csrw :: "csr \<Rightarrow> uint64 \<Rightarrow> ('a hart_scheme, unit) kproc" where
  "csrw c x = modify (\<lambda>s. s\<lparr>csrs := (csrs s)(c := x)\<rparr>)"

definition r_mhartid :: "('a hart_scheme, uint64) kproc" where "r_mhartid = csrr CSR_mhartid"
definition r_mstatus :: "('a hart_scheme, uint64) kproc" where "r_mstatus = csrr CSR_mstatus"
definition w_mstatus :: "uint64 \<Rightarrow> ('a hart_scheme, unit) kproc" where "w_mstatus x = csrw CSR_mstatus x"
definition w_mepc :: "uint64 \<Rightarrow> ('a hart_scheme, unit) kproc" where "w_mepc x = csrw CSR_mepc x"
definition r_sstatus :: "('a hart_scheme, uint64) kproc" where "r_sstatus = csrr CSR_sstatus"
definition w_sstatus :: "uint64 \<Rightarrow> ('a hart_scheme, unit) kproc" where "w_sstatus x = csrw CSR_sstatus x"
definition r_sip :: "('a hart_scheme, uint64) kproc" where "r_sip = csrr CSR_sip"
definition w_sip :: "uint64 \<Rightarrow> ('a hart_scheme, unit) kproc" where "w_sip x = csrw CSR_sip x"
definition r_sie :: "('a hart_scheme, uint64) kproc" where "r_sie = csrr CSR_sie"
definition w_sie :: "uint64 \<Rightarrow> ('a hart_scheme, unit) kproc" where "w_sie x = csrw CSR_sie x"
definition r_mie :: "('a hart_scheme, uint64) kproc" where "r_mie = csrr CSR_mie"
definition w_mie :: "uint64 \<Rightarrow> ('a hart_scheme, unit) kproc" where "w_mie x = csrw CSR_mie x"
definition r_sepc :: "('a hart_scheme, uint64) kproc" where "r_sepc = csrr CSR_sepc"
definition w_sepc :: "uint64 \<Rightarrow> ('a hart_scheme, unit) kproc" where "w_sepc x = csrw CSR_sepc x"
definition r_medeleg :: "('a hart_scheme, uint64) kproc" where "r_medeleg = csrr CSR_medeleg"
definition w_medeleg :: "uint64 \<Rightarrow> ('a hart_scheme, unit) kproc" where "w_medeleg x = csrw CSR_medeleg x"
definition r_mideleg :: "('a hart_scheme, uint64) kproc" where "r_mideleg = csrr CSR_mideleg"
definition w_mideleg :: "uint64 \<Rightarrow> ('a hart_scheme, unit) kproc" where "w_mideleg x = csrw CSR_mideleg x"
definition r_stvec :: "('a hart_scheme, uint64) kproc" where "r_stvec = csrr CSR_stvec"
definition w_stvec :: "uint64 \<Rightarrow> ('a hart_scheme, unit) kproc" where "w_stvec x = csrw CSR_stvec x"
definition r_stimecmp :: "('a hart_scheme, uint64) kproc" where "r_stimecmp = csrr CSR_stimecmp"
definition w_stimecmp :: "uint64 \<Rightarrow> ('a hart_scheme, unit) kproc" where "w_stimecmp x = csrw CSR_stimecmp x"
definition r_menvcfg :: "('a hart_scheme, uint64) kproc" where "r_menvcfg = csrr CSR_menvcfg"
definition w_menvcfg :: "uint64 \<Rightarrow> ('a hart_scheme, unit) kproc" where "w_menvcfg x = csrw CSR_menvcfg x"
definition w_pmpcfg0 :: "uint64 \<Rightarrow> ('a hart_scheme, unit) kproc" where "w_pmpcfg0 x = csrw CSR_pmpcfg0 x"
definition w_pmpaddr0 :: "uint64 \<Rightarrow> ('a hart_scheme, unit) kproc" where "w_pmpaddr0 x = csrw CSR_pmpaddr0 x"
definition r_satp :: "('a hart_scheme, uint64) kproc" where "r_satp = csrr CSR_satp"
definition w_satp :: "uint64 \<Rightarrow> ('a hart_scheme, unit) kproc" where "w_satp x = csrw CSR_satp x"
definition r_scause :: "('a hart_scheme, uint64) kproc" where "r_scause = csrr CSR_scause"
definition r_stval :: "('a hart_scheme, uint64) kproc" where "r_stval = csrr CSR_stval"
definition r_mcounteren :: "('a hart_scheme, uint64) kproc" where "r_mcounteren = csrr CSR_mcounteren"
definition w_mcounteren :: "uint64 \<Rightarrow> ('a hart_scheme, unit) kproc" where "w_mcounteren x = csrw CSR_mcounteren x"
definition r_time :: "('a hart_scheme, uint64) kproc" where "r_time = csrr CSR_time"

definition r_tp :: "('a hart_scheme, uint64) kproc" where "r_tp = gets reg_tp"
definition w_tp :: "uint64 \<Rightarrow> ('a hart_scheme, unit) kproc" where "w_tp x = modify (\<lambda>s. s\<lparr>reg_tp := x\<rparr>)"

text \<open>The interrupt-enable flag of the hart, which the functions of riscv.h compute with the theory Riscv.\<close>

definition intr_on_hart :: "('a hart_scheme, unit) kproc" where
  "intr_on_hart = bind r_sstatus (\<lambda>x. w_sstatus (intr_on x))"

definition intr_off_hart :: "('a hart_scheme, unit) kproc" where
  "intr_off_hart = bind r_sstatus (\<lambda>x. w_sstatus (intr_off x))"

definition intr_get_hart :: "('a hart_scheme, bool) kproc" where
  "intr_get_hart = bind r_sstatus (\<lambda>x. return (intr_get x))"

definition cpuid :: "('a hart_scheme, int) kproc" where
  "cpuid = bind r_tp (\<lambda>x. return (sint (ucast x :: uint)))"

definition MSTATUS_MPP_MASK :: uint64 where "MSTATUS_MPP_MASK = push_bit 11 3"
definition MSTATUS_MPP_S :: uint64 where "MSTATUS_MPP_S = push_bit 11 1"
definition SIE_SEIE :: uint64 where "SIE_SEIE = push_bit 9 1"
definition SIE_STIE :: uint64 where "SIE_STIE = push_bit 5 1"
definition SIE_SSIE :: uint64 where "SIE_SSIE = push_bit 1 1"
definition MIE_STIE :: uint64 where "MIE_STIE = push_bit 5 1"

section \<open>The interrupt controller\<close>

definition PLIC_SENABLE :: "int \<Rightarrow> addr" where
  "PLIC_SENABLE h = PLIC + 0x2080 + word_of_int h * 0x100"
definition PLIC_SPRIORITY :: "int \<Rightarrow> addr" where
  "PLIC_SPRIORITY h = PLIC + 0x201000 + word_of_int h * 0x2000"
definition PLIC_SCLAIM :: "int \<Rightarrow> addr" where
  "PLIC_SCLAIM h = PLIC + 0x201004 + word_of_int h * 0x2000"

definition plic_write :: "addr \<Rightarrow> uint \<Rightarrow> ('a hart_scheme, unit) kproc" where
  "plic_write a v = modify (\<lambda>s. s\<lparr>plic_writes := plic_writes s @ [(a, v)]\<rparr>)"

definition plicinit :: "('a hart_scheme, unit) kproc" where
  "plicinit =
     bind (plic_write (PLIC + word_of_int UART0_IRQ * 4) 1) (\<lambda>_.
     plic_write (PLIC + word_of_int VIRTIO0_IRQ * 4) 1)"

definition plicinithart :: "('a hart_scheme, unit) kproc" where
  "plicinithart =
     bind cpuid (\<lambda>h.
     bind (plic_write (PLIC_SENABLE h) (push_bit (nat UART0_IRQ) 1 OR push_bit (nat VIRTIO0_IRQ) 1)) (\<lambda>_.
     plic_write (PLIC_SPRIORITY h) 0))"

definition plic_claim :: "('a hart_scheme, int) kproc" where
  "plic_claim = bind cpuid (\<lambda>h. bind (gets plic_irq) (\<lambda>irq. return (sint irq)))"

definition plic_complete :: "int \<Rightarrow> ('a hart_scheme, unit) kproc" where
  "plic_complete irq = bind cpuid (\<lambda>h. plic_write (PLIC_SCLAIM h) (word_of_int irq))"

end
