(* ===== verification/Trap.thy ===== *)
theory Trap
  imports Csr Sched
begin

text \<open>
  kernel/trap.c with forkret() of kernel/proc.c, and the boot code of kernel/start.c and
  kernel/main.c with the last two functions of kernel/vm.c.  The jump into the trampoline that ends
  usertrapret() is recorded in \<open>user_jump\<close>.
\<close>

section \<open>Interrupts\<close>

definition trapinit :: "('a hart_scheme, unit) kproc" where
  "trapinit = initlk LkTicks"

definition trapinithart :: "('a hart_scheme, unit) kproc" where
  "trapinithart = bind (gets sym_kernelvec) w_stvec"

definition clockintr :: "('a hart_scheme, unit) kproc" where
  "clockintr =
     bind cpuid (\<lambda>h.
     bind (whenM (h = 0)
       (bind (acq LkTicks) (\<lambda>_.
        bind (modify (\<lambda>s. s\<lparr>ticks := ticks s + 1\<rparr>)) (\<lambda>_.
        bind (wakeup ChTicks) (\<lambda>_.
        rel LkTicks))))) (\<lambda>_.
     bind r_time (\<lambda>t. w_stimecmp (t + 1000000))))"

definition devintr :: "('a hart_scheme, int) kproc" where
  "devintr =
     bind r_scause (\<lambda>scause.
     if scause = 0x8000000000000009 then
       bind plic_claim (\<lambda>irq.
       bind (if irq = UART0_IRQ then uartintr
             else if irq = VIRTIO0_IRQ then virtio_disk_intr
             else whenM (irq \<noteq> 0)
               (bind (printf (chars ''unexpected interrupt irq=%d'' @ [10]) [VInt (word_of_int irq)]) (\<lambda>_. return ()))) (\<lambda>_.
       bind (whenM (irq \<noteq> 0) (plic_complete irq)) (\<lambda>_.
       return 1)))
     else if scause = 0x8000000000000005 then bind clockintr (\<lambda>_. return 2)
     else return 0)"

section \<open>To and from user space\<close>

definition userret_jump :: "addr \<Rightarrow> uint64 \<Rightarrow> ('a hart_scheme, unit) kproc" where
  "userret_jump a sp = modify (\<lambda>s. s\<lparr>user_jump := Some (a, sp)\<rparr>)"

definition usertrapret :: "('a hart_scheme, unit) kproc" where
  "usertrapret =
     bind myprocp (\<lambda>p.
     bind intr_off_hart (\<lambda>_.
     bind (gets (\<lambda>s. TRAMPOLINE + (sym_uservec s - sym_trampoline s))) (\<lambda>trampoline_uservec.
     bind (w_stvec trampoline_uservec) (\<lambda>_.
     bind r_satp (\<lambda>ksatp.
     bind (tf_set p TF_kernel_satp ksatp) (\<lambda>_.
     bind (the_proc p) (\<lambda>q.
     bind (tf_set p TF_kernel_sp (p_kstack q + PGSIZE)) (\<lambda>_.
     bind (gets sym_usertrap) (\<lambda>ut.
     bind (tf_set p TF_kernel_trap ut) (\<lambda>_.
     bind r_tp (\<lambda>tp.
     bind (tf_set p TF_kernel_hartid tp) (\<lambda>_.
     bind r_sstatus (\<lambda>x.
     bind (w_sstatus ((x AND NOT SSTATUS_SPP) OR SSTATUS_SPIE)) (\<lambda>_.
     bind (tf_get p TF_epc) (\<lambda>epc.
     bind (w_sepc epc) (\<lambda>_.
     bind (gets (\<lambda>s. TRAMPOLINE + (sym_userret s - sym_trampoline s))) (\<lambda>trampoline_userret.
     userret_jump trampoline_userret (MAKE_SATP (p_pagetable q)))))))))))))))))))"

definition usertrap_other :: "nat \<Rightarrow> ('a hart_scheme, unit) kproc" where
  "usertrap_other p =
     bind r_scause (\<lambda>sc.
     bind (the_proc p) (\<lambda>q.
     bind (printf (chars ''usertrap(): unexpected scause 0x%lx pid=%d'' @ [10]) [VInt sc, VInt (word_of_int (p_pid q))]) (\<lambda>_.
     bind r_sepc (\<lambda>pc.
     bind r_stval (\<lambda>tv.
     bind (printf (chars ''            sepc=0x%lx stval=0x%lx'' @ [10]) [VInt pc, VInt tv]) (\<lambda>_.
     setkilled p))))))"

definition usertrap_cause :: "nat \<Rightarrow> ('a hart_scheme, int) kproc" where
  "usertrap_cause p =
     bind r_scause (\<lambda>sc.
     if sc = 8 then
       bind (killed p) (\<lambda>k.
       bind (whenM (k \<noteq> 0) (exit (-1))) (\<lambda>_.
       bind (tf_get p TF_epc) (\<lambda>epc.
       bind (tf_set p TF_epc (epc + 4)) (\<lambda>_.
       bind intr_on_hart (\<lambda>_.
       bind syscall (\<lambda>_.
       return 0))))))
     else
       bind devintr (\<lambda>which_dev.
       if which_dev \<noteq> 0 then return which_dev
       else bind (usertrap_other p) (\<lambda>_. return 0)))"

definition usertrap :: "('a hart_scheme, unit) kproc" where
  "usertrap =
     bind r_sstatus (\<lambda>x.
     if x AND SSTATUS_SPP \<noteq> 0 then panic ''usertrap: not from user mode'' else
     bind (gets sym_kernelvec) (\<lambda>kv.
     bind (w_stvec kv) (\<lambda>_.
     bind myprocp (\<lambda>p.
     bind r_sepc (\<lambda>pc.
     bind (tf_set p TF_epc pc) (\<lambda>_.
     bind (usertrap_cause p) (\<lambda>which_dev.
     bind (killed p) (\<lambda>k.
     bind (whenM (k \<noteq> 0) (exit (-1))) (\<lambda>_.
     bind (whenM (which_dev = 2) yield) (\<lambda>_.
     usertrapret))))))))))"

definition kerneltrap :: "('a hart_scheme, unit) kproc" where
  "kerneltrap =
     bind r_sepc (\<lambda>pc.
     bind r_sstatus (\<lambda>x.
     bind r_scause (\<lambda>sc.
     if x AND SSTATUS_SPP = 0 then panic ''kerneltrap: not from supervisor mode'' else
     bind intr_get_hart (\<lambda>i.
     if i then panic ''kerneltrap: interrupts enabled'' else
     bind devintr (\<lambda>which_dev.
     if which_dev = 0 then
       bind r_sepc (\<lambda>pc'.
       bind r_stval (\<lambda>tv.
       bind (printf (chars ''scause=0x%lx sepc=0x%lx stval=0x%lx'' @ [10]) [VInt sc, VInt pc', VInt tv]) (\<lambda>_.
       panic ''kerneltrap'')))
     else
     bind myproc (\<lambda>p.
     bind (whenM (which_dev = 2 \<and> p \<noteq> None) yield) (\<lambda>_.
     bind (w_sepc pc) (\<lambda>_.
     w_sstatus x))))))))"

definition forkret :: "('a hart_scheme, unit) kproc" where
  "forkret =
     bind myprocp (\<lambda>p.
     bind (rel (LkProc p)) (\<lambda>_.
     bind (gets forkret_first) (\<lambda>first.
     bind (whenM first
       (bind (fsinit (uint ROOTDEV)) (\<lambda>_.
        modify (\<lambda>s. s\<lparr>forkret_first := False\<rparr>)))) (\<lambda>_.
     usertrapret))))"

section \<open>Boot\<close>

definition timerinit :: "('a hart_scheme, unit) kproc" where
  "timerinit =
     bind r_mie (\<lambda>x.
     bind (w_mie (x OR MIE_STIE)) (\<lambda>_.
     bind r_menvcfg (\<lambda>x.
     bind (w_menvcfg (x OR push_bit 63 1)) (\<lambda>_.
     bind r_mcounteren (\<lambda>x.
     bind (w_mcounteren (x OR 2)) (\<lambda>_.
     bind r_time (\<lambda>t.
     w_stimecmp (t + 1000000))))))))"

definition start :: "('a hart_scheme, unit) kproc" where
  "start =
     bind r_mstatus (\<lambda>x.
     bind (w_mstatus ((x AND NOT MSTATUS_MPP_MASK) OR MSTATUS_MPP_S)) (\<lambda>_.
     bind (gets sym_main) (\<lambda>m.
     bind (w_mepc m) (\<lambda>_.
     bind (w_satp 0) (\<lambda>_.
     bind (w_medeleg 0xffff) (\<lambda>_.
     bind (w_mideleg 0xffff) (\<lambda>_.
     bind r_sie (\<lambda>x.
     bind (w_sie (x OR SIE_SEIE OR SIE_STIE OR SIE_SSIE)) (\<lambda>_.
     bind (w_pmpaddr0 0x3fffffffffffff) (\<lambda>_.
     bind (w_pmpcfg0 0xf) (\<lambda>_.
     bind timerinit (\<lambda>_.
     bind r_mhartid (\<lambda>h.
     w_tp (word_of_int (sint (ucast h :: uint))))))))))))))))"

definition kvminit :: "('a hart_scheme, unit) kproc" where
  "kvminit =
     bind (gets sym_etext) (\<lambda>et.
     bind (gets sym_trampoline) (\<lambda>tr.
     bind (kvmmake et tr) (\<lambda>pt.
     modify (\<lambda>s. s\<lparr>kernel_pagetable := pt\<rparr>))))"

definition kvminithart :: "('a hart_scheme, unit) kproc" where
  "kvminithart = bind (gets kernel_pagetable) (\<lambda>pt. w_satp (MAKE_SATP pt))"

definition say :: "string \<Rightarrow> ('a hart_scheme, unit) kproc" where
  "say m = bind (printf (chars m @ [10]) []) (\<lambda>_. return ())"

text \<open>The start of scheduler(): no process, interrupts on, then the rounds.\<close>

definition scheduler :: "('a hart_scheme, unit) kproc" where
  "scheduler =
     bind (modify (\<lambda>s. s\<lparr>curproc := None\<rparr>)) (\<lambda>_.
     bind intr_on_hart (\<lambda>_.
     scheduler_round [0..<NPROC]))"

definition main_boot :: "('a hart_scheme, unit) kproc" where
  "main_boot =
     bind consoleinit (\<lambda>_.
     bind printfinit (\<lambda>_.
     bind (say '''') (\<lambda>_.
     bind (say ''xv6 kernel is booting'') (\<lambda>_.
     bind (say '''') (\<lambda>_.
     bind kinit (\<lambda>_.
     bind kvminit (\<lambda>_.
     bind kvminithart (\<lambda>_.
     bind procinit (\<lambda>_.
     bind trapinit (\<lambda>_.
     bind trapinithart (\<lambda>_.
     bind plicinit (\<lambda>_.
     bind plicinithart (\<lambda>_.
     bind binit (\<lambda>_.
     bind iinit (\<lambda>_.
     bind fileinit (\<lambda>_.
     bind virtio_disk_init (\<lambda>_.
     bind userinit (\<lambda>_.
     modify (\<lambda>s. s\<lparr>started := 1\<rparr>)))))))))))))))))))"

definition main_other :: "('a hart_scheme, unit) kproc" where
  "main_other =
     bind (gets started) (\<lambda>st.
     if st = 0 then hang else
     bind cpuid (\<lambda>h.
     bind (printf (chars ''hart %d starting'' @ [10]) [VInt (word_of_int h)]) (\<lambda>_.
     bind kvminithart (\<lambda>_.
     bind trapinithart (\<lambda>_.
     plicinithart)))))"

definition main :: "('a hart_scheme, unit) kproc" where
  "main =
     bind cpuid (\<lambda>h.
     bind (if h = 0 then main_boot else main_other) (\<lambda>_.
     scheduler))"

end
