(* ===== verification/States.thy ===== *)
theory States
  imports Csr Bio_Prop Vm_Copy
begin

text \<open>
  A concrete state of the whole kernel, with every table empty, the buffer cache as binit()
  leaves it and process 0 running.  Properties with hypotheses are applied to it or to updates of it.
\<close>

definition file0 :: kfile where
  "file0 = \<lparr>f_type = FD_NONE, f_ref = 0, f_readable = False, f_writable = False, f_pipe = 0, f_ip = None, f_off = 0, f_major = 0\<rparr>"

definition pipe0 :: pipe where
  "pipe0 = \<lparr>pi_data = (\<lambda>_. 0), pi_nread = 0, pi_nwrite = 0, pi_readopen = 1, pi_writeopen = 1\<rparr>"

definition inode0 :: inode where
  "inode0 = \<lparr>i_dev = 0, i_inum = 0, i_ref = 0, i_valid = 0, i_type = 0, i_major = 0, i_minor = 0, i_nlink = 0, i_size = 0,
     i_addrs = (\<lambda>_. 0)\<rparr>"

definition klog0 :: klog where
  "klog0 = \<lparr>lg_start = 2, lg_size = 30, lg_outstanding = 0, lg_committing = 0, lg_dev = 1,
     lg_lh = \<lparr>lh_n = 0, lh_block = (\<lambda>_. 0)\<rparr>\<rparr>"

text \<open>The superblock mkfs writes.\<close>

definition sb0 :: superblock where
  "sb0 = \<lparr>sb_magic = FSMAGIC, sb_size = 2000, sb_nblocks = 1954, sb_ninodes = 200, sb_nlog = 30, sb_logstart = 2,
     sb_inodestart = 32, sb_bmapstart = 45\<rparr>"

definition hart0 :: hart where
  "hart0 = \<lparr>held = {}, curproc = Some 0, procs = (\<lambda>_. proc0),
     slocks = (\<lambda>_. \<lparr>sl_locked = 0, sl_name = [], sl_pid = 0\<rparr>), initproc = Some 0, nextpid = 2,
     ticks = 0, cons_out = [], mem = (\<lambda>_. 0), freelist = 0, kend = 0x80022000, bufs = bufs bio1,
     disk = disk bio1, dwrites = [], klog = klog0, sb = sb0, inodes = (\<lambda>_. inode0),
     uart_tx_buf = (\<lambda>_. 0), uart_tx_w = 0, uart_tx_r = 0, uart_rx = [], uart_room = 16, uart_regs = (\<lambda>_. 0),
     panicked = 0, pr_locking = 1, cons_buf = (\<lambda>_. 0), cons_r = 0, cons_w = 0, cons_e = 0,
     devsw = (\<lambda>_. (None, None)), ftable = (\<lambda>_. file0), pipes = (\<lambda>_. pipe0),
     sym_trampoline = 0x80007000, sym_uservec = 0x80007000, sym_userret = 0x8000709c, sym_forkret = 0x80001900,
     sym_usertrap = 0x80002000, sym_kernelvec = 0x80005000,
     vd_desc_page = 0, vd_avail_page = 0, vd_used_page = 0, vd_desc = (\<lambda>_. desc0), vd_avail = avail0, vd_used = used0,
     vd_free = (\<lambda>i. i < 8), vd_used_idx = 0, vd_info_b = (\<lambda>_. None), vd_info_status = (\<lambda>_. 0),
     vd_ops = (\<lambda>_. \<lparr>rq_type = 0, rq_reserved = 0, rq_sector = 0\<rparr>), vd_regs = [], vd_reg = (\<lambda>_ _. 0),
     sym_ops = (\<lambda>i. 0x80020000 + 16 * of_nat i), sym_status = (\<lambda>i. 0x80020108 + 16 * of_nat i),
     sym_data = (\<lambda>i. 0x80010000 + 1112 * of_nat i),
     csrs = (\<lambda>_. 0), reg_tp = 0, plic_irq = 0, plic_writes = [], kernel_pagetable = 0x87fff000, forkret_first = True,
     started = 0, user_jump = None, sym_etext = 0x80008000, sym_main = 0x80000e00\<rparr>"

lemma hart0_simps [simp]:
  "held hart0 = {}" "curproc hart0 = Some 0" "procs hart0 = (\<lambda>_. proc0)"
  "slocks hart0 = (\<lambda>_. \<lparr>sl_locked = 0, sl_name = [], sl_pid = 0\<rparr>)" "initproc hart0 = Some 0" "nextpid hart0 = 2"
  "ticks hart0 = 0" "cons_out hart0 = []" "mem hart0 = (\<lambda>_. 0)" "freelist hart0 = 0" "kend hart0 = 0x80022000"
  "bufs hart0 = bufs bio1" "disk hart0 = disk bio1" "dwrites hart0 = []" "klog hart0 = klog0" "sb hart0 = sb0"
  "inodes hart0 = (\<lambda>_. inode0)" "uart_tx_buf hart0 = (\<lambda>_. 0)" "uart_tx_w hart0 = 0" "uart_tx_r hart0 = 0"
  "uart_rx hart0 = []" "uart_room hart0 = 16" "uart_regs hart0 = (\<lambda>_. 0)" "panicked hart0 = 0" "pr_locking hart0 = 1"
  "cons_buf hart0 = (\<lambda>_. 0)" "cons_r hart0 = 0" "cons_w hart0 = 0" "cons_e hart0 = 0" "devsw hart0 = (\<lambda>_. (None, None))"
  "ftable hart0 = (\<lambda>_. file0)" "pipes hart0 = (\<lambda>_. pipe0)" "sym_trampoline hart0 = 0x80007000"
  "sym_uservec hart0 = 0x80007000" "sym_userret hart0 = 0x8000709c" "sym_forkret hart0 = 0x80001900"
  "sym_usertrap hart0 = 0x80002000" "sym_kernelvec hart0 = 0x80005000" "vd_desc hart0 = (\<lambda>_. desc0)"
  "vd_avail hart0 = avail0" "vd_used hart0 = used0" "vd_free hart0 = (\<lambda>i. i < 8)" "vd_used_idx hart0 = 0"
  "vd_info_b hart0 = (\<lambda>_. None)" "vd_info_status hart0 = (\<lambda>_. 0)"
  "vd_ops hart0 = (\<lambda>_. \<lparr>rq_type = 0, rq_reserved = 0, rq_sector = 0\<rparr>)" "vd_regs hart0 = []" "vd_reg hart0 = (\<lambda>_ _. 0)"
  "sym_ops hart0 = (\<lambda>i. 0x80020000 + 16 * of_nat i)" "sym_status hart0 = (\<lambda>i. 0x80020108 + 16 * of_nat i)"
  "sym_data hart0 = (\<lambda>i. 0x80010000 + 1112 * of_nat i)"
  "csrs hart0 = (\<lambda>_. 0)" "reg_tp hart0 = 0" "plic_irq hart0 = 0" "plic_writes hart0 = []" "kernel_pagetable hart0 = 0x87fff000"
  "forkret_first hart0 = True" "started hart0 = 0" "user_jump hart0 = None" "sym_etext hart0 = 0x80008000"
  "sym_main hart0 = 0x80000e00"
  by (simp_all add: hart0_def)

text \<open>The same state where every process has the page table of \<open>vm0\<close>, with one user page at address 0.\<close>

definition hart_u :: hart where
  "hart_u = hart0\<lparr>mem := vm0_mem, procs := (\<lambda>_. proc0\<lparr>p_pagetable := 0x80022000\<rparr>)\<rparr>"

lemma hart_u_as: "held s = held hart_u \<Longrightarrow> mem s = mem hart_u \<Longrightarrow> freelist s = freelist hart_u \<Longrightarrow> kend s = kend hart_u \<Longrightarrow>
    as_inv s 0x80022000"
  using vm0_as by (subst as_inv_cong [of _ vm0]) (simp_all add: hart_u_def vm0_def)

lemma hart_u_writable: "va < 4096 \<Longrightarrow> uwritable (mem hart_u) 0x80022000 va"
  by (simp add: hart_u_def vm0_writable)

lemma hart_u_readable: "va < 4096 \<Longrightarrow> ureadable (mem hart_u) 0x80022000 va"
  using hart_u_writable [of va] as_sepD(2) [OF hart_u_as [of hart_u], of va] by (auto simp: uwritable_def ureadable_def)

end
