(* ===== verification/Kprintf_Prop.thy ===== *)
theory Kprintf_Prop
  imports Kprintf States
begin

text \<open>
  What the formatted output of kernel/printf.c prints: the bytes of a number denote it, the
  sixteen-byte buffer of printint() holds exactly the numbers stated here, and printf() prints the
  expansion of a format, given as a list of items, on the console.
\<close>

section \<open>Numbers\<close>

definition digit_val :: "byte \<Rightarrow> nat" where
  "digit_val c = (if c < 97 then unat c - 48 else unat c - 87)"

text \<open>The number a string of digits denotes, most significant digit first.\<close>

definition num_val :: "nat \<Rightarrow> byte list \<Rightarrow> nat" where
  "num_val base cs = foldl (\<lambda>v c. v * base + digit_val c) 0 cs"

lemma digits_vals: "map digit_val digits = [0..<16]"
  by code_simp

lemma length_digits: "length digits = 16"
  by (simp add: digits_def chars_def)

lemma digit_val_nth: "i < 16 \<Longrightarrow> digit_val (digits ! i) = i"
  using arg_cong [OF digits_vals, of "\<lambda>xs. xs ! i"] by (simp add: nth_map length_digits)

lemma num_val_snoc: "num_val base (cs @ [c]) = num_val base cs * base + digit_val c"
  by (simp add: num_val_def)

lemma digit_bytes_val:
  assumes "2 \<le> base" and "base \<le> 16"
  shows "num_val base (rev (digit_bytes x base)) = x"
proof (induction x rule: less_induct)
  case (less x)
  have d: "digit_val (digits ! (x mod base)) = x mod base" using assms mod_less_divisor [of base x] by (intro digit_val_nth) linarith
  show ?case
  proof (cases "x div base = 0")
    case True
    then have "x mod base = x" using assms by (simp add: div_eq_0_iff)
    then show ?thesis using True d by (simp add: digit_bytes.simps [of x] num_val_def)
  next
    case False
    then have "x div base < x" using assms by (intro div_less_dividend) (auto intro: Nat.gr0I)
    then have "num_val base (rev (digit_bytes (x div base) base)) = x div base" by (rule less)
    then show ?thesis using False assms d by (simp add: digit_bytes.simps [of x] num_val_snoc)
  qed
qed

lemma digit_bytes_nonempty: "digit_bytes x base \<noteq> []"
  by (simp add: digit_bytes.simps [of x])

lemma length_digit_bytes:
  assumes "2 \<le> base" and "0 < k"
  shows "length (digit_bytes x base) \<le> k \<longleftrightarrow> x < base ^ k"
  using assms(2)
proof (induction k arbitrary: x)
  case (Suc k)
  show ?case
  proof (cases "x div base = 0")
    case True
    then have "x < base" using assms(1) by (simp add: div_eq_0_iff)
    then have "x < base ^ Suc k" using assms(1) less_le_trans [of x base "base * base ^ k"] by simp
    then show ?thesis using True by (simp add: digit_bytes.simps [of x])
  next
    case False
    have e: "length (digit_bytes x base) = Suc (length (digit_bytes (x div base) base))"
      using False assms(1) by (simp add: digit_bytes.simps [of x])
    show ?thesis
    proof (cases k)
      case 0
      have "\<not> x < base" using False by (metis div_less)
      then show ?thesis using e 0 digit_bytes_nonempty by simp
    next
      case (Suc m)
      then have "length (digit_bytes (x div base) base) \<le> k \<longleftrightarrow> x div base < base ^ k" using Suc.IH by simp
      also have "\<dots> \<longleftrightarrow> x < base ^ Suc k" using assms(1) by (simp add: div_less_iff_less_mult mult.commute)
      finally show ?thesis using e by simp
    qed
  qed
qed simp

text \<open>What printint() prints denotes the number: signed numbers with their sign, unsigned ones in their base.\<close>

definition printed_val :: "nat \<Rightarrow> byte list \<Rightarrow> int" where
  "printed_val base cs =
     (case cs of c # ds \<Rightarrow> if c = 45 then - int (num_val base ds) else int (num_val base cs) | [] \<Rightarrow> 0)"

lemma nth_digits_no_sign: "i < 16 \<Longrightarrow> digits ! i \<noteq> 45"
  using nth_mem [of i digits] by (auto simp: length_digits digits_def chars_def)

lemma digit_bytes_no_sign:
  assumes "2 \<le> base" and "base \<le> 16"
  shows "45 \<notin> set (digit_bytes x base)"
proof (induction x rule: less_induct)
  case (less x)
  have "digits ! (x mod base) \<noteq> 45" using assms mod_less_divisor [of base x] by (intro nth_digits_no_sign) linarith
  moreover have "45 \<notin> set (digit_bytes (x div base) base)" if "x div base \<noteq> 0"
    using that assms by (intro less div_less_dividend) (auto intro: Nat.gr0I)
  ultimately show ?case by (simp add: digit_bytes.simps [of x])
qed

lemma sint_neg: "sint x < 0 \<Longrightarrow> sint x = - int (unat (- x))" for x :: "'a::len word"
proof -
  assume n: "sint x < 0"
  have e: "- x = word_of_int (- sint x)" by simp
  have "- sint x \<le> 2 ^ (LENGTH('a) - 1)" using sint_ge [of x] by simp
  also have "(2::int) ^ (LENGTH('a) - 1) < 2 ^ LENGTH('a)" by (rule power_strict_increasing) simp_all
  finally have "take_bit LENGTH('a) (- sint x) = - sint x" using n by (intro take_bit_int_eq_self) simp_all
  then have "uint (- x) = - sint x" by (simp only: e uint_word_of_int_eq)
  then show ?thesis by simp
qed

lemma sint_pos: "\<not> sint x < 0 \<Longrightarrow> sint x = uint x" for x :: "'a::len word"
proof -
  assume n: "\<not> sint x < 0"
  have "sint x < 2 ^ (LENGTH('a) - 1)" by (rule sint_lt)
  also have "(2::int) ^ (LENGTH('a) - 1) < 2 ^ LENGTH('a)" by (rule power_strict_increasing) simp_all
  finally show ?thesis using n by (simp add: uint_sint take_bit_int_eq_self)
qed

lemma printed_val_plain: "45 \<notin> set cs \<Longrightarrow> printed_val base cs = int (num_val base cs)"
  by (cases cs) (auto simp: printed_val_def num_val_def)

lemma print_buf_val:
  assumes "base = 10 \<or> base = 16"
  shows "printed_val base (rev (print_buf x base sg)) = (if sg then sint x else uint x)"
proof -
  have b: "2 \<le> base" "base \<le> 16" using assms by auto
  have pos: "printed_val base (rev (digit_bytes n base)) = int n" for n
    using printed_val_plain [of "rev (digit_bytes n base)" base] digit_bytes_val [OF b, of n] digit_bytes_no_sign [OF b, of n]
    by simp
  have neg: "printed_val base (rev (digit_bytes n base @ [45])) = - int n" for n
    using digit_bytes_val [OF b, of n] by (simp add: printed_val_def)
  show ?thesis
  proof (cases "sg \<and> sint x < 0")
    case True
    then have "print_buf x base sg = digit_bytes (unat (- x)) base @ [45]" by (simp add: print_buf_def Let_def)
    then show ?thesis using neg [of "unat (- x)"] sint_neg [of x] True by metis
  next
    case False
    then have "print_buf x base sg = digit_bytes (unat x) base" by (auto simp: print_buf_def Let_def)
    then show ?thesis using pos [of "unat x"] sint_pos [of x] False by (metis uint_nat)
  qed
qed

section \<open>The buffer of printint()\<close>

lemma length_print_buf:
  "length (print_buf x base sg) = length (digit_bytes (nat (abs (if sg then sint x else uint x))) base) + of_bool (sg \<and> sint x < 0)"
proof (cases "sg \<and> sint x < 0")
  case True
  then have "nat (abs (sint x)) = unat (- x)" using sint_neg [of x] by linarith
  then show ?thesis using True by (simp add: print_buf_def Let_def)
next
  case False
  then have "nat (abs (if sg then sint x else uint x)) = unat x" using sint_pos [of x] by (auto simp: unsigned_of_nat)
  then show ?thesis using False by (auto simp: print_buf_def Let_def)
qed

lemma print_buf_decimal:
  "length (print_buf x 10 sg) \<le> 16 \<longleftrightarrow> (if sg then - (10 ^ 15) < sint x \<and> sint x < 10 ^ 16 else uint x < 10 ^ 16)"
proof (cases "sg \<and> sint x < 0")
  case True
  have "length (digit_bytes (nat (abs (sint x))) 10) \<le> 15 \<longleftrightarrow> nat (abs (sint x)) < 10 ^ 15"
    by (rule length_digit_bytes) simp_all
  then show ?thesis using True by (simp add: length_print_buf) linarith
next
  case False
  have "length (digit_bytes (nat (abs (if sg then sint x else uint x))) 10) \<le> 16 \<longleftrightarrow> nat (abs (if sg then sint x else uint x)) < 10 ^ 16"
    by (rule length_digit_bytes) simp_all
  then show ?thesis using False by (auto simp: length_print_buf nat_less_iff)
qed

lemma va_int_sint: "sint (va_int [VInt v]) = sint (ucast v :: 32 word)"
  by (simp add: sint_up_scast is_up)

text \<open>
  C23. printint() builds a number in a buffer of 16 bytes.  The buffer is long enough for every
  argument of %d and for every argument of %lx, but not for the others: %ld needs more than 16
  bytes from 10^16 and from -10^15 on, and %u, whose argument printf() takes as a signed
  int, needs them for every value with the top bit set.
\<close>

theorem printint_buffer_bounds:
  "length (print_buf (va_int [VInt v]) 10 True) \<le> 16 \<and>
   length (print_buf (va_long [VInt v]) 16 False) \<le> 16 \<and>
   (length (print_buf (va_long [VInt v]) 10 True) \<le> 16 \<longleftrightarrow> - (10 ^ 15) < sint v \<and> sint v < 10 ^ 16) \<and>
   (length (print_buf (va_int [VInt v]) 10 False) \<le> 16 \<longleftrightarrow> 0 \<le> sint (ucast v :: uint))"
proof -
  let ?w = "ucast v :: 32 word"
  have w: "- (2 ^ 31) \<le> sint ?w" "sint ?w < 2 ^ 31" using sint_ge [of ?w] sint_lt [of ?w] by simp_all
  have "length (digit_bytes (nat (abs (uint v))) 16) \<le> 16 \<longleftrightarrow> nat (abs (uint v)) < 16 ^ 16"
    by (rule length_digit_bytes) simp_all
  moreover have "nat (abs (uint v)) < 16 ^ 16" using unat64_less [of v] by simp
  ultimately have hex: "length (print_buf v 16 False) \<le> 16" by (simp add: length_print_buf)
  have "uint (va_int [VInt v]) < 10 ^ 16 \<longleftrightarrow> 0 \<le> sint ?w"
  proof (cases "sint ?w < 0")
    case True
    have "(sint ?w + 2 ^ 64) mod 2 ^ 64 = sint ?w + 2 ^ 64" using w True by (intro mod_pos_pos_trivial) simp_all
    then have "uint (va_int [VInt v]) = sint ?w + 2 ^ 64"
      using w uint_sint [of "va_int [VInt v]"] va_int_sint [of v] by (simp add: take_bit_eq_mod del: va_int.simps)
    then show ?thesis using w True by simp
  next
    case False
    then show ?thesis using w sint_pos [of "va_int [VInt v]"] va_int_sint [of v] by (simp del: va_int.simps)
  qed
  then show ?thesis using w hex va_int_sint [of v] by (simp add: print_buf_decimal del: va_int.simps)
qed

section \<open>The output of printf()\<close>

definition out :: "byte list \<Rightarrow> 'a uart_scheme \<Rightarrow> 'a uart_scheme" where
  "out bs s = s\<lparr>cons_out := cons_out s @ bs, uart_room := uart_room s - length bs\<rparr>"

lemma out_simps [simp]:
  "panicked (out bs s) = panicked s" "held (out bs s) = held s" "pr_locking (out bs s) = pr_locking s"
  "cons_out (out bs s) = cons_out s @ bs" "out [] s = s" "out cs (out bs s) = out (bs @ cs) s"
  by (simp_all add: out_def)

lemma consputc_out: "panicked s = 0 \<Longrightarrow> consputc (uint c) s = Ret () (out [c] s)"
proof -
  assume p: "panicked s = 0"
  have "uint c \<noteq> BACKSPACE" using uint_lt2p [of c] by (simp add: BACKSPACE_def)
  moreover have "max 1 r - 1 = r - (1 :: nat)" for r by simp
  ultimately show ?thesis using p by (simp add: consputc_def uartputc_sync_eq out_def)
qed

lemma consputc_num: "0 \<le> n \<Longrightarrow> n < 256 \<Longrightarrow> panicked s = 0 \<Longrightarrow> consputc n s = Ret () (out [word_of_int n] s)"
  using consputc_out [of s "word_of_int n"] by (simp add: uint_word_of_int_eq take_bit_int_eq_self)

lemma forM_consputc: "panicked s = 0 \<Longrightarrow> forM bs (\<lambda>c. consputc (uint c)) s = Ret () (out bs s)"
  by (induction bs arbitrary: s) (simp_all add: bind_Ret consputc_out return_apply)

definition ptr_bytes :: "uint64 \<Rightarrow> byte list" where
  "ptr_bytes x = [48, 120] @ map (\<lambda>i. digits ! unat (drop_bit 60 (push_bit (4 * i) x))) [0..<16]"

lemma printptr_loop_out:
  "panicked s = 0 \<Longrightarrow>
    printptr_loop n x s = Ret () (out (map (\<lambda>i. digits ! unat (drop_bit 60 (push_bit (4 * i) x))) [0..<n]) s)"
proof (induction n arbitrary: x s)
  case (Suc n)
  have "map (\<lambda>i. digits ! unat (drop_bit 60 (push_bit (4 * i) x))) [0..<Suc n] =
      digits ! unat (drop_bit 60 x) # map (\<lambda>i. digits ! unat (drop_bit 60 (push_bit (4 * i) (push_bit 4 x)))) [0..<n]"
    unfolding upt_conv_Cons [OF zero_less_Suc] map_Suc_upt [symmetric] by (simp add: push_bit_push_bit algebra_simps)
  then show ?case using Suc by (simp add: bind_Ret consputc_out)
qed (simp add: return_apply)

lemma printptr_out: "panicked s = 0 \<Longrightarrow> printptr x s = Ret () (out (ptr_bytes x) s)"
  by (simp add: printptr_def bind_Ret consputc_num printptr_loop_out ptr_bytes_def del: printptr_loop.simps)

lemma printint_out: "panicked s = 0 \<Longrightarrow> printint x base sg s = Ret () (out (rev (print_buf x base sg)) s)"
  by (simp add: printint_def forM_consputc)

text \<open>
  A format as a list of items: a literal byte, a conversion, or a percent sign with a byte that
  is no conversion.  \<open>spell\<close> is how an item is written in the format string.
\<close>

datatype fconv = F_d | F_ld | F_lld | F_u | F_lu | F_llu | F_x | F_lx | F_llx | F_p | F_s

datatype fitem = Lit byte | Conv fconv | Percent | Unknown byte

fun spell_conv :: "fconv \<Rightarrow> byte list" where
  "spell_conv F_d = [100]" | "spell_conv F_ld = [108, 100]" | "spell_conv F_lld = [108, 108, 100]"
| "spell_conv F_u = [117]" | "spell_conv F_lu = [108, 117]" | "spell_conv F_llu = [108, 108, 117]"
| "spell_conv F_x = [120]" | "spell_conv F_lx = [108, 120]" | "spell_conv F_llx = [108, 108, 120]"
| "spell_conv F_p = [112]" | "spell_conv F_s = [115]"

fun spell :: "fitem \<Rightarrow> byte list" where
  "spell (Lit c) = [c]"
| "spell (Conv f) = 37 # spell_conv f"
| "spell Percent = [37, 37]"
| "spell (Unknown c) = [37, c]"

fun item_ok :: "fitem \<Rightarrow> bool" where
  "item_ok (Lit c) = (c \<noteq> 37)"
| "item_ok (Unknown c) = (c \<notin> {0, 37, 100, 108, 112, 115, 117, 120})"
| "item_ok _ = True"

fun conv_bytes :: "fconv \<Rightarrow> va list \<Rightarrow> byte list" where
  "conv_bytes F_d ap = rev (print_buf (va_int ap) 10 True)"
| "conv_bytes F_ld ap = rev (print_buf (va_long ap) 10 True)"
| "conv_bytes F_lld ap = rev (print_buf (va_long ap) 10 True)"
| "conv_bytes F_u ap = rev (print_buf (va_int ap) 10 False)"
| "conv_bytes F_lu ap = rev (print_buf (va_long ap) 10 False)"
| "conv_bytes F_llu ap = rev (print_buf (va_long ap) 10 False)"
| "conv_bytes F_x ap = rev (print_buf (va_int ap) 16 False)"
| "conv_bytes F_lx ap = rev (print_buf (va_long ap) 16 False)"
| "conv_bytes F_llx ap = rev (print_buf (va_long ap) 16 False)"
| "conv_bytes F_p ap = ptr_bytes (va_long ap)"
| "conv_bytes F_s ap = va_str ap"

fun expand :: "fitem list \<Rightarrow> va list \<Rightarrow> byte list" where
  "expand [] ap = []"
| "expand (Lit c # fs) ap = c # expand fs ap"
| "expand (Conv f # fs) ap = conv_bytes f ap @ expand fs (tl ap)"
| "expand (Percent # fs) ap = 37 # expand fs ap"
| "expand (Unknown c # fs) ap = [37, c] @ expand fs ap"

lemma printf_loop_items:
  assumes "panicked s = 0" and "list_all item_ok items"
  shows "printf_loop (concat (map spell items)) ap s = Ret () (out (expand items ap) s)"
  using assms
proof (induction items ap arbitrary: s rule: expand.induct)
  case (1 ap)
  then show ?case by (simp add: printf_loop.simps return_apply)
next
  case (2 c fs ap)
  then show ?case by (simp add: printf_loop.simps(2) bind_Ret consputc_out)
next
  case (3 f fs ap)
  then show ?case
    by (cases f) (simp_all add: printf_loop.simps(2) bind_Ret printint_out printptr_out forM_consputc)
next
  case (4 fs ap)
  then show ?case by (simp add: printf_loop.simps(2) bind_Ret consputc_num)
next
  case (5 c fs ap)
  then show ?case by (simp add: printf_loop.simps(2) bind_Ret consputc_num consputc_out)
qed

lemma printf_items:
  assumes "panicked s = 0" and "LkPr \<notin> held s" and "list_all item_ok items"
  shows "printf (concat (map spell items)) ap s = Ret 0 (out (expand items ap) s)"
  using assms
  by (simp add: printf_def kmon printf_loop_items) (simp add: out_def)





end
