(* ===== verification/Pipe_Prop.thy ===== *)
theory Pipe_Prop
  imports File Vm_Copy States
begin

text \<open>
  The pipes of kernel/pipe.c are first-in-first-out queues of at most \<open>PIPESIZE\<close> bytes
  whose counters may wrap; pipewrite() appends bytes of user memory to the queue and piperead()
  moves bytes from its front to user memory.
\<close>

section \<open>The queue\<close>

definition pipe_items :: "pipe \<Rightarrow> byte list" where
  "pipe_items q = ring (pi_data q) PIPESIZE (pi_nread q) (pi_nwrite q)"

definition pipe_ok :: "pipe \<Rightarrow> bool" where
  "pipe_ok q \<longleftrightarrow> unat (pi_nwrite q - pi_nread q) \<le> PIPESIZE"

definition pipe_put :: "byte \<Rightarrow> pipe \<Rightarrow> pipe" where
  "pipe_put c q = q\<lparr>pi_data := (pi_data q)(unat (pi_nwrite q) mod PIPESIZE := c), pi_nwrite := pi_nwrite q + 1\<rparr>"

definition pipe_get :: "pipe \<Rightarrow> byte \<times> pipe" where
  "pipe_get q = (pi_data q (unat (pi_nread q) mod PIPESIZE), q\<lparr>pi_nread := pi_nread q + 1\<rparr>)"

lemma pipe_full: "pi_nwrite q = pi_nread q + of_nat PIPESIZE \<longleftrightarrow> length (pipe_items q) = PIPESIZE"
  using ring_full_iff [of PIPESIZE "pi_nwrite q" "pi_nread q"] by (simp add: pipe_items_def PIPESIZE_def)

lemma pipe_empty: "pi_nread q = pi_nwrite q \<longleftrightarrow> pipe_items q = []"
  by (auto simp: pipe_items_def ring_empty)

lemma pipe_items_put: "length (pipe_items q) < PIPESIZE \<Longrightarrow> pipe_items (pipe_put c q) = pipe_items q @ [c]"
  unfolding pipe_items_def pipe_put_def PIPESIZE_def by (simp add: ring_put)

lemma pipe_items_get: "pipe_items q \<noteq> [] \<Longrightarrow> pipe_items q = fst (pipe_get q) # pipe_items (snd (pipe_get q))"
  unfolding pipe_items_def pipe_get_def PIPESIZE_def by (simp add: ring_empty ring_get)

lemma pipe_ok_items: "pipe_ok q \<longleftrightarrow> length (pipe_items q) \<le> PIPESIZE"
  by (simp add: pipe_ok_def pipe_items_def)

interpretation pipe_queue: bounded_queue pipe_items PIPESIZE pipe_ok pipe_put pipe_get
proof
  fix q x
  assume ok: "pipe_ok q"
  show "length (pipe_items q) \<le> PIPESIZE" using ok by (simp add: pipe_ok_items)
  {
    assume room: "length (pipe_items q) < PIPESIZE"
    show "pipe_items (pipe_put x q) = pipe_items q @ [x]" by (rule pipe_items_put [OF room])
    then show "pipe_ok (pipe_put x q)" using room by (simp add: pipe_ok_items)
  next
    assume ne: "pipe_items q \<noteq> []"
    show g: "pipe_items q = fst (pipe_get q) # pipe_items (snd (pipe_get q))" by (rule pipe_items_get [OF ne])
    show "pipe_ok (snd (pipe_get q))" using ok arg_cong [OF g, of length] by (simp add: pipe_ok_items)
  }
qed

section \<open>Writing\<close>

definition user_bytes :: "mem \<Rightarrow> addr \<Rightarrow> uint64 \<Rightarrow> nat \<Rightarrow> byte list" where
  "user_bytes m root va n = map (\<lambda>i. ubyte m root (va + of_nat i)) [0..<n]"

definition put_all :: "byte list \<Rightarrow> pipe \<Rightarrow> pipe" where
  "put_all bs q = fold pipe_put bs q"

lemma put_all_items:
  "length (pipe_items q) + length bs \<le> PIPESIZE \<Longrightarrow> pipe_items (put_all bs q) = pipe_items q @ bs"
  unfolding put_all_def by (induction bs arbitrary: q) (simp_all add: pipe_items_put)

lemma put_all_open:
  "pi_readopen (put_all bs q) = pi_readopen q" "pi_writeopen (put_all bs q) = pi_writeopen q"
  unfolding put_all_def by (induction bs arbitrary: q) (simp_all add: pipe_put_def)

lemma upd_pipe_simps [simp]:
  "procs (upd_pipe a g s) = procs s" "held (upd_pipe a g s) = held s" "curproc (upd_pipe a g s) = curproc s"
  "mem (upd_pipe a g s) = mem s" "freelist (upd_pipe a g s) = freelist s" "kend (upd_pipe a g s) = kend s"
  "pipes (upd_pipe a g s) = (pipes s)(a := g (pipes s a))" "upd_pipe a f (upd_pipe a g s) = upd_pipe a (f \<circ> g) s"
  by (simp_all add: upd_pipe_def)

lemma copyin1:
  assumes "vm_inv s pt" and "ureadable (mem s) pt va"
  shows "copyin pt va 1 s = Ret (0, [ubyte (mem s) pt va]) s"
  using copyin_spec [OF assms(1), of 1 va] assms(2) by simp

lemma pipewrite_loop_spec:
  assumes "vm_inv s pt" and "pt = p_pagetable (procs s p)" and "\<forall>i < n. ureadable (mem s) pt (va + of_nat i)"
    and "pi_readopen (pipes s pi) \<noteq> 0" and "p_killed (procs s p) = 0" and "LkProc p \<notin> held s"
    and "length (pipe_items (pipes s pi)) + n \<le> PIPESIZE" and "va = addr + word_of_int i"
  shows "pipewrite_loop pi p addr n i s = Ret (Some (i + int n)) (upd_pipe pi (put_all (user_bytes (mem s) pt va n)) s)"
  using assms
proof (induction n arbitrary: s i va)
  case 0
  then show ?case by (simp add: return_apply user_bytes_def put_all_def upd_pipe_def)
next
  case (Suc n)
  let ?c = "ubyte (mem s) pt va" and ?t = "upd_pipe pi (pipe_put (ubyte (mem s) pt va)) s"
  have vt: "vm_inv ?t pt" using Suc.prems(1) by (subst vm_inv_cong [of _ s]) simp_all
  have "ureadable (mem s) pt (va + 1 + of_nat j)" if "j < n" for j
    using Suc.prems(3) [rule_format, of "Suc j"] that by (simp add: add.assoc)
  then have rd: "\<forall>i < n. ureadable (mem ?t) pt (va + 1 + of_nat i)" by simp
  have it: "length (pipe_items (pipes ?t pi)) + n \<le> PIPESIZE" using Suc.prems(7) by (simp add: pipe_items_put)
  have op: "pi_readopen (pipes ?t pi) \<noteq> 0" using Suc.prems(4) by (simp add: pipe_put_def)
  have IH: "pipewrite_loop pi p addr n (i + 1) ?t =
      Ret (Some (i + 1 + int n)) (upd_pipe pi (put_all (user_bytes (mem ?t) pt (va + 1) n)) ?t)"
    by (rule Suc.IH [OF vt _ rd op]) (use Suc.prems it in \<open>simp_all add: algebra_simps\<close>)
  have "ureadable (mem s) pt va" using Suc.prems(3) by (auto dest: spec [where x = 0])
  then have c: "copyin pt va 1 s = Ret (0, [?c]) s" by (rule copyin1 [OF Suc.prems(1)])
  have "pi_nwrite (pipes s pi) \<noteq> pi_nread (pipes s pi) + of_nat PIPESIZE" using Suc.prems(7) by (simp add: pipe_full)
  moreover have "upd_pipe pi (\<lambda>q. q\<lparr>pi_data := (pi_data q)(unat (pi_nwrite q) mod PIPESIZE := ?c), pi_nwrite := pi_nwrite q + 1\<rparr>) s = ?t"
    by (simp add: upd_pipe_def pipe_put_def)
  moreover have "user_bytes (mem s) pt va (Suc n) = ?c # user_bytes (mem s) pt (va + 1) n"
    unfolding user_bytes_def upt_conv_Cons [OF zero_less_Suc] map_Suc_upt [symmetric] by (simp add: algebra_simps)
  ultimately show ?case
    using Suc.prems IH c
    by (simp add: krun the_pipe_def bind_Ret killed_eq bind_if put_all_def comp_def)
qed

lemma no_proc_locks_insert: "no_proc_locks s \<Longrightarrow> \<forall>p. l \<noteq> LkProc p \<Longrightarrow> no_proc_locks (s\<lparr>held := insert l (held s)\<rparr>)"
  by (auto simp: no_proc_locks_def)

text \<open>
  C17. pipewrite() on a pipe that has room for the \<open>n\<close> bytes and an open read end: it
  returns \<open>n\<close>, the bytes of user memory are appended to the queue in order, the queue stays within
  \<open>PIPESIZE\<close>, no other pipe changes, and every reader asleep on the pipe can run again.
\<close>

theorem pipewrite_appends:
  assumes "curproc s = Some p" and "p < NPROC" and "no_proc_locks s" and "LkPipe pi \<notin> held s"
    and "p_killed (procs s p) = 0" and "pi_readopen (pipes s pi) \<noteq> 0"
    and "vm_inv s (p_pagetable (procs s p))"
    and "\<forall>i < n. ureadable (mem s) (p_pagetable (procs s p)) (addr + of_nat i)"
    and "length (pipe_items (pipes s pi)) + n \<le> PIPESIZE"
  shows "\<exists>t. pipewrite pi addr (int n) s = Ret (int n) t \<and>
    pipe_items (pipes t pi) = pipe_items (pipes s pi) @ user_bytes (mem s) (p_pagetable (procs s p)) addr n \<and>
    pipe_ok (pipes t pi) \<and> (\<forall>x. x \<noteq> pi \<longrightarrow> pipes t x = pipes s x) \<and> held t = held s \<and> mem t = mem s \<and>
    (\<forall>i < NPROC. i \<noteq> p \<longrightarrow> p_chan (procs s i) = Some (ChPipeRead pi) \<longrightarrow> p_state (procs t i) \<noteq> SLEEPING)"
proof -
  let ?pt = "p_pagetable (procs s p)" and ?s1 = "s\<lparr>held := insert (LkPipe pi) (held s)\<rparr>"
  let ?bs = "user_bytes (mem s) ?pt addr n"
  have lk: "LkProc p \<notin> held ?s1" using assms(2,3) by (simp add: no_proc_locks_def)
  have v1: "vm_inv ?s1 ?pt" using assms(7) by (subst vm_inv_cong [of _ s]) simp_all
  have w: "pipewrite_loop pi p addr n 0 ?s1 = Ret (Some (int n)) (upd_pipe pi (put_all ?bs) ?s1)"
    using pipewrite_loop_spec [OF v1, of p n addr pi addr 0] assms lk by simp
  have len: "length ?bs = n" by (simp add: user_bytes_def)
  have it: "pipe_items (put_all ?bs (pipes s pi)) = pipe_items (pipes s pi) @ ?bs"
    using put_all_items [of "pipes s pi" ?bs] assms(9) len by simp
  let ?t = "s\<lparr>pipes := (pipes s)(pi := put_all ?bs (pipes s pi)), procs := wake_procs (ChPipeRead pi) (Some p) {..<NPROC} (procs s)\<rparr>"
  have "no_proc_locks (upd_pipe pi (put_all ?bs) ?s1)" using assms(3) by (simp add: no_proc_locks_def)
  note wk = wakeup_eq [OF this, of "ChPipeRead pi"]
  have "pipewrite pi addr (int n) s = Ret (int n) ?t"
    using assms(1,4) w wk by (simp add: pipewrite_def myprocp_def myproc_def kmon upd_pipe_def)
  moreover have "pipe_ok (pipes ?t pi)" using it assms(9) len by (simp add: pipe_ok_items)
  ultimately show ?thesis
    using it by (intro exI [of _ ?t]) (auto simp: wake_procs_def woken_def)
qed

section \<open>Reading\<close>

fun take_all :: "nat \<Rightarrow> pipe \<Rightarrow> pipe" where
  "take_all 0 q = q"
| "take_all (Suc k) q = take_all k (snd (pipe_get q))"

lemma take_all_items: "k \<le> length (pipe_items q) \<Longrightarrow> pipe_items (take_all k q) = drop k (pipe_items q)"
proof (induction k arbitrary: q)
  case (Suc k)
  then have ne: "pipe_items q \<noteq> []" by auto
  obtain c q' where g: "pipe_get q = (c, q')" by fastforce
  then have "pipe_items q = c # pipe_items q'" using pipe_items_get [OF ne] by simp
  then show ?case using Suc g by simp
qed simp

text \<open>Only user memory behind \<open>pt\<close> and the pipe have changed.\<close>

definition read_ext :: "'a kernel_scheme \<Rightarrow> addr \<Rightarrow> addr \<Rightarrow> pipe \<Rightarrow> 'a kernel_scheme \<Rightarrow> bool" where
  "read_ext s pt pi q t \<longleftrightarrow> as_inv t pt \<and> (\<exists>m f. t = s\<lparr>mem := m, freelist := f, pipes := (pipes s)(pi := q)\<rparr>) \<and>
     (\<forall>v. leaf (mem t) pt v = leaf (mem s) pt v)"

lemma read_extI:
  "as_inv t pt \<Longrightarrow> t = s\<lparr>mem := m, freelist := f, pipes := (pipes s)(pi := q)\<rparr> \<Longrightarrow>
   \<forall>v. leaf (mem t) pt v = leaf (mem s) pt v \<Longrightarrow> read_ext s pt pi q t"
  unfolding read_ext_def by blast

lemma read_ext_refl: "as_inv s pt \<Longrightarrow> read_ext s pt pi (pipes s pi) s"
  by (rule read_extI [where m = "mem s" and f = "freelist s"]) simp_all

lemma pipes_mem_upd: "s\<lparr>pipes := p, mem := m, freelist := f\<rparr> = s\<lparr>mem := m, freelist := f, pipes := p\<rparr>"
  by simp

lemma read_ext_ok:
  assumes "read_ext s pt pi q t"
  shows "uaddr_ok (mem t) pt v = uaddr_ok (mem s) pt v" and "uwritable (mem t) pt v = uwritable (mem s) pt v"
    and "held t = held s" and "procs t = procs s" and "curproc t = curproc s" and "pipes t = (pipes s)(pi := q)"
    and "as_inv t pt"
  using assms by (auto simp: read_ext_def uaddr_ok_def uwritable_def)

lemma read_ext_trans: "read_ext s pt pi q t \<Longrightarrow> read_ext t pt pi q' u \<Longrightarrow> read_ext s pt pi q' u"
proof -
  assume s: "read_ext s pt pi q t" and t: "read_ext t pt pi q' u"
  then obtain m f m' f' where "t = s\<lparr>mem := m, freelist := f, pipes := (pipes s)(pi := q)\<rparr>"
      "u = t\<lparr>mem := m', freelist := f', pipes := (pipes t)(pi := q')\<rparr>"
    unfolding read_ext_def by blast
  then have "u = s\<lparr>mem := m', freelist := f', pipes := (pipes s)(pi := q')\<rparr>" by simp
  then show ?thesis using s t by (intro read_extI) (auto simp: read_ext_def)
qed

lemma get_copyout:
  assumes "as_inv s pt" and "uwritable (mem s) pt va"
  shows "\<exists>t. copyout pt va [c] (upd_pipe pi g s) = Ret 0 t \<and> read_ext s pt pi (g (pipes s pi)) t \<and>
    (\<forall>v. uaddr_ok (mem s) pt v \<longrightarrow> ubyte (mem t) pt v = (if v = va then c else ubyte (mem s) pt v))"
proof -
  let ?s = "upd_pipe pi g s"
  have a: "as_inv ?s pt" using assms(1) by (subst as_inv_cong [of _ s]) simp_all
  obtain t where t: "copyout pt va [c] ?s = Ret 0 t" "as_ext ?s pt t"
      "\<forall>v. uaddr_ok (mem s) pt v \<longrightarrow> ubyte (mem t) pt v = (if unat (v - va) < 1 then c else ubyte (mem s) pt v)"
    using copyout_spec [OF a, of "[c]" va] assms(2) by auto
  have "unat (v - va) < 1 \<longleftrightarrow> v = va" for v by (simp add: unat_eq_zero)
  moreover obtain m f where "t = ?s\<lparr>mem := m, freelist := f\<rparr>" using t(2) unfolding as_ext_def only_mem_def by blast
  then have "read_ext s pt pi (g (pipes s pi)) t" using t(2) by (intro read_extI [where m = m and f = f]) (auto simp: as_ext_def upd_pipe_def pipes_mem_upd)
  ultimately show ?thesis using t by auto
qed

lemma piperead_loop_spec:
  assumes "as_inv s pt" and "pt = p_pagetable (procs s p)" and "\<forall>i < n. uwritable (mem s) pt (va + of_nat i)"
    and "va = addr + word_of_int i" and "k = min n (length (pipe_items (pipes s pi)))" and "n < 2 ^ 63"
  shows "\<exists>t. piperead_loop pi p addr n i s = Ret (i + int k) t \<and> read_ext s pt pi (take_all k (pipes s pi)) t \<and>
    (\<forall>v. uaddr_ok (mem s) pt v \<longrightarrow> ubyte (mem t) pt v =
       (if unat (v - va) < k then pipe_items (pipes s pi) ! unat (v - va) else ubyte (mem s) pt v))"
  using assms
proof (induction n arbitrary: s i va k)
  case 0
  then show ?case using read_ext_refl [of s pt pi] by (auto simp: return_apply)
next
  case (Suc n)
  show ?case
  proof (cases "pipe_items (pipes s pi) = []")
    case True
    then show ?thesis using Suc.prems read_ext_refl [of s pt pi]
      by (auto simp: krun the_pipe_def pipe_empty return_apply)
  next
    case False
    obtain c q where g: "pipe_get (pipes s pi) = (c, q)" by fastforce
    then have items: "pipe_items (pipes s pi) = c # pipe_items q" using pipe_items_get [OF False] by simp
    let ?g = "\<lambda>q. q\<lparr>pi_nread := pi_nread q + 1\<rparr>"
    have q: "?g (pipes s pi) = q" and c: "pi_data (pipes s pi) (unat (pi_nread (pipes s pi)) mod PIPESIZE) = c"
      using g by (simp_all add: pipe_get_def)
    have wr: "uwritable (mem s) pt va" using Suc.prems(3) by (auto dest: spec [where x = 0])
    obtain t1 where t1: "copyout pt va [c] (upd_pipe pi ?g s) = Ret 0 t1" "read_ext s pt pi q t1"
        "\<forall>v. uaddr_ok (mem s) pt v \<longrightarrow> ubyte (mem t1) pt v = (if v = va then c else ubyte (mem s) pt v)"
      using get_copyout [OF Suc.prems(1) wr, of c pi ?g] q by auto
    note ok = read_ext_ok [OF t1(2)]
    obtain j where k: "k = Suc j" "j = min n (length (pipe_items q))" using Suc.prems(5) items by simp
    have wr1: "\<forall>i < n. uwritable (mem t1) pt (va + 1 + of_nat i)"
      using Suc.prems(3) by (auto simp: ok(2) add.assoc dest: spec [where x = "Suc _"])
    have p1: "pipes t1 pi = q" using ok(6) by simp
    have pt1: "pt = p_pagetable (procs t1 p)" using Suc.prems(2) ok(4) by simp
    have va1: "va + 1 = addr + word_of_int (i + 1)" using Suc.prems(4) by simp
    obtain t where t: "piperead_loop pi p addr n (i + 1) t1 = Ret (i + 1 + int j) t" "read_ext t1 pt pi (take_all j q) t"
        "\<forall>v. uaddr_ok (mem s) pt v \<longrightarrow> ubyte (mem t) pt v =
           (if unat (v - (va + 1)) < j then pipe_items q ! unat (v - (va + 1)) else ubyte (mem t1) pt v)"
      using Suc.IH [OF ok(7) pt1 wr1 va1, of j] k(2) Suc.prems(6) unfolding p1 ok(1) by auto
    have "unat (va - (va + 1)) = 2 ^ 64 - 1" by (simp add: unsigned_minus_1_eq_mask mask_eq_exp_minus_1)
    then have v0: "\<not> unat (va - (va + 1)) < j" using k Suc.prems(6) by simp
    have "piperead_loop pi p addr (Suc n) i s = Ret (i + int k) t"
      using Suc.prems(2,4) False c t1(1) t(1) k by (simp add: krun the_pipe_def pipe_empty bind_Ret)
    moreover have "read_ext s pt pi (take_all k (pipes s pi)) t"
      using read_ext_trans [OF t1(2) t(2)] k g by simp
    moreover have "ubyte (mem t) pt v = (if unat (v - va) < k then pipe_items (pipes s pi) ! unat (v - va) else ubyte (mem s) pt v)"
      if "uaddr_ok (mem s) pt v" for v
      using t(3) t1(3) that v0 k items unat_diff_Suc [of v va] by (cases "v = va") auto
    ultimately show ?thesis by blast
  qed
qed

text \<open>
  C18. piperead() of at most \<open>n\<close> bytes from a pipe that is not empty: it returns the smaller
  of \<open>n\<close> and the number of bytes queued, copies exactly those bytes to the user buffer in the order in
  which they were written, leaves the rest of the queue and all other user memory alone, and every
  writer asleep on the pipe can run again.
\<close>

theorem piperead_takes:
  assumes "curproc s = Some p" and "no_proc_locks s" and "LkPipe pi \<notin> held s"
    and "as_inv s (p_pagetable (procs s p))" and "\<forall>i < n. uwritable (mem s) (p_pagetable (procs s p)) (addr + of_nat i)"
    and "pipe_items (pipes s pi) \<noteq> []" and "n < 2 ^ 31"
  shows "\<exists>t k. k = min n (length (pipe_items (pipes s pi))) \<and> piperead pi addr (int n) s = Ret (int k) t \<and>
    user_bytes (mem t) (p_pagetable (procs s p)) addr k = take k (pipe_items (pipes s pi)) \<and>
    pipe_items (pipes t pi) = drop k (pipe_items (pipes s pi)) \<and>
    (\<forall>v. uaddr_ok (mem s) (p_pagetable (procs s p)) v \<and> \<not> unat (v - addr) < k \<longrightarrow>
       ubyte (mem t) (p_pagetable (procs s p)) v = ubyte (mem s) (p_pagetable (procs s p)) v) \<and>
    (\<forall>x. x \<noteq> pi \<longrightarrow> pipes t x = pipes s x) \<and> held t = held s \<and>
    (\<forall>i < NPROC. i \<noteq> p \<longrightarrow> p_chan (procs s i) = Some (ChPipeWrite pi) \<longrightarrow> p_state (procs t i) \<noteq> SLEEPING)"
proof -
  let ?pt = "p_pagetable (procs s p)" and ?s1 = "s\<lparr>held := insert (LkPipe pi) (held s)\<rparr>"
  define k where "k = min n (length (pipe_items (pipes s pi)))"
  have a1: "as_inv ?s1 ?pt" using assms(4) by (subst as_inv_cong [of _ s]) simp_all
  obtain t where t: "piperead_loop pi p addr n 0 ?s1 = Ret (int k) t" "read_ext ?s1 ?pt pi (take_all k (pipes s pi)) t"
      "\<forall>v. uaddr_ok (mem s) ?pt v \<longrightarrow> ubyte (mem t) ?pt v =
         (if unat (v - addr) < k then pipe_items (pipes s pi) ! unat (v - addr) else ubyte (mem s) ?pt v)"
    using piperead_loop_spec [OF a1, of p n addr addr 0 k pi] assms(5,7) by (auto simp: k_def)
  note ok = read_ext_ok [OF t(2)]
  have bytes: "user_bytes (mem t) ?pt addr k = take k (pipe_items (pipes s pi))"
  proof (rule nth_equalityI)
    fix i assume i: "i < length (user_bytes (mem t) ?pt addr k)"
    then have ik: "i < k" by (simp add: user_bytes_def)
    then have "uaddr_ok (mem s) ?pt (addr + of_nat i)" using assms(5) by (simp add: uwritable_def k_def)
    then show "user_bytes (mem t) ?pt addr k ! i = take k (pipe_items (pipes s pi)) ! i"
      using t(3) ik assms(7) by (simp add: user_bytes_def unat_of_nat_64 k_def)
  qed (simp add: user_bytes_def k_def)
  let ?t = "t\<lparr>procs := wake_procs (ChPipeWrite pi) (Some p) {..<NPROC} (procs s), held := held s\<rparr>"
  have "no_proc_locks t" using assms(2) ok(3) by (simp add: no_proc_locks_def)
  note wk = wakeup_eq [OF this, of "ChPipeWrite pi"]
  have "piperead pi addr (int n) s = Ret (int k) ?t"
    using assms(1,3,6) t(1) wk ok(3,4,5)
    by (simp add: piperead_def myprocp_def myproc_def krun bind_Ret acq_cases rel_cases sleep_unless_killed_def pipe_empty return_apply)
  moreover have "pipe_items (pipes ?t pi) = drop k (pipe_items (pipes s pi))"
    using take_all_items [of k "pipes s pi"] ok(6) by (simp add: k_def)
  ultimately show ?thesis
    using bytes t(3) ok(6) k_def by (intro exI [of _ ?t] exI [of _ k]) (auto simp: wake_procs_def woken_def)
qed

theorem pipewrite_appends_witness:
  "\<exists>t. pipewrite 0x80030000 100 2 hart_u = Ret 2 t \<and> length (pipe_items (pipes t 0x80030000)) = 2"
proof -
  have "vm_inv hart_u 0x80022000" using hart_u_as [of hart_u] by (simp add: as_inv_def)
  moreover have "\<forall>i < 2. ureadable (mem hart_u) 0x80022000 (100 + of_nat i)"
    using hart_u_readable [of 100] hart_u_readable [of 101] by (auto simp: less_2_cases_iff)
  moreover have "pipe_items (pipes hart_u 0x80030000) = []" "length (user_bytes m r a 2) = 2" for m r a
    by (simp_all add: hart_u_def pipe_items_def ring_def pipe0_def user_bytes_def)
  ultimately show ?thesis
    using pipewrite_appends [of hart_u 0 "0x80030000" 2 100]
    by (auto simp: hart_u_def NPROC_def no_proc_locks_def proc0_def pipe0_def PIPESIZE_def)
qed

definition hart_p :: hart where
  "hart_p = hart_u\<lparr>pipes := (\<lambda>_. pipe0\<lparr>pi_data := (\<lambda>i. of_nat i), pi_nwrite := 3\<rparr>)\<rparr>"

theorem piperead_takes_witness:
  "\<exists>t. piperead 0x80030000 100 2 hart_p = Ret 2 t \<and> user_bytes (mem t) 0x80022000 100 (Suc (Suc 0)) = [0, 1] \<and>
    pipe_items (pipes t 0x80030000) = [2]"
proof -
  have "\<forall>i < 2. uwritable (mem hart_p) 0x80022000 (100 + of_nat i)"
    using hart_u_writable [of 100] hart_u_writable [of 101] by (auto simp: hart_p_def less_2_cases_iff)
  moreover have "as_inv hart_p 0x80022000" by (rule hart_u_as) (simp_all add: hart_p_def)
  moreover have "pipe_items (pipes hart_p 0x80030000) = [0, 1, 2]"
    by (simp add: hart_p_def pipe_items_def ring_def pipe0_def PIPESIZE_def upt_rec [of _ 3])
  ultimately show ?thesis
    using piperead_takes [of hart_p 0 "0x80030000" 2 100]
    by (auto simp: hart_p_def hart_u_def no_proc_locks_def)
qed

end
