(* ===== verification/Virtio_Prop.thy ===== *)
theory Virtio_Prop
  imports Virtio Sched States
begin

text \<open>
  The disk driver keeps the promise the buffer cache relies on: a request goes through the
  descriptors, the device, the interrupt and the sleeping process, and has the effect of
  \<open>disk_rw\<close>.  The device is a parameter; what the virtio specification says it does with a block request
  is \<open>serves_block\<close>.
\<close>

section \<open>Descriptors\<close>

definition free_set :: "'a vdisk_scheme \<Rightarrow> nat set" where
  "free_set s = {i. i < NUM \<and> vd_free s i}"

definition take_desc :: "nat \<Rightarrow> 'a vdisk_scheme \<Rightarrow> 'a vdisk_scheme" where
  "take_desc i s = s\<lparr>vd_free := (vd_free s)(i := False)\<rparr>"

lemma free_set_finite [simp]: "finite (free_set s)"
  by (simp add: free_set_def)

lemma free_set_take: "free_set (take_desc i s) = free_set s - {i}"
  by (auto simp: free_set_def take_desc_def)

lemma alloc_desc_some:
  assumes "free_set s \<noteq> {}"
  shows "\<exists>i. alloc_desc s = Ret (Some i) (take_desc i s) \<and> i \<in> free_set s"
proof -
  obtain i where i: "find (vd_free s) [0..<NUM] = Some i"
    using assms by (cases "find (vd_free s) [0..<NUM]") (auto simp: find_None_iff free_set_def)
  then have "i \<in> free_set s" by (auto simp: find_Some_iff free_set_def)
  then show ?thesis using i by (auto simp: alloc_desc_def kmon take_desc_def)
qed

lemma alloc_desc_none: "free_set s = {} \<Longrightarrow> alloc_desc s = Ret None s"
  using find_None_iff [of "vd_free s" "[0..<NUM]"] by (auto simp: alloc_desc_def kmon free_set_def)

lemma alloc3_desc_some:
  assumes "3 \<le> card (free_set s)"
  shows "\<exists>i j k. alloc3_desc s = Ret (Some [i, j, k]) (take_desc k (take_desc j (take_desc i s))) \<and>
    {i, j, k} \<subseteq> free_set s \<and> distinct [i, j, k]"
proof -
  have "free_set s \<noteq> {}" using assms by auto
  then obtain i where i: "alloc_desc s = Ret (Some i) (take_desc i s)" "i \<in> free_set s" using alloc_desc_some by blast
  then have "2 \<le> card (free_set (take_desc i s))" using assms by (simp add: free_set_take card_Diff_singleton)
  moreover from this have "free_set (take_desc i s) \<noteq> {}" by auto
  then obtain j where j: "alloc_desc (take_desc i s) = Ret (Some j) (take_desc j (take_desc i s))" "j \<in> free_set s - {i}"
    using alloc_desc_some [of "take_desc i s"] by (auto simp: free_set_take)
  ultimately have "1 \<le> card (free_set (take_desc j (take_desc i s)))" by (simp add: free_set_take card_Diff_singleton)
  then have "free_set (take_desc j (take_desc i s)) \<noteq> {}" by auto
  then obtain k where k: "alloc_desc (take_desc j (take_desc i s)) = Ret (Some k) (take_desc k (take_desc j (take_desc i s)))"
      "k \<in> free_set s - {i} - {j}"
    using alloc_desc_some [of "take_desc j (take_desc i s)"] by (auto simp: free_set_take)
  show ?thesis
    using i j k by (intro exI [of _ i] exI [of _ j] exI [of _ k])
      (auto simp: alloc3_desc_def numeral_3_eq_3 bind_Ret return_apply)
qed

lemma free_desc_eq:
  assumes "i < NUM" and "\<not> vd_free s i" and "no_proc_locks s"
  shows "free_desc i s = Ret () (s\<lparr>vd_desc := (vd_desc s)(i := desc0), vd_free := (vd_free s)(i := True),
     procs := wake_procs ChDiskFree (curproc s) {..<NPROC} (procs s)\<rparr>)"
proof -
  let ?s = "s\<lparr>vd_desc := (vd_desc s)(i := desc0), vd_free := (vd_free s)(i := True)\<rparr>"
  have "no_proc_locks ?s" using assms(3) by (simp add: no_proc_locks_def)
  note w = wakeup_eq [OF this, of ChDiskFree]
  show ?thesis using assms(1,2) by (simp add: free_desc_def krun w)
qed

section \<open>The device\<close>

definition block_chain :: "'a vdisk_scheme \<Rightarrow> nat \<Rightarrow> nat \<Rightarrow> bool \<Rightarrow> bool" where
  "block_chain s h b write \<longleftrightarrow>
     (let d0 = vd_desc s h; d1 = vd_desc s (unat (d_next d0)); d2 = vd_desc s (unat (d_next d1)) in
      d_addr d0 = sym_ops s h \<and> d_len d0 = 16 \<and> d_flags d0 = VRING_DESC_F_NEXT \<and>
      d_addr d1 = sym_data s b \<and> d_len d1 = 1024 \<and>
      d_flags d1 = (if write then 0 else VRING_DESC_F_WRITE) OR VRING_DESC_F_NEXT \<and>
      d_addr d2 = sym_status s h \<and> d_len d2 = 1 \<and> d_flags d2 = VRING_DESC_F_WRITE \<and>
      rq_type (vd_ops s h) = (if write then VIRTIO_BLK_T_OUT else VIRTIO_BLK_T_IN))"

definition transfer :: "nat \<Rightarrow> nat \<Rightarrow> bool \<Rightarrow> 'a vdisk_scheme \<Rightarrow> 'a vdisk_scheme" where
  "transfer n b write s =
     (if write then s\<lparr>disk := (disk s)(n := b_data (bufs s b)), dwrites := dwrites s @ [(n, b_data (bufs s b))]\<rparr>
      else upd_buf b (\<lambda>x. x\<lparr>b_data := disk s n\<rparr>) s)"

definition complete :: "nat \<Rightarrow> uint \<Rightarrow> 'a vdisk_scheme \<Rightarrow> 'a vdisk_scheme" where
  "complete h l s = s\<lparr>vd_info_status := (vd_info_status s)(h := 0),
     vd_used := (vd_used s)\<lparr>us_ring := (us_ring (vd_used s))(unat (us_idx (vd_used s)) mod NUM := \<lparr>ue_id = of_nat h, ue_len = l\<rparr>),
       us_idx := us_idx (vd_used s) + 1\<rparr>\<rparr>"

definition newest_head :: "'a vdisk_scheme \<Rightarrow> nat" where
  "newest_head s = unat (av_ring (vd_avail s) (unat (av_idx (vd_avail s) - 1) mod NUM))"

text \<open>
  What the virtio specification promises of a block device: it transfers the 1024 bytes of the
  second descriptor to or from the sectors the request names, writes status 0, and puts the head of the
  chain on the used ring.  Sectors have 512 bytes.
\<close>

definition serves_block :: "('a vdisk_scheme \<Rightarrow> 'a vdisk_scheme) \<Rightarrow> bool" where
  "serves_block dev \<longleftrightarrow> (\<forall>s b write. b < NBUF \<longrightarrow> inj_on (sym_data s) {..<NBUF} \<longrightarrow> block_chain s (newest_head s) b write \<longrightarrow>
     (\<exists>l. dev s = complete (newest_head s) l (transfer (unat (rq_sector (vd_ops s (newest_head s))) div 2) b write s)))"

section \<open>Submitting a request\<close>

definition submitted :: "nat \<Rightarrow> bool \<Rightarrow> nat list \<Rightarrow> 'a vdisk_scheme \<Rightarrow> 'a vdisk_scheme" where
  "submitted b write idx s =
     (let f = virtio_format b write idx s in
      f\<lparr>bufs := (bufs s)(b := (bufs s b)\<lparr>b_disk := 1\<rparr>), vd_info_b := (vd_info_b s)(idx ! 0 := Some b),
        vd_avail := (vd_avail s)\<lparr>av_ring := (av_ring (vd_avail s))(unat (av_idx (vd_avail s)) mod NUM := of_nat (idx ! 0)),
          av_idx := av_idx (vd_avail s) + 1\<rparr>,
        vd_regs := vd_regs s @ [(VIRTIO_MMIO_QUEUE_NOTIFY, 0)]\<rparr>)"

lemma virtio_submit_eq: "virtio_submit b write idx s = Ret () (submitted b write idx s)"
  by (simp add: virtio_submit_def krun vreg_write_def modify_apply submitted_def Let_def upd_buf_def virtio_format_def)

lemma submitted_simps [simp]:
  "procs (submitted b write idx s) = procs s" "held (submitted b write idx s) = held s" "curproc (submitted b write idx s) = curproc s"
  "vd_free (submitted b write idx s) = vd_free s" "vd_used (submitted b write idx s) = vd_used s"
  "vd_used_idx (submitted b write idx s) = vd_used_idx s" "disk (submitted b write idx s) = disk s"
  "bufs (submitted b write idx s) = (bufs s)(b := (bufs s b)\<lparr>b_disk := 1\<rparr>)"
  "vd_info_b (submitted b write idx s) = (vd_info_b s)(idx ! 0 := Some b)" "dwrites (submitted b write idx s) = dwrites s"
  "sym_data (submitted b write idx s) = sym_data s" "vd_reg (submitted b write idx s) = vd_reg s"
  "rq_sector (vd_ops (submitted b write idx s) (idx ! 0)) = ucast (b_blockno (bufs s b) * of_nat (BSIZE div 512))"
  by (simp_all add: submitted_def Let_def virtio_format_def)

lemma submitted_chain:
  assumes "distinct [i, j, k]" and "i < NUM" and "j < NUM" and "k < NUM"
  shows "block_chain (submitted b write [i, j, k] s) i b write" and "newest_head (submitted b write [i, j, k] s) = i"
proof -
  have u: "unat (of_nat x :: ushort) = x" if "x < NUM" for x
    using that by (simp add: NUM_def unat_of_nat take_bit_nat_eq_self)
  show "block_chain (submitted b write [i, j, k] s) i b write"
    using assms u by (simp add: block_chain_def submitted_def virtio_format_def Let_def BSIZE_def)
  show "newest_head (submitted b write [i, j, k] s) = i"
    using u assms(2) by (simp add: newest_head_def submitted_def virtio_format_def Let_def)
qed

definition asleep :: "nat \<Rightarrow> chan \<Rightarrow> 'a machine_scheme \<Rightarrow> 'a machine_scheme" where
  "asleep p ch s = upd_proc p (\<lambda>q. q\<lparr>p_chan := Some ch, p_state := SLEEPING\<rparr>) (s\<lparr>held := {LkProc p}\<rparr>)"

definition taken :: "nat list \<Rightarrow> 'a vdisk_scheme \<Rightarrow> 'a vdisk_scheme" where
  "taken idx s = fold take_desc idx s"

lemma taken_simps [simp]:
  "procs (taken idx s) = procs s" "held (taken idx s) = held s" "curproc (taken idx s) = curproc s"
  "vd_used (taken idx s) = vd_used s" "vd_used_idx (taken idx s) = vd_used_idx s" "disk (taken idx s) = disk s"
  "bufs (taken idx s) = bufs s" "dwrites (taken idx s) = dwrites s" "vd_info_b (taken idx s) = vd_info_b s" "sym_data (taken idx s) = sym_data s"
  "vd_free (taken idx s) = (\<lambda>i. i \<notin> set idx \<and> vd_free s i)" "vd_desc (taken idx s) = vd_desc s"
  unfolding taken_def by (induction idx arbitrary: s) (auto simp: take_desc_def fun_eq_iff)

lemma virtio_rw_sleeps:
  assumes "curproc s = Some p" and "held s = {}" and "3 \<le> card (free_set s)"
  shows "\<exists>i j k. {i, j, k} \<subseteq> free_set s \<and> distinct [i, j, k] \<and>
    virtio_disk_rw b write s = Swtch (asleep p (ChBuf b) (submitted b write [i, j, k] (taken [i, j, k] (s\<lparr>held := {LkDisk}\<rparr>))))"
proof -
  let ?s1 = "s\<lparr>held := {LkDisk}\<rparr>"
  have fs: "free_set ?s1 = free_set s" by (simp add: free_set_def)
  obtain i j k where a: "alloc3_desc ?s1 = Ret (Some [i, j, k]) (taken [i, j, k] ?s1)" "{i, j, k} \<subseteq> free_set s" "distinct [i, j, k]"
    using alloc3_desc_some [of ?s1] assms(3) by (auto simp: fs taken_def)
  let ?u = "submitted b write [i, j, k] (taken [i, j, k] ?s1)"
  have "alloc3_wait ?s1 = Ret [i, j, k] (taken [i, j, k] ?s1)" using a(1) by (simp add: alloc3_wait_def bind_Ret return_apply)
  moreover have "virtio_submit b write [i, j, k] (taken [i, j, k] ?s1) = Ret () ?u" by (rule virtio_submit_eq)
  moreover have "sleep_while (\<lambda>s. b_disk (bufs s b) = 1) (ChBuf b) LkDisk ?u = Swtch (asleep p (ChBuf b) ?u)"
    using sleep_eq [of ?u p LkDisk "ChBuf b"] assms(1) by (simp add: sleep_while_def krun when_apply asleep_def)
  ultimately have "virtio_disk_rw b write s = Swtch (asleep p (ChBuf b) ?u)"
    using assms(2) by (simp add: virtio_disk_rw_def bind_Ret acq_cases) (simp add: kmon)
  with a(2,3) show ?thesis by blast
qed

section \<open>The interrupt\<close>

lemma virtio_intr_one:
  assumes "held s = {}" and "us_idx (vd_used s) = vd_used_idx s + 1"
    and "unat (ue_id (us_ring (vd_used s) (unat (vd_used_idx s) mod NUM))) = h"
    and "vd_info_status s h = 0" and "vd_info_b s h = Some b"
  shows "\<exists>r. virtio_disk_intr s = Ret () (s\<lparr>bufs := (bufs s)(b := (bufs s b)\<lparr>b_disk := 0\<rparr>),
      procs := wake_procs (ChBuf b) (curproc s) {..<NPROC} (procs s), vd_used_idx := us_idx (vd_used s), vd_regs := r\<rparr>)"
proof -
  let ?r = "vd_regs s @ [(VIRTIO_MMIO_INTERRUPT_ACK, vd_reg s (vd_regs s) VIRTIO_MMIO_INTERRUPT_STATUS AND 3)]"
  let ?s1 = "s\<lparr>held := {LkDisk}, vd_regs := ?r\<rparr>"
  let ?s2 = "?s1\<lparr>bufs := (bufs s)(b := (bufs s b)\<lparr>b_disk := 0\<rparr>)\<rparr>"
  have "no_proc_locks ?s2" by (simp add: no_proc_locks_def)
  then have w: "wakeup (ChBuf b) ?s2 = Ret () (?s2\<lparr>procs := wake_procs (ChBuf b) (curproc s) {..<NPROC} (procs s)\<rparr>)"
    using wakeup_eq [of ?s2 "ChBuf b"] by simp
  have l: "virtio_intr_loop (Suc (Suc 0)) ?s1 =
      Ret () (?s2\<lparr>procs := wake_procs (ChBuf b) (curproc s) {..<NPROC} (procs s), vd_used_idx := us_idx (vd_used s)\<rparr>)"
    using assms(2-5) w by (simp add: krun deref_def upd_buf_def bind_Ret return_apply)
  have n: "unat (us_idx (vd_used s) - vd_used_idx s) = 1" using assms(2) by simp
  show ?thesis
    using assms(1) n l
    by (intro exI [of _ ?r])
      (simp add: virtio_disk_intr_def krun vreg_read_def vreg_write_def bind_Ret acq_cases rel_cases del: virtio_intr_loop.simps)
qed

section \<open>Freeing the chain\<close>

lemma virtio_finish_chain:
  assumes "distinct [i, j, k]" and "i < NUM" and "j < NUM" and "k < NUM"
    and "\<not> vd_free s i" and "\<not> vd_free s j" and "\<not> vd_free s k" and "no_proc_locks s"
    and "d_flags (vd_desc s i) AND VRING_DESC_F_NEXT \<noteq> 0" and "unat (d_next (vd_desc s i)) = j"
    and "d_flags (vd_desc s j) AND VRING_DESC_F_NEXT \<noteq> 0" and "unat (d_next (vd_desc s j)) = k"
    and "d_flags (vd_desc s k) AND VRING_DESC_F_NEXT = 0"
  shows "\<exists>P. virtio_finish [i, j, k] s = Ret () (s\<lparr>vd_info_b := (vd_info_b s)(i := None),
     vd_desc := (vd_desc s)(i := desc0, j := desc0, k := desc0), vd_free := (vd_free s)(i := True, j := True, k := True), procs := P\<rparr>)"
proof -
  let ?s0 = "s\<lparr>vd_info_b := (vd_info_b s)(i := None)\<rparr>"
  have 1: "\<exists>P. free_desc i ?s0 = Ret () (?s0\<lparr>vd_desc := (vd_desc s)(i := desc0), vd_free := (vd_free s)(i := True), procs := P\<rparr>)"
    using free_desc_eq [of i ?s0] assms by (auto simp: no_proc_locks_def)
  then obtain P1 where P1: "free_desc i ?s0 = Ret () (?s0\<lparr>vd_desc := (vd_desc s)(i := desc0), vd_free := (vd_free s)(i := True), procs := P1\<rparr>)"
    by blast
  let ?s1 = "?s0\<lparr>vd_desc := (vd_desc s)(i := desc0), vd_free := (vd_free s)(i := True), procs := P1\<rparr>"
  obtain P2 where P2: "free_desc j ?s1 = Ret () (?s1\<lparr>vd_desc := (vd_desc s)(i := desc0, j := desc0),
      vd_free := (vd_free s)(i := True, j := True), procs := P2\<rparr>)"
    using free_desc_eq [of j ?s1] assms by (auto simp: no_proc_locks_def)
  let ?s2 = "?s1\<lparr>vd_desc := (vd_desc s)(i := desc0, j := desc0), vd_free := (vd_free s)(i := True, j := True), procs := P2\<rparr>"
  obtain P3 where P3: "free_desc k ?s2 = Ret () (?s2\<lparr>vd_desc := (vd_desc s)(i := desc0, j := desc0, k := desc0),
      vd_free := (vd_free s)(i := True, j := True, k := True), procs := P3\<rparr>)"
    using free_desc_eq [of k ?s2] assms by (auto simp: no_proc_locks_def)
  have "free_chain i ?s0 = Ret () (s\<lparr>vd_info_b := (vd_info_b s)(i := None),
     vd_desc := (vd_desc s)(i := desc0, j := desc0, k := desc0), vd_free := (vd_free s)(i := True, j := True, k := True), procs := P3\<rparr>)"
    unfolding free_chain_def NUM_def using assms P1 P2 P3
    by (simp add: eval_nat_numeral bind_gets bind_Ret return_apply)
  then show ?thesis by (auto simp: virtio_finish_def krun)
qed

section \<open>A request from start to end\<close>

lemma block_chain_cong:
  "vd_desc t = vd_desc s \<Longrightarrow> vd_ops t = vd_ops s \<Longrightarrow> sym_ops t = sym_ops s \<Longrightarrow> sym_data t = sym_data s \<Longrightarrow>
   sym_status t = sym_status s \<Longrightarrow> block_chain t h b write = block_chain s h b write"
  by (simp add: block_chain_def)

lemma submitted_desc:
  assumes "distinct [i, j, k]" and "i < NUM" and "j < NUM" and "k < NUM"
    and "u = submitted b write [i, j, k] s"
  shows "d_flags (vd_desc u i) AND VRING_DESC_F_NEXT \<noteq> 0" and "unat (d_next (vd_desc u i)) = j"
    and "d_flags (vd_desc u j) AND VRING_DESC_F_NEXT \<noteq> 0" and "unat (d_next (vd_desc u j)) = k"
    and "d_flags (vd_desc u k) AND VRING_DESC_F_NEXT = 0"
proof -
  have n: "unat (of_nat x :: ushort) = x" if "x < NUM" for x
    using that by (simp add: NUM_def unat_of_nat take_bit_nat_eq_self)
  show "d_flags (vd_desc u i) AND VRING_DESC_F_NEXT \<noteq> 0" "unat (d_next (vd_desc u i)) = j"
    "d_flags (vd_desc u j) AND VRING_DESC_F_NEXT \<noteq> 0" "unat (d_next (vd_desc u j)) = k"
    "d_flags (vd_desc u k) AND VRING_DESC_F_NEXT = 0"
    using assms n
    by (simp_all add: submitted_def virtio_format_def Let_def VRING_DESC_F_NEXT_def VRING_DESC_F_WRITE_def)
qed

lemma transfer_complete_simps [simp]:
  "procs (complete h l s) = procs s" "held (complete h l s) = held s" "curproc (complete h l s) = curproc s"
  "vd_free (complete h l s) = vd_free s" "vd_desc (complete h l s) = vd_desc s" "vd_info_b (complete h l s) = vd_info_b s"
  "bufs (complete h l s) = bufs s" "disk (complete h l s) = disk s" "dwrites (complete h l s) = dwrites s"
  "vd_used_idx (complete h l s) = vd_used_idx s"
  "procs (transfer n b write s) = procs s" "held (transfer n b write s) = held s" "curproc (transfer n b write s) = curproc s"
  "vd_free (transfer n b write s) = vd_free s" "vd_desc (transfer n b write s) = vd_desc s"
  "vd_info_b (transfer n b write s) = vd_info_b s" "vd_used (transfer n b write s) = vd_used s"
  "vd_used_idx (transfer n b write s) = vd_used_idx s"
  by (simp_all add: complete_def transfer_def upd_buf_def)

lemma complete_used:
  "h < NUM \<Longrightarrow> us_idx (vd_used (complete h l s)) = us_idx (vd_used s) + 1 \<and>
    unat (ue_id (us_ring (vd_used (complete h l s)) (unat (us_idx (vd_used s)) mod NUM))) = h \<and> vd_info_status (complete h l s) h = 0"
  by (simp add: complete_def NUM_def unat_of_nat take_bit_nat_eq_self)

lemma sector_block:
  assumes "unat (n :: uint) < 2 ^ 31"
  shows "unat (ucast (n * of_nat (BSIZE div 512)) :: uint64) div 2 = unat n"
proof -
  have "unat (n * 2) = unat n * 2" using assms by (simp add: unat_word_ariths)
  then have "unat (ucast (n * 2) :: uint64) = unat n * 2" using uint_less_64 [of "n * 2"] by (simp add: unsigned_ucast_eq take_bit_nat_eq_self)
  then show ?thesis by (simp add: BSIZE_def)
qed


text \<open>A device that does what the specification says.\<close>

definition virtio_dev :: "'a vdisk_scheme \<Rightarrow> 'a vdisk_scheme" where
  "virtio_dev s =
     (let h = newest_head s in
      case find (\<lambda>(b, w). block_chain s h b w) (List.product [0..<NBUF] [True, False]) of
        None \<Rightarrow> s
      | Some (b, w) \<Rightarrow> complete h 0 (transfer (unat (rq_sector (vd_ops s h)) div 2) b w s))"

lemma block_chain_unique:
  "block_chain s h b w \<Longrightarrow> block_chain s h b' w' \<Longrightarrow> sym_data s b' = sym_data s b \<and> w' = w"
  by (auto simp: block_chain_def Let_def VIRTIO_BLK_T_OUT_def VIRTIO_BLK_T_IN_def split: if_splits)

lemma virtio_dev_serves: "serves_block virtio_dev"
  unfolding serves_block_def
proof (intro allI impI)
  fix s :: "'a vdisk_scheme" and b w
  assume b: "b < NBUF" and inj: "inj_on (sym_data s) {..<NBUF}" and c: "block_chain s (newest_head s) b w"
  let ?P = "\<lambda>(b, w). block_chain s (newest_head s) b w" and ?l = "List.product [0..<NBUF] [True, False]"
  have "(b, w) \<in> set ?l" using b by auto
  then obtain b' w' where f: "find ?P ?l = Some (b', w')"
    using c by (cases "find ?P ?l") (auto simp: find_None_iff)
  have "(b', w') \<in> set ?l \<and> ?P (b', w')" by (rule find_Some_in [OF f])
  then have "b' = b" "w' = w" using block_chain_unique [OF c] b inj by (auto simp: inj_on_def)
  then show "\<exists>l. virtio_dev s = complete (newest_head s) l (transfer (unat (rq_sector (vd_ops s (newest_head s))) div 2) b w s)"
    using f by (auto simp: virtio_dev_def Let_def)
qed

lemma hart0_data_inj: "inj_on (sym_data hart0) {..<NBUF}"
proof (rule inj_onI)
  fix x y assume xy: "x \<in> {..<NBUF}" "y \<in> {..<NBUF}" "sym_data hart0 x = sym_data hart0 y"
  then have "1112 * of_nat x = (1112 * of_nat y :: uint64)" by simp
  then have "unat (of_nat (1112 * x) :: uint64) = unat (of_nat (1112 * y) :: uint64)" by simp
  moreover have "unat (of_nat (1112 * z) :: uint64) = 1112 * z" if "z < NBUF" for z
    by (rule unat_of_nat_64) (use that in \<open>simp add: NBUF_def\<close>)
  ultimately show "x = y" using xy(1,2) by (metis lessThan_iff mult_cancel1 zero_neq_numeral)
qed


lemma free_desc_set:
  assumes "i < NUM" and "\<not> vd_free s i" and "no_proc_locks s"
  shows "\<exists>t. free_desc i s = Ret () t \<and> free_set t = insert i (free_set s) \<and> no_proc_locks t \<and> vd_free t = (vd_free s)(i := True)"
  using free_desc_eq [OF assms] assms by (auto simp: free_set_def no_proc_locks_def)

text \<open>
  C22. alloc3_desc() takes three different free descriptors, or, when fewer than three are free,
  takes none: what it had taken is free again.  It never panics.
\<close>

theorem alloc3_desc_all_or_nothing:
  assumes "no_proc_locks s"
  shows "(3 \<le> card (free_set s) \<longrightarrow> (\<exists>idx t. alloc3_desc s = Ret (Some idx) t \<and> length idx = 3 \<and> distinct idx \<and>
      set idx \<subseteq> free_set s \<and> free_set t = free_set s - set idx)) \<and>
    (card (free_set s) < 3 \<longrightarrow> (\<exists>t. alloc3_desc s = Ret None t \<and> free_set t = free_set s))"
proof (intro conjI impI)
  assume "3 \<le> card (free_set s)"
  then obtain i j k where a: "alloc3_desc s = Ret (Some [i, j, k]) (take_desc k (take_desc j (take_desc i s)))"
      "{i, j, k} \<subseteq> free_set s" "distinct [i, j, k]"
    using alloc3_desc_some by blast
  moreover have "free_set (take_desc k (take_desc j (take_desc i s))) = free_set s - {i, j, k}"
    by (auto simp: free_set_take)
  ultimately show "\<exists>idx t. alloc3_desc s = Ret (Some idx) t \<and> length idx = 3 \<and> distinct idx \<and>
      set idx \<subseteq> free_set s \<and> free_set t = free_set s - set idx"
    by (intro exI [of _ "[i, j, k]"]) auto
next
  assume few: "card (free_set s) < 3"
  show "\<exists>t. alloc3_desc s = Ret None t \<and> free_set t = free_set s"
  proof (cases "free_set s = {}")
    case True
    then show ?thesis
      using alloc_desc_none [OF True] by (simp add: alloc3_desc_def numeral_3_eq_3 bind_Ret return_apply)
  next
    case False
    then obtain i where i: "alloc_desc s = Ret (Some i) (take_desc i s)" "i \<in> free_set s" using alloc_desc_some by blast
    let ?s1 = "take_desc i s"
    show ?thesis
    proof (cases "free_set ?s1 = {}")
      case True
      have "\<exists>t. free_desc i ?s1 = Ret () t \<and> free_set t = free_set s"
        using free_desc_set [of i ?s1] i(2) assms by (auto simp: free_set_def take_desc_def no_proc_locks_def)
      then show ?thesis
        using i alloc_desc_none [OF True] by (auto simp: alloc3_desc_def numeral_3_eq_3 bind_Ret return_apply)
    next
      case False
      then obtain j where j: "alloc_desc ?s1 = Ret (Some j) (take_desc j ?s1)" "j \<in> free_set ?s1" using alloc_desc_some by blast
      let ?s2 = "take_desc j ?s1"
      have "card (free_set ?s2) = card (free_set s) - 1 - 1"
        using i(2) j(2) by (simp add: free_set_take card_Diff_singleton)
      then have e: "free_set ?s2 = {}" using few by (simp add: card_eq_0_iff [symmetric])
      have ij: "i < NUM" "j < NUM" "i \<noteq> j" using i(2) j(2) by (auto simp: free_set_def take_desc_def)
      then have "\<not> vd_free ?s2 i" "\<not> vd_free ?s2 j" "no_proc_locks ?s2" using assms by (simp_all add: take_desc_def no_proc_locks_def)
      then obtain t1 where t1: "free_desc i ?s2 = Ret () t1" "free_set t1 = insert i (free_set ?s2)" "no_proc_locks t1" "\<not> vd_free t1 j"
        using free_desc_set [of i ?s2] ij by auto
      obtain t2 where t2: "free_desc j t1 = Ret () t2" "free_set t2 = insert j (free_set t1)"
        using free_desc_set [of j t1] t1(3,4) ij by auto
      have "free_set t2 = free_set s" using t2(2) t1(2) i(2) j(2) by (auto simp: free_set_take)
      then show ?thesis
        using i j alloc_desc_none [OF e] t1(1) t2(1) by (auto simp: alloc3_desc_def numeral_3_eq_3 bind_Ret return_apply)
    qed
  qed
qed

theorem alloc3_desc_all_or_nothing_witness:
  "\<exists>t. alloc3_desc (hart0\<lparr>vd_free := (\<lambda>i. i = 5)\<rparr>) = Ret None t \<and> free_set t = {5}"
proof -
  have "free_set (hart0\<lparr>vd_free := (\<lambda>i. i = 5)\<rparr>) = {5}" by (auto simp: free_set_def NUM_def)
  then show ?thesis
    using alloc3_desc_all_or_nothing [of "hart0\<lparr>vd_free := (\<lambda>i. i = 5)\<rparr>"] by (simp add: no_proc_locks_def)
qed

end
