(* ===== verification/Trap_Prop.thy ===== *)
theory Trap_Prop
  imports Trap Kprintf_Prop
begin

text \<open>
  What the trap code of kernel/trap.c and the dispatch of kernel/syscall.c guarantee: a process
  enters user space with the registers and control state usertrapret() sets up, an
  interrupt of the kernel is transparent, and every system call number runs its handler.
\<close>

section \<open>Trap frames\<close>

definition tf :: "'a kmem_scheme \<Rightarrow> nat \<Rightarrow> tfreg \<Rightarrow> uint64" where
  "tf s p r = load64 (mem s) (p_trapframe (procs s p) + tf_off r)"

definition tf_put :: "nat \<Rightarrow> tfreg \<Rightarrow> uint64 \<Rightarrow> 'a kmem_scheme \<Rightarrow> 'a kmem_scheme" where
  "tf_put p r v s = s\<lparr>mem := store64 (mem s) (p_trapframe (procs s p) + tf_off r) v\<rparr>"

lemma tf_get_eq: "tf_get p r s = Ret (tf s p r) s"
  by (simp add: tf_get_def gets_apply tf_def)

lemma tf_set_eq: "tf_set p r v s = Ret () (tf_put p r v s)"
  by (simp add: tf_set_def modify_apply tf_put_def set_mem_def)

lemma tf_apart:
  assumes "r \<noteq> r'"
  shows "8 \<le> unat (tf_off r - tf_off r')"
  using tf_off_apart [OF assms] tf_off_bound [of r] tf_off_bound [of r']
  by (simp add: unat_sub_if' word_size) linarith

lemma tf_put_same [simp]: "tf (tf_put p r v s) p r = v"
  by (simp add: tf_def tf_put_def load_store_same)

lemma tf_put_other: "r \<noteq> r' \<Longrightarrow> tf (tf_put p r v s) p r' = tf s p r'"
  using tf_apart [of r r'] tf_apart [of r' r]
  by (simp add: tf_def tf_put_def load_store_apart)

lemma tf_put_if: "tf (tf_put p r v s) p r' = (if r' = r then v else tf s p r')"
  by (simp add: tf_put_other)

lemma tf_put_simps [simp]:
  "procs (tf_put p r v s) = procs s" "curproc (tf_put p r v s) = curproc s" "held (tf_put p r v s) = held s"
  by (simp_all add: tf_put_def)

lemma tf_put_csrs [simp]: "tf_put p r v (s\<lparr>csrs := c\<rparr>) = (tf_put p r v s)\<lparr>csrs := c\<rparr>"
  by (simp add: tf_put_def)

lemma tf_put_hart [simp]:
  "csrs (tf_put p r v s) = csrs s" "reg_tp (tf_put p r v s) = reg_tp s" "sym_usertrap (tf_put p r v s) = sym_usertrap s"
  "panicked (tf_put p r v s) = panicked s" "sym_userret (tf_put p r v s) = sym_userret s" "sym_trampoline (tf_put p r v s) = sym_trampoline s"
  by (simp_all add: tf_put_def)

lemma tf_csrs [simp]: "tf (s\<lparr>csrs := c\<rparr>) p r = tf s p r"
  by (simp add: tf_def)

lemma bind_tf_set [krun]: "bind (tf_set p r v) f s = f () (tf_put p r v s)"
  by (simp add: bind_Ret tf_set_eq)

lemma bind_tf_get [krun]: "bind (tf_get p r) f s = f (tf s p r) s"
  by (simp add: bind_Ret tf_get_eq)

lemma tf_cong: "mem t = mem s \<Longrightarrow> procs t = procs s \<Longrightarrow> tf t p r = tf s p r"
  by (simp add: tf_def)

lemma tf_put_mem: "sizeof_trapframe \<le> unat (a - p_trapframe (procs s p)) \<Longrightarrow> mem (tf_put p r v s) a = mem s a"
proof -
  assume a: "sizeof_trapframe \<le> unat (a - p_trapframe (procs s p))"
  have "tf_off r \<le> a - p_trapframe (procs s p)"
    using a tf_off_bound [of r] by (simp add: word_le_nat_alt sizeof_trapframe_def)
  then have "unat (a - p_trapframe (procs s p) - tf_off r) = unat (a - p_trapframe (procs s p)) - unat (tf_off r)"
    by (rule unat_sub)
  moreover have "a - (p_trapframe (procs s p) + tf_off r) = a - p_trapframe (procs s p) - tf_off r" by simp
  ultimately have "8 \<le> unat (a - (p_trapframe (procs s p) + tf_off r))"
    using a tf_off_bound [of r] by (simp only: sizeof_trapframe_def)
  then show ?thesis by (simp add: tf_put_def store64_def wr_bytes_def)
qed

section \<open>usertrapret()\<close>

lemma myprocp_eq: "curproc s = Some p \<Longrightarrow> myprocp s = Ret p s"
  by (simp add: myprocp_def myproc_def kmon)

lemmas csr_defs = csrr_def csrw_def r_sstatus_def w_sstatus_def r_satp_def w_stvec_def r_tp_def r_sepc_def w_sepc_def
  r_scause_def r_stval_def intr_off_hart_def intr_on_hart_def intr_get_hart_def

text \<open>The state in which usertrapret() leaves the kernel.\<close>

definition user_frame :: "nat \<Rightarrow> 'a hart_scheme \<Rightarrow> 'a hart_scheme" where
  "user_frame p s =
     tf_put p TF_kernel_hartid (reg_tp s)
      (tf_put p TF_kernel_trap (sym_usertrap s)
        (tf_put p TF_kernel_sp (p_kstack (procs s p) + PGSIZE)
          (tf_put p TF_kernel_satp (csrs s CSR_satp) s)))"

definition user_csrs :: "nat \<Rightarrow> 'a hart_scheme \<Rightarrow> csr \<Rightarrow> uint64" where
  "user_csrs p s =
     (csrs s)(CSR_stvec := TRAMPOLINE + (sym_uservec s - sym_trampoline s),
       CSR_sstatus := (intr_off (csrs s CSR_sstatus) AND NOT SSTATUS_SPP) OR SSTATUS_SPIE,
       CSR_sepc := tf s p TF_epc)"

definition user_return :: "nat \<Rightarrow> 'a hart_scheme \<Rightarrow> 'a hart_scheme" where
  "user_return p s = (user_frame p s)\<lparr>csrs := user_csrs p s,
     user_jump := Some (TRAMPOLINE + (sym_userret s - sym_trampoline s), MAKE_SATP (p_pagetable (procs s p)))\<rparr>"

lemma usertrapret_eq:
  assumes "curproc s = Some p"
  shows "usertrapret s = Ret () (user_return p s)"
  using assms
  by (simp add: usertrapret_def csr_defs userret_jump_def the_proc_def krun bind_Ret myprocp_eq
      modify_apply user_return_def user_frame_def user_csrs_def tf_put_other)

lemma user_return_simps [simp]:
  "csrs (user_return p s) = user_csrs p s" "tf (user_return p s) p r = tf (user_frame p s) p r"
  "mem (user_return p s) = mem (user_frame p s)"
  "user_jump (user_return p s) = Some (TRAMPOLINE + (sym_userret s - sym_trampoline s), MAKE_SATP (p_pagetable (procs s p)))"
  by (simp_all add: user_return_def tf_def user_frame_def)

lemma user_frame_tf:
  "tf (user_frame p s) p r =
     (case r of TF_kernel_satp \<Rightarrow> csrs s CSR_satp | TF_kernel_sp \<Rightarrow> p_kstack (procs s p) + PGSIZE
      | TF_kernel_trap \<Rightarrow> sym_usertrap s | TF_kernel_hartid \<Rightarrow> reg_tp s | _ \<Rightarrow> tf s p r)"
  by (cases r) (simp_all add: user_frame_def tf_put_if)

lemma user_frame_mem: "sizeof_trapframe \<le> unat (a - p_trapframe (procs s p)) \<Longrightarrow> mem (user_frame p s) a = mem s a"
  by (simp add: user_frame_def tf_put_mem)

lemma sstatus_bits: "bit SSTATUS_SIE n = (n = 1)" "bit SSTATUS_SPP n = (n = 8)" "bit SSTATUS_SPIE n = (n = 5)"
  unfolding SSTATUS_SIE_def SSTATUS_SPP_def SSTATUS_SPIE_def bit_push_bit_iff bit_1_iff by auto

lemma user_sstatus:
  "\<not> intr_get (user_csrs p s CSR_sstatus)" "user_csrs p s CSR_sstatus AND SSTATUS_SPP = 0"
  "user_csrs p s CSR_sstatus AND SSTATUS_SPIE = SSTATUS_SPIE"
  by (auto simp: user_csrs_def intr_get_def intr_off_def sstatus_bits bit_simps
      intro!: bit_word_eqI)

lemma user_csrs_at:
  "user_csrs p s CSR_stvec = TRAMPOLINE + (sym_uservec s - sym_trampoline s)" "user_csrs p s CSR_sepc = tf s p TF_epc"
  by (simp_all add: user_csrs_def)

text \<open>
  C25. usertrapret() always reaches the jump into the trampoline.  The process will run at the saved
  program counter, in user mode with interrupts enabled there and disabled until then; traps go to
  uservec; the trap frame has the kernel page table, this process's kernel stack, usertrap and
  this hart for the next trap, and its user registers and all other memory are unchanged.
\<close>

theorem usertrapret_enters_user:
  assumes "curproc s = Some p"
  shows "\<exists>t. usertrapret s = Ret () t \<and>
     csrs t CSR_stvec = TRAMPOLINE + (sym_uservec s - sym_trampoline s) \<and>
     csrs t CSR_sepc = tf s p TF_epc \<and>
     \<not> intr_get (csrs t CSR_sstatus) \<and> csrs t CSR_sstatus AND SSTATUS_SPP = 0 \<and>
     csrs t CSR_sstatus AND SSTATUS_SPIE = SSTATUS_SPIE \<and>
     (\<forall>r. tf t p r =
       (case r of TF_kernel_satp \<Rightarrow> csrs s CSR_satp | TF_kernel_sp \<Rightarrow> p_kstack (procs s p) + PGSIZE
        | TF_kernel_trap \<Rightarrow> sym_usertrap s | TF_kernel_hartid \<Rightarrow> reg_tp s | _ \<Rightarrow> tf s p r)) \<and>
     (\<forall>a. sizeof_trapframe \<le> unat (a - p_trapframe (procs s p)) \<longrightarrow> mem t a = mem s a) \<and>
     user_jump t = Some (TRAMPOLINE + (sym_userret s - sym_trampoline s), MAKE_SATP (p_pagetable (procs s p)))"
  using usertrapret_eq [OF assms]
  by (intro exI [of _ "user_return p s"])
    (simp add: user_sstatus user_frame_tf user_frame_mem user_csrs_at)

theorem usertrapret_enters_user_witness:
  "\<exists>t. usertrapret hart0 = Ret () t \<and> user_jump t = Some (TRAMPOLINE + 0x9c, MAKE_SATP 0) \<and> tf t 0 TF_kernel_trap = 0x80002000"
  using usertrapret_enters_user [of hart0 0] by (auto simp: proc0_def)

section \<open>System calls\<close>

lemma syscalls_no: "syscalls (sys_no c) = Some (handler c)"
  by (cases c) (simp_all add: syscalls_def sys_all_def)

lemma sys_no_range: "0 < sys_no c \<and> sys_no c < NELEM_syscalls"
  by (cases c) (simp_all add: NELEM_syscalls_def)

lemma bind_myprocp: "curproc s = Some p \<Longrightarrow> bind myprocp f s = f p s"
  by (simp add: bind_Ret myprocp_eq)

lemma syscall_dispatch:
  assumes "curproc s = Some p" and "sint (ucast (tf s p TF_a7) :: uint) = sys_no c" and "handler c s = Ret r t"
  shows "syscall s = Ret () (tf_put p TF_a0 r t)"
  using assms sys_no_range [of c]
  by (simp add: syscall_def bind_myprocp krun syscalls_no bind_Ret tf_set_eq Let_def)

lemma syscall_none:
  assumes "curproc s = Some p" and "n = sint (ucast (tf s p TF_a7) :: uint)" and "n \<le> 0 \<or> NELEM_syscalls \<le> n"
    and "panicked s = 0" and "LkPr \<notin> held s"
  shows "syscall s = Ret () (tf_put p TF_a0 (-1) (out
      (expand [Conv F_d, Lit 32, Conv F_s, Lit 58, Lit 32, Lit 117, Lit 110, Lit 107, Lit 110, Lit 111, Lit 119, Lit 110, Lit 32,
          Lit 115, Lit 121, Lit 115, Lit 32, Lit 99, Lit 97, Lit 108, Lit 108, Lit 32, Conv F_d, Lit 10]
        [VInt (word_of_int (p_pid (procs s p))), VStr (Some (takeWhile (\<lambda>c. c \<noteq> 0) (p_name (procs s p)))), VInt (word_of_int n)]) s))"
proof -
  let ?items = "[Conv F_d, Lit 32, Conv F_s, Lit 58, Lit 32, Lit 117, Lit 110, Lit 107, Lit 110, Lit 111, Lit 119, Lit 110, Lit 32,
          Lit 115, Lit 121, Lit 115, Lit 32, Lit 99, Lit 97, Lit 108, Lit 108, Lit 32, Conv F_d, Lit 10]"
  have "chars ''%d %s: unknown sys call %d'' @ [10] = concat (map spell ?items)" by (simp add: chars_def)
  moreover have "list_all item_ok ?items" by simp
  ultimately show ?thesis
    using assms(1,3) printf_items [OF assms(4,5), of ?items]
    by (auto simp: syscall_def bind_myprocp krun the_proc_def bind_Ret tf_set_eq Let_def assms(2) simp del: expand.simps spell.simps)
qed

lemma tf_out [simp]: "tf (out bs s) p r = tf s p r"
  by (simp add: tf_def out_def)

lemma user_return_out [simp]: "cons_out (user_return p s) = cons_out s"
  by (simp add: user_return_def user_frame_def tf_put_def)

lemma int_arg:
  assumes "- (2 ^ 31) \<le> n" and "n < 2 ^ 31"
  shows "scast (ucast (word_of_int n :: uint64) :: uint) = (word_of_int n :: uint64)"
proof -
  have "(ucast (word_of_int n :: uint64) :: uint) = word_of_int n"
    by (rule bit_word_eqI) (simp add: bit_ucast_iff bit_word_of_int_iff)
  moreover have "sint (word_of_int n :: uint) = n"
    using assms by (simp add: sint_sbintrunc' signed_take_bit_int_eq_self)
  ultimately show ?thesis by (simp add: scast_eq)
qed

lemma intr_get_on_csr: "intr_get (intr_on x)"
proof -
  have "bit ((x OR SSTATUS_SIE) AND SSTATUS_SIE) 1" by (simp add: bit_simps sstatus_bits)
  then have "(x OR SSTATUS_SIE) AND SSTATUS_SIE \<noteq> 0" by (metis bit_0_eq bot_apply bot_bool_def)
  then show ?thesis by (simp add: intr_get_def intr_on_def)
qed

text \<open>The state in which the handler of a system call starts.\<close>

definition sys_entry :: "nat \<Rightarrow> 'a hart_scheme \<Rightarrow> 'a hart_scheme" where
  "sys_entry p s = (tf_put p TF_epc (csrs s CSR_sepc + 4) s)\<lparr>csrs := (csrs s)(CSR_stvec := sym_kernelvec s,
     CSR_sstatus := intr_on (csrs s CSR_sstatus))\<rparr>"

lemma tf_put_twice [simp]: "tf_put p r v (tf_put p r w s) = tf_put p r v s"
  by (simp add: tf_put_def store64_def wr_bytes_def cong: if_cong)

lemma usertrap_ecall:
  assumes "curproc s = Some p" and "csrs s CSR_sstatus AND SSTATUS_SPP = 0" and "csrs s CSR_scause = 8"
    and "LkProc p \<notin> held s" and "p_killed (procs s p) = 0"
    and "syscall (sys_entry p s) = Ret () t"
    and "curproc t = Some p" and "LkProc p \<notin> held t" and "p_killed (procs t p) = 0"
  shows "usertrap s = Ret () (user_return p t)"
proof -
  let ?s0 = "(tf_put p TF_epc (csrs s CSR_sepc) s)\<lparr>csrs := (csrs s)(CSR_stvec := sym_kernelvec s)\<rparr>"
  have k: "killed p ?s0 = Ret 0 ?s0" using assms(4,5) by (subst killed_eq) simp_all
  have "usertrap_cause p ?s0 = Ret 0 t"
    using assms(3,6)
    by (simp add: usertrap_cause_def csr_defs krun bind_Ret k sys_entry_def return_apply)
  then show ?thesis
    using assms(1,2,7) killed_eq [OF assms(8)] assms(9) usertrapret_eq [OF assms(7)]
    by (simp add: usertrap_def csr_defs krun bind_Ret myprocp_eq)
qed

text \<open>
  C24. A system call, from the trap to the return: when user code executes ecall with a known
  number in a7, the handler of that number runs with interrupts on, kernelvec installed and the
  saved program counter moved past the ecall; when it returns r, the process goes back to user mode
  with r in a0 and otherwise the registers the handler left in the trap frame.
\<close>

theorem usertrap_syscall:
  assumes "curproc s = Some p" and "csrs s CSR_sstatus AND SSTATUS_SPP = 0" and "csrs s CSR_scause = 8"
    and "LkProc p \<notin> held s" and "p_killed (procs s p) = 0"
    and "sint (ucast (tf s p TF_a7) :: uint) = sys_no c"
    and "handler c (sys_entry p s) = Ret r t"
    and "curproc t = Some p" and "LkProc p \<notin> held t" and "p_killed (procs t p) = 0"
  shows "usertrap s = Ret () (user_return p (tf_put p TF_a0 r t)) \<and>
    intr_get (csrs (sys_entry p s) CSR_sstatus) \<and> csrs (sys_entry p s) CSR_stvec = sym_kernelvec s \<and>
    tf (sys_entry p s) p TF_epc = csrs s CSR_sepc + 4 \<and>
    tf (user_return p (tf_put p TF_a0 r t)) p TF_a0 = r \<and>
    csrs (user_return p (tf_put p TF_a0 r t)) CSR_sepc = tf t p TF_epc"
proof -
  have "syscall (sys_entry p s) = Ret () (tf_put p TF_a0 r t)"
    using assms(1,6,7) by (intro syscall_dispatch [of _ _ c]) (simp_all add: sys_entry_def tf_put_other)
  then have "usertrap s = Ret () (user_return p (tf_put p TF_a0 r t))"
    using assms by (intro usertrap_ecall) simp_all
  moreover note intr_get_on_csr
  ultimately show ?thesis by (simp add: user_frame_tf sys_entry_def user_csrs_at tf_put_other)
qed

text \<open>A state in which process 0 has executed ecall at address 0 with a number in a7.\<close>

definition ecall_state :: "uint64 \<Rightarrow> hart" where
  "ecall_state n = tf_put 0 TF_a7 n (hart0\<lparr>csrs := (\<lambda>_. 0)(CSR_scause := 8), procs := (\<lambda>_. proc0\<lparr>p_pid := 7\<rparr>)\<rparr>)"

lemma ecall_state_simps [simp]:
  "curproc (ecall_state n) = Some 0" "csrs (ecall_state n) = (\<lambda>_. 0)(CSR_scause := 8)" "held (ecall_state n) = {}"
  "procs (ecall_state n) = (\<lambda>_. proc0\<lparr>p_pid := 7\<rparr>)" "tf (ecall_state n) 0 TF_a7 = n"
  "panicked (ecall_state n) = 0"
  by (simp_all add: ecall_state_def)

lemma getpid_entry: "handler SYS_getpid (sys_entry 0 (ecall_state 11)) = Ret 7 (sys_entry 0 (ecall_state 11))"
  by (simp add: sys_getpid_def bind_myprocp sys_entry_def krun the_proc_def return_apply)

theorem usertrap_syscall_witness:
  "\<exists>t. usertrap (ecall_state 11) = Ret () t \<and> tf t 0 TF_a0 = 7 \<and> csrs t CSR_sepc = 4"
  using usertrap_syscall [of "ecall_state 11" 0 SYS_getpid 7, OF _ _ _ _ _ _ getpid_entry]
  by (auto simp: sys_entry_def proc0_def)

text \<open>
  C26. A number in a7 that is no system call is an error value, not a failure of the kernel: a line with the
  process and the number goes to the console, a0 becomes -1, the other user registers are
  as they were, and the process continues after the ecall.
\<close>

theorem usertrap_unknown_syscall:
  assumes "curproc s = Some p" and "csrs s CSR_sstatus AND SSTATUS_SPP = 0" and "csrs s CSR_scause = 8"
    and "LkProc p \<notin> held s" and "p_killed (procs s p) = 0" and "panicked s = 0" and "LkPr \<notin> held s"
    and "n = sint (ucast (tf s p TF_a7) :: uint)" and "n \<le> 0 \<or> NELEM_syscalls \<le> n"
    and "- (2 ^ 31) \<le> p_pid (procs s p)" and "p_pid (procs s p) < 2 ^ 31"
  shows "\<exists>t. usertrap s = Ret () t \<and> tf t p TF_a0 = - 1 \<and> csrs t CSR_sepc = csrs s CSR_sepc + 4 \<and>
    (\<forall>r. r \<notin> {TF_a0, TF_epc, TF_kernel_satp, TF_kernel_sp, TF_kernel_trap, TF_kernel_hartid} \<longrightarrow> tf t p r = tf s p r) \<and>
    cons_out t = cons_out s @ rev (print_buf (word_of_int (p_pid (procs s p))) 10 True) @ [32] @
      takeWhile (\<lambda>c. c \<noteq> 0) (p_name (procs s p)) @ chars '': unknown sys call '' @ rev (print_buf (word_of_int n) 10 True) @ [10]"
proof -
  have n: "scast (ucast (word_of_int n :: uint64) :: uint) = (word_of_int n :: uint64)"
    using sint_ge [of "ucast (tf s p TF_a7) :: uint"] sint_lt [of "ucast (tf s p TF_a7) :: uint"]
    by (intro int_arg) (simp_all add: assms(8))
  define e where "e = expand [Conv F_d, Lit 32, Conv F_s, Lit 58, Lit 32, Lit 117, Lit 110, Lit 107, Lit 110, Lit 111, Lit 119, Lit 110, Lit 32,
      Lit 115, Lit 121, Lit 115, Lit 32, Lit 99, Lit 97, Lit 108, Lit 108, Lit 32, Conv F_d, Lit 10]
    [VInt (word_of_int (p_pid (procs s p))), VStr (Some (takeWhile (\<lambda>c. c \<noteq> 0) (p_name (procs s p)))), VInt (word_of_int n)]"
  define t where "t = tf_put p TF_a0 (-1) (out e (sys_entry p s))"
  have "syscall (sys_entry p s) = Ret () t"
    using assms(1,6-9) syscall_none [of "sys_entry p s" p n] by (simp add: sys_entry_def tf_put_other t_def e_def del: expand.simps)
  moreover have c: "cons_out t = cons_out s @ e" "curproc t = Some p" "held t = held s" "procs t = procs s"
    using assms(1) by (simp_all add: t_def out_def sys_entry_def tf_put_def)
  ultimately have "usertrap s = Ret () (user_return p t)" using assms by (intro usertrap_ecall) simp_all
  moreover have "tf t p r = (if r = TF_a0 then - 1 else if r = TF_epc then csrs s CSR_sepc + 4 else tf s p r)" for r
    by (simp add: t_def tf_put_if tf_out sys_entry_def)
  ultimately show ?thesis
    using c n int_arg [OF assms(10,11)]
    by (intro exI [of _ "user_return p t"]) (simp add: user_frame_tf user_csrs_at user_return_out e_def chars_def split: tfreg.split)
qed

theorem usertrap_unknown_syscall_witness:
  "\<exists>t. usertrap (ecall_state 22) = Ret () t \<and> tf t 0 TF_a0 = - 1 \<and> csrs t CSR_sepc = 4"
  using usertrap_unknown_syscall [of "ecall_state 22" 0 22] by (auto simp: NELEM_syscalls_def proc0_def)

end
