(* ===== verification/Asm.thy ===== *)
theory Asm
  imports Proc
begin

text \<open>
  The assembly of the kernel: kernel/trampoline.S, kernel/kernelvec.S, kernel/swtch.S and
  kernel/entry.S, and the stubs user/usys.pl generates, as lists of RISC-V instructions with the
  semantics of the few instructions they use.  Loads and stores go through the page table in
  satp; the translation is the hardware's and is a parameter, like the code of a called C
  function and the addresses of symbols.
\<close>

section \<open>Instructions\<close>

datatype reg =
    R_ra | R_sp | R_gp | R_tp | R_t0 | R_t1 | R_t2 | R_s0 | R_s1
  | R_a0 | R_a1 | R_a2 | R_a3 | R_a4 | R_a5 | R_a6 | R_a7
  | R_s2 | R_s3 | R_s4 | R_s5 | R_s6 | R_s7 | R_s8 | R_s9 | R_s10 | R_s11
  | R_t3 | R_t4 | R_t5 | R_t6

datatype acsr = A_sscratch | A_satp | A_mhartid

datatype instr =
    Sd reg uint64 reg
  | Ld reg uint64 reg
  | Li reg uint64
  | La reg string
  | Addi reg reg uint64
  | Add reg reg reg
  | Mul reg reg reg
  | Csrw acsr reg
  | Csrr reg acsr
  | SfenceVma
  | Call string
  | Jr reg
  | RetI
  | Sret
  | Ecall

datatype target = Goto uint64 | FromTrap

record asm =
  regs :: "reg \<Rightarrow> uint64"
  amem :: mem
  acsrs :: "acsr \<Rightarrow> uint64"
  next_pc :: "target option"

record env =
  xlate :: "uint64 \<Rightarrow> addr \<Rightarrow> addr"
  cfun :: "string \<Rightarrow> asm \<Rightarrow> asm"
  symbol :: "string \<Rightarrow> uint64"

definition va_of :: "env \<Rightarrow> asm \<Rightarrow> reg \<Rightarrow> uint64 \<Rightarrow> addr" where
  "va_of E s b off = xlate E (acsrs s A_satp) (regs s b + off)"

fun step :: "env \<Rightarrow> instr \<Rightarrow> asm \<Rightarrow> asm" where
  "step E (Sd r off b) s = s\<lparr>amem := store64 (amem s) (va_of E s b off) (regs s r)\<rparr>"
| "step E (Ld r off b) s = s\<lparr>regs := (regs s)(r := load64 (amem s) (va_of E s b off))\<rparr>"
| "step E (Li r v) s = s\<lparr>regs := (regs s)(r := v)\<rparr>"
| "step E (La r x) s = s\<lparr>regs := (regs s)(r := symbol E x)\<rparr>"
| "step E (Addi r r' v) s = s\<lparr>regs := (regs s)(r := regs s r' + v)\<rparr>"
| "step E (Add r x y) s = s\<lparr>regs := (regs s)(r := regs s x + regs s y)\<rparr>"
| "step E (Mul r x y) s = s\<lparr>regs := (regs s)(r := regs s x * regs s y)\<rparr>"
| "step E (Csrw c r) s = s\<lparr>acsrs := (acsrs s)(c := regs s r)\<rparr>"
| "step E (Csrr r c) s = s\<lparr>regs := (regs s)(r := acsrs s c)\<rparr>"
| "step E SfenceVma s = s"
| "step E (Call f) s = cfun E f s"
| "step E (Jr r) s = s\<lparr>next_pc := Some (Goto (regs s r))\<rparr>"
| "step E RetI s = s\<lparr>next_pc := Some (Goto (regs s R_ra))\<rparr>"
| "step E Sret s = s\<lparr>next_pc := Some FromTrap\<rparr>"
| "step E Ecall s = cfun E ''ecall'' s"

fun run :: "env \<Rightarrow> instr list \<Rightarrow> asm \<Rightarrow> asm" where
  "run E [] s = s"
| "run E (i # is) s = run E is (step E i s)"

section \<open>The code\<close>

definition uservec :: "instr list" where
  "uservec =
    [Csrw A_sscratch R_a0,
     Li R_a0 TRAPFRAME,
     Sd R_ra 40 R_a0, Sd R_sp 48 R_a0, Sd R_gp 56 R_a0, Sd R_tp 64 R_a0, Sd R_t0 72 R_a0, Sd R_t1 80 R_a0,
     Sd R_t2 88 R_a0, Sd R_s0 96 R_a0, Sd R_s1 104 R_a0, Sd R_a1 120 R_a0, Sd R_a2 128 R_a0, Sd R_a3 136 R_a0,
     Sd R_a4 144 R_a0, Sd R_a5 152 R_a0, Sd R_a6 160 R_a0, Sd R_a7 168 R_a0, Sd R_s2 176 R_a0, Sd R_s3 184 R_a0,
     Sd R_s4 192 R_a0, Sd R_s5 200 R_a0, Sd R_s6 208 R_a0, Sd R_s7 216 R_a0, Sd R_s8 224 R_a0, Sd R_s9 232 R_a0,
     Sd R_s10 240 R_a0, Sd R_s11 248 R_a0, Sd R_t3 256 R_a0, Sd R_t4 264 R_a0, Sd R_t5 272 R_a0, Sd R_t6 280 R_a0,
     Csrr R_t0 A_sscratch,
     Sd R_t0 112 R_a0,
     Ld R_sp 8 R_a0,
     Ld R_tp 32 R_a0,
     Ld R_t0 16 R_a0,
     Ld R_t1 0 R_a0,
     SfenceVma,
     Csrw A_satp R_t1,
     SfenceVma,
     Jr R_t0]"

definition userret :: "instr list" where
  "userret =
    [SfenceVma,
     Csrw A_satp R_a0,
     SfenceVma,
     Li R_a0 TRAPFRAME,
     Ld R_ra 40 R_a0, Ld R_sp 48 R_a0, Ld R_gp 56 R_a0, Ld R_tp 64 R_a0, Ld R_t0 72 R_a0, Ld R_t1 80 R_a0,
     Ld R_t2 88 R_a0, Ld R_s0 96 R_a0, Ld R_s1 104 R_a0, Ld R_a1 120 R_a0, Ld R_a2 128 R_a0, Ld R_a3 136 R_a0,
     Ld R_a4 144 R_a0, Ld R_a5 152 R_a0, Ld R_a6 160 R_a0, Ld R_a7 168 R_a0, Ld R_s2 176 R_a0, Ld R_s3 184 R_a0,
     Ld R_s4 192 R_a0, Ld R_s5 200 R_a0, Ld R_s6 208 R_a0, Ld R_s7 216 R_a0, Ld R_s8 224 R_a0, Ld R_s9 232 R_a0,
     Ld R_s10 240 R_a0, Ld R_s11 248 R_a0, Ld R_t3 256 R_a0, Ld R_t4 264 R_a0, Ld R_t5 272 R_a0, Ld R_t6 280 R_a0,
     Ld R_a0 112 R_a0,
     Sret]"

definition swtch_code :: "instr list" where
  "swtch_code =
    [Sd R_ra 0 R_a0, Sd R_sp 8 R_a0, Sd R_s0 16 R_a0, Sd R_s1 24 R_a0, Sd R_s2 32 R_a0, Sd R_s3 40 R_a0,
     Sd R_s4 48 R_a0, Sd R_s5 56 R_a0, Sd R_s6 64 R_a0, Sd R_s7 72 R_a0, Sd R_s8 80 R_a0, Sd R_s9 88 R_a0,
     Sd R_s10 96 R_a0, Sd R_s11 104 R_a0,
     Ld R_ra 0 R_a1, Ld R_sp 8 R_a1, Ld R_s0 16 R_a1, Ld R_s1 24 R_a1, Ld R_s2 32 R_a1, Ld R_s3 40 R_a1,
     Ld R_s4 48 R_a1, Ld R_s5 56 R_a1, Ld R_s6 64 R_a1, Ld R_s7 72 R_a1, Ld R_s8 80 R_a1, Ld R_s9 88 R_a1,
     Ld R_s10 96 R_a1, Ld R_s11 104 R_a1,
     RetI]"

definition kernelvec :: "instr list" where
  "kernelvec =
    [Addi R_sp R_sp (-256),
     Sd R_ra 0 R_sp, Sd R_sp 8 R_sp, Sd R_gp 16 R_sp, Sd R_tp 24 R_sp, Sd R_t0 32 R_sp, Sd R_t1 40 R_sp, Sd R_t2 48 R_sp,
     Sd R_a0 72 R_sp, Sd R_a1 80 R_sp, Sd R_a2 88 R_sp, Sd R_a3 96 R_sp, Sd R_a4 104 R_sp, Sd R_a5 112 R_sp,
     Sd R_a6 120 R_sp, Sd R_a7 128 R_sp, Sd R_t3 216 R_sp, Sd R_t4 224 R_sp, Sd R_t5 232 R_sp, Sd R_t6 240 R_sp,
     Call ''kerneltrap'',
     Ld R_ra 0 R_sp, Ld R_sp 8 R_sp, Ld R_gp 16 R_sp, Ld R_t0 32 R_sp, Ld R_t1 40 R_sp, Ld R_t2 48 R_sp,
     Ld R_a0 72 R_sp, Ld R_a1 80 R_sp, Ld R_a2 88 R_sp, Ld R_a3 96 R_sp, Ld R_a4 104 R_sp, Ld R_a5 112 R_sp,
     Ld R_a6 120 R_sp, Ld R_a7 128 R_sp, Ld R_t3 216 R_sp, Ld R_t4 224 R_sp, Ld R_t5 232 R_sp, Ld R_t6 240 R_sp,
     Addi R_sp R_sp 256,
     Sret]"

definition entry_code :: "instr list" where
  "entry_code =
    [La R_sp ''stack0'', Li R_a0 (1024 * 4), Csrr R_a1 A_mhartid, Addi R_a1 R_a1 1, Mul R_a0 R_a0 R_a1,
     Add R_sp R_sp R_a0, Call ''start'']"

text \<open>The stub of a system call, from the \<open>entry\<close> subroutine of usys.pl.\<close>

definition usys_stub :: "int \<Rightarrow> instr list" where
  "usys_stub n = [Li R_a7 (word_of_int n), Ecall, RetI]"

section \<open>Saving and restoring a set of registers\<close>

lemma run_append: "run E (xs @ ys) s = run E ys (run E xs s)"
  by (induction xs arbitrary: s) simp_all

definition saves :: "(reg \<Rightarrow> uint64) \<Rightarrow> reg list \<Rightarrow> reg \<Rightarrow> instr list" where
  "saves off rs b = map (\<lambda>r. Sd r (off r) b) rs"

definition restores :: "(reg \<Rightarrow> uint64) \<Rightarrow> reg list \<Rightarrow> reg \<Rightarrow> instr list" where
  "restores off rs b = map (\<lambda>r. Ld r (off r) b) rs"

definition save_mem :: "(reg \<Rightarrow> addr) \<Rightarrow> (reg \<Rightarrow> uint64) \<Rightarrow> reg list \<Rightarrow> mem \<Rightarrow> mem" where
  "save_mem ad v rs m = fold (\<lambda>r m. store64 m (ad r) (v r)) rs m"

lemma run_saves: "run E (saves off rs b) s = s\<lparr>amem := save_mem (\<lambda>r. va_of E s b (off r)) (regs s) rs (amem s)\<rparr>"
  unfolding saves_def
  by (induction rs arbitrary: s) (simp_all add: save_mem_def va_of_def)

lemma run_restores:
  "b \<notin> set rs \<Longrightarrow> run E (restores off rs b) s =
     s\<lparr>regs := (\<lambda>r. if r \<in> set rs then load64 (amem s) (va_of E s b (off r)) else regs s r)\<rparr>"
  unfolding restores_def
  by (induction rs arbitrary: s) (auto simp: va_of_def fun_eq_iff intro!: arg_cong [where f = "\<lambda>g. s\<lparr>regs := g\<rparr>" for s])

text \<open>Two doublewords that do not overlap.\<close>

definition apart :: "addr \<Rightarrow> addr \<Rightarrow> bool" where
  "apart a b \<longleftrightarrow> 8 \<le> unat (a - b) \<and> 8 \<le> unat (b - a)"

lemma apart_sym: "apart a b \<Longrightarrow> apart b a"
  by (simp add: apart_def)

lemma apart_store [mem_simps]: "apart a b \<Longrightarrow> load64 (store64 m a w) b = load64 m b"
  by (simp add: apart_def load_store_apart)

lemma save_mem_other: "(\<And>r. r \<in> set rs \<Longrightarrow> apart (ad r) b) \<Longrightarrow> load64 (save_mem ad v rs m) b = load64 m b"
  unfolding save_mem_def by (induction rs arbitrary: m) (simp_all add: apart_store)

lemma save_mem_at:
  assumes "\<And>r r'. r \<in> set rs \<Longrightarrow> r' \<in> set rs \<Longrightarrow> r \<noteq> r' \<Longrightarrow> apart (ad r) (ad r')" and "r \<in> set rs"
  shows "load64 (save_mem ad v rs m) (ad r) = v r"
  using assms
proof (induction rs arbitrary: m)
  case (Cons x rs)
  show ?case
  proof (cases "r \<in> set rs")
    case True
    then show ?thesis using Cons.IH [of "store64 m (ad x) (v x)"] Cons.prems by (simp add: save_mem_def)
  next
    case False
    then have "load64 (save_mem ad v rs (store64 m (ad x) (v x))) (ad r) = load64 (store64 m (ad x) (v x)) (ad r)"
      using Cons.prems by (intro save_mem_other) auto
    then show ?thesis using False Cons.prems(2) by (simp add: save_mem_def load_store_same)
  qed
qed simp

lemma apart_off:
  assumes "unat x + 8 \<le> unat y \<or> unat y + 8 \<le> unat x" and "unat x \<le> 2 ^ 33" and "unat y \<le> 2 ^ 33"
  shows "apart (p + x) (p + y)"
proof -
  have "8 \<le> unat (x - y)" "8 \<le> unat (y - x)"
    using assms by (simp_all add: unat_sub_if' word_size) linarith+
  then show ?thesis by (simp add: apart_def)
qed

section \<open>The trampoline\<close>

fun tf_reg :: "reg \<Rightarrow> tfreg" where
  "tf_reg R_ra = TF_ra" | "tf_reg R_sp = TF_sp" | "tf_reg R_gp = TF_gp" | "tf_reg R_tp = TF_tp"
| "tf_reg R_t0 = TF_t0" | "tf_reg R_t1 = TF_t1" | "tf_reg R_t2 = TF_t2" | "tf_reg R_s0 = TF_s0" | "tf_reg R_s1 = TF_s1"
| "tf_reg R_a0 = TF_a0" | "tf_reg R_a1 = TF_a1" | "tf_reg R_a2 = TF_a2" | "tf_reg R_a3 = TF_a3" | "tf_reg R_a4 = TF_a4"
| "tf_reg R_a5 = TF_a5" | "tf_reg R_a6 = TF_a6" | "tf_reg R_a7 = TF_a7"
| "tf_reg R_s2 = TF_s2" | "tf_reg R_s3 = TF_s3" | "tf_reg R_s4 = TF_s4" | "tf_reg R_s5 = TF_s5" | "tf_reg R_s6 = TF_s6"
| "tf_reg R_s7 = TF_s7" | "tf_reg R_s8 = TF_s8" | "tf_reg R_s9 = TF_s9" | "tf_reg R_s10 = TF_s10" | "tf_reg R_s11 = TF_s11"
| "tf_reg R_t3 = TF_t3" | "tf_reg R_t4 = TF_t4" | "tf_reg R_t5 = TF_t5" | "tf_reg R_t6 = TF_t6"

definition tramp_regs :: "reg list" where
  "tramp_regs = [R_ra, R_sp, R_gp, R_tp, R_t0, R_t1, R_t2, R_s0, R_s1, R_a1, R_a2, R_a3, R_a4, R_a5, R_a6, R_a7,
     R_s2, R_s3, R_s4, R_s5, R_s6, R_s7, R_s8, R_s9, R_s10, R_s11, R_t3, R_t4, R_t5, R_t6]"

definition uoff :: "reg \<Rightarrow> uint64" where
  "uoff r = tf_off (tf_reg r)"

lemma tramp_regs_iff: "r \<in> set tramp_regs \<longleftrightarrow> r \<noteq> R_a0"
  by (cases r) (simp_all add: tramp_regs_def)

lemma uservec_parts:
  "uservec = [Csrw A_sscratch R_a0, Li R_a0 TRAPFRAME] @ saves uoff tramp_regs R_a0 @
     [Csrr R_t0 A_sscratch, Sd R_t0 (uoff R_a0) R_a0, Ld R_sp (tf_off TF_kernel_sp) R_a0, Ld R_tp (tf_off TF_kernel_hartid) R_a0,
      Ld R_t0 (tf_off TF_kernel_trap) R_a0, Ld R_t1 (tf_off TF_kernel_satp) R_a0, SfenceVma, Csrw A_satp R_t1, SfenceVma, Jr R_t0]"
  by (simp add: uservec_def saves_def tramp_regs_def uoff_def)

lemma userret_parts:
  "userret = [SfenceVma, Csrw A_satp R_a0, SfenceVma, Li R_a0 TRAPFRAME] @ restores uoff tramp_regs R_a0 @
     [Ld R_a0 (uoff R_a0) R_a0, Sret]"
  by (simp add: userret_def restores_def tramp_regs_def uoff_def)

lemma tf_addr_apart: "r \<noteq> r' \<Longrightarrow> apart (pa + tf_off r) (pa + tf_off r')"
  using tf_off_bound [of r] tf_off_bound [of r'] by (intro apart_off tf_off_apart) simp_all

lemma tf_reg_inj: "tf_reg r = tf_reg r' \<longleftrightarrow> r = r'"
  by (cases r; cases r') simp_all

lemma tf_reg_user: "tf_reg r \<notin> {TF_kernel_satp, TF_kernel_sp, TF_kernel_trap, TF_epc, TF_kernel_hartid}"
  by (cases r) simp_all

text \<open>The page table a trap runs on maps the trap frame where the kernel has it.\<close>

definition maps_frame :: "env \<Rightarrow> uint64 \<Rightarrow> addr \<Rightarrow> bool" where
  "maps_frame E satp pa \<longleftrightarrow> (\<forall>r. xlate E satp (TRAPFRAME + tf_off r) = pa + tf_off r)"

definition user_mem :: "addr \<Rightarrow> (reg \<Rightarrow> uint64) \<Rightarrow> mem \<Rightarrow> mem" where
  "user_mem pa v m = store64 (save_mem (\<lambda>r. pa + uoff r) v tramp_regs m) (pa + uoff R_a0) (v R_a0)"

lemma user_mem_user: "load64 (user_mem pa v m) (pa + uoff r) = v r"
proof (cases "r = R_a0")
  case False
  then have "load64 (save_mem (\<lambda>r. pa + uoff r) v tramp_regs m) (pa + uoff r) = v r"
    by (intro save_mem_at) (simp_all add: tramp_regs_iff uoff_def tf_addr_apart tf_reg_inj)
  moreover have "apart (pa + uoff R_a0) (pa + uoff r)"
    using False unfolding uoff_def by (intro tf_addr_apart) (simp only: tf_reg_inj, simp)
  ultimately show ?thesis by (simp add: user_mem_def apart_store)
qed (simp add: user_mem_def load_store_same)

lemma user_mem_kernel:
  assumes "k \<notin> range tf_reg"
  shows "load64 (user_mem pa v m) (pa + tf_off k) = load64 m (pa + tf_off k)"
proof -
  have "apart (pa + uoff r) (pa + tf_off k)" for r
    using assms unfolding uoff_def by (intro tf_addr_apart) auto
  then show ?thesis by (simp add: user_mem_def apart_store save_mem_other)
qed

lemma run_uservec:
  assumes "maps_frame E (acsrs s A_satp) pa" and "m = user_mem pa (regs s) (amem s)" and "t = run E uservec s"
  shows "amem t = m" "regs t R_sp = load64 m (pa + tf_off TF_kernel_sp)" "regs t R_tp = load64 m (pa + tf_off TF_kernel_hartid)"
    "next_pc t = Some (Goto (load64 m (pa + tf_off TF_kernel_trap)))" "acsrs t A_satp = load64 m (pa + tf_off TF_kernel_satp)"
proof -
  have x: "xlate E (acsrs s A_satp) (TRAPFRAME + tf_off r) = pa + tf_off r" for r
    using assms(1) by (simp add: maps_frame_def)
  have v: "save_mem ad (v(R_a0 := w)) tramp_regs = save_mem ad v tramp_regs" for ad v w
    unfolding save_mem_def by (intro ext fold_cong) (simp_all add: tramp_regs_iff)
  note defs = assms(2,3) uservec_parts run_append run_saves va_of_def x uoff_def v user_mem_def
  show "amem t = m" "regs t R_sp = load64 m (pa + tf_off TF_kernel_sp)" "regs t R_tp = load64 m (pa + tf_off TF_kernel_hartid)"
    "next_pc t = Some (Goto (load64 m (pa + tf_off TF_kernel_trap)))" "acsrs t A_satp = load64 m (pa + tf_off TF_kernel_satp)"
    by (simp_all add: defs del: tf_off.simps tf_reg.simps)
qed

lemma run_userret:
  assumes "maps_frame E (regs u R_a0) pa" and "t = run E userret u"
  shows "regs t r = load64 (amem u) (pa + uoff r)" "acsrs t A_satp = regs u R_a0" "next_pc t = Some FromTrap"
proof -
  have x: "xlate E (regs u R_a0) (TRAPFRAME + tf_off r) = pa + tf_off r" for r
    using assms(1) by (simp add: maps_frame_def)
  note defs = assms(2) userret_parts run_append run_restores tramp_regs_iff va_of_def x uoff_def
  show "regs t r = load64 (amem u) (pa + uoff r)" "acsrs t A_satp = regs u R_a0" "next_pc t = Some FromTrap"
    by (simp_all add: defs del: tf_off.simps tf_reg.simps)
qed

text \<open>
  C27. The trampoline is faithful.  uservec, run on the page table of the process, leaves every user
  register in its field of the trap frame and enters usertrap on the kernel stack, hart and page
  table the frame names; userret gives user space exactly the registers in the frame.  So whatever registers the
  kernel does not change in the frame are as they were before the trap.
\<close>

theorem trampoline_roundtrip:
  assumes "maps_frame E satp pa" and "acsrs s A_satp = satp" and "t = run E uservec s"
    and "regs u R_a0 = satp" and "t' = run E userret u"
  shows "(\<forall>r. load64 (amem t) (pa + tf_off (tf_reg r)) = regs s r) \<and>
    regs t R_sp = load64 (amem s) (pa + tf_off TF_kernel_sp) \<and>
    regs t R_tp = load64 (amem s) (pa + tf_off TF_kernel_hartid) \<and>
    next_pc t = Some (Goto (load64 (amem s) (pa + tf_off TF_kernel_trap))) \<and>
    acsrs t A_satp = load64 (amem s) (pa + tf_off TF_kernel_satp) \<and>
    acsrs t' A_satp = satp \<and> next_pc t' = Some FromTrap \<and>
    (\<forall>r. regs t' r = load64 (amem u) (pa + tf_off (tf_reg r))) \<and>
    (\<forall>r. load64 (amem u) (pa + tf_off (tf_reg r)) = load64 (amem t) (pa + tf_off (tf_reg r)) \<longrightarrow> regs t' r = regs s r)"
proof -
  have k: "k \<notin> range tf_reg" if "k \<in> {TF_kernel_satp, TF_kernel_sp, TF_kernel_trap, TF_kernel_hartid}" for k
    using that tf_reg_user by (auto dest: arg_cong [where f = tf_off])
  note m = user_mem_kernel [OF k]
  show ?thesis
    using run_uservec [OF _ refl assms(3), of pa] run_userret [OF _ assms(5), of pa] assms(1,2,4)
    by (simp add: m user_mem_user [unfolded uoff_def] uoff_def del: tf_off.simps)
qed

definition env0 :: env where
  "env0 = \<lparr>xlate = (\<lambda>_ a. a - TRAPFRAME + 0x87000000), cfun = (\<lambda>_ s. s), symbol = (\<lambda>_. 0)\<rparr>"

definition asm0 :: asm where
  "asm0 = \<lparr>regs = (\<lambda>r. if r = R_a0 then 5 else if r = R_s3 then 7 else 0), amem = (\<lambda>_. 0), acsrs = (\<lambda>_. 0), next_pc = None\<rparr>"

theorem trampoline_roundtrip_witness:
  "load64 (amem (run env0 uservec asm0)) (0x87000000 + 112) = 5 \<and>
   regs (run env0 userret (asm0\<lparr>regs := \<lambda>_. 0, amem := amem (run env0 uservec asm0)\<rparr>)) R_s3 = 7"
proof -
  have "maps_frame env0 0 0x87000000" by (simp add: maps_frame_def env0_def)
  note trampoline_roundtrip [OF this _ refl _ refl, of asm0 "asm0\<lparr>regs := \<lambda>_. 0, amem := amem (run env0 uservec asm0)\<rparr>"]
  then have "load64 (amem (run env0 uservec asm0)) (0x87000000 + tf_off (tf_reg r)) = regs asm0 r"
    and "regs (run env0 userret (asm0\<lparr>regs := \<lambda>_. 0, amem := amem (run env0 uservec asm0)\<rparr>)) r = regs asm0 r" for r
    by (simp_all add: asm0_def)
  from this(1) [of R_a0] this(2) [of R_s3] show ?thesis by (simp add: asm0_def)
qed

section \<open>Switching contexts\<close>

definition ctx_regs :: "reg list" where
  "ctx_regs = [R_ra, R_sp, R_s0, R_s1, R_s2, R_s3, R_s4, R_s5, R_s6, R_s7, R_s8, R_s9, R_s10, R_s11]"

fun ctx_off :: "reg \<Rightarrow> uint64" where
  "ctx_off R_ra = 0" | "ctx_off R_sp = 8" | "ctx_off R_s0 = 16" | "ctx_off R_s1 = 24" | "ctx_off R_s2 = 32"
| "ctx_off R_s3 = 40" | "ctx_off R_s4 = 48" | "ctx_off R_s5 = 56" | "ctx_off R_s6 = 64" | "ctx_off R_s7 = 72"
| "ctx_off R_s8 = 80" | "ctx_off R_s9 = 88" | "ctx_off R_s10 = 96" | "ctx_off R_s11 = 104" | "ctx_off _ = 112"

definition sizeof_context :: nat where "sizeof_context = 112"

lemma swtch_parts: "swtch_code = saves ctx_off ctx_regs R_a0 @ restores ctx_off ctx_regs R_a1 @ [RetI]"
  by (simp add: swtch_code_def saves_def restores_def ctx_regs_def)

lemma ctx_off_apart:
  "\<forall>r\<in>set ctx_regs. \<forall>r'\<in>set ctx_regs. r = r' \<or> unat (ctx_off r) + 8 \<le> unat (ctx_off r') \<or> unat (ctx_off r') + 8 \<le> unat (ctx_off r)"
  by code_simp

lemma ctx_off_bound: "r \<in> set ctx_regs \<Longrightarrow> unat (ctx_off r) < sizeof_context"
  by (auto simp: ctx_regs_def sizeof_context_def)

lemma ctx_apart: "r \<in> set ctx_regs \<Longrightarrow> r' \<in> set ctx_regs \<Longrightarrow> r \<noteq> r' \<Longrightarrow> apart (pa + ctx_off r) (pa + ctx_off r')"
  using ctx_off_apart ctx_off_bound [of r] ctx_off_bound [of r'] by (intro apart_off) (auto simp: sizeof_context_def)

text \<open>Where a structure of size n is in physical memory: its page table maps it contiguously.\<close>

definition maps_at :: "env \<Rightarrow> uint64 \<Rightarrow> uint64 \<Rightarrow> addr \<Rightarrow> nat \<Rightarrow> bool" where
  "maps_at E satp va pa n \<longleftrightarrow> (\<forall>off. unat off < n \<longrightarrow> xlate E satp (va + off) = pa + off)"

text \<open>Two contexts that do not overlap.\<close>

definition ctx_disjoint :: "addr \<Rightarrow> addr \<Rightarrow> bool" where
  "ctx_disjoint a b \<longleftrightarrow> (\<forall>r\<in>set ctx_regs. \<forall>r'\<in>set ctx_regs. apart (a + ctx_off r) (b + ctx_off r'))"

lemma ctx_disjoint_far:
  assumes "unat a + sizeof_context \<le> unat b \<or> unat b + sizeof_context \<le> unat a" and "unat a \<le> 2 ^ 32" and "unat b \<le> 2 ^ 32"
  shows "ctx_disjoint a b"
  unfolding ctx_disjoint_def
proof (intro ballI)
  fix r r'
  assume "r \<in> set ctx_regs" and "r' \<in> set ctx_regs"
  then have b: "unat (ctx_off r) \<le> 104" "unat (ctx_off r') \<le> 104" by (auto simp: ctx_regs_def)
  then have "unat (a + ctx_off r) = unat a + unat (ctx_off r)" "unat (b + ctx_off r') = unat b + unat (ctx_off r')"
    using assms(2,3) by (simp_all add: unat_word_ariths)
  then show "apart (a + ctx_off r) (b + ctx_off r')"
    using apart_off [of "a + ctx_off r" "b + ctx_off r'" 0] assms b by (simp add: sizeof_context_def) linarith
qed

lemma run_swtch:
  assumes "maps_at E (acsrs s A_satp) (regs s R_a0) old sizeof_context" and "maps_at E (acsrs s A_satp) (regs s R_a1) new sizeof_context"
    and "ctx_disjoint old new" and "t = run E swtch_code s" and "r \<in> set ctx_regs"
  shows "load64 (amem t) (old + ctx_off r) = regs s r" "regs t r = load64 (amem s) (new + ctx_off r)"
    "next_pc t = Some (Goto (load64 (amem s) (new + 0)))"
proof -
  let ?ad = "\<lambda>r. va_of E s R_a0 (ctx_off r)"
  have o: "?ad x = old + ctx_off x" and n: "xlate E (acsrs s A_satp) (regs s R_a1 + ctx_off x) = new + ctx_off x"
    if "x \<in> set ctx_regs" for x
    using that assms(1,2) ctx_off_bound by (auto simp: va_of_def maps_at_def)
  have b: "R_a1 \<notin> set ctx_regs" "R_ra \<in> set ctx_regs" by (simp_all add: ctx_regs_def)
  let ?m = "save_mem ?ad (regs s) ctx_regs (amem s)"
  have t: "t = s\<lparr>amem := ?m, regs := (\<lambda>r. if r \<in> set ctx_regs then load64 ?m (xlate E (acsrs s A_satp) (regs s R_a1 + ctx_off r)) else regs s r),
      next_pc := Some (Goto (load64 ?m (xlate E (acsrs s A_satp) (regs s R_a1 + ctx_off R_ra))))\<rparr>"
    using b by (simp add: assms(4) swtch_parts run_append run_saves run_restores va_of_def cong: if_cong)
  have "load64 ?m (?ad r) = regs s r" using assms(5) o by (intro save_mem_at) (auto simp: ctx_apart)
  then show "load64 (amem t) (old + ctx_off r) = regs s r" using o [OF assms(5)] by (simp add: t)
  have "load64 ?m (new + ctx_off x) = load64 (amem s) (new + ctx_off x)" if "x \<in> set ctx_regs" for x
    using that assms(3) o by (intro save_mem_other) (auto simp: ctx_disjoint_def)
  then show "regs t r = load64 (amem s) (new + ctx_off r)" "next_pc t = Some (Goto (load64 (amem s) (new + 0)))"
    using n assms(5) b by (simp_all add: t) (metis add_0_right ctx_off.simps(1))+
qed

text \<open>
  C28. A thread that calls swtch(old, new) continues in the context new; when any thread later calls
  swtch(\<dots>, old) and nobody wrote to old, the first thread's call returns, with its return
  address, stack pointer and callee-saved registers.
\<close>

theorem swtch_roundtrip:
  assumes "maps_at E (acsrs s A_satp) (regs s R_a0) old sizeof_context" and "maps_at E (acsrs s A_satp) (regs s R_a1) new sizeof_context"
    and "ctx_disjoint old new" and "t = run E swtch_code s"
    and "maps_at E (acsrs u A_satp) (regs u R_a0) cur sizeof_context" and "maps_at E (acsrs u A_satp) (regs u R_a1) old sizeof_context"
    and "ctx_disjoint cur old" and "v = run E swtch_code u"
    and "\<forall>r\<in>set ctx_regs. load64 (amem u) (old + ctx_off r) = load64 (amem t) (old + ctx_off r)"
  shows "(\<forall>r\<in>set ctx_regs. regs t r = load64 (amem s) (new + ctx_off r)) \<and> next_pc t = Some (Goto (load64 (amem s) new)) \<and>
    (\<forall>r\<in>set ctx_regs. regs v r = regs s r) \<and> next_pc v = Some (Goto (regs s R_ra))"
proof -
  have ra: "R_ra \<in> set ctx_regs" "ctx_off R_ra = 0" by (simp_all add: ctx_regs_def)
  show ?thesis
    using run_swtch [OF assms(1-4)] run_swtch [OF assms(5-8)] assms(9) ra by (metis add_0_right)
qed

definition env_id :: env where
  "env_id = \<lparr>xlate = (\<lambda>_ a. a), cfun = (\<lambda>_ s. s), symbol = (\<lambda>_. 0)\<rparr>"

lemma maps_at_id: "maps_at env_id satp a a n"
  by (simp add: maps_at_def env_id_def)

definition switch0 :: asm where
  "switch0 = asm0\<lparr>regs := (\<lambda>_. 0)(R_a0 := 0x1000, R_a1 := 0x2000, R_ra := 0x80001234, R_s1 := 9)\<rparr>"

lemma ctx_far: "ctx_disjoint 0x1000 0x2000" "ctx_disjoint 0x2000 0x1000"
  by (rule ctx_disjoint_far; simp add: sizeof_context_def)+

theorem swtch_roundtrip_witness:
  "let t = run env_id swtch_code switch0;
       t2 = run env_id swtch_code (t\<lparr>regs := (regs t)(R_a0 := 0x2000, R_a1 := 0x1000)\<rparr>)
   in regs t R_s1 = 0 \<and> regs t2 R_s1 = 9 \<and> next_pc t2 = Some (Goto 0x80001234)"
proof -
  let ?t = "run env_id swtch_code switch0"
  let ?s2 = "?t\<lparr>regs := (regs ?t)(R_a0 := 0x2000, R_a1 := 0x1000)\<rparr>"
  have "R_s1 \<in> set ctx_regs" by (simp add: ctx_regs_def)
  moreover have "load64 (amem switch0) x = 0" for x by (simp add: switch0_def asm0_def load64_def rd_bytes_def le_dec_zeros map_replicate_const)
  moreover note swtch_roundtrip [where E = env_id and s = switch0 and u = ?s2, OF _ _ ctx_far(1) refl _ _ ctx_far(2) refl]
  ultimately show ?thesis by (simp add: maps_at_id switch0_def Let_def)
qed

section \<open>Traps from the kernel\<close>

definition trap_regs :: "reg list" where
  "trap_regs = [R_ra, R_sp, R_gp, R_tp, R_t0, R_t1, R_t2, R_a0, R_a1, R_a2, R_a3, R_a4, R_a5, R_a6, R_a7, R_t3, R_t4, R_t5, R_t6]"

definition back_regs :: "reg list" where
  "back_regs = [R_gp, R_t0, R_t1, R_t2, R_a0, R_a1, R_a2, R_a3, R_a4, R_a5, R_a6, R_a7, R_t3, R_t4, R_t5, R_t6]"

fun koff :: "reg \<Rightarrow> uint64" where
  "koff R_ra = 0" | "koff R_sp = 8" | "koff R_gp = 16" | "koff R_tp = 24" | "koff R_t0 = 32" | "koff R_t1 = 40" | "koff R_t2 = 48"
| "koff R_a0 = 72" | "koff R_a1 = 80" | "koff R_a2 = 88" | "koff R_a3 = 96" | "koff R_a4 = 104" | "koff R_a5 = 112"
| "koff R_a6 = 120" | "koff R_a7 = 128" | "koff R_t3 = 216" | "koff R_t4 = 224" | "koff R_t5 = 232" | "koff R_t6 = 240"
| "koff _ = 248"

definition kernelvec_save :: "instr list" where
  "kernelvec_save = Addi R_sp R_sp (-256) # saves koff trap_regs R_sp"

lemma kernelvec_parts:
  "kernelvec = kernelvec_save @ Call ''kerneltrap'' # Ld R_ra 0 R_sp # Ld R_sp 8 R_sp # restores koff back_regs R_sp @
     [Addi R_sp R_sp 256, Sret]"
  by (simp add: kernelvec_def kernelvec_save_def saves_def restores_def trap_regs_def back_regs_def)

lemma koff_apart:
  "\<forall>r\<in>set trap_regs. \<forall>r'\<in>set trap_regs. r = r' \<or> unat (koff r) + 8 \<le> unat (koff r') \<or> unat (koff r') + 8 \<le> unat (koff r)"
  by code_simp

lemma koff_bound: "unat (koff r) < 256"
  by (cases r) simp_all

lemma koff_addr_apart: "r \<in> set trap_regs \<Longrightarrow> r' \<in> set trap_regs \<Longrightarrow> r \<noteq> r' \<Longrightarrow> apart (fr + koff r) (fr + koff r')"
  using koff_apart koff_bound [of r] koff_bound [of r'] by (intro apart_off) auto

lemma callee_saved_iff: "r \<notin> set trap_regs \<longleftrightarrow> r \<in> set [R_s0, R_s1, R_s2, R_s3, R_s4, R_s5, R_s6, R_s7, R_s8, R_s9, R_s10, R_s11]"
  by (cases r) (simp_all add: trap_regs_def)

lemma trap_regs_back: "r \<in> set trap_regs \<longleftrightarrow> r \<in> {R_ra, R_sp, R_tp} \<or> r \<in> set back_regs"
  by (cases r) (simp_all add: trap_regs_def back_regs_def)

text \<open>
  What the compiled kerneltrap() keeps, by the calling convention: the stack pointer, the
  callee-saved registers, and the caller's frame; and the kernel stays on its page table.
\<close>

definition keeps_convention :: "addr \<Rightarrow> asm \<Rightarrow> asm \<Rightarrow> bool" where
  "keeps_convention fr c u \<longleftrightarrow> regs u R_sp = regs c R_sp \<and> (\<forall>r. r \<notin> set trap_regs \<longrightarrow> regs u r = regs c r) \<and>
     (\<forall>r\<in>set trap_regs. load64 (amem u) (fr + koff r) = load64 (amem c) (fr + koff r)) \<and> acsrs u A_satp = acsrs c A_satp"

lemma run_kernelvec_save:
  assumes "maps_at E (acsrs s A_satp) (regs s R_sp - 256) fr 256" and "c = run E kernelvec_save s"
  shows "regs c = (regs s)(R_sp := regs s R_sp - 256)" "acsrs c = acsrs s"
    "\<And>r. r \<in> set trap_regs \<Longrightarrow> load64 (amem c) (fr + koff r) = regs c r"
proof -
  let ?s = "s\<lparr>regs := (regs s)(R_sp := regs s R_sp - 256)\<rparr>"
  have c: "c = ?s\<lparr>amem := save_mem (\<lambda>r. va_of E ?s R_sp (koff r)) (regs ?s) trap_regs (amem s)\<rparr>"
    by (simp add: assms(2) kernelvec_save_def run_saves)
  then show "regs c = (regs s)(R_sp := regs s R_sp - 256)" "acsrs c = acsrs s" by simp_all
  have v: "va_of E ?s R_sp (koff r) = fr + koff r" for r using assms(1) koff_bound by (simp add: va_of_def maps_at_def)
  fix r
  assume "r \<in> set trap_regs"
  then have "load64 (save_mem (\<lambda>r. fr + koff r) (regs ?s) trap_regs (amem s)) (fr + koff r) = regs ?s r"
    by (intro save_mem_at) (auto simp: koff_addr_apart)
  then show "load64 (amem c) (fr + koff r) = regs c r" unfolding c v by simp
qed

text \<open>
  C29. A trap taken in the kernel is transparent: kernelvec runs kerneltrap() on a frame below the
  interrupted stack pointer and then returns from the trap with every register as it was,
  except tp, which has what kerneltrap() left, the number of the hart the thread runs on then.
\<close>

theorem kernelvec_transparent:
  assumes "maps_at E (acsrs s A_satp) (regs s R_sp - 256) fr 256"
    and "c = run E kernelvec_save s" and "keeps_convention fr c (cfun E ''kerneltrap'' c)"
    and "t = run E kernelvec s"
  shows "(\<forall>r. regs t r = (if r = R_tp then regs (cfun E ''kerneltrap'' c) R_tp else regs s r)) \<and> next_pc t = Some FromTrap"
proof -
  let ?u = "cfun E ''kerneltrap'' c"
  note c = run_kernelvec_save [OF assms(1,2)]
  have k: "regs ?u R_sp = regs s R_sp - 256" "acsrs ?u A_satp = acsrs s A_satp"
    using assms(3) c(1,2) by (simp_all add: keeps_convention_def)
  have x: "xlate E (acsrs s A_satp) (regs s R_sp - 256 + koff r) = fr + koff r" for r
    using assms(1) koff_bound by (simp add: maps_at_def)
  have l: "load64 (amem ?u) (fr + koff r) = regs c r" if "r \<in> set trap_regs" for r
    using that assms(3) c(3) by (simp add: keeps_convention_def)
  have sp: "load64 (amem ?u) (xlate E (acsrs s A_satp) (regs s R_sp - 256)) = regs s R_ra"
    "load64 (amem ?u) (xlate E (acsrs s A_satp) (regs s R_sp - 248)) = regs s R_sp - 256"
    using x [of R_ra] x [of R_sp] l [of R_ra] l [of R_sp] c(1) by (simp_all add: trap_regs_def)
  have b: "R_sp \<notin> set back_regs" "R_tp \<notin> set back_regs" "R_ra \<notin> set back_regs" by (simp_all add: back_regs_def)
  have t: "regs t = (\<lambda>r. if r \<in> set back_regs then load64 (amem ?u) (fr + koff r) else if r = R_sp then regs s R_sp
       else if r = R_ra then regs s R_ra else regs ?u r)" "next_pc t = Some FromTrap"
    using b by (auto simp: assms(4) kernelvec_parts run_append assms(2) [symmetric] run_restores va_of_def k sp x fun_eq_iff)
  have s: "regs ?u r = regs s r" if "r \<notin> set trap_regs" for r
    using that assms(3) c(1) by (auto simp: keeps_convention_def trap_regs_def)
  show ?thesis
    using b s l trap_regs_back c(1) by (auto simp: t)
qed

theorem kernelvec_transparent_witness:
  "\<forall>r. regs (run env_id kernelvec switch0) r = regs switch0 r"
  using kernelvec_transparent [of env_id switch0 "regs switch0 R_sp - 256", OF maps_at_id refl _ refl]
  by (simp add: keeps_convention_def env_id_def) (simp add: kernelvec_save_def run_saves)

section \<open>The first instructions\<close>

lemma run_entry: "run E entry_code s = cfun E ''start'' (s\<lparr>regs := (regs s)(R_sp := symbol E ''stack0'' + 4096 * (acsrs s A_mhartid + 1),
    R_a0 := 4096 * (acsrs s A_mhartid + 1), R_a1 := acsrs s A_mhartid + 1)\<rparr>)"
  by (simp add: entry_code_def fun_upd_twist)

end
