(* ===== verification/Ulib.thy ===== *)
theory Ulib
  imports CString Kprintf
begin

text \<open>
  The user library: user/ulib.c and user/printf.c.  A user program is a run of the same monad as
  the kernel's functions, on a state that records its system calls and the answers it got.
  The kernel is a parameter of that state: \<open>answer\<close> gives the answer to a call from
  the calls made before.  exit() and a successful exec() end the run (\<open>Swtch\<close>, the process never
  gets the CPU again in this program); a loop that does not end is \<open>Hang\<close>.

  A pointer to a string is the list of bytes before its nul, except in the functions that write
  memory, which are over byte memory like those of kernel/string.c.
\<close>

section \<open>System calls\<close>

datatype ucall =
    UFork | UExit int | UWait | UPipe
  | URead int nat | UWrite int "byte list" | UClose int | UKill int
  | UExec "byte list" "byte list list" | UOpen "byte list" int | UMknod "byte list" int int
  | UUnlink "byte list" | UFstat int | ULink "byte list" "byte list" | UMkdir "byte list" | UChdir "byte list"
  | UDup int | UGetpid | USbrk int | USleep int | UUptime

text \<open>The result of a call: what it returns, and the bytes it stores in the caller's buffer.\<close>

record ures =
  rv :: int
  dat :: "byte list"

record uproc =
  calls :: "(ucall \<times> ures) list"
  answer :: "(ucall \<times> ures) list \<Rightarrow> ucall \<Rightarrow> ures"

definition sys :: "ucall \<Rightarrow> ('a uproc_scheme, ures) kproc" where
  "sys c = (\<lambda>s. let r = answer s (calls s) c in Ret r (s\<lparr>calls := calls s @ [(c, r)]\<rparr>))"

definition sysret :: "ucall \<Rightarrow> ('a uproc_scheme, int) kproc" where
  "sysret c = bind (sys c) (\<lambda>r. return (rv r))"

definition uexit :: "int \<Rightarrow> ('a uproc_scheme, 'b) kproc" where
  "uexit n = bind (sys (UExit n)) (\<lambda>_. (\<lambda>s. Swtch s))"

text \<open>read(): the count it returns and the bytes it stored.\<close>

definition uread :: "int \<Rightarrow> nat \<Rightarrow> ('a uproc_scheme, int \<times> byte list) kproc" where
  "uread fd n = bind (sys (URead fd n)) (\<lambda>r. return (rv r, take (nat (rv r)) (dat r)))"

definition uwrite :: "int \<Rightarrow> byte list \<Rightarrow> ('a uproc_scheme, int) kproc" where
  "uwrite fd bs = sysret (UWrite fd bs)"

text \<open>exec() returns only when it fails.\<close>

definition uexec :: "byte list \<Rightarrow> byte list list \<Rightarrow> ('a uproc_scheme, int) kproc" where
  "uexec path argv = bind (sys (UExec path argv)) (\<lambda>r. if rv r < 0 then return (rv r) else (\<lambda>s. Swtch s))"

text \<open>pipe(): the status and the two descriptors it stores.\<close>

definition le_int :: "byte list \<Rightarrow> int" where
  "le_int bs = sint (le_dec (take 4 bs) :: uint)"

definition upipe :: "('a uproc_scheme, int \<times> int \<times> int) kproc" where
  "upipe = bind (sys UPipe) (\<lambda>r. return (rv r, le_int (dat r), le_int (drop 4 (dat r))))"

section \<open>ulib.c\<close>

text \<open>start(): main(), and exit(0) when it returns.\<close>

definition ustart :: "('a uproc_scheme, 'b) kproc \<Rightarrow> ('a uproc_scheme, unit) kproc" where
  "ustart main = bind main (\<lambda>_. uexit 0)"

partial_function (option) ustrcpy :: "mem \<Rightarrow> addr \<Rightarrow> addr \<Rightarrow> mem option" where
  "ustrcpy m s t =
     (let m' = m(s := m t) in if m t \<noteq> 0 then ustrcpy m' (s + 1) (t + 1) else Some m')"

fun ustrcmp :: "byte list \<Rightarrow> byte list \<Rightarrow> int" where
  "ustrcmp [] [] = 0"
| "ustrcmp [] (q # qs) = - uint q"
| "ustrcmp (p # ps) [] = uint p"
| "ustrcmp (p # ps) (q # qs) = (if p \<noteq> 0 \<and> p = q then ustrcmp ps qs else uint p - uint q)"

definition ustrlen :: "mem \<Rightarrow> addr \<Rightarrow> nat option" where
  "ustrlen m s = strlen_loop m s 0"

definition umemset :: "mem \<Rightarrow> addr \<Rightarrow> uint \<Rightarrow> uint \<Rightarrow> mem" where
  "umemset m dst c n = memset_loop m dst (ucast c) 0 (unat n)"

text \<open>strchr(): the rest of the string from the byte it finds, or null.\<close>

fun ustrchr :: "byte list \<Rightarrow> byte \<Rightarrow> byte list option" where
  "ustrchr [] c = None"
| "ustrchr (x # s) c = (if x = c then Some (x # s) else ustrchr s c)"

text \<open>gets(): the bytes it stores in \<open>buf\<close> before the nul.\<close>

fun ugets_loop :: "nat \<Rightarrow> byte list \<Rightarrow> ('a uproc_scheme, byte list) kproc" where
  "ugets_loop 0 buf = return buf"
| "ugets_loop (Suc room) buf =
     bind (uread 0 1) (\<lambda>(cc, d).
     if cc < 1 then return buf
     else let c = hd (d @ [0]) in
       if c = 10 \<or> c = 13 then return (buf @ [c]) else ugets_loop room (buf @ [c]))"

definition ugets :: "int \<Rightarrow> ('a uproc_scheme, byte list) kproc" where
  "ugets mx = ugets_loop (nat (mx - 1)) []"

definition ustat :: "byte list \<Rightarrow> ('a uproc_scheme, int \<times> byte list) kproc" where
  "ustat n =
     bind (sysret (UOpen n 0)) (\<lambda>fd.
     if fd < 0 then return (-1, []) else
     bind (sys (UFstat fd)) (\<lambda>r.
     bind (sysret (UClose fd)) (\<lambda>_.
     return (rv r, dat r))))"

text \<open>atoi() computes in a 32-bit int.\<close>

fun uatoi_loop :: "byte list \<Rightarrow> uint \<Rightarrow> uint" where
  "uatoi_loop [] n = n"
| "uatoi_loop (c # s) n = (if 48 \<le> c \<and> c \<le> 57 then uatoi_loop s (n * 10 + ucast c - 48) else n)"

definition uatoi :: "byte list \<Rightarrow> int" where
  "uatoi s = sint (uatoi_loop s 0)"

definition umemmove :: "mem \<Rightarrow> addr \<Rightarrow> addr \<Rightarrow> int \<Rightarrow> mem" where
  "umemmove m dst src n =
     (if src > dst then memmove_fwd m dst src (nat n)
      else memmove_back m (dst + word_of_int n) (src + word_of_int n) (nat n))"

fun umemcmp_loop :: "mem \<Rightarrow> addr \<Rightarrow> addr \<Rightarrow> nat \<Rightarrow> int" where
  "umemcmp_loop m p1 p2 0 = 0"
| "umemcmp_loop m p1 p2 (Suc n) =
     (if m p1 \<noteq> m p2 then uint (m p1) - uint (m p2) else umemcmp_loop m (p1 + 1) (p2 + 1) n)"

definition umemcmp :: "mem \<Rightarrow> addr \<Rightarrow> addr \<Rightarrow> uint \<Rightarrow> int" where
  "umemcmp m s1 s2 n = umemcmp_loop m s1 s2 (unat n)"

definition umemcpy :: "mem \<Rightarrow> addr \<Rightarrow> addr \<Rightarrow> uint \<Rightarrow> mem" where
  "umemcpy m dst src n = umemmove m dst src (sint n)"

section \<open>printf.c\<close>

definition uputc :: "int \<Rightarrow> byte \<Rightarrow> ('a uproc_scheme, unit) kproc" where
  "uputc fd c = bind (uwrite fd [c]) (\<lambda>_. return ())"

definition udigits :: "byte list" where
  "udigits = chars ''0123456789ABCDEF''"

function udigit_bytes :: "nat \<Rightarrow> nat \<Rightarrow> byte list" where
  "udigit_bytes x base =
     udigits ! (x mod base) # (if x div base = 0 \<or> base < 2 then [] else udigit_bytes (x div base) base)"
  by pat_completeness auto
termination
  by (relation "measure fst") (auto simp: div_eq_0_iff intro!: div_less_dividend intro: Suc_lessI)

declare udigit_bytes.simps [simp del]

definition uprint_buf :: "uint \<Rightarrow> nat \<Rightarrow> bool \<Rightarrow> byte list" where
  "uprint_buf xx base sg =
     (let neg = (sg \<and> sint xx < 0); x = (if neg then - xx else xx) in
      udigit_bytes (unat x) base @ (if neg then [45] else []))"

definition uprintint :: "int \<Rightarrow> uint \<Rightarrow> nat \<Rightarrow> bool \<Rightarrow> ('a uproc_scheme, unit) kproc" where
  "uprintint fd xx base sg = forM (rev (uprint_buf xx base sg)) (uputc fd)"

fun uprintptr_loop :: "int \<Rightarrow> nat \<Rightarrow> uint64 \<Rightarrow> ('a uproc_scheme, unit) kproc" where
  "uprintptr_loop fd 0 x = return ()"
| "uprintptr_loop fd (Suc i) x =
     bind (uputc fd (udigits ! unat (drop_bit 60 x))) (\<lambda>_. uprintptr_loop fd i (push_bit 4 x))"

definition uprintptr :: "int \<Rightarrow> uint64 \<Rightarrow> ('a uproc_scheme, unit) kproc" where
  "uprintptr fd x =
     bind (uputc fd 48) (\<lambda>_.
     bind (uputc fd 120) (\<lambda>_.
     uprintptr_loop fd 16 x))"

text \<open>The argument of printint() is an int: every conversion takes the low half of its argument.\<close>

definition va_low :: "va list \<Rightarrow> uint" where
  "va_low ap = ucast (va_long ap)"

definition nth0 :: "byte list \<Rightarrow> nat \<Rightarrow> byte" where
  "nth0 s i = (if i < length s then s ! i else 0)"

text \<open>The loop of vprintf(): the rest of the format, whether a percent sign was read, the arguments.\<close>

function uvprintf_loop :: "int \<Rightarrow> byte list \<Rightarrow> bool \<Rightarrow> va list \<Rightarrow> ('a uproc_scheme, unit) kproc" where
  "uvprintf_loop fd [] st ap = return ()"
| "uvprintf_loop fd (c0 # fmt) False ap =
     (if c0 = 37 then uvprintf_loop fd fmt True ap
      else bind (uputc fd c0) (\<lambda>_. uvprintf_loop fd fmt False ap))"
| "uvprintf_loop fd (c0 # fmt) True ap =
     (let c1 = (if c0 \<noteq> 0 then nth0 fmt 0 else 0); c2 = (if c1 \<noteq> 0 then nth0 fmt 1 else 0) in
      if c0 = 100 then bind (uprintint fd (va_low ap) 10 True) (\<lambda>_. uvprintf_loop fd fmt False (tl ap))
      else if c0 = 108 \<and> c1 = 100 then bind (uprintint fd (va_low ap) 10 True) (\<lambda>_. uvprintf_loop fd (drop 1 fmt) False (tl ap))
      else if c0 = 108 \<and> c1 = 108 \<and> c2 = 100 then bind (uprintint fd (va_low ap) 10 True) (\<lambda>_. uvprintf_loop fd (drop 2 fmt) False (tl ap))
      else if c0 = 117 then bind (uprintint fd (va_low ap) 10 False) (\<lambda>_. uvprintf_loop fd fmt False (tl ap))
      else if c0 = 108 \<and> c1 = 117 then bind (uprintint fd (va_low ap) 10 False) (\<lambda>_. uvprintf_loop fd (drop 1 fmt) False (tl ap))
      else if c0 = 108 \<and> c1 = 108 \<and> c2 = 117 then bind (uprintint fd (va_low ap) 10 False) (\<lambda>_. uvprintf_loop fd (drop 2 fmt) False (tl ap))
      else if c0 = 120 then bind (uprintint fd (va_low ap) 16 False) (\<lambda>_. uvprintf_loop fd fmt False (tl ap))
      else if c0 = 108 \<and> c1 = 120 then bind (uprintint fd (va_low ap) 16 False) (\<lambda>_. uvprintf_loop fd (drop 1 fmt) False (tl ap))
      else if c0 = 108 \<and> c1 = 108 \<and> c2 = 120 then bind (uprintint fd (va_low ap) 16 False) (\<lambda>_. uvprintf_loop fd (drop 2 fmt) False (tl ap))
      else if c0 = 112 then bind (uprintptr fd (va_long ap)) (\<lambda>_. uvprintf_loop fd fmt False (tl ap))
      else if c0 = 115 then bind (forM (va_str ap) (uputc fd)) (\<lambda>_. uvprintf_loop fd fmt False (tl ap))
      else if c0 = 37 then bind (uputc fd 37) (\<lambda>_. uvprintf_loop fd fmt False ap)
      else bind (uputc fd 37) (\<lambda>_. bind (uputc fd c0) (\<lambda>_. uvprintf_loop fd fmt False ap)))"
  by pat_completeness auto
termination
  by (relation "measure (\<lambda>(fd, fmt, st, ap). length fmt)") auto

declare uvprintf_loop.simps [simp del]

definition uvprintf :: "int \<Rightarrow> byte list \<Rightarrow> va list \<Rightarrow> ('a uproc_scheme, unit) kproc" where
  "uvprintf fd fmt ap = uvprintf_loop fd fmt False ap"

definition ufprintf :: "int \<Rightarrow> byte list \<Rightarrow> va list \<Rightarrow> ('a uproc_scheme, unit) kproc" where
  "ufprintf fd fmt ap = uvprintf fd fmt ap"

definition uprintf :: "byte list \<Rightarrow> va list \<Rightarrow> ('a uproc_scheme, unit) kproc" where
  "uprintf fmt ap = uvprintf 1 fmt ap"

end
