(* ===== verification/Ulib_Prop.thy ===== *)
theory Ulib_Prop
  imports Ulib Kprintf_Prop
begin

text \<open>
  What the user library guarantees: printf() writes the expansion of its format, numbers are printed
  so that atoi() reads them back, memmove() and strcpy() copy, gets() stays in its buffer.
\<close>

section \<open>Runs of calls\<close>

text \<open>The state after a list of calls.\<close>

definition call :: "ucall \<Rightarrow> 'a uproc_scheme \<Rightarrow> 'a uproc_scheme" where
  "call c s = s\<lparr>calls := calls s @ [(c, answer s (calls s) c)]\<rparr>"

definition after :: "ucall list \<Rightarrow> 'a uproc_scheme \<Rightarrow> 'a uproc_scheme" where
  "after cs s = fold call cs s"

lemma after_simps [simp]: "after [] s = s" "after (c # cs) s = after cs (call c s)" "after (cs @ ds) s = after ds (after cs s)"
  by (simp_all add: after_def)

lemma answer_call [simp]: "answer (call c s) = answer s"
  by (simp add: call_def)

lemma answer_after [simp]: "answer (after cs s) = answer s"
  by (induction cs arbitrary: s) simp_all

lemma calls_after: "\<exists>rs. length rs = length cs \<and> calls (after cs s) = calls s @ zip cs rs"
proof (induction cs arbitrary: s)
  case (Cons c cs)
  obtain rs where "length rs = length cs" "calls (after cs (call c s)) = calls (call c s) @ zip cs rs" using Cons by blast
  then show ?case by (intro exI [of _ "answer s (calls s) c # rs"]) (simp add: call_def)
qed simp

lemma sys_eq: "sys c s = Ret (answer s (calls s) c) (call c s)"
  by (simp add: sys_def call_def Let_def)

lemma sysret_eq: "sysret c s = Ret (rv (answer s (calls s) c)) (call c s)"
  by (simp add: sysret_def bind_Ret sys_eq return_apply)

lemma bind_sys [krun]: "bind (sys c) f s = f (answer s (calls s) c) (call c s)"
  by (simp add: bind_Ret sys_eq)

lemma bind_sysret [krun]: "bind (sysret c) f s = f (rv (answer s (calls s) c)) (call c s)"
  by (simp add: bind_Ret sysret_eq)

lemma uexit_eq: "uexit n s = Swtch (call (UExit n) s)"
  by (simp add: uexit_def krun)

lemma bind_uexit [krun]: "bind (uexit n) f s = Swtch (call (UExit n) s)"
  by (simp add: bind_apply uexit_eq)

lemma uwrite_eq: "uwrite fd bs s = Ret (rv (answer s (calls s) (UWrite fd bs))) (call (UWrite fd bs) s)"
  by (simp add: uwrite_def sysret_eq)

text \<open>Bytes written one at a time, and what a program has written to a descriptor.\<close>

abbreviation puts :: "int \<Rightarrow> byte list \<Rightarrow> ucall list" where
  "puts fd bs \<equiv> map (\<lambda>c. UWrite fd [c]) bs"

definition written :: "int \<Rightarrow> 'a uproc_scheme \<Rightarrow> byte list" where
  "written fd s = concat (map (\<lambda>(c, r). case c of UWrite f bs \<Rightarrow> if f = fd then bs else [] | _ \<Rightarrow> []) (calls s))"

lemma written_call: "written fd (call c s) = written fd s @ (case c of UWrite f bs \<Rightarrow> if f = fd then bs else [] | _ \<Rightarrow> [])"
  by (simp add: written_def call_def)

lemma written_puts: "written fd (after (puts f bs) s) = written fd s @ (if f = fd then bs else [])"
  by (induction bs arbitrary: s) (auto simp: written_call)

lemma uputc_eq: "uputc fd c s = Ret () (call (UWrite fd [c]) s)"
  by (simp add: uputc_def bind_Ret uwrite_eq return_apply)

lemma bind_uputc [krun]: "bind (uputc fd c) f s = f () (call (UWrite fd [c]) s)"
  by (simp add: bind_Ret uputc_eq)

lemma forM_uputc: "forM bs (uputc fd) s = Ret () (after (puts fd bs) s)"
  by (induction bs arbitrary: s) (simp_all add: krun return_apply)

section \<open>printf()\<close>

lemma uprintint_eq: "uprintint fd x base sg s = Ret () (after (puts fd (rev (uprint_buf x base sg))) s)"
  by (simp add: uprintint_def forM_uputc)

fun uptr_digits :: "nat \<Rightarrow> uint64 \<Rightarrow> byte list" where
  "uptr_digits 0 x = []"
| "uptr_digits (Suc i) x = udigits ! unat (drop_bit 60 x) # uptr_digits i (push_bit 4 x)"

lemma uprintptr_loop_eq: "uprintptr_loop fd i x s = Ret () (after (puts fd (uptr_digits i x)) s)"
  by (induction i arbitrary: x s) (simp_all add: krun return_apply)

lemma uprintptr_eq: "uprintptr fd x s = Ret () (after (puts fd ([48, 120] @ uptr_digits 16 x)) s)"
  by (simp add: uprintptr_def krun uprintptr_loop_eq del: uptr_digits.simps)

fun uconv_bytes :: "fconv \<Rightarrow> va list \<Rightarrow> byte list" where
  "uconv_bytes F_p ap = [48, 120] @ uptr_digits 16 (va_long ap)"
| "uconv_bytes F_s ap = va_str ap"
| "uconv_bytes f ap =
    rev (uprint_buf (va_low ap) (if f \<in> {F_x, F_lx, F_llx} then 16 else 10) (f \<in> {F_d, F_ld, F_lld}))"

fun uexpand :: "fitem list \<Rightarrow> va list \<Rightarrow> byte list" where
  "uexpand [] ap = []"
| "uexpand (Lit c # fs) ap = c # uexpand fs ap"
| "uexpand (Conv f # fs) ap = uconv_bytes f ap @ uexpand fs (tl ap)"
| "uexpand (Percent # fs) ap = 37 # uexpand fs ap"
| "uexpand (Unknown c # fs) ap = [37, c] @ uexpand fs ap"

lemma uvprintf_items:
  assumes "list_all item_ok items"
  shows "uvprintf_loop fd (concat (map spell items)) False ap s = Ret () (after (puts fd (uexpand items ap)) s)"
  using assms
proof (induction items ap arbitrary: s rule: uexpand.induct)
  case (1 ap)
  then show ?case by (simp add: uvprintf_loop.simps return_apply)
next
  case (2 c fs ap)
  then show ?case by (simp add: uvprintf_loop.simps(2) krun)
next
  case (3 f fs ap)
  then show ?case
    by (cases f)
      (simp_all add: uvprintf_loop.simps(2,3) nth0_def bind_Ret uprintint_eq uprintptr_eq forM_uputc del: uptr_digits.simps)
next
  case (4 fs ap)
  then show ?case by (simp add: uvprintf_loop.simps(2,3) krun)
next
  case (5 c fs ap)
  then show ?case by (simp add: uvprintf_loop.simps(2,3) krun)
qed

lemma ufprintf_items:
  assumes "fmt = concat (map spell items)" and "list_all item_ok items"
  shows "ufprintf fd fmt ap s = Ret () (after (puts fd (uexpand items ap)) s)"
  using assms by (simp add: ufprintf_def uvprintf_def uvprintf_items)

lemma uprintf_items:
  assumes "fmt = concat (map spell items)" and "list_all item_ok items"
  shows "uprintf fmt ap s = Ret () (after (puts 1 (uexpand items ap)) s)"
  using assms by (simp add: uprintf_def uvprintf_def uvprintf_items)

text \<open>A format without percent signs.\<close>

lemma lits: "concat (map (\<lambda>c. spell (Lit c)) bs) = bs" "uexpand (map Lit bs) ap = bs" "list_all item_ok (map Lit bs) = (37 \<notin> set bs)"
  by (induction bs) auto

lemma ufprintf_plain: "37 \<notin> set fmt \<Longrightarrow> ufprintf fd fmt ap s = Ret () (after (puts fd fmt) s)"
  using ufprintf_items [of fmt "map Lit fmt"] by (simp add: lits comp_def)

section \<open>Numbers\<close>

lemma length_udigits: "length udigits = 16"
  by (simp add: udigits_def chars_def)

definition dec_val :: "byte list \<Rightarrow> nat" where
  "dec_val cs = foldl (\<lambda>n c. n * 10 + unat (c - 48)) 0 cs"

lemma udigit_dec: "i < 10 \<Longrightarrow> udigits ! i = 48 + of_nat i"
proof -
  assume "i < 10"
  moreover have "take 10 udigits = map (\<lambda>i. 48 + of_nat i) [0..<10]" by code_simp
  then have "take 10 udigits ! i = map (\<lambda>i. 48 + of_nat i) [0..<10] ! i" by simp
  ultimately show ?thesis by simp
qed

definition isdigit :: "byte \<Rightarrow> bool" where
  "isdigit c \<longleftrightarrow> 48 \<le> c \<and> c \<le> 57"

lemma udigit_isdigit: "i < 10 \<Longrightarrow> isdigit (udigits ! i) \<and> unat (udigits ! i - 48) = i"
proof -
  assume i: "i < 10"
  then have "unat (of_nat i :: byte) = i" by (simp add: unat_of_nat)
  moreover have "unat (48 + of_nat i :: byte) = 48 + i" using i by (simp add: unat_word_ariths unat_of_nat)
  ultimately show ?thesis using i by (simp add: udigit_dec isdigit_def word_le_nat_alt)
qed

lemma udigit_bytes_dec: "list_all isdigit (udigit_bytes x 10) \<and> dec_val (rev (udigit_bytes x 10)) = x"
proof (induction x rule: less_induct)
  case (less x)
  have d: "isdigit (udigits ! (x mod 10)) \<and> unat (udigits ! (x mod 10) - 48) = x mod 10" by (rule udigit_isdigit) simp
  show ?case
  proof (cases "x div 10 = 0")
    case True
    then have "x mod 10 = x" by simp
    then show ?thesis using True d by (simp add: udigit_bytes.simps [of x] dec_val_def)
  next
    case False
    then have "x div 10 < x" by simp
    from less [OF this] d False show ?thesis by (simp add: udigit_bytes.simps [of x] dec_val_def)
  qed
qed

lemma uatoi_loop_dec:
  "list_all isdigit cs \<Longrightarrow> (case rest of [] \<Rightarrow> True | c # _ \<Rightarrow> \<not> isdigit c) \<Longrightarrow>
   uatoi_loop (cs @ rest) (of_nat n) = of_nat (foldl (\<lambda>n c. n * 10 + unat (c - 48)) n cs)"
proof (induction cs arbitrary: n)
  case Nil
  then show ?case by (cases rest) (auto simp: isdigit_def)
next
  case (Cons c cs)
  have "48 \<le> c" using Cons.prems by (simp add: isdigit_def)
  then have "unat (c - 48) = unat c - 48" and "48 \<le> unat c" by (simp_all add: unat_sub word_le_nat_alt)
  then have e: "(of_nat n * 10 + ucast c - 48 :: uint) = of_nat (n * 10 + unat (c - 48))"
    by (simp add: of_nat_diff)
  have "uatoi_loop ((c # cs) @ rest) (of_nat n) = uatoi_loop (cs @ rest) (of_nat n * 10 + ucast c - 48)"
    using Cons.prems by (simp add: isdigit_def)
  also have "\<dots> = of_nat (foldl (\<lambda>n c. n * 10 + unat (c - 48)) (n * 10 + unat (c - 48)) cs)"
    unfolding e using Cons.prems by (intro Cons.IH) simp_all
  finally show ?case by simp
qed

text \<open>
  C39. atoi() reads back what printf() prints for a non-negative int, and stops at the first byte
  that is no digit.
\<close>

theorem uatoi_printint:
  assumes "0 \<le> sint x" and "case rest of [] \<Rightarrow> True | c # _ \<Rightarrow> \<not> isdigit c"
  shows "uatoi (rev (uprint_buf x 10 True) @ rest) = sint x"
proof -
  have b: "uprint_buf x 10 True = udigit_bytes (unat x) 10" using assms(1) by (simp add: uprint_buf_def Let_def)
  have "uatoi_loop (rev (udigit_bytes (unat x) 10) @ rest) (of_nat 0) = of_nat (unat x)"
    using udigit_bytes_dec [of "unat x"] assms(2)
    by (subst uatoi_loop_dec) (simp_all add: dec_val_def list_all_rev)
  then show ?thesis by (simp add: uatoi_def b)
qed

theorem uatoi_printint_witness: "uatoi (rev (uprint_buf 2147483647 10 True) @ [32]) = 2147483647"
  using uatoi_printint [of 2147483647 "[32]"] by (simp add: isdigit_def)

section \<open>Memory\<close>

lemma umemmove_eq:
  assumes "unat src + nat n < 2 ^ 64" and "unat dst + nat n < 2 ^ 64"
  shows "umemmove m dst src n = wr_bytes m dst (rd_bytes m src (nat n))"
proof (cases "0 \<le> n")
  case True
  have src: "unat (src + of_nat i) = unat src + i" if "i \<le> nat n" for i
    using that assms(1) by (simp add: unat_word_ariths unat_of_nat)
  have dst: "unat (dst + of_nat i) = unat dst + i" if "i \<le> nat n" for i
    using that assms(2) by (simp add: unat_word_ariths unat_of_nat)
  have n: "nat n \<le> 2 ^ 64" using assms(1) by linarith
  show ?thesis
  proof (cases "src > dst")
    case True
    have "src + of_nat i \<noteq> dst + of_nat j" if "i < nat n" "j < i" for i j
      using that True src [of i] dst [of j] by (auto simp: word_less_nat_alt word_unat_eq_iff)
    from memmove_fwd_eq [OF this n] True show ?thesis by (simp add: umemmove_def)
  next
    case False
    have "src + of_nat i \<noteq> dst + of_nat j" if "j < nat n" "i < j" for i j
      using that False src [of i] dst [of j] by (auto simp: word_less_nat_alt word_unat_eq_iff)
    from memmove_back_eq [OF this n] False \<open>0 \<le> n\<close> show ?thesis by (simp add: umemmove_def)
  qed
next
  case False
  then show ?thesis by (simp add: umemmove_def)
qed

text \<open>
  C38. The memmove() of the user library, which chooses its direction by comparing the pointers only, and the
  kernel's, which goes backwards only when the ranges overlap, have the same effect on memory.
\<close>

theorem umemmove_memmove:
  assumes "0 \<le> n" and "n < 2 ^ 31" and "unat src + nat n < 2 ^ 64" and "unat dst + nat n < 2 ^ 64"
  shows "umemmove m dst src n = memmove m dst src (word_of_int n)"
proof -
  have "unat (word_of_int n :: uint) = nat n"
    using assms(1,2) by (simp add: unat_eq_nat_uint uint_word_of_int_eq take_bit_int_eq_self)
  then show ?thesis using assms by (simp add: umemmove_eq memmove_eq)
qed

theorem umemmove_memmove_witness:
  "umemmove (\<lambda>a. ucast a) 0x2001 0x2000 16 = memmove (\<lambda>a. ucast a) 0x2001 0x2000 16"
  using umemmove_memmove [of 16 "0x2000" "0x2001" "\<lambda>a. ucast a"] by simp

lemma ustrcpy_fwd:
  assumes "\<And>i. i < n \<Longrightarrow> m (t + of_nat i) \<noteq> 0" and "m (t + of_nat n) = 0"
    and "\<And>i j. i \<le> n \<Longrightarrow> j < i \<Longrightarrow> t + of_nat i \<noteq> s + of_nat j"
  shows "ustrcpy m s t = Some (memmove_fwd m s t (Suc n))"
  using assms
proof (induction n arbitrary: m s t)
  case 0
  then show ?case by (simp add: ustrcpy.simps [of m] fun_upd_def)
next
  case (Suc n)
  let ?m = "m(s := m t)"
  have e: "?m (t + 1 + of_nat i) = m (t + of_nat (Suc i))" if "i \<le> n" for i
    using Suc.prems(3) [of "Suc i" 0] that by (simp add: algebra_simps)
  have "ustrcpy ?m (s + 1) (t + 1) = Some (memmove_fwd ?m (s + 1) (t + 1) (Suc n))"
  proof (rule Suc.IH)
    show "?m (t + 1 + of_nat i) \<noteq> 0" if "i < n" for i using e [of i] Suc.prems(1) [of "Suc i"] that by simp
    show "?m (t + 1 + of_nat n) = 0" using e [of n] Suc.prems(2) by simp
    show "t + 1 + of_nat i \<noteq> s + 1 + of_nat j" if "i \<le> n" "j < i" for i j
      using Suc.prems(3) [of "Suc i" "Suc j"] that by (simp add: algebra_simps)
  qed
  then show ?case using Suc.prems(1) [of 0] by (simp add: ustrcpy.simps [of m] Let_def)
qed

lemma ustrcpy_copies:
  assumes "strlen m t = Some n" and "n < 2 ^ 64 - 1" and "\<And>i j. i \<le> n \<Longrightarrow> j < i \<Longrightarrow> t + of_nat i \<noteq> s + of_nat j"
  shows "ustrcpy m s t = Some (wr_bytes m s (rd_bytes m t (Suc n)))"
proof -
  have "ustrcpy m s t = Some (memmove_fwd m s t (Suc n))"
    using assms(1,3) by (intro ustrcpy_fwd) (auto simp: strlen_iff)
  also have "memmove_fwd m s t (Suc n) = wr_bytes m s (rd_bytes m t (Suc n))"
    using assms(2,3) by (intro memmove_fwd_eq) simp_all
  finally show ?thesis .
qed

section \<open>Input\<close>

text \<open>
  The bytes a program has read from a descriptor, and a kernel that serves the bytes of a file: read() returns some bytes
  from the current offset on, at most as many as asked for, and none only at the end of the file.
\<close>

definition consumed :: "int \<Rightarrow> (ucall \<times> ures) list \<Rightarrow> nat" where
  "consumed fd l = sum_list (map (\<lambda>(c, r). case c of URead f n \<Rightarrow> if f = fd then length (dat r) else 0 | _ \<Rightarrow> 0) l)"

definition rest_of :: "int \<Rightarrow> byte list \<Rightarrow> 'a uproc_scheme \<Rightarrow> byte list" where
  "rest_of fd inp s = drop (consumed fd (calls s)) inp"

definition read_ok :: "nat \<Rightarrow> byte list \<Rightarrow> ures \<Rightarrow> bool" where
  "read_ok n rest r \<longleftrightarrow> rv r = int (length (dat r)) \<and> length (dat r) \<le> n \<and> dat r = take (length (dat r)) rest \<and>
     (0 < n \<and> rest \<noteq> [] \<longrightarrow> dat r \<noteq> [])"

definition serves :: "int \<Rightarrow> byte list \<Rightarrow> 'a uproc_scheme \<Rightarrow> bool" where
  "serves fd inp s \<longleftrightarrow> (\<forall>l n. read_ok n (drop (consumed fd l) inp) (answer s l (URead fd n)))"

lemma serves_call [simp]: "serves fd inp (call c s) = serves fd inp s"
  by (simp add: serves_def)

lemma serves_after [simp]: "serves fd inp (after cs s) = serves fd inp s"
  by (simp add: serves_def)

lemma rest_call:
  "rest_of fd inp (call c s) =
     (case c of URead f n \<Rightarrow> if f = fd then drop (length (dat (answer s (calls s) c))) (rest_of fd inp s) else rest_of fd inp s
      | _ \<Rightarrow> rest_of fd inp s)"
  by (auto simp: rest_of_def consumed_def call_def add.commute split: ucall.splits)

lemma rest_puts [simp]: "rest_of fd inp (after (puts f bs) s) = rest_of fd inp s"
  by (induction bs arbitrary: s) (simp_all add: rest_call)

lemma uread_eq: "uread fd n s = (let r = answer s (calls s) (URead fd n) in Ret (rv r, take (nat (rv r)) (dat r)) (call (URead fd n) s))"
  by (simp add: uread_def krun return_apply Let_def)

lemma uread_serves:
  assumes "serves fd inp s"
  obtains d where "uread fd n s = Ret (int (length d), d) (call (URead fd n) s)" and "length d \<le> n"
    and "rest_of fd inp s = d @ rest_of fd inp (call (URead fd n) s)" and "0 < n \<Longrightarrow> rest_of fd inp s \<noteq> [] \<Longrightarrow> d \<noteq> []"
proof -
  let ?r = "answer s (calls s) (URead fd n)"
  have ok: "read_ok n (rest_of fd inp s) ?r" using assms by (simp add: serves_def rest_of_def)
  have "rest_of fd inp (call (URead fd n) s) = drop (length (dat ?r)) (rest_of fd inp s)" by (simp add: rest_call)
  then have "rest_of fd inp s = dat ?r @ rest_of fd inp (call (URead fd n) s)"
    using ok unfolding read_ok_def by (metis append_take_drop_id)
  moreover have "uread fd n s = Ret (int (length (dat ?r)), dat ?r) (call (URead fd n) s)"
    using ok by (simp add: read_ok_def uread_eq Let_def)
  moreover have "length (dat ?r) \<le> n" and "0 < n \<Longrightarrow> rest_of fd inp s \<noteq> [] \<Longrightarrow> dat ?r \<noteq> []"
    using ok unfolding read_ok_def by blast+
  ultimately show thesis by (metis that)
qed

fun line_of :: "nat \<Rightarrow> byte list \<Rightarrow> byte list" where
  "line_of 0 inp = []"
| "line_of (Suc room) [] = []"
| "line_of (Suc room) (c # inp) = c # (if c = 10 \<or> c = 13 then [] else line_of room inp)"

lemma length_line_of: "length (line_of room inp) \<le> room"
  by (induction room inp rule: line_of.induct) auto

lemma ugets_loop_line:
  assumes "serves 0 inp s"
  shows "\<exists>t. ugets_loop room buf s = Ret (buf @ line_of room (rest_of 0 inp s)) t \<and> serves 0 inp t \<and>
    line_of room (rest_of 0 inp s) @ rest_of 0 inp t = rest_of 0 inp s"
  using assms
proof (induction room arbitrary: s buf)
  case 0
  then show ?case by (simp add: return_apply)
next
  case (Suc room)
  let ?s = "call (URead 0 (Suc 0)) s"
  obtain d where d: "uread 0 (Suc 0) s = Ret (int (length d), d) ?s" "length d \<le> Suc 0"
    "rest_of 0 inp s = d @ rest_of 0 inp ?s" "rest_of 0 inp s \<noteq> [] \<Longrightarrow> d \<noteq> []"
    using uread_serves [OF Suc.prems, of "Suc 0"] by (metis zero_less_Suc)
  have serves: "serves 0 inp ?s" using Suc.prems by simp
  show ?case
  proof (cases d)
    case Nil
    then have "rest_of 0 inp s = []" using d(4) by blast
    moreover from this have "rest_of 0 inp ?s = []" using d(3) by simp
    moreover have "ugets_loop (Suc room) buf s = Ret buf ?s" using d(1) Nil by (simp add: bind_Ret return_apply)
    ultimately show ?thesis using serves by simp
  next
    case (Cons c ds)
    then have c: "d = [c]" using d(2) by simp
    then have l: "line_of (Suc room) (rest_of 0 inp s) = c # (if c = 10 \<or> c = 13 then [] else line_of room (rest_of 0 inp ?s))"
      using d(3) by simp
    show ?thesis
    proof (cases "c = 10 \<or> c = 13")
      case True
      then have "ugets_loop (Suc room) buf s = Ret (buf @ [c]) ?s" using d(1) c by (simp add: bind_Ret return_apply)
      then show ?thesis unfolding l using True serves d(3) c by simp
    next
      case False
      then have "ugets_loop (Suc room) buf s = ugets_loop room (buf @ [c]) ?s" using d(1) c by (simp add: bind_Ret)
      then show ?thesis unfolding l using False d(3) c Suc.IH [OF serves, of "buf @ [c]"] by simp
    qed
  qed
qed

text \<open>
  C40. gets(buf, max) returns the next input line, with its newline, cut after max - 1 bytes: with its
  nul it never writes past buf[max - 1], and the bytes it returns are exactly those it has consumed.
\<close>

theorem ugets_line:
  assumes "serves 0 inp s" and "1 \<le> mx"
  shows "\<exists>l t. ugets mx s = Ret l t \<and> l = line_of (nat (mx - 1)) (rest_of 0 inp s) \<and>
    int (length l) + 1 \<le> mx \<and> l @ rest_of 0 inp t = rest_of 0 inp s \<and> serves 0 inp t"
  using ugets_loop_line [OF assms(1), of "nat (mx - 1)" "[]"] length_line_of [of "nat (mx - 1)" "rest_of 0 inp s"] assms(2)
  by (auto simp: ugets_def)

text \<open>A kernel that serves given bytes on every descriptor, as many as asked for.\<close>

definition uproc_in :: "byte list \<Rightarrow> uproc" where
  "uproc_in inp = \<lparr>calls = [], answer = (\<lambda>l c. case c of
     URead fd n \<Rightarrow> (let d = take n (drop (consumed fd l) inp) in \<lparr>rv = int (length d), dat = d\<rparr>)
   | UWrite fd bs \<Rightarrow> \<lparr>rv = int (length bs), dat = []\<rparr> | _ \<Rightarrow> \<lparr>rv = 0, dat = []\<rparr>)\<rparr>"

lemma uproc_in_serves: "serves fd inp (uproc_in inp)"
  by (auto simp: serves_def uproc_in_def read_ok_def Let_def min_def)

lemma uproc_in_simps [simp]: "calls (uproc_in inp) = []" "rest_of fd inp (uproc_in inp) = inp" "written fd (uproc_in inp) = []"
  by (simp_all add: uproc_in_def rest_of_def consumed_def written_def)

theorem ugets_line_witness:
  "\<exists>t. ugets 100 (uproc_in (chars ''ls'' @ [10] @ chars ''cd'')) = Ret (chars ''ls'' @ [10]) t"
proof -
  let ?inp = "chars ''ls'' @ [10] @ chars ''cd''"
  have "line_of 99 ?inp = chars ''ls'' @ [10]" by code_simp
  then show ?thesis using ugets_line [of ?inp "uproc_in ?inp" 100, OF uproc_in_serves] by auto
qed

end
