(* ===== verification/Grep.thy ===== *)
theory Grep
  imports Ulib_Prop
begin

text \<open>
  user/grep.c.  Patterns and lines are strings; the matcher is proved equal to the usual meaning
  of its patterns, and grep() to print exactly the matching lines of its input, however the input
  arrives.
\<close>

section \<open>The matcher\<close>

function matchhere :: "byte list \<Rightarrow> byte list \<Rightarrow> bool"
  and matchstar :: "byte \<Rightarrow> byte list \<Rightarrow> byte list \<Rightarrow> bool" where
  "matchhere re text =
     (if nth0 re 0 = 0 then True
      else if nth0 re 1 = 42 then matchstar (nth0 re 0) (drop 2 re) text
      else if nth0 re 0 = 36 \<and> nth0 re 1 = 0 then nth0 text 0 = 0
      else if nth0 text 0 \<noteq> 0 \<and> (nth0 re 0 = 46 \<or> nth0 re 0 = nth0 text 0) then matchhere (drop 1 re) (drop 1 text)
      else False)"
| "matchstar c re text =
     (if matchhere re text then True
      else if nth0 text 0 \<noteq> 0 \<and> (nth0 text 0 = c \<or> c = 46) then matchstar c re (drop 1 text)
      else False)"
  by pat_completeness auto
termination
  by (relation "measures [\<lambda>x. case x of Inl (re, text) \<Rightarrow> length re | Inr (c, re, text) \<Rightarrow> length re,
        \<lambda>x. case x of Inl (re, text) \<Rightarrow> length text | Inr (c, re, text) \<Rightarrow> length text,
        \<lambda>x. case x of Inl _ \<Rightarrow> 0 | Inr _ \<Rightarrow> 1]")
    (auto simp: nth0_def split: if_splits)

declare matchhere.simps [simp del] matchstar.simps [simp del]

text \<open>The loop of match() looks at every suffix of the text, the empty one included.\<close>

fun match_loop :: "byte list \<Rightarrow> byte list \<Rightarrow> bool" where
  "match_loop re [] = matchhere re []"
| "match_loop re (c # text) = (matchhere re (c # text) \<or> c \<noteq> 0 \<and> match_loop re text)"

definition umatch :: "byte list \<Rightarrow> byte list \<Rightarrow> bool" where
  "umatch re text = (if nth0 re 0 = 94 then matchhere (drop 1 re) text else match_loop re text)"

section \<open>grep()\<close>

lemma ustrchr_nonempty: "ustrchr (takeWhile P p) c = Some q \<Longrightarrow> p \<noteq> []"
  by auto

text \<open>The lines of the buffer: print those that match, leave what follows the last newline.\<close>

function grep_lines :: "byte list \<Rightarrow> byte list \<Rightarrow> ('a uproc_scheme, byte list) kproc" where
  "grep_lines pattern p =
     (case ustrchr (takeWhile (\<lambda>c. c \<noteq> 0) p) 10 of
       None \<Rightarrow> return p
     | Some q \<Rightarrow>
         let n = length (takeWhile (\<lambda>c. c \<noteq> 0) p) - length q in
         bind (whenM (umatch pattern (take n p)) (bind (uwrite 1 (take n p @ [10])) (\<lambda>_. return ()))) (\<lambda>_.
         grep_lines pattern (drop (Suc n) p)))"
  by pat_completeness auto
termination
  by (relation "measure (\<lambda>(pattern, p). length p)") (auto dest: ustrchr_nonempty)

declare grep_lines.simps [simp del]

fun grep_loop :: "nat \<Rightarrow> byte list \<Rightarrow> int \<Rightarrow> byte list \<Rightarrow> ('a uproc_scheme, unit) kproc" where
  "grep_loop 0 pattern fd buf = hang"
| "grep_loop (Suc fuel) pattern fd buf =
     bind (uread fd (1024 - length buf - 1)) (\<lambda>(n, d).
     if n > 0 then bind (grep_lines pattern (buf @ d)) (grep_loop fuel pattern fd)
     else return ())"

declare grep_loop.simps [simp del]

definition grep :: "nat \<Rightarrow> byte list \<Rightarrow> int \<Rightarrow> ('a uproc_scheme, unit) kproc" where
  "grep fuel pattern fd = grep_loop fuel pattern fd []"

fun grep_files :: "nat \<Rightarrow> byte list \<Rightarrow> byte list list \<Rightarrow> ('a uproc_scheme, unit) kproc" where
  "grep_files fuel pattern [] = return ()"
| "grep_files fuel pattern (a # argv) =
     bind (sysret (UOpen a 0)) (\<lambda>fd.
     if fd < 0 then
       bind (uprintf (chars ''grep: cannot open %s'' @ [10]) [VStr (Some a)]) (\<lambda>_. uexit 1)
     else
       bind (grep fuel pattern fd) (\<lambda>_.
       bind (sysret (UClose fd)) (\<lambda>_.
       grep_files fuel pattern argv)))"

definition grep_main :: "nat \<Rightarrow> byte list list \<Rightarrow> ('a uproc_scheme, unit) kproc" where
  "grep_main fuel argv =
     (case argv of
       _ # pattern # files \<Rightarrow>
         if files = [] then bind (grep fuel pattern 0) (\<lambda>_. uexit 0)
         else bind (grep_files fuel pattern files) (\<lambda>_. uexit 0)
     | _ \<Rightarrow> bind (ufprintf 2 (chars ''usage: grep pattern [file ...]'' @ [10]) []) (\<lambda>_. uexit 1))"

section \<open>The meaning of patterns\<close>

text \<open>
  A pattern is a sequence of atoms, a character or a starred character, where a dot stands
  for any character, possibly anchored at the start or at the end of the line.
\<close>

datatype atom = One byte | Star byte

definition admits :: "byte \<Rightarrow> byte \<Rightarrow> bool" where
  "admits c x \<longleftrightarrow> c = 46 \<or> c = x"

fun lang :: "atom list \<Rightarrow> byte list set" where
  "lang [] = {[]}"
| "lang (One c # as) = {x # w | x w. admits c x \<and> w \<in> lang as}"
| "lang (Star c # as) = {u @ w | u w. (\<forall>x\<in>set u. admits c x) \<and> w \<in> lang as}"

fun atoms :: "byte list \<Rightarrow> atom list \<times> bool" where
  "atoms [] = ([], False)"
| "atoms [c] = (if c = 36 then ([], True) else ([One c], False))"
| "atoms (c # d # re) =
     (if d = 42 then (case atoms re of (as, e) \<Rightarrow> (Star c # as, e))
      else (case atoms (d # re) of (as, e) \<Rightarrow> (One c # as, e)))"

definition found_at :: "byte list \<Rightarrow> byte list \<Rightarrow> bool" where
  "found_at re text \<longleftrightarrow> (\<exists>w v. text = w @ v \<and> w \<in> lang (fst (atoms re)) \<and> (snd (atoms re) \<longrightarrow> v = []))"

definition found :: "byte list \<Rightarrow> byte list \<Rightarrow> bool" where
  "found re text \<longleftrightarrow>
     (case re of
       c # re' \<Rightarrow> if c = 94 then found_at re' text else (\<exists>u v. text = u @ v \<and> found_at re v)
     | [] \<Rightarrow> True)"

lemma nth0_simps [simp]: "nth0 [] i = 0" "nth0 (c # s) 0 = c" "nth0 (c # s) (Suc i) = nth0 s i"
  by (simp_all add: nth0_def)

lemma found_at_Nil: "found_at [] text"
  by (simp add: found_at_def)

lemma found_at_End: "found_at [36] text \<longleftrightarrow> text = []"
  by (auto simp: found_at_def)

lemma atoms_One: "re = [] \<longrightarrow> c \<noteq> 36 \<Longrightarrow> nth0 re 0 \<noteq> 42 \<Longrightarrow> atoms (c # re) = (One c # fst (atoms re), snd (atoms re))"
  by (cases re) (auto simp: case_prod_unfold)

lemma found_at_One:
  assumes "re = [] \<longrightarrow> c \<noteq> 36" and "nth0 re 0 \<noteq> 42"
  shows "found_at (c # re) s \<longleftrightarrow> (\<exists>x t. s = x # t \<and> admits c x \<and> found_at re t)"
  unfolding found_at_def atoms_One [OF assms] fst_conv snd_conv lang.simps
proof (intro iffI; elim exE conjE)
  fix w v
  assume "s = w @ v" "w \<in> {x # w |x w. admits c x \<and> w \<in> lang (fst (atoms re))}" "snd (atoms re) \<longrightarrow> v = []"
  then obtain x w' where "s = x # w' @ v" "admits c x" "w' \<in> lang (fst (atoms re))" by auto
  then show "\<exists>x t. s = x # t \<and> admits c x \<and> (\<exists>w v. t = w @ v \<and> w \<in> lang (fst (atoms re)) \<and> (snd (atoms re) \<longrightarrow> v = []))"
    using \<open>snd (atoms re) \<longrightarrow> v = []\<close> by blast
next
  fix x t w v
  assume "s = x # t" "admits c x" "t = w @ v" "w \<in> lang (fst (atoms re))" "snd (atoms re) \<longrightarrow> v = []"
  then show "\<exists>w v. s = w @ v \<and> w \<in> {x # w |x w. admits c x \<and> w \<in> lang (fst (atoms re))} \<and> (snd (atoms re) \<longrightarrow> v = [])"
    by (intro exI [of _ "x # w"] exI [of _ v]) simp
qed

lemma atoms_Star: "atoms (c # 42 # re) = (Star c # fst (atoms re), snd (atoms re))"
  by (simp add: case_prod_unfold)

lemma found_at_Star:
  "found_at (c # 42 # re) s \<longleftrightarrow> (\<exists>u t. s = u @ t \<and> (\<forall>x\<in>set u. admits c x) \<and> found_at re t)"
  unfolding found_at_def atoms_Star fst_conv snd_conv lang.simps
proof (intro iffI; elim exE conjE)
  fix w v
  assume "s = w @ v" "w \<in> {u @ w |u w. (\<forall>x\<in>set u. admits c x) \<and> w \<in> lang (fst (atoms re))}" "snd (atoms re) \<longrightarrow> v = []"
  then obtain u w' where "s = u @ w' @ v" "\<forall>x\<in>set u. admits c x" "w' \<in> lang (fst (atoms re))" by auto
  then show "\<exists>u t. s = u @ t \<and> (\<forall>x\<in>set u. admits c x) \<and> (\<exists>w v. t = w @ v \<and> w \<in> lang (fst (atoms re)) \<and> (snd (atoms re) \<longrightarrow> v = []))"
    using \<open>snd (atoms re) \<longrightarrow> v = []\<close> by blast
next
  fix u t w v
  assume "s = u @ t" "\<forall>x\<in>set u. admits c x" "t = w @ v" "w \<in> lang (fst (atoms re))" "snd (atoms re) \<longrightarrow> v = []"
  then show "\<exists>w v. s = w @ v \<and> w \<in> {u @ w |u w. (\<forall>x\<in>set u. admits c x) \<and> w \<in> lang (fst (atoms re))} \<and> (snd (atoms re) \<longrightarrow> v = [])"
    by (intro exI [of _ "u @ w"] exI [of _ v]) auto
qed

lemma star_step:
  "(\<exists>u t. text = u @ t \<and> (\<forall>x\<in>set u. admits c x) \<and> P t) \<longleftrightarrow>
   P text \<or> (\<exists>x s. text = x # s \<and> admits c x \<and> (\<exists>u t. s = u @ t \<and> (\<forall>x\<in>set u. admits c x) \<and> P t))"
  (is "?l \<longleftrightarrow> ?r")
proof
  assume ?l
  then obtain u t where "text = u @ t" "\<forall>x\<in>set u. admits c x" "P t" by blast
  then show ?r by (cases u) auto
next
  assume ?r
  then show ?l by (metis append_Cons append_Nil empty_iff list.set(1) set_ConsD)
qed

lemma pattern_cases:
  obtains "re = []" | c re' where "re = c # 42 # re'" | "re = [36]"
    | c re' where "re = c # re'" "nth0 re' 0 \<noteq> 42" "re' = [] \<longrightarrow> c \<noteq> 36"
proof (cases re)
  case (Cons c re')
  then show thesis using that(2) [of c "tl re'"] that(3,4) by (cases re') auto
qed (use that(1) in simp)

lemma match_found_at:
  "0 \<notin> set re \<Longrightarrow> 0 \<notin> set text \<Longrightarrow> matchhere re text \<longleftrightarrow> found_at re text"
  "0 \<notin> set re \<Longrightarrow> 0 \<notin> set text \<Longrightarrow>
     matchstar c re text \<longleftrightarrow> (\<exists>u t. text = u @ t \<and> (\<forall>x\<in>set u. admits c x) \<and> found_at re t)"
proof (induction re "text" and c re "text" rule: matchhere_matchstar.induct)
  case (1 re "text")
  show ?case
  proof (cases rule: pattern_cases [of re])
    case 1
    then show ?thesis by (simp add: matchhere.simps found_at_Nil)
  next
    case (2 c re')
    then show ?thesis using "1.prems" "1.IH"(1) by (simp add: matchhere.simps [of "c # 42 # re'"] found_at_Star)
  next
    case 3
    then show ?thesis using "1.prems" by (cases "text") (auto simp: matchhere.simps found_at_End)
  next
    case (4 c re')
    have nz: "c \<noteq> 0" "re' \<noteq> [] \<longrightarrow> nth0 re' 0 \<noteq> 0" using "1.prems" 4(1) by (cases re'; auto)+
    have e: "matchhere re text \<longleftrightarrow> (\<exists>x t. text = x # t \<and> (c = 46 \<or> c = x) \<and> matchhere re' t)"
      using 4 nz "1.prems" by (subst matchhere.simps) (cases "text"; auto)
    have "matchhere re' t \<longleftrightarrow> found_at re' t" if "text = x # t" "c = 46 \<or> c = x" for x t
      using "1.IH"(2) 4 nz "1.prems" that by (cases re') auto
    then show ?thesis using e unfolding 4(1) found_at_One [OF 4(3,2)] admits_def by blast
  qed
next
  case (2 c re "text")
  have h: "matchhere re text \<longleftrightarrow> found_at re text" using "2.IH"(1) "2.prems" by simp
  have "matchstar c re text \<longleftrightarrow> matchhere re text \<or> (\<exists>x t. text = x # t \<and> admits c x \<and> matchstar c re t)"
    using "2.prems" by (subst matchstar.simps) (cases "text"; auto simp: admits_def)
  also have "\<dots> \<longleftrightarrow> found_at re text \<or> (\<exists>x s. text = x # s \<and> admits c x \<and> (\<exists>u t. s = u @ t \<and> (\<forall>x\<in>set u. admits c x) \<and> found_at re t))"
    using "2.IH"(2) "2.prems" h by (cases "text") (auto simp: admits_def)
  finally show ?case unfolding star_step [of "text"] .
qed

lemma match_loop_found: "0 \<notin> set re \<Longrightarrow> 0 \<notin> set s \<Longrightarrow> match_loop re s \<longleftrightarrow> (\<exists>u v. s = u @ v \<and> found_at re v)"
proof (induction s)
  case (Cons c s)
  have "(\<exists>u v. c # s = u @ v \<and> found_at re v) \<longleftrightarrow> found_at re (c # s) \<or> (\<exists>u v. s = u @ v \<and> found_at re v)"
    by (metis append_Cons append_Nil append_eq_Cons_conv)
  then show ?case using Cons by (simp add: match_found_at)
qed (simp add: match_found_at)

lemma umatch_found: "0 \<notin> set re \<Longrightarrow> 0 \<notin> set s \<Longrightarrow> umatch re s \<longleftrightarrow> found re s"
  by (cases re) (auto simp: umatch_def found_def match_found_at match_loop_found found_at_Nil)

text \<open>
  C33. match() decides the usual meaning of its patterns: a line is matched when some part of it is in the
  language of the pattern's atoms, the part starting the line if the pattern starts with a caret, and ending it
  if the pattern ends with a dollar.
\<close>

theorem match_correct:
  assumes "0 \<notin> set re" and "0 \<notin> set s"
  shows "umatch re s \<longleftrightarrow> found re s"
  using assms by (rule umatch_found)

theorem match_correct_witness: "found (chars ''^x*o.$'') (chars ''xxok'') \<and> \<not> found (chars ''^x*o$'') (chars ''xxok'')"
proof -
  have "umatch (chars ''^x*o.$'') (chars ''xxok'')" and "\<not> umatch (chars ''^x*o$'') (chars ''xxok'')" by code_simp+
  then show ?thesis
    using match_correct [of "chars ''^x*o.$''" "chars ''xxok''"] match_correct [of "chars ''^x*o$''" "chars ''xxok''"]
    by (simp add: chars_def)
qed

section \<open>The lines grep() prints\<close>

text \<open>The complete lines of an input when some bytes of the first are already there, and what follows the last newline.\<close>

fun lines_from :: "byte list \<Rightarrow> byte list \<Rightarrow> byte list list" where
  "lines_from b [] = []"
| "lines_from b (c # s) = (if c = 10 then b # lines_from [] s else lines_from (b @ [c]) s)"

fun tail_from :: "byte list \<Rightarrow> byte list \<Rightarrow> byte list" where
  "tail_from b [] = b"
| "tail_from b (c # s) = (if c = 10 then tail_from [] s else tail_from (b @ [c]) s)"

lemma lines_from_append: "lines_from b (x @ y) = lines_from b x @ lines_from (tail_from b x) y"
  by (induction x arbitrary: b) auto

lemma tail_from_append: "tail_from b (x @ y) = tail_from (tail_from b x) y"
  by (induction x arbitrary: b) auto

lemma lines_from_plain: "10 \<notin> set l \<Longrightarrow> lines_from b l = [] \<and> tail_from b l = b @ l"
  by (induction l arbitrary: b) auto

lemma tail_from_plain: "10 \<notin> set b \<Longrightarrow> 10 \<notin> set (tail_from b s)"
  by (induction b s rule: tail_from.induct) auto

lemma tail_from_set: "set (tail_from b s) \<subseteq> set b \<union> set s"
  by (induction b s rule: tail_from.induct) auto

lemma lines_from_set: "l \<in> set (lines_from b s) \<Longrightarrow> set l \<subseteq> set b \<union> set s"
  by (induction b s rule: lines_from.induct) (auto split: if_splits)

lemma ustrchr_split: "10 \<notin> set l \<Longrightarrow> ustrchr (l @ 10 # s) 10 = Some (10 # s)"
  by (induction l) auto

lemma ustrchr_none: "10 \<notin> set l \<Longrightarrow> ustrchr l 10 = None"
  by (induction l) auto

abbreviation prints :: "byte list list \<Rightarrow> ucall list" where
  "prints ls \<equiv> map (\<lambda>l. UWrite 1 (l @ [10])) ls"

lemma written_prints: "written 1 (after (prints ls) s) = written 1 s @ concat (map (\<lambda>l. l @ [10]) ls)"
  by (induction ls arbitrary: s) (simp_all add: written_call)

lemma rest_prints [simp]: "rest_of fd inp (after (prints ls) s) = rest_of fd inp s"
  by (induction ls arbitrary: s) (simp_all add: rest_call)

lemma grep_lines_eq:
  fixes s :: "'a uproc_scheme"
  assumes "0 \<notin> set p"
  shows "grep_lines pat p s = Ret (tail_from [] p) (after (prints (filter (umatch pat) (lines_from [] p))) s)"
  using assms
proof (induction "length p" arbitrary: p s rule: less_induct)
  case less
  have nz: "takeWhile (\<lambda>c. c \<noteq> 0) p = p" using less.prems by (auto simp: takeWhile_eq_all_conv)
  show ?case
  proof (cases "10 \<in> set p")
    case False
    then show ?thesis unfolding grep_lines.simps [of pat p] nz by (simp add: ustrchr_none lines_from_plain return_apply)
  next
    case True
    then obtain l p' where p: "p = l @ 10 # p'" "10 \<notin> set l" by (metis split_list_first)
    have IH: "grep_lines pat p' t = Ret (tail_from [] p') (after (prints (filter (umatch pat) (lines_from [] p'))) t)" for t :: "'a uproc_scheme"
      using less p by simp
    show ?thesis
      using nz p(2) IH unfolding p(1)
      by (subst grep_lines.simps)
        (simp add: ustrchr_split Let_def krun uwrite_def lines_from_append tail_from_append lines_from_plain)
  qed
qed

lemma buf_short: "list_all (\<lambda>l. length l < n) (lines_from b s) \<Longrightarrow> length (tail_from b s) < n \<Longrightarrow> length b < n"
  by (induction b s rule: lines_from.induct) (auto split: if_splits)

text \<open>The input has no nul and no line of 1023 bytes or more, counting the bytes in the buffer.\<close>

definition short_lines :: "byte list \<Rightarrow> byte list \<Rightarrow> bool" where
  "short_lines b s \<longleftrightarrow> 10 \<notin> set b \<and> 0 \<notin> set b \<and> 0 \<notin> set s \<and>
     list_all (\<lambda>l. length l < 1023) (lines_from b s) \<and> length (tail_from b s) < 1023"

lemma short_lines_read:
  assumes "short_lines b (d @ s)"
  shows "short_lines (tail_from [] (b @ d)) s" "0 \<notin> set (b @ d)" "length b < 1023"
    "lines_from b (d @ s) = lines_from [] (b @ d) @ lines_from (tail_from [] (b @ d)) s"
proof -
  have b: "lines_from [] (b @ d) = lines_from b d" "tail_from [] (b @ d) = tail_from b d"
    using assms lines_from_plain [of b "[]"] by (simp_all add: short_lines_def lines_from_append tail_from_append)
  show "lines_from b (d @ s) = lines_from [] (b @ d) @ lines_from (tail_from [] (b @ d)) s"
    unfolding b by (rule lines_from_append)
  show "0 \<notin> set (b @ d)" "length b < 1023"
    using assms buf_short [of 1023 b "d @ s"] by (simp_all add: short_lines_def)
  show "short_lines (tail_from [] (b @ d)) s"
    unfolding b using assms tail_from_plain [of b d] tail_from_set [of b d]
    by (auto simp: short_lines_def lines_from_append tail_from_append)
qed

lemma grep_loop_eq:
  assumes "serves fd inp s" and "length (rest_of fd inp s) < fuel" and "short_lines buf (rest_of fd inp s)"
  shows "\<exists>t. grep_loop fuel pat fd buf s = Ret () t \<and>
    written 1 t = written 1 s @ concat (map (\<lambda>l. l @ [10]) (filter (umatch pat) (lines_from buf (rest_of fd inp s))))"
  using assms
proof (induction fuel arbitrary: s buf)
  case (Suc fuel)
  let ?n = "1024 - length buf - 1"
  let ?s = "call (URead fd ?n) s"
  obtain d where d: "uread fd ?n s = Ret (int (length d), d) ?s"
    "rest_of fd inp s = d @ rest_of fd inp ?s" "0 < ?n \<Longrightarrow> rest_of fd inp s \<noteq> [] \<Longrightarrow> d \<noteq> []"
    using uread_serves [OF Suc.prems(1)] by metis
  note short = short_lines_read [OF Suc.prems(3) [unfolded d(2)]]
  have w: "written 1 ?s = written 1 s" by (simp add: written_call)
  show ?case
  proof (cases "d = []")
    case True
    then have "rest_of fd inp s = []" using d(3) short(3) by linarith
    moreover have "grep_loop (Suc fuel) pat fd buf s = Ret () ?s"
      using d(1) True by (simp add: grep_loop.simps bind_Ret return_apply)
    ultimately show ?thesis using w by simp
  next
    case False
    let ?t = "after (prints (filter (umatch pat) (lines_from [] (buf @ d)))) ?s"
    have "grep_loop (Suc fuel) pat fd buf s = grep_loop fuel pat fd (tail_from [] (buf @ d)) ?t"
      using d(1) False grep_lines_eq [OF short(2), of pat ?s] by (simp add: grep_loop.simps bind_Ret)
    moreover have r: "rest_of fd inp ?t = rest_of fd inp ?s" by simp
    moreover have "length (rest_of fd inp ?s) < fuel" using Suc.prems(2) d(2) False by (cases d) simp_all
    then obtain t where "grep_loop fuel pat fd (tail_from [] (buf @ d)) ?t = Ret () t"
      "written 1 t = written 1 ?t @ concat (map (\<lambda>l. l @ [10]) (filter (umatch pat) (lines_from (tail_from [] (buf @ d)) (rest_of fd inp ?s))))"
      using Suc.IH [of ?t "tail_from [] (buf @ d)"] Suc.prems(1) short(1) by auto
    ultimately show ?thesis using d(2) short(4) w by (auto simp: written_prints)
  qed
qed simp

text \<open>
  C34. grep() prints exactly the lines of its input that match the pattern, in their order, each with its newline,
  however read() cuts the input into pieces, provided the input has no nul and no line that fills the buffer.
\<close>

theorem grep_prints_matches:
  assumes "serves fd inp s" and "length (rest_of fd inp s) < fuel" and "short_lines [] (rest_of fd inp s)" and "0 \<notin> set pat"
  shows "\<exists>t. grep fuel pat fd s = Ret () t \<and>
    written 1 t = written 1 s @ concat (map (\<lambda>l. l @ [10]) (filter (found pat) (lines_from [] (rest_of fd inp s))))"
proof -
  have "0 \<notin> set l" if "l \<in> set (lines_from [] (rest_of fd inp s))" for l
    using lines_from_set [OF that] assms(3) by (auto simp: short_lines_def)
  then have "filter (umatch pat) (lines_from [] (rest_of fd inp s)) = filter (found pat) (lines_from [] (rest_of fd inp s))"
    using umatch_found [OF assms(4)] by (intro filter_cong) auto
  then show ?thesis using grep_loop_eq [OF assms(1-3), of pat] by (simp add: grep_def)
qed

theorem grep_prints_matches_witness:
  "\<exists>t. grep 20 (chars ''a.*b'') 0 (uproc_in (chars ''xaxb'' @ [10] @ chars ''ba'' @ [10])) = Ret () t \<and> written 1 t = chars ''xaxb'' @ [10]"
proof -
  let ?inp = "chars ''xaxb'' @ [10] @ chars ''ba'' @ [10]"
  have "short_lines [] ?inp" "lines_from [] ?inp = [chars ''xaxb'', chars ''ba'']" "length ?inp = 8" by code_simp+
  moreover have "umatch (chars ''a.*b'') (chars ''xaxb'')" "\<not> umatch (chars ''a.*b'') (chars ''ba'')" by code_simp+
  then have "found (chars ''a.*b'') (chars ''xaxb'')" "\<not> found (chars ''a.*b'') (chars ''ba'')"
    using umatch_found [of "chars ''a.*b''"] by (simp_all add: chars_def)
  ultimately show ?thesis
    using grep_prints_matches [of 0 ?inp "uproc_in ?inp" 20 "chars ''a.*b''", OF uproc_in_serves] by (simp add: chars_def)
qed

end
