(* ===== verification/Utools.thy ===== *)
theory Utools
  imports Ulib_Prop Sysfile
begin

text \<open>
  The user programs wc, cat, echo, ls, kill, ln, mkdir, rm, zombie, init, forktest, stressfs, pingpong, find and
  xargs.  A program is its main(), given the argument strings after its own name; a loop over input or
  directory entries has a fuel argument and ends in \<open>Hang\<close> when it runs out.  After fork() a
  run follows the process the answer selects, the child on 0 and the parent otherwise.
\<close>

definition line :: "string \<Rightarrow> byte list" where
  "line m = chars m @ [10]"

section \<open>wc, cat, echo\<close>

record wcount =
  wc_l :: nat
  wc_w :: nat
  wc_c :: nat
  wc_inword :: bool

definition wc_char :: "byte \<Rightarrow> wcount \<Rightarrow> wcount" where
  "wc_char b k =
     (let k = k\<lparr>wc_c := wc_c k + 1, wc_l := wc_l k + (if b = 10 then 1 else 0)\<rparr> in
      if ustrchr [32, 13, 9, 10, 11] b \<noteq> None then k\<lparr>wc_inword := False\<rparr>
      else if \<not> wc_inword k then k\<lparr>wc_w := wc_w k + 1, wc_inword := True\<rparr>
      else k)"

text \<open>The counters are ints, printed as such: the low half of the argument.\<close>

fun wc_loop :: "nat \<Rightarrow> int \<Rightarrow> byte list \<Rightarrow> wcount \<Rightarrow> ('a uproc_scheme, unit) kproc" where
  "wc_loop 0 fd name k = hang"
| "wc_loop (Suc fuel) fd name k =
     bind (uread fd 512) (\<lambda>(n, d).
     if n > 0 then wc_loop fuel fd name (fold wc_char d k)
     else if n < 0 then bind (uprintf (line ''wc: read error'') []) (\<lambda>_. uexit 1)
     else uprintf (line ''%d %d %d %s'') [VInt (of_nat (wc_l k)), VInt (of_nat (wc_w k)), VInt (of_nat (wc_c k)), VStr (Some name)])"

definition wc :: "nat \<Rightarrow> int \<Rightarrow> byte list \<Rightarrow> ('a uproc_scheme, unit) kproc" where
  "wc fuel fd name = wc_loop fuel fd name \<lparr>wc_l = 0, wc_w = 0, wc_c = 0, wc_inword = False\<rparr>"

fun wc_files :: "nat \<Rightarrow> byte list list \<Rightarrow> ('a uproc_scheme, unit) kproc" where
  "wc_files fuel [] = uexit 0"
| "wc_files fuel (a # argv) =
     bind (sysret (UOpen a 0)) (\<lambda>fd.
     if fd < 0 then bind (uprintf (line ''wc: cannot open %s'') [VStr (Some a)]) (\<lambda>_. uexit 1)
     else bind (wc fuel fd a) (\<lambda>_. bind (sysret (UClose fd)) (\<lambda>_. wc_files fuel argv)))"

definition wc_main :: "nat \<Rightarrow> byte list list \<Rightarrow> ('a uproc_scheme, unit) kproc" where
  "wc_main fuel argv = (if argv = [] then bind (wc fuel 0 []) (\<lambda>_. uexit 0) else wc_files fuel argv)"

fun cat :: "nat \<Rightarrow> int \<Rightarrow> ('a uproc_scheme, unit) kproc" where
  "cat 0 fd = hang"
| "cat (Suc fuel) fd =
     bind (uread fd 512) (\<lambda>(n, d).
     if n > 0 then
       bind (uwrite 1 d) (\<lambda>w.
       if w \<noteq> n then bind (ufprintf 2 (line ''cat: write error'') []) (\<lambda>_. uexit 1)
       else cat fuel fd)
     else if n < 0 then bind (ufprintf 2 (line ''cat: read error'') []) (\<lambda>_. uexit 1)
     else return ())"

fun cat_files :: "nat \<Rightarrow> byte list list \<Rightarrow> ('a uproc_scheme, unit) kproc" where
  "cat_files fuel [] = uexit 0"
| "cat_files fuel (a # argv) =
     bind (sysret (UOpen a 0)) (\<lambda>fd.
     if fd < 0 then bind (ufprintf 2 (line ''cat: cannot open %s'') [VStr (Some a)]) (\<lambda>_. uexit 1)
     else bind (cat fuel fd) (\<lambda>_. bind (sysret (UClose fd)) (\<lambda>_. cat_files fuel argv)))"

definition cat_main :: "nat \<Rightarrow> byte list list \<Rightarrow> ('a uproc_scheme, unit) kproc" where
  "cat_main fuel argv = (if argv = [] then bind (cat fuel 0) (\<lambda>_. uexit 0) else cat_files fuel argv)"

fun echo_main :: "byte list list \<Rightarrow> ('a uproc_scheme, unit) kproc" where
  "echo_main [] = uexit 0"
| "echo_main (a # argv) =
     bind (uwrite 1 a) (\<lambda>_.
     bind (uwrite 1 (if argv \<noteq> [] then [32] else [10])) (\<lambda>_.
     echo_main argv))"

section \<open>kill, ln, mkdir, rm, zombie\<close>

fun kill_all :: "byte list list \<Rightarrow> ('a uproc_scheme, unit) kproc" where
  "kill_all [] = uexit 0"
| "kill_all (a # argv) = bind (sysret (UKill (uatoi a))) (\<lambda>_. kill_all argv)"

definition kill_main :: "byte list list \<Rightarrow> ('a uproc_scheme, unit) kproc" where
  "kill_main argv =
     (if argv = [] then bind (ufprintf 2 (line ''usage: kill pid...'') []) (\<lambda>_. uexit 1) else kill_all argv)"

definition ln_main :: "byte list list \<Rightarrow> ('a uproc_scheme, unit) kproc" where
  "ln_main argv =
     (case argv of
       [old, new] \<Rightarrow>
         bind (sysret (ULink old new)) (\<lambda>r.
         bind (whenM (r < 0) (ufprintf 2 (line ''link %s %s: failed'') [VStr (Some old), VStr (Some new)])) (\<lambda>_.
         uexit 0))
     | _ \<Rightarrow> bind (ufprintf 2 (line ''Usage: ln old new'') []) (\<lambda>_. uexit 1))"

fun mkdir_all :: "byte list list \<Rightarrow> ('a uproc_scheme, unit) kproc" where
  "mkdir_all [] = uexit 0"
| "mkdir_all (a # argv) =
     bind (sysret (UMkdir a)) (\<lambda>r.
     if r < 0 then bind (ufprintf 2 (line ''mkdir: %s failed to create'') [VStr (Some a)]) (\<lambda>_. uexit 0)
     else mkdir_all argv)"

definition mkdir_main :: "byte list list \<Rightarrow> ('a uproc_scheme, unit) kproc" where
  "mkdir_main argv =
     (if argv = [] then bind (ufprintf 2 (line ''Usage: mkdir files...'') []) (\<lambda>_. uexit 1) else mkdir_all argv)"

fun rm_all :: "byte list list \<Rightarrow> ('a uproc_scheme, unit) kproc" where
  "rm_all [] = uexit 0"
| "rm_all (a # argv) =
     bind (sysret (UUnlink a)) (\<lambda>r.
     if r < 0 then bind (ufprintf 2 (line ''rm: %s failed to delete'') [VStr (Some a)]) (\<lambda>_. uexit 0)
     else rm_all argv)"

definition rm_main :: "byte list list \<Rightarrow> ('a uproc_scheme, unit) kproc" where
  "rm_main argv =
     (if argv = [] then bind (ufprintf 2 (line ''Usage: rm files...'') []) (\<lambda>_. uexit 1) else rm_all argv)"

definition zombie_main :: "('a uproc_scheme, unit) kproc" where
  "zombie_main =
     bind (sysret UFork) (\<lambda>pid.
     bind (whenM (pid > 0) (bind (sysret (USleep 5)) (\<lambda>_. return ()))) (\<lambda>_.
     uexit 0))"

section \<open>init\<close>

fun init_wait :: "nat \<Rightarrow> int \<Rightarrow> ('a uproc_scheme, unit) kproc" where
  "init_wait 0 pid = hang"
| "init_wait (Suc fuel) pid =
     bind (sysret UWait) (\<lambda>wpid.
     if wpid = pid then return ()
     else if wpid < 0 then bind (uprintf (line ''init: wait returned an error'') []) (\<lambda>_. uexit 1)
     else init_wait fuel pid)"

fun init_loop :: "nat \<Rightarrow> nat \<Rightarrow> ('a uproc_scheme, unit) kproc" where
  "init_loop 0 fuel = hang"
| "init_loop (Suc n) fuel =
     bind (uprintf (line ''init: starting sh'') []) (\<lambda>_.
     bind (sysret UFork) (\<lambda>pid.
     if pid < 0 then bind (uprintf (line ''init: fork failed'') []) (\<lambda>_. uexit 1)
     else if pid = 0 then
       bind (uexec (chars ''sh'') [chars ''sh'']) (\<lambda>_.
       bind (uprintf (line ''init: exec sh failed'') []) (\<lambda>_.
       uexit 1))
     else bind (init_wait fuel pid) (\<lambda>_. init_loop n fuel)))"

definition init_main :: "nat \<Rightarrow> nat \<Rightarrow> ('a uproc_scheme, unit) kproc" where
  "init_main n fuel =
     bind (sysret (UOpen (chars ''console'') (uint O_RDWR))) (\<lambda>fd.
     bind (whenM (fd < 0)
       (bind (sysret (UMknod (chars ''console'') (int CONSOLE) 0)) (\<lambda>_.
        bind (sysret (UOpen (chars ''console'') (uint O_RDWR))) (\<lambda>_. return ())))) (\<lambda>_.
     bind (sysret (UDup 0)) (\<lambda>_.
     bind (sysret (UDup 0)) (\<lambda>_.
     init_loop n fuel))))"

section \<open>ls\<close>

text \<open>The fields of a struct stat, as fstat() stores it.\<close>

definition ust_ino :: "byte list \<Rightarrow> uint" where "ust_ino st = le_dec (take 4 (drop 4 st))"
definition ust_type :: "byte list \<Rightarrow> ushort" where "ust_type st = le_dec (take 2 (drop 8 st))"
definition ust_size :: "byte list \<Rightarrow> uint64" where "ust_size st = le_dec (take 8 (drop 16 st))"

definition cstr :: "byte list \<Rightarrow> byte list" where
  "cstr bs = takeWhile (\<lambda>c. c \<noteq> 0) bs"

definition fmtname :: "byte list \<Rightarrow> byte list" where
  "fmtname pth =
     (let p = rev (takeWhile (\<lambda>c. c \<noteq> 47) (rev pth)) in
      if length p \<ge> DIRSIZ then p else p @ replicate (DIRSIZ - length p) 32)"

definition ls_print :: "byte list \<Rightarrow> byte list \<Rightarrow> ('a uproc_scheme, unit) kproc" where
  "ls_print pth st =
     uprintf (line ''%s %d %d %d'')
       [VStr (Some (fmtname pth)), VInt (word_of_int (sint (ust_type st))), VInt (ucast (ust_ino st)), VInt (ust_size st)]"

fun ls_entries :: "nat \<Rightarrow> int \<Rightarrow> byte list \<Rightarrow> ('a uproc_scheme, unit) kproc" where
  "ls_entries 0 fd pth = hang"
| "ls_entries (Suc fuel) fd pth =
     bind (uread fd 16) (\<lambda>(n, de).
     if n \<noteq> 16 then return ()
     else if de_inum de = 0 then ls_entries fuel fd pth
     else
       let buf = pth @ [47] @ cstr (de_name de) in
       bind (ustat buf) (\<lambda>(r, st).
       if r < 0 then bind (uprintf (line ''ls: cannot stat %s'') [VStr (Some buf)]) (\<lambda>_. ls_entries fuel fd pth)
       else bind (ls_print buf st) (\<lambda>_. ls_entries fuel fd pth)))"

definition ls :: "nat \<Rightarrow> byte list \<Rightarrow> ('a uproc_scheme, unit) kproc" where
  "ls fuel pth =
     bind (sysret (UOpen pth 0)) (\<lambda>fd.
     if fd < 0 then ufprintf 2 (line ''ls: cannot open %s'') [VStr (Some pth)] else
     bind (sys (UFstat fd)) (\<lambda>r.
     if rv r < 0 then
       bind (ufprintf 2 (line ''ls: cannot stat %s'') [VStr (Some pth)]) (\<lambda>_.
       bind (sysret (UClose fd)) (\<lambda>_. return ()))
     else
       let st = dat r in
       bind (if ust_type st = T_DEVICE \<or> ust_type st = T_FILE then ls_print pth st
             else if ust_type st = T_DIR then
               (if length pth + 1 + DIRSIZ + 1 > 512 then uprintf (line ''ls: path too long'') []
                else ls_entries fuel fd pth)
             else return ()) (\<lambda>_.
       bind (sysret (UClose fd)) (\<lambda>_. return ()))))"

fun ls_all :: "nat \<Rightarrow> byte list list \<Rightarrow> ('a uproc_scheme, unit) kproc" where
  "ls_all fuel [] = uexit 0"
| "ls_all fuel (a # argv) = bind (ls fuel a) (\<lambda>_. ls_all fuel argv)"

definition ls_main :: "nat \<Rightarrow> byte list list \<Rightarrow> ('a uproc_scheme, unit) kproc" where
  "ls_main fuel argv = (if argv = [] then bind (ls fuel [46]) (\<lambda>_. uexit 0) else ls_all fuel argv)"

section \<open>forktest, stressfs, pingpong\<close>

definition print_str :: "byte list \<Rightarrow> ('a uproc_scheme, unit) kproc" where
  "print_str s = bind (uwrite 1 s) (\<lambda>_. return ())"

fun fork_many :: "nat \<Rightarrow> nat \<Rightarrow> ('a uproc_scheme, nat) kproc" where
  "fork_many 0 n = return n"
| "fork_many (Suc k) n =
     bind (sysret UFork) (\<lambda>pid.
     if pid < 0 then return n
     else if pid = 0 then uexit 0
     else fork_many k (Suc n))"

fun wait_many :: "nat \<Rightarrow> ('a uproc_scheme, unit) kproc" where
  "wait_many 0 = return ()"
| "wait_many (Suc n) =
     bind (sysret UWait) (\<lambda>r.
     if r < 0 then bind (print_str (line ''wait stopped early'')) (\<lambda>_. uexit 1)
     else wait_many n)"

definition forktest :: "('a uproc_scheme, unit) kproc" where
  "forktest =
     bind (print_str (line ''fork test'')) (\<lambda>_.
     bind (fork_many 1000 0) (\<lambda>n.
     if n = 1000 then bind (print_str (line ''fork claimed to work N times!'')) (\<lambda>_. uexit 1) else
     bind (wait_many n) (\<lambda>_.
     bind (sysret UWait) (\<lambda>r.
     if r \<noteq> -1 then bind (print_str (line ''wait got too many'')) (\<lambda>_. uexit 1)
     else print_str (line ''fork test OK'')))))"

fun stress_fork :: "nat \<Rightarrow> nat \<Rightarrow> ('a uproc_scheme, nat) kproc" where
  "stress_fork 0 i = return i"
| "stress_fork (Suc k) i = bind (sysret UFork) (\<lambda>pid. if pid > 0 then return i else stress_fork k (Suc i))"

definition stressfs_main :: "('a uproc_scheme, unit) kproc" where
  "stressfs_main =
     bind (uprintf (line ''stressfs starting'') []) (\<lambda>_.
     bind (stress_fork 4 0) (\<lambda>i.
     bind (uprintf (line ''write %d'') [VInt (of_nat i)]) (\<lambda>_.
     let pth = chars ''stressfs'' @ [48 + of_nat i] in
     bind (sysret (UOpen pth (uint (O_CREATE OR O_RDWR)))) (\<lambda>fd.
     bind (forM [0..<20] (\<lambda>_. bind (uwrite fd (replicate 512 97)) (\<lambda>_. return ()))) (\<lambda>_.
     bind (sysret (UClose fd)) (\<lambda>_.
     bind (uprintf (line ''read'') []) (\<lambda>_.
     bind (sysret (UOpen pth 0)) (\<lambda>fd.
     bind (forM [0..<20] (\<lambda>_. bind (uread fd 512) (\<lambda>_. return ()))) (\<lambda>_.
     bind (sysret (UClose fd)) (\<lambda>_.
     bind (sysret UWait) (\<lambda>_.
     uexit 0)))))))))))"

text \<open>The byte the child of pingpong sends back is the one it read, or an uninitialised one if it read none.\<close>

definition pingpong_main :: "byte \<Rightarrow> ('a uproc_scheme, unit) kproc" where
  "pingpong_main garbage =
     bind upipe (\<lambda>(c1, one0, one1).
     bind upipe (\<lambda>(c2, two0, two1).
     if c1 = -1 \<or> c2 = -1 then
       bind (uprintf (chars ''Cannot create pipe! - Error: pipe() function failed!'') []) (\<lambda>_. uexit 1)
     else
     bind (sysret UFork) (\<lambda>proc.
     bind (if proc < 0 then
         bind (uprintf (chars ''Cannot create process! - Error: fork() function failed!'') []) (\<lambda>_. uexit 1)
       else if proc = 0 then
         bind (sysret (UClose one1)) (\<lambda>_.
         bind (uread one0 1) (\<lambda>(_, d).
         bind (sysret UGetpid) (\<lambda>pid.
         bind (uprintf (line ''%d: received ping'') [VInt (word_of_int pid)]) (\<lambda>_.
         bind (sysret (UClose one0)) (\<lambda>_.
         bind (sysret (UClose two0)) (\<lambda>_.
         bind (uwrite two1 [hd (d @ [garbage])]) (\<lambda>_.
         bind (sysret (UClose two1)) (\<lambda>_.
         return ()))))))))
       else
         bind (sysret (UClose one0)) (\<lambda>_.
         bind (uwrite one1 [84]) (\<lambda>_.
         bind (sysret (UClose one1)) (\<lambda>_.
         bind (sysret (UClose two1)) (\<lambda>_.
         bind (uread two0 1) (\<lambda>_.
         bind (sysret UGetpid) (\<lambda>pid.
         bind (uprintf (line ''%d: received pong'') [VInt (word_of_int pid)]) (\<lambda>_.
         bind (sysret (UClose two0)) (\<lambda>_.
         bind (sysret UWait) (\<lambda>_.
         return ())))))))))) (\<lambda>_.
     uexit 0))))"

section \<open>find\<close>

definition nameComparison :: "byte list \<Rightarrow> byte list \<Rightarrow> bool" where
  "nameComparison name1 name2 = (ustrcmp name1 name2 = 0)"

text \<open>
  The name in a directory entry has no nul when it is DIRSIZ bytes long; strcmp() then goes on
  into \<open>junk\<close>, the bytes after the entry on the stack.
\<close>

fun find :: "nat \<Rightarrow> byte list \<Rightarrow> byte list \<Rightarrow> byte list \<Rightarrow> ('a uproc_scheme, unit) kproc"
  and find_entries :: "nat \<Rightarrow> byte list \<Rightarrow> byte list \<Rightarrow> byte list \<Rightarrow> int \<Rightarrow> ('a uproc_scheme, unit) kproc" where
  "find 0 junk fileName currentDir = hang"
| "find (Suc fuel) junk fileName currentDir =
     bind (sysret (UOpen currentDir 0)) (\<lambda>fd.
     if fd < 0 then ufprintf 2 (line ''ls: cannot open %s'') [VStr (Some fileName)] else
     bind (sysret (UFstat fd)) (\<lambda>r.
     if r < 0 then
       bind (ufprintf 2 (line ''ls: cannot stat %s'') [VStr (Some fileName)]) (\<lambda>_.
       bind (sysret (UClose fd)) (\<lambda>_. return ()))
     else if length currentDir + 1 + DIRSIZ + 1 > 512 then uprintf (line ''ls: path too long'') []
     else
       bind (find_entries fuel junk fileName currentDir fd) (\<lambda>_.
       bind (sysret (UClose fd)) (\<lambda>_. return ()))))"
| "find_entries 0 junk fileName currentDir fd = hang"
| "find_entries (Suc fuel) junk fileName currentDir fd =
     bind (uread fd 16) (\<lambda>(n, de).
     if n \<noteq> 16 then return ()
     else
       let name = cstr (de_name de @ junk); buf = currentDir @ [47] @ cstr (de_name de) in
       if de_inum de = 0 then find_entries fuel junk fileName currentDir fd
       else if nameComparison name [46] \<or> nameComparison name [46, 46] then find_entries fuel junk fileName currentDir fd
       else
         bind (ustat buf) (\<lambda>(r, st).
         if r < 0 then
           bind (uprintf (line ''ls: cannot stat %s'') [VStr (Some buf)]) (\<lambda>_.
           find_entries fuel junk fileName currentDir fd)
         else
           bind (whenM (nameComparison fileName name) (uprintf (line ''%s'') [VStr (Some buf)])) (\<lambda>_.
           bind (whenM (ust_type st = T_DIR) (find fuel junk fileName buf)) (\<lambda>_.
           find_entries fuel junk fileName currentDir fd))))"

definition find_main :: "nat \<Rightarrow> byte list \<Rightarrow> byte list list \<Rightarrow> ('a uproc_scheme, unit) kproc" where
  "find_main fuel junk argv =
     (case argv of
       [dir, name] \<Rightarrow> bind (find fuel junk name dir) (\<lambda>_. uexit 0)
     | _ \<Rightarrow> bind (uprintf (line ''Error: Arguments do not fit the command parameter(s).'') []) (\<lambda>_. uexit 0))"

section \<open>xargs\<close>

definition whitespace :: "byte list" where
  "whitespace = [32, 9, 13, 10, 11]"

definition ws :: "byte \<Rightarrow> bool" where
  "ws c \<longleftrightarrow> ustrchr whitespace c \<noteq> None"

text \<open>
  gettoken() on the text from the pointer to the end of the line: the token, None at the end,
  and the text after it.
\<close>

definition xargs_gettoken :: "byte list \<Rightarrow> byte list option \<times> byte list" where
  "xargs_gettoken s =
     (let s = dropWhile ws s in
      if s = [] then (None, [])
      else (Some (takeWhile (\<lambda>c. \<not> ws c) s), dropWhile ws (dropWhile (\<lambda>c. \<not> ws c) s)))"

text \<open>
  The loop over the tokens of a line: the arguments so far, the index i of the line buffer, which grows with
  every token.  An index outside an array is undefined behaviour, a \<open>Panic\<close> here.
\<close>

function xargs_tokens :: "byte list \<Rightarrow> byte list list \<Rightarrow> nat \<Rightarrow> ('a uproc_scheme, byte list list \<times> nat) kproc" where
  "xargs_tokens s xargs i =
     (case xargs_gettoken s of
       (None, _) \<Rightarrow> return (xargs, i)
     | (Some q, s') \<Rightarrow>
         if length xargs \<ge> MAXARG then panic ''xargs[j]''
         else xargs_tokens s' (xargs @ [q]) (Suc i))"
  by pat_completeness auto

lemma xargs_gettoken_shorter: "xargs_gettoken s = (Some q, s') \<Longrightarrow> length s' < length s"
proof -
  assume a: "xargs_gettoken s = (Some q, s')"
  have "length s' \<le> length (dropWhile (\<lambda>c. \<not> ws c) (dropWhile ws s))"
    using a by (auto simp: xargs_gettoken_def Let_def length_dropWhile_le split: if_splits)
  also have "\<dots> < length (dropWhile ws s)"
    using a hd_dropWhile [of ws s] by (cases "dropWhile ws s") (auto simp: xargs_gettoken_def Let_def le_imp_less_Suc length_dropWhile_le)
  also have "\<dots> \<le> length s" by (rule length_dropWhile_le)
  finally show ?thesis .
qed

termination xargs_tokens
  by (relation "measure (\<lambda>(s, xargs, i). length s)") (auto dest: xargs_gettoken_shorter [OF sym])

declare xargs_tokens.simps [simp del]

text \<open>
  exec() with a null pointer for its path takes \<open>text0\<close>, the bytes at address 0 up to the first nul.
\<close>

fun xargs_loop :: "nat \<Rightarrow> byte list \<Rightarrow> byte list list \<Rightarrow> nat \<Rightarrow> ('a uproc_scheme, unit) kproc" where
  "xargs_loop 0 text0 args i = hang"
| "xargs_loop (Suc fuel) text0 args i =
     (if i \<ge> MAXARG then panic ''buf[i]'' else
      bind (ugets 100) (\<lambda>buf.
      let s = cstr buf in
      if s = [] then uexit 0 else
      bind (xargs_tokens s args i) (\<lambda>(xargs, i).
      if length xargs \<ge> MAXARG then panic ''xargs[j]'' else
      bind (sysret UFork) (\<lambda>pid.
      bind (whenM (pid = 0)
        (bind (case xargs of [] \<Rightarrow> uexec text0 [] | f # _ \<Rightarrow> uexec f xargs) (\<lambda>_. uexit 0))) (\<lambda>_.
      bind (sysret UWait) (\<lambda>_.
      xargs_loop fuel text0 args i))))))"

declare xargs_loop.simps [simp del]

definition xargs_main :: "nat \<Rightarrow> byte list \<Rightarrow> byte list list \<Rightarrow> ('a uproc_scheme, unit) kproc" where
  "xargs_main fuel text0 argv = (if length argv > MAXARG then panic ''xargs[argstart]'' else xargs_loop fuel text0 argv 0)"

end
