(* ===== verification/Sh.thy ===== *)
theory Sh
  imports Ulib_Prop Sysfile
begin

text \<open>
  The shell, user/sh.c.  In the parser a pointer into the line is the text from it to the end of
  the line, so a token is the pair of the texts at its start and at its end; nulterminate() then
  cuts the tokens in the line buffer.  Allocation of command nodes is taken to succeed.  The parser's calls of
  panic() are the result \<open>PPanic\<close>, and the fuel of its recursive functions counts nested calls.
\<close>

section \<open>Commands\<close>

datatype 'p cmd =
    EXEC "'p list"
  | REDIR "'p cmd" 'p uint int
  | PIPE "'p cmd" "'p cmd"
  | LIST "'p cmd" "'p cmd"
  | BACK "'p cmd"

type_synonym token = "byte list \<times> byte list"

definition MAXARGS :: nat where "MAXARGS = 10"

datatype 'a pres = POk 'a | PPanic string | PFuel

fun pbind :: "'a pres \<Rightarrow> ('a \<Rightarrow> 'b pres) \<Rightarrow> 'b pres" where
  "pbind (POk x) f = f x"
| "pbind (PPanic m) f = PPanic m"
| "pbind PFuel f = PFuel"

section \<open>Tokens\<close>

definition sh_whitespace :: "byte list" where "sh_whitespace = [32, 9, 13, 10, 11]"
definition sh_symbols :: "byte list" where "sh_symbols = chars ''<|>&;()''"

definition is_ws :: "byte \<Rightarrow> bool" where
  "is_ws c \<longleftrightarrow> ustrchr sh_whitespace c \<noteq> None"

definition is_word :: "byte \<Rightarrow> bool" where
  "is_word c \<longleftrightarrow> \<not> is_ws c \<and> ustrchr sh_symbols c = None"

text \<open>gettoken(): the kind of the token, its start and end, and the text after it.\<close>

definition gettoken :: "byte list \<Rightarrow> byte \<times> token \<times> byte list" where
  "gettoken ps =
     (let s = dropWhile is_ws ps;
          (ret, e) = (case s of
              [] \<Rightarrow> (0, [])
            | c # r \<Rightarrow>
                if c \<in> set (chars ''|();&<'') then (c, r)
                else if c = 62 then (if nth0 r 0 = 62 then (43, drop 1 r) else (62, r))
                else (97, dropWhile is_word s))
      in (ret, (s, e), dropWhile is_ws e))"

definition peek :: "string \<Rightarrow> byte list \<Rightarrow> bool \<times> byte list" where
  "peek toks ps = (let s = dropWhile is_ws ps in (s \<noteq> [] \<and> ustrchr (chars toks) (hd s) \<noteq> None, s))"

lemma dropWhile_twice [simp]: "dropWhile P (dropWhile P s) = dropWhile P s"
  by (induction s) auto

lemma is_word_start:
  "c \<notin> set (chars ''|();&<'') \<Longrightarrow> c \<noteq> 62 \<Longrightarrow> \<not> is_ws c \<Longrightarrow> is_word c"
  by (auto simp: is_word_def sh_symbols_def chars_def split: if_splits)

lemma gettoken_shorter:
  assumes "gettoken s = (tok, t, s')" and "tok \<noteq> 0"
  shows "length s' < length s"
proof -
  let ?s = "dropWhile is_ws s"
  obtain c r where c: "?s = c # r" "\<not> is_ws c"
    using assms hd_dropWhile [of is_ws s] by (cases ?s) (auto simp: gettoken_def Let_def)
  have "length (snd t) \<le> length r"
    using assms c is_word_start [of c] length_dropWhile_le [of is_word r]
    by (auto simp: gettoken_def Let_def split: if_splits)
  moreover have "length s' \<le> length (snd t)"
    using assms by (auto simp: gettoken_def Let_def length_dropWhile_le split: prod.splits)
  moreover have "length ?s \<le> length s" by (rule length_dropWhile_le)
  ultimately show ?thesis using c(1) by simp
qed

lemma gettoken_le: "gettoken s = (tok, t, s') \<Longrightarrow> length s' \<le> length s"
proof (cases "tok = 0")
  case True
  assume "gettoken s = (tok, t, s')"
  then have "s' = [] \<or> length s' \<le> length s"
    using True length_dropWhile_le [of is_ws s]
    by (auto simp: gettoken_def Let_def chars_def split: list.splits if_splits)
  then show ?thesis by auto
qed (auto dest: gettoken_shorter)

lemma peek_le: "peek toks s = (b, s') \<Longrightarrow> length s' \<le> length s"
  by (auto simp: peek_def Let_def length_dropWhile_le)

lemma redir_shorter:
  assumes "(b, s1) = peek t s" and "(tok, x, s2) = gettoken s1" and "(97, q, s3) = gettoken s2"
  shows "length s3 < length s"
  using peek_le [OF assms(1) [symmetric]] gettoken_le [OF assms(2) [symmetric]] gettoken_shorter [OF assms(3) [symmetric]]
  by simp

text \<open>A token that peek() has seen is there.\<close>

lemma peek_token: "peek toks s = (True, s1) \<Longrightarrow> gettoken s1 = (tok, t, s2) \<Longrightarrow> tok \<noteq> 0"
proof -
  assume a: "peek toks s = (True, s1)" "gettoken s1 = (tok, t, s2)"
  then have "s1 \<noteq> []" "dropWhile is_ws s1 = s1" by (auto simp: peek_def Let_def simp del: dropWhile_eq_Nil_conv)
  then obtain c r where "dropWhile is_ws s1 = c # r" by (cases s1) auto
  then show ?thesis using a(2) by (auto simp: gettoken_def Let_def chars_def split: if_splits)
qed

lemma peek_shorter: "(True, s1) = peek toks s \<Longrightarrow> (tok, t, s2) = gettoken s1 \<Longrightarrow> length s2 < length s"
  using gettoken_shorter [of s1 tok t s2] peek_token [of toks s s1 tok t s2] peek_le [of toks s True s1] by simp

section \<open>The parser\<close>

text \<open>A redirection: the file, the mode and the descriptor; the list is in the order of the line.\<close>

type_synonym redir = "token \<times> uint \<times> int"

definition redircmds :: "redir list \<Rightarrow> token cmd \<Rightarrow> token cmd" where
  "redircmds rs c = fold (\<lambda>(f, m, fd) c. REDIR c f m fd) rs c"

definition redir_of :: "byte \<Rightarrow> token \<Rightarrow> redir" where
  "redir_of tok q =
     (if tok = 60 then (q, O_RDONLY, 0)
      else if tok = 62 then (q, O_WRONLY OR O_CREATE OR O_TRUNC, 1)
      else (q, O_WRONLY OR O_CREATE, 1))"

function parseredirs :: "redir list \<Rightarrow> byte list \<Rightarrow> (redir list \<times> byte list) pres" where
  "parseredirs rs s =
     (case peek ''<>'' s of
       (False, s1) \<Rightarrow> POk (rs, s1)
     | (True, s1) \<Rightarrow>
        (case gettoken s1 of (tok, _, s2) \<Rightarrow>
         case gettoken s2 of (tok2, q, s3) \<Rightarrow>
           if tok2 \<noteq> 97 then PPanic ''missing file for redirection''
           else parseredirs (rs @ [redir_of tok q]) s3))"
  by pat_completeness auto
termination
  by (relation "measure (\<lambda>(rs, s). length s)") (auto intro: redir_shorter)

declare parseredirs.simps [simp del]

lemma parseredirs_step:
  assumes "peek ''<>'' s = (True, s1)" and "gettoken s1 = (tok, t, s2)" and "gettoken s2 = (tok2, q, s3)"
  shows "parseredirs rs s = (if tok2 \<noteq> 97 then PPanic ''missing file for redirection'' else parseredirs (rs @ [redir_of tok q]) s3)"
  using assms by (simp add: parseredirs.simps [of rs s])

lemma parseredirs_stop: "peek ''<>'' s = (False, s1) \<Longrightarrow> parseredirs rs s = POk (rs, s1)"
  by (simp add: parseredirs.simps [of rs s])

lemma parseredirs_induct [case_names stop missing redir]:
  assumes "\<And>rs s s1. peek ''<>'' s = (False, s1) \<Longrightarrow> P rs s"
    and "\<And>rs s s1 tok t s2 tok2 q s3. peek ''<>'' s = (True, s1) \<Longrightarrow> gettoken s1 = (tok, t, s2) \<Longrightarrow>
      gettoken s2 = (tok2, q, s3) \<Longrightarrow> tok2 \<noteq> 97 \<Longrightarrow> P rs s"
    and "\<And>rs s s1 tok t s2 q s3. peek ''<>'' s = (True, s1) \<Longrightarrow> gettoken s1 = (tok, t, s2) \<Longrightarrow>
      gettoken s2 = (97, q, s3) \<Longrightarrow> P (rs @ [redir_of tok q]) s3 \<Longrightarrow> P rs s"
  shows "P rs s"
proof (induction rs s rule: parseredirs.induct)
  case (1 rs s)
  obtain b s1 where p: "peek ''<>'' s = (b, s1)" by (cases "peek ''<>'' s")
  obtain tok t s2 where g: "gettoken s1 = (tok, t, s2)" by (cases "gettoken s1")
  obtain tok2 q s3 where g2: "gettoken s2 = (tok2, q, s3)" by (cases "gettoken s2")
  obtain t1 t2 where t: "t = (t1, t2)" by (cases t)
  obtain q1 q2 where q: "q = (q1, q2)" by (cases q)
  show ?case
  proof (cases b)
    case False
    then show ?thesis using assms(1) p by simp
  next
    case True
    show ?thesis
    proof (cases "tok2 = 97")
      case False
      then show ?thesis using assms(2) p g g2 True by simp
    next
      case True
      then have "P (rs @ [redir_of tok q]) s3" using 1 p g g2 \<open>b\<close> by (auto simp: t q)
      then show ?thesis using assms(3) p g g2 True \<open>b\<close> by simp
    qed
  qed
qed

lemma parseredirs_le: "parseredirs rs s = POk (rs', s') \<Longrightarrow> length s' \<le> length s"
proof (induction rs s rule: parseredirs_induct)
  case (redir rs s s1 tok t s2 q s3)
  then show ?case using redir_shorter [of True s1 "''<>''" s tok t s2 q s3] by (simp add: parseredirs_step)
qed (auto simp: parseredirs_stop parseredirs_step peek_le)

text \<open>The loop of parseexec() over the arguments.\<close>

function parseargs :: "token list \<Rightarrow> redir list \<Rightarrow> byte list \<Rightarrow> (token cmd \<times> byte list) pres" where
  "parseargs argv rs s =
     (case peek ''|)&;'' s of
       (True, s1) \<Rightarrow> POk (redircmds rs (EXEC argv), s1)
     | (False, s1) \<Rightarrow>
        (case gettoken s1 of (tok, q, s2) \<Rightarrow>
           if tok = 0 then POk (redircmds rs (EXEC argv), s2)
           else if tok \<noteq> 97 then PPanic ''syntax''
           else if length argv + 1 \<ge> MAXARGS then PPanic ''too many args''
           else
             (case parseredirs rs s2 of
               POk (rs', s3) \<Rightarrow> parseargs (argv @ [q]) rs' s3
             | PPanic m \<Rightarrow> PPanic m
             | PFuel \<Rightarrow> PFuel)))"
  by pat_completeness auto
termination
  by (relation "measure (\<lambda>(argv, rs, s). length s)")
    (auto intro: less_le_trans le_less_trans dest!: parseredirs_le gettoken_shorter [OF sym] peek_le [OF sym])

declare parseargs.simps [simp del]

text \<open>The loop of parseline() over ampersands.\<close>

function parseamps :: "token cmd \<Rightarrow> byte list \<Rightarrow> token cmd \<times> byte list" where
  "parseamps c s =
     (case peek ''&'' s of
       (False, s1) \<Rightarrow> (c, s1)
     | (True, s1) \<Rightarrow> (case gettoken s1 of (tok, q, s2) \<Rightarrow> parseamps (BACK c) s2))"
  by pat_completeness auto
termination
  by (relation "measure (\<lambda>(c, s). length s)")
    (auto intro: peek_shorter)

declare parseamps.simps [simp del]

fun parseline :: "nat \<Rightarrow> byte list \<Rightarrow> (token cmd \<times> byte list) pres"
  and parsepipe :: "nat \<Rightarrow> byte list \<Rightarrow> (token cmd \<times> byte list) pres"
  and parseexec :: "nat \<Rightarrow> byte list \<Rightarrow> (token cmd \<times> byte list) pres"
  and parseblock :: "nat \<Rightarrow> byte list \<Rightarrow> (token cmd \<times> byte list) pres" where
  "parseline 0 s = PFuel"
| "parseline (Suc n) s =
     pbind (parsepipe n s) (\<lambda>(c, s).
     case parseamps c s of (c, s) \<Rightarrow>
     case peek '';'' s of
       (True, s) \<Rightarrow> (case gettoken s of (_, _, s) \<Rightarrow> pbind (parseline n s) (\<lambda>(r, s). POk (LIST c r, s)))
     | (False, s) \<Rightarrow> POk (c, s))"
| "parsepipe 0 s = PFuel"
| "parsepipe (Suc n) s =
     pbind (parseexec n s) (\<lambda>(c, s).
     case peek ''|'' s of
       (True, s) \<Rightarrow> (case gettoken s of (_, _, s) \<Rightarrow> pbind (parsepipe n s) (\<lambda>(r, s). POk (PIPE c r, s)))
     | (False, s) \<Rightarrow> POk (c, s))"
| "parseexec 0 s = PFuel"
| "parseexec (Suc n) s =
     (case peek ''('' s of
       (True, s) \<Rightarrow> parseblock n s
     | (False, s) \<Rightarrow> pbind (parseredirs [] s) (\<lambda>(rs, s). parseargs [] rs s))"
| "parseblock 0 s = PFuel"
| "parseblock (Suc n) s =
     (case peek ''('' s of
       (False, s) \<Rightarrow> PPanic ''parseblock''
     | (True, s) \<Rightarrow>
        (case gettoken s of (_, _, s) \<Rightarrow>
         pbind (parseline n s) (\<lambda>(c, s).
         case peek '')'' s of
           (False, s) \<Rightarrow> PPanic ''syntax - missing )''
         | (True, s) \<Rightarrow>
            (case gettoken s of (_, _, s) \<Rightarrow>
             pbind (parseredirs [] s) (\<lambda>(rs, s). POk (redircmds rs c, s))))))"

text \<open>
  parsecmd() on a line: the command, a panic with its message, or the text left over.  The fuel is enough for
  every line.
\<close>

datatype parsed = Parsed "token cmd" | Panics string | Leftovers "byte list" | NoFuel

definition parsecmd :: "byte list \<Rightarrow> parsed" where
  "parsecmd s =
     (case parseline (4 * length s + 4) s of
       POk (c, s') \<Rightarrow> (case peek [] s' of (_, s1) \<Rightarrow> if s1 \<noteq> [] then Leftovers s1 else Parsed c)
     | PPanic m \<Rightarrow> Panics m
     | PFuel \<Rightarrow> NoFuel)"

section \<open>nulterminate()\<close>

text \<open>The line buffer, of length n before its nul; the end of a token is a position in it.\<close>

definition cut :: "nat \<Rightarrow> token \<Rightarrow> byte list \<Rightarrow> byte list" where
  "cut n t buf = buf[n - length (snd t) := 0]"

fun nulterminate :: "nat \<Rightarrow> token cmd \<Rightarrow> byte list \<Rightarrow> byte list" where
  "nulterminate n (EXEC argv) buf = fold (cut n) argv buf"
| "nulterminate n (REDIR c f m fd) buf = cut n f (nulterminate n c buf)"
| "nulterminate n (PIPE l r) buf = nulterminate n r (nulterminate n l buf)"
| "nulterminate n (LIST l r) buf = nulterminate n r (nulterminate n l buf)"
| "nulterminate n (BACK c) buf = nulterminate n c buf"

text \<open>The C string a token's start points to in the buffer.\<close>

definition string_at :: "nat \<Rightarrow> byte list \<Rightarrow> token \<Rightarrow> byte list" where
  "string_at n buf t = takeWhile (\<lambda>c. c \<noteq> 0) (drop (n - length (fst t)) buf)"

section \<open>Running commands\<close>

definition sh_panic :: "string \<Rightarrow> ('a uproc_scheme, 'b) kproc" where
  "sh_panic m = bind (ufprintf 2 (chars ''%s'' @ [10]) [VStr (Some (chars m))]) (\<lambda>_. uexit 1)"

definition fork1 :: "('a uproc_scheme, int) kproc" where
  "fork1 = bind (sysret UFork) (\<lambda>pid. if pid = -1 then sh_panic ''fork'' else return pid)"

fun runcmd :: "byte list cmd \<Rightarrow> ('a uproc_scheme, unit) kproc" where
  "runcmd (EXEC argv) =
     (case argv of
       [] \<Rightarrow> uexit 1
     | f # _ \<Rightarrow>
         bind (uexec f argv) (\<lambda>_.
         bind (ufprintf 2 (chars ''exec %s failed'' @ [10]) [VStr (Some f)]) (\<lambda>_.
         uexit 0)))"
| "runcmd (REDIR c f m fd) =
     bind (sysret (UClose fd)) (\<lambda>_.
     bind (sysret (UOpen f (uint m))) (\<lambda>r.
     if r < 0 then bind (ufprintf 2 (chars ''open %s failed'' @ [10]) [VStr (Some f)]) (\<lambda>_. uexit 1)
     else runcmd c))"
| "runcmd (LIST l r) =
     bind fork1 (\<lambda>pid.
     if pid = 0 then runcmd l else
     bind (sysret UWait) (\<lambda>_.
     runcmd r))"
| "runcmd (PIPE l r) =
     bind upipe (\<lambda>(st, p0, p1).
     if st < 0 then sh_panic ''pipe'' else
     bind fork1 (\<lambda>pid.
     if pid = 0 then
       bind (sysret (UClose 1)) (\<lambda>_.
       bind (sysret (UDup p1)) (\<lambda>_.
       bind (sysret (UClose p0)) (\<lambda>_.
       bind (sysret (UClose p1)) (\<lambda>_.
       runcmd l))))
     else
     bind fork1 (\<lambda>pid.
     if pid = 0 then
       bind (sysret (UClose 0)) (\<lambda>_.
       bind (sysret (UDup p0)) (\<lambda>_.
       bind (sysret (UClose p0)) (\<lambda>_.
       bind (sysret (UClose p1)) (\<lambda>_.
       runcmd r))))
     else
     bind (sysret (UClose p0)) (\<lambda>_.
     bind (sysret (UClose p1)) (\<lambda>_.
     bind (sysret UWait) (\<lambda>_.
     bind (sysret UWait) (\<lambda>_.
     uexit 0)))))))"
| "runcmd (BACK c) =
     bind fork1 (\<lambda>pid. if pid = 0 then runcmd c else uexit 0)"

section \<open>main()\<close>

text \<open>The line getcmd() reads, up to its nul; None at the end of the input.\<close>

definition getcmd :: "('a uproc_scheme, byte list option) kproc" where
  "getcmd =
     bind (uwrite 2 [36, 32]) (\<lambda>_.
     bind (ugets 100) (\<lambda>buf.
     let s = takeWhile (\<lambda>c. c \<noteq> 0) buf in
     return (if s = [] then None else Some s)))"

text \<open>What the child of a command line does: runcmd(parsecmd(buf)).\<close>

definition run_line :: "byte list \<Rightarrow> ('a uproc_scheme, unit) kproc" where
  "run_line s =
     (case parsecmd s of
       Parsed c \<Rightarrow> (let buf = nulterminate (length s) c (s @ [0]) in runcmd (map_cmd (string_at (length s) buf) c))
     | Panics m \<Rightarrow> sh_panic m
     | Leftovers r \<Rightarrow> bind (ufprintf 2 (chars ''leftovers: %s'' @ [10]) [VStr (Some r)]) (\<lambda>_. sh_panic ''syntax'')
     | NoFuel \<Rightarrow> hang)"

fun sh_open :: "nat \<Rightarrow> ('a uproc_scheme, unit) kproc" where
  "sh_open 0 = hang"
| "sh_open (Suc fuel) =
     bind (sysret (UOpen (chars ''console'') (uint O_RDWR))) (\<lambda>fd.
     if fd < 0 then return ()
     else if fd \<ge> 3 then bind (sysret (UClose fd)) (\<lambda>_. return ())
     else sh_open fuel)"

fun sh_loop :: "nat \<Rightarrow> ('a uproc_scheme, unit) kproc" where
  "sh_loop 0 = hang"
| "sh_loop (Suc fuel) =
     bind getcmd (\<lambda>l.
     case l of
       None \<Rightarrow> uexit 0
     | Some s \<Rightarrow>
        (if take 3 s = chars ''cd '' then
           let dir = drop 3 (butlast s) in
           bind (sysret (UChdir dir)) (\<lambda>r.
           bind (whenM (r < 0) (ufprintf 2 (chars ''cannot cd %s'' @ [10]) [VStr (Some dir)])) (\<lambda>_.
           sh_loop fuel))
         else
           bind fork1 (\<lambda>pid.
           bind (whenM (pid = 0) (run_line s)) (\<lambda>_.
           bind (sysret UWait) (\<lambda>_.
           sh_loop fuel)))))"

definition sh_main :: "nat \<Rightarrow> nat \<Rightarrow> ('a uproc_scheme, unit) kproc" where
  "sh_main n fuel = bind (sh_open n) (\<lambda>_. sh_loop fuel)"

end
