(* ===== verification/Sh_Prop.thy ===== *)
theory Sh_Prop
  imports Sh "HOL-Library.Sublist"
begin

text \<open>
  The shell's parser ends on every line; its tokens are the words of the line, also after
  nulterminate() has cut them in the buffer; and it reads back every command that is
  written out in the shell's syntax.
\<close>

section \<open>Progress and termination\<close>

lemma suffix_dropWhile: "suffix (dropWhile P s) s"
  by (metis suffixI takeWhile_dropWhile_id)

lemma peek_suffix: "peek toks s = (b, s') \<Longrightarrow> suffix s' s"
  by (auto simp: peek_def Let_def suffix_dropWhile)

lemma gettoken_suffix:
  assumes "gettoken s = (tok, (q, e), s')"
  shows "suffix q s" "suffix e q" "suffix s' e"
proof -
  have q: "q = dropWhile is_ws s" and s': "s' = dropWhile is_ws e"
    using assms by (auto simp: gettoken_def Let_def split: prod.splits)
  show "suffix q s" "suffix s' e" unfolding q s' by (rule suffix_dropWhile)+
  show "suffix e q"
  proof (cases q)
    case Nil
    then have "dropWhile is_ws s = []" using q by simp
    then show ?thesis using assms by (simp add: gettoken_def Let_def del: dropWhile_eq_Nil_conv)
  next
    case (Cons c r)
    then have "dropWhile is_ws s = c # r" using q by simp
    then have "e = r \<or> e = drop 1 r \<or> e = dropWhile is_word (c # r)"
      using assms by (auto simp: gettoken_def Let_def split: if_splits)
    then show ?thesis
      unfolding Cons using suffix_dropWhile [of is_word "c # r"] suffix_drop [of 1 r]
      by (auto simp: suffix_Cons simp del: dropWhile.simps)
  qed
qed

lemma gettoken_suffix_all: "gettoken s = (tok, t, s') \<Longrightarrow> suffix s' s"
  using gettoken_suffix [of s tok "fst t" "snd t" s'] by (auto intro: suffix_order.trans)

lemma parseredirs_suffix: "parseredirs rs s = POk (rs', s') \<Longrightarrow> suffix s' s"
proof (induction rs s rule: parseredirs_induct)
  case (redir rs s s1 tok t s2 q s3)
  then show ?case
    using peek_suffix [OF redir.hyps(1)] gettoken_suffix_all [OF redir.hyps(2)] gettoken_suffix_all [OF redir.hyps(3)]
    by (auto simp: parseredirs_step intro: suffix_order.trans)
qed (auto simp: parseredirs_stop parseredirs_step peek_suffix)

lemma parseredirs_total: "parseredirs rs s \<noteq> PFuel"
  by (induction rs s rule: parseredirs_induct) (simp_all add: parseredirs_stop parseredirs_step)

lemma parseargs_stop: "peek ''|)&;'' s = (True, s1) \<Longrightarrow> parseargs argv rs s = POk (redircmds rs (EXEC argv), s1)"
  by (simp add: parseargs.simps [of argv rs s])

lemma parseargs_go:
  assumes "peek ''|)&;'' s = (False, s1)" and "gettoken s1 = (tok, q, s2)"
  shows "parseargs argv rs s =
    (if tok = 0 then POk (redircmds rs (EXEC argv), s2)
     else if tok \<noteq> 97 then PPanic ''syntax''
     else if length argv + 1 \<ge> MAXARGS then PPanic ''too many args''
     else pbind (parseredirs rs s2) (\<lambda>(rs', s3). parseargs (argv @ [q]) rs' s3))"
  using assms by (simp add: parseargs.simps [of argv rs s] split: pres.splits)

lemma parseargs_induct [case_names stop last word]:
  assumes "\<And>argv rs s s1. peek ''|)&;'' s = (True, s1) \<Longrightarrow> P argv rs s"
    and "\<And>argv rs s s1 tok q s2. peek ''|)&;'' s = (False, s1) \<Longrightarrow> gettoken s1 = (tok, q, s2) \<Longrightarrow>
      tok \<noteq> 97 \<or> MAXARGS \<le> length argv + 1 \<or> (\<forall>rs' s3. parseredirs rs s2 \<noteq> POk (rs', s3)) \<Longrightarrow> P argv rs s"
    and "\<And>argv rs s s1 q s2 rs' s3. peek ''|)&;'' s = (False, s1) \<Longrightarrow> gettoken s1 = (97, q, s2) \<Longrightarrow>
      \<not> MAXARGS \<le> length argv + 1 \<Longrightarrow> parseredirs rs s2 = POk (rs', s3) \<Longrightarrow> P (argv @ [q]) rs' s3 \<Longrightarrow> P argv rs s"
  shows "P argv rs s"
proof (induction "length s" arbitrary: argv rs s rule: less_induct)
  case less
  obtain b s1 where p: "peek ''|)&;'' s = (b, s1)" by (cases "peek ''|)&;'' s")
  obtain tok q s2 where g: "gettoken s1 = (tok, q, s2)" by (cases "gettoken s1")
  show ?case
  proof (cases "b \<or> tok \<noteq> 97 \<or> MAXARGS \<le> length argv + 1 \<or> (\<forall>rs' s3. parseredirs rs s2 \<noteq> POk (rs', s3))")
    case True
    then show ?thesis using assms(1) [of s s1 argv rs] assms(2) [of s s1 tok q s2 argv rs] p g by (cases b) simp_all
  next
    case False
    then obtain rs' s3 where r: "parseredirs rs s2 = POk (rs', s3)" by blast
    then have "length s3 < length s"
      using False parseredirs_le [OF r] gettoken_shorter [OF g] peek_le [OF p] by simp
    then have "P (argv @ [q]) rs' s3" by (rule less)
    then show ?thesis using assms(3) [of s s1 q s2 argv rs rs' s3] p g r False by simp
  qed
qed

lemma parseargs_suffix: "parseargs argv rs s = POk (c, s') \<Longrightarrow> suffix s' s"
proof (induction argv rs s rule: parseargs_induct)
  case (last argv rs s s1 tok q s2)
  then show ?case
    using peek_suffix [OF last.hyps(1)] gettoken_suffix_all [OF last.hyps(2)]
    by (cases "parseredirs rs s2") (auto simp: parseargs_go split: if_splits intro: suffix_order.trans)
next
  case (word argv rs s s1 q s2 rs' s3)
  then show ?case
    using peek_suffix [OF word.hyps(1)] gettoken_suffix_all [OF word.hyps(2)] parseredirs_suffix [OF word.hyps(4)]
    by (auto simp: parseargs_go intro: suffix_order.trans)
qed (simp add: parseargs_stop peek_suffix)

lemma parseargs_total: "parseargs argv rs s \<noteq> PFuel"
proof (induction argv rs s rule: parseargs_induct)
  case (last argv rs s s1 tok q s2)
  then show ?case using parseredirs_total [of rs s2] by (cases "parseredirs rs s2") (auto simp: parseargs_go)
qed (simp_all add: parseargs_stop parseargs_go)

lemma parseamps_stop: "peek ''&'' s = (False, s1) \<Longrightarrow> parseamps c s = (c, s1)"
  by (simp add: parseamps.simps [of c s])

lemma parseamps_go: "peek ''&'' s = (True, s1) \<Longrightarrow> gettoken s1 = (tok, q, s2) \<Longrightarrow> parseamps c s = parseamps (BACK c) s2"
  by (simp add: parseamps.simps [of c s])

lemma parseamps_suffix: "parseamps c s = (c', s') \<Longrightarrow> suffix s' s"
proof (induction "length s" arbitrary: c s rule: less_induct)
  case less
  obtain b s1 where p: "peek ''&'' s = (b, s1)" by (cases "peek ''&'' s")
  obtain tok q s2 where g: "gettoken s1 = (tok, q, s2)" by (cases "gettoken s1")
  show ?case
  proof (cases b)
    case False
    then show ?thesis using less.prems p peek_suffix [OF p] by (simp add: parseamps_stop)
  next
    case True
    then have "length s2 < length s" using peek_shorter [of s1 "''&''" s tok q s2] p g by simp
    then have "suffix s' s2" using less.hyps [of s2 "BACK c"] less.prems p g True by (simp add: parseamps_go)
    then show ?thesis using peek_suffix [OF p] gettoken_suffix_all [OF g] by (metis suffix_order.trans)
  qed
qed

text \<open>How a call of a parser that succeeds has gone.\<close>

lemma pbind_POk [simp]: "pbind m f = POk y \<longleftrightarrow> (\<exists>x. m = POk x \<and> f x = POk y)"
  by (cases m) auto

lemma parselineE:
  assumes "parseline (Suc n) s = POk (c, s')"
  obtains (plain) c1 s1 where "parsepipe n s = POk (c1, s1)" and "\<exists>s2. parseamps c1 s1 = (c, s2) \<and> peek '';'' s2 = (False, s')"
  | (list) c1 s1 c2 s2 s3 tok t s4 r where "parsepipe n s = POk (c1, s1)" and "parseamps c1 s1 = (c2, s2)"
      and "peek '';'' s2 = (True, s3)" and "gettoken s3 = (tok, t, s4)" and "parseline n s4 = POk (r, s')" and "c = LIST c2 r"
proof -
  obtain c1 s1 where 1: "parsepipe n s = POk (c1, s1)" using assms by auto
  obtain c2 s2 where 2: "parseamps c1 s1 = (c2, s2)" by (cases "parseamps c1 s1")
  obtain b s3 where 3: "peek '';'' s2 = (b, s3)" by (cases "peek '';'' s2")
  obtain tok t s4 where 4: "gettoken s3 = (tok, t, s4)" by (cases "gettoken s3")
  show thesis
    using assms that(1) [OF 1] that(2) [OF 1 2 _ 4] by (cases b; cases t) (auto simp: 1 2 3 4)
qed

lemma parsepipeE:
  assumes "parsepipe (Suc n) s = POk (c, s')"
  obtains (plain) s1 where "parseexec n s = POk (c, s1)" and "peek ''|'' s1 = (False, s')"
  | (pipe) c1 s1 s2 tok t s3 r where "parseexec n s = POk (c1, s1)" and "peek ''|'' s1 = (True, s2)"
      and "gettoken s2 = (tok, t, s3)" and "parsepipe n s3 = POk (r, s')" and "c = PIPE c1 r"
proof -
  obtain c1 s1 where 1: "parseexec n s = POk (c1, s1)" using assms by auto
  obtain b s2 where 2: "peek ''|'' s1 = (b, s2)" by (cases "peek ''|'' s1")
  obtain tok t s3 where 3: "gettoken s2 = (tok, t, s3)" by (cases "gettoken s2")
  show thesis
    using assms that(1) [of s1] that(2) [OF 1 _ 3] by (cases b; cases t) (auto simp: 1 2 3)
qed

lemma parseexecE:
  assumes "parseexec (Suc n) s = POk (c, s')"
  obtains (block) s1 where "peek ''('' s = (True, s1)" and "parseblock n s1 = POk (c, s')"
  | (args) s1 rs s2 where "peek ''('' s = (False, s1)" and "parseredirs [] s1 = POk (rs, s2)" and "parseargs [] rs s2 = POk (c, s')"
  using assms by (auto split: prod.splits bool.splits)

lemma parseblockE:
  assumes "parseblock (Suc n) s = POk (c, s')"
  obtains s1 tok t s2 c1 s3 s4 tok' t' s5 rs where "peek ''('' s = (True, s1)" and "gettoken s1 = (tok, t, s2)"
    and "parseline n s2 = POk (c1, s3)" and "peek '')'' s3 = (True, s4)" and "gettoken s4 = (tok', t', s5)"
    and "parseredirs [] s5 = POk (rs, s')" and "c = redircmds rs c1"
proof -
  obtain b s1 where 1: "peek ''('' s = (b, s1)" by (cases "peek ''('' s")
  obtain tok t s2 where 2: "gettoken s1 = (tok, t, s2)" by (cases "gettoken s1")
  have b using assms 1 by (cases b) auto
  then obtain c1 s3 where 3: "parseline n s2 = POk (c1, s3)" using assms 1 2 by (cases t) auto
  obtain b' s4 where 4: "peek '')'' s3 = (b', s4)" by (cases "peek '')'' s3")
  obtain tok' t' s5 where 5: "gettoken s4 = (tok', t', s5)" by (cases "gettoken s4")
  have b' using assms 1 2 3 4 \<open>b\<close> by (cases t; cases b') auto
  then obtain rs where "parseredirs [] s5 = POk (rs, s')" "c = redircmds rs c1"
    using assms 1 2 3 4 5 \<open>b\<close> by (cases t; cases t') auto
  then show thesis using that 1 2 3 4 5 \<open>b\<close> \<open>b'\<close> by simp
qed

lemmas suffix_facts = peek_suffix gettoken_suffix_all parseamps_suffix parseredirs_suffix parseargs_suffix

lemma parse_suffix:
  "(\<forall>s c s'. parseline n s = POk (c, s') \<longrightarrow> suffix s' s) \<and> (\<forall>s c s'. parsepipe n s = POk (c, s') \<longrightarrow> suffix s' s) \<and>
   (\<forall>s c s'. parseexec n s = POk (c, s') \<longrightarrow> suffix s' s) \<and> (\<forall>s c s'. parseblock n s = POk (c, s') \<longrightarrow> suffix s' s)"
proof (induction n)
  case (Suc n)
  note IH = Suc.IH [THEN conjunct1, rule_format] Suc.IH [THEN conjunct2, THEN conjunct1, rule_format]
    Suc.IH [THEN conjunct2, THEN conjunct2, THEN conjunct1, rule_format] Suc.IH [THEN conjunct2, THEN conjunct2, THEN conjunct2, rule_format]
  have "suffix s' s" if "parseline (Suc n) s = POk (c, s')" for s c s'
    using that by (cases rule: parselineE) (auto dest!: IH suffix_facts intro: suffix_order.trans)
  moreover have "suffix s' s" if "parsepipe (Suc n) s = POk (c, s')" for s c s'
    using that by (cases rule: parsepipeE) (auto dest!: IH suffix_facts intro: suffix_order.trans)
  moreover have "suffix s' s" if "parseexec (Suc n) s = POk (c, s')" for s c s'
    using that by (cases rule: parseexecE) (auto dest!: IH suffix_facts intro: suffix_order.trans)
  moreover have "suffix s' s" if "parseblock (Suc n) s = POk (c, s')" for s c s'
    using that by (cases rule: parseblockE) (auto dest!: IH suffix_facts intro: suffix_order.trans)
  ultimately show ?case by blast
qed simp

lemma pbind_PFuel [simp]: "pbind m f = PFuel \<longleftrightarrow> m = PFuel \<or> (\<exists>x. m = POk x \<and> f x = PFuel)"
  by (cases m) auto

lemma parse_total:
  "(\<forall>s. 4 * length s + 4 \<le> n \<longrightarrow> parseline n s \<noteq> PFuel) \<and> (\<forall>s. 4 * length s + 3 \<le> n \<longrightarrow> parsepipe n s \<noteq> PFuel) \<and>
   (\<forall>s. 4 * length s + 2 \<le> n \<longrightarrow> parseexec n s \<noteq> PFuel) \<and> (\<forall>s. 4 * length s + 1 \<le> n \<longrightarrow> parseblock n s \<noteq> PFuel)"
proof (induction n)
  case (Suc n)
  note IH = Suc.IH [THEN conjunct1, rule_format] Suc.IH [THEN conjunct2, THEN conjunct1, rule_format]
    Suc.IH [THEN conjunct2, THEN conjunct2, THEN conjunct1, rule_format] Suc.IH [THEN conjunct2, THEN conjunct2, THEN conjunct2, rule_format]
  have seen: "length s2 < length s" if "peek toks s = (True, s1)" "gettoken s1 = (tok, t, s2)" for toks s s1 tok t s2
    using peek_shorter [of s1 toks s tok t s2] that by simp
  have len: "parsepipe n s = POk (c, s') \<Longrightarrow> length s' \<le> length s" "parseexec n s = POk (c, s') \<Longrightarrow> length s' \<le> length s"
    "parseamps c' s = (c, s') \<Longrightarrow> length s' \<le> length s" for s c s' c'
    using parse_suffix [of n] parseamps_suffix suffix_length_le by blast+
  have "parseline n s4 \<noteq> PFuel" if "4 * length s + 4 \<le> Suc n" "parsepipe n s = POk (c1, s1)" "parseamps c1 s1 = (c2, s2)"
    "peek '';'' s2 = (True, s3)" "gettoken s3 = (tok, t, s4)" for s c1 s1 c2 s2 s3 tok t s4
    using that(1) len(1) [OF that(2)] len(3) [OF that(3)] seen [OF that(4,5)] by (intro IH(1)) linarith
  then have "parseline (Suc n) s \<noteq> PFuel" if "4 * length s + 4 \<le> Suc n" for s
    using that IH(2) [of s] by (auto split: prod.splits bool.splits)
  moreover have "parsepipe n s3 \<noteq> PFuel" if "4 * length s + 3 \<le> Suc n" "parseexec n s = POk (c1, s1)"
    "peek ''|'' s1 = (True, s2)" "gettoken s2 = (tok, t, s3)" for s c1 s1 s2 s3 tok t
    using that(1) len(2) [OF that(2)] seen [OF that(3,4)] by (intro IH(2)) linarith
  then have "parsepipe (Suc n) s \<noteq> PFuel" if "4 * length s + 3 \<le> Suc n" for s
    using that IH(3) [of s] by (auto split: prod.splits bool.splits)
  moreover have "parseexec (Suc n) s \<noteq> PFuel" if "4 * length s + 2 \<le> Suc n" for s
    using that by (auto split: prod.splits bool.splits simp: parseargs_total parseredirs_total dest!: peek_le intro!: IH(4))
  moreover have "parseblock (Suc n) s \<noteq> PFuel" if "4 * length s + 1 \<le> Suc n" for s
  proof -
    have "parseline n s2 \<noteq> PFuel" if "peek ''('' s = (True, s1)" "gettoken s1 = (tok, t, s2)" for s1 tok t s2
      using seen [OF that] \<open>4 * length s + 1 \<le> Suc n\<close> by (intro IH(1)) linarith
    then show ?thesis by (auto split: prod.splits bool.splits simp: parseredirs_total)
  qed
  ultimately show ?case by blast
qed simp

text \<open>C31. The parser of the shell returns on every line, with a command, a syntax error or the text it could not use.\<close>

theorem parsecmd_terminates: "parsecmd s \<noteq> NoFuel"
  using parse_total [of "4 * length s + 4"] by (auto simp: parsecmd_def split: pres.splits prod.splits)

section \<open>Tokens\<close>

text \<open>A word of the line s0: its start, its end, and word characters between them, as many as there are.\<close>

definition tok_ok :: "byte list \<Rightarrow> token \<Rightarrow> bool" where
  "tok_ok s0 t \<longleftrightarrow> suffix (fst t) s0 \<and>
     (\<exists>w. fst t = w @ snd t \<and> list_all is_word w \<and> (snd t = [] \<or> \<not> is_word (hd (snd t))))"

definition word :: "token \<Rightarrow> byte list" where
  "word t = take (length (fst t) - length (snd t)) (fst t)"

lemma word_eq: "fst t = w @ snd t \<Longrightarrow> word t = w"
  by (simp add: word_def)

lemma gettoken_word:
  assumes "gettoken s = (97, t, s')" and "suffix s s0" and "97 \<notin> set (chars ''|();&<'')"
  shows "tok_ok s0 t"
proof -
  obtain q e where t: "t = (q, e)" by (cases t)
  have q: "q = dropWhile is_ws s" using assms t by (auto simp: gettoken_def Let_def split: prod.splits)
  obtain c r where "dropWhile is_ws s = c # r"
    using assms(1) by (cases "dropWhile is_ws s") (auto simp: gettoken_def Let_def simp del: dropWhile_eq_Nil_conv)
  then have e: "e = dropWhile is_word q"
    using assms(1,3) q by (auto simp: gettoken_def Let_def t split: if_splits)
  have "suffix q s0" using gettoken_suffix(1) assms(1,2) t suffix_order.trans by blast
  moreover have "q = takeWhile is_word q @ e" using e by simp
  moreover have "list_all is_word (takeWhile is_word q)" by (auto simp: list_all_iff dest: set_takeWhileD)
  moreover have "e = [] \<or> \<not> is_word (hd e)" using e hd_dropWhile [of is_word q] by auto
  ultimately show ?thesis unfolding tok_ok_def t fst_conv snd_conv by blast
qed

lemma word_97: "97 \<notin> set (chars ''|();&<'')"
  by (simp add: chars_def)

lemmas gettoken_ok = gettoken_word [OF _ _ word_97]

definition redir_ok :: "byte list \<Rightarrow> redir \<Rightarrow> bool" where
  "redir_ok s0 r \<longleftrightarrow> tok_ok s0 (fst r)"

lemma fst_redir_of [simp]: "fst (redir_of tok q) = q"
  by (simp add: redir_of_def)

lemma parseredirs_ok:
  "parseredirs rs s = POk (rs', s') \<Longrightarrow> suffix s s0 \<Longrightarrow> list_all (redir_ok s0) rs \<Longrightarrow> list_all (redir_ok s0) rs'"
proof (induction rs s rule: parseredirs_induct)
  case (redir rs s s1 tok t s2 q s3)
  have "suffix s2 s0"
    using peek_suffix [OF redir.hyps(1)] gettoken_suffix_all [OF redir.hyps(2)] redir.prems(2) by (meson suffix_order.trans)
  then have "tok_ok s0 q" "suffix s3 s0"
    using gettoken_ok [OF redir.hyps(3)] gettoken_suffix_all [OF redir.hyps(3)] by (auto intro: suffix_order.trans)
  then show ?case using redir by (simp add: parseredirs_step redir_ok_def)
qed (auto simp: parseredirs_stop parseredirs_step)

definition cmd_ok :: "byte list \<Rightarrow> token cmd \<Rightarrow> bool" where
  "cmd_ok s0 c \<longleftrightarrow> (\<forall>t\<in>set_cmd c. tok_ok s0 t)"

lemma redircmds_simps [simp]: "redircmds [] c = c" "redircmds ((f, m, d) # rs) c = redircmds rs (REDIR c f m d)"
  by (simp_all add: redircmds_def)

lemma cmd_ok_simps [simp]:
  "cmd_ok s0 (EXEC argv) \<longleftrightarrow> list_all (tok_ok s0) argv" "cmd_ok s0 (REDIR c f m d) \<longleftrightarrow> tok_ok s0 f \<and> cmd_ok s0 c"
  "cmd_ok s0 (PIPE l r) \<longleftrightarrow> cmd_ok s0 l \<and> cmd_ok s0 r" "cmd_ok s0 (LIST l r) \<longleftrightarrow> cmd_ok s0 l \<and> cmd_ok s0 r"
  "cmd_ok s0 (BACK c) \<longleftrightarrow> cmd_ok s0 c"
  by (auto simp: cmd_ok_def list_all_iff)

lemma redircmds_ok: "list_all (redir_ok s0) rs \<Longrightarrow> cmd_ok s0 c \<Longrightarrow> cmd_ok s0 (redircmds rs c)"
proof (induction rs arbitrary: c)
  case (Cons r rs)
  obtain f m d where r: "r = (f, m, d)" by (cases r)
  then show ?case using Cons.prems Cons.IH [of "REDIR c f m d"] by (simp add: redir_ok_def)
qed simp

lemma parseargs_ok:
  "parseargs argv rs s = POk (c, s') \<Longrightarrow> suffix s s0 \<Longrightarrow> list_all (redir_ok s0) rs \<Longrightarrow> list_all (tok_ok s0) argv \<Longrightarrow> cmd_ok s0 c"
proof (induction argv rs s rule: parseargs_induct)
  case (stop argv rs s s1)
  then show ?case by (auto simp: parseargs_stop intro!: redircmds_ok)
next
  case (last argv rs s s1 tok q s2)
  then have "c = redircmds rs (EXEC argv)"
    by (cases "parseredirs rs s2") (auto simp: parseargs_go split: if_splits)
  then show ?case using last.prems by (auto intro!: redircmds_ok)
next
  case (word argv rs s s1 q s2 rs' s3)
  have 1: "suffix s1 s0" using peek_suffix [OF word.hyps(1)] word.prems(2) by (meson suffix_order.trans)
  then have 2: "suffix s2 s0" using gettoken_suffix_all [OF word.hyps(2)] by (meson suffix_order.trans)
  then have "suffix s3 s0" using parseredirs_suffix [OF word.hyps(4)] by (meson suffix_order.trans)
  moreover have "list_all (redir_ok s0) rs'" using parseredirs_ok [OF word.hyps(4) 2 word.prems(3)] .
  moreover have "tok_ok s0 q" using gettoken_ok [OF word.hyps(2) 1] .
  ultimately show ?case using word by (simp add: parseargs_go)
qed

lemma parseamps_ok: "parseamps c s = (c', s') \<Longrightarrow> cmd_ok s0 c \<Longrightarrow> cmd_ok s0 c'"
proof (induction "length s" arbitrary: c s rule: less_induct)
  case less
  obtain b s1 where p: "peek ''&'' s = (b, s1)" by (cases "peek ''&'' s")
  obtain tok q s2 where g: "gettoken s1 = (tok, q, s2)" by (cases "gettoken s1")
  show ?case
  proof (cases b)
    case False
    then show ?thesis using less.prems p by (simp add: parseamps_stop)
  next
    case True
    then have "length s2 < length s" using peek_shorter [of s1 "''&''" s tok q s2] p g by simp
    then show ?thesis using less.hyps [of s2 "BACK c"] less.prems p g True by (simp add: parseamps_go)
  qed
qed

lemma suffix_steps:
  "suffix s s0 \<Longrightarrow> peek toks s = (b, s') \<Longrightarrow> suffix s' s0" "suffix s s0 \<Longrightarrow> gettoken s = (tok, t, s') \<Longrightarrow> suffix s' s0"
  "suffix s s0 \<Longrightarrow> parseamps c s = (c', s') \<Longrightarrow> suffix s' s0" "suffix s s0 \<Longrightarrow> parseredirs rs s = POk (rs', s') \<Longrightarrow> suffix s' s0"
  "suffix s s0 \<Longrightarrow> parseline n s = POk (c', s') \<Longrightarrow> suffix s' s0" "suffix s s0 \<Longrightarrow> parsepipe n s = POk (c', s') \<Longrightarrow> suffix s' s0"
  "suffix s s0 \<Longrightarrow> parseexec n s = POk (c', s') \<Longrightarrow> suffix s' s0"
  using suffix_facts parse_suffix [of n] by (meson suffix_order.trans)+

lemma parse_ok:
  "(\<forall>s c s'. suffix s s0 \<longrightarrow> parseline n s = POk (c, s') \<longrightarrow> cmd_ok s0 c) \<and>
   (\<forall>s c s'. suffix s s0 \<longrightarrow> parsepipe n s = POk (c, s') \<longrightarrow> cmd_ok s0 c) \<and>
   (\<forall>s c s'. suffix s s0 \<longrightarrow> parseexec n s = POk (c, s') \<longrightarrow> cmd_ok s0 c) \<and>
   (\<forall>s c s'. suffix s s0 \<longrightarrow> parseblock n s = POk (c, s') \<longrightarrow> cmd_ok s0 c)"
proof (induction n)
  case (Suc n)
  note IH = Suc.IH [THEN conjunct1, rule_format] Suc.IH [THEN conjunct2, THEN conjunct1, rule_format]
    Suc.IH [THEN conjunct2, THEN conjunct2, THEN conjunct1, rule_format] Suc.IH [THEN conjunct2, THEN conjunct2, THEN conjunct2, rule_format]
  have "cmd_ok s0 c" if s: "suffix s s0" and "parseline (Suc n) s = POk (c, s')" for s c s'
    using that(2)
  proof (cases rule: parselineE)
    case (plain c1 s1)
    then show ?thesis using IH(2) [OF s plain(1)] parseamps_ok by blast
  next
    case (list c1 s1 c2 s2 s3 tok t s4 r)
    have "suffix s4 s0" using s suffix_steps(6,3,1,2) list(1-4) by metis
    then show ?thesis using IH(1) [OF _ list(5)] IH(2) [OF s list(1)] parseamps_ok [OF list(2)] list(6) by simp
  qed
  moreover have "cmd_ok s0 c" if s: "suffix s s0" and "parsepipe (Suc n) s = POk (c, s')" for s c s'
    using that(2)
  proof (cases rule: parsepipeE)
    case (plain s1)
    then show ?thesis using IH(3) [OF s plain(1)] by simp
  next
    case (pipe c1 s1 s2 tok t s3 r)
    have "suffix s3 s0" using s suffix_steps(7,1,2) pipe(1-3) by metis
    then show ?thesis using IH(2) [OF _ pipe(4)] IH(3) [OF s pipe(1)] pipe(5) by simp
  qed
  moreover have "cmd_ok s0 c" if s: "suffix s s0" and "parseexec (Suc n) s = POk (c, s')" for s c s'
    using that(2)
  proof (cases rule: parseexecE)
    case (block s1)
    then show ?thesis using IH(4) [OF suffix_steps(1) [OF s block(1)] block(2)] by simp
  next
    case (args s1 rs s2)
    have "suffix s1 s0" "suffix s2 s0" using s suffix_steps(1,4) args(1,2) by metis+
    then show ?thesis using parseargs_ok [OF args(3)] parseredirs_ok [OF args(2)] by simp
  qed
  moreover have "cmd_ok s0 c" if s: "suffix s s0" and "parseblock (Suc n) s = POk (c, s')" for s c s'
    using that(2)
  proof (cases rule: parseblockE)
    case (1 s1 tok t s2 c1 s3 s4 tok' t' s5 rs)
    have "suffix s2 s0" "suffix s5 s0" using s suffix_steps(1,2,5) 1(1-5) by metis+
    then show ?thesis using parseredirs_ok [OF 1(6)] IH(1) [OF _ 1(3)] redircmds_ok 1(7) by simp
  qed
  ultimately show ?case by blast
qed simp

section \<open>The strings in the buffer\<close>

lemma length_cut [simp]: "length (cut n t b) = length b"
  by (simp add: cut_def)

lemma fold_cut:
  "i < length b \<Longrightarrow> fold (cut n) ts b ! i = (if \<exists>t\<in>set ts. i = n - length (snd t) then 0 else b ! i)"
  "length (fold (cut n) ts b) = length b"
  by (induction ts arbitrary: b) (auto simp: cut_def nth_list_update)

lemma length_nulterminate [simp]: "length (nulterminate n c b) = length b"
  by (induction c arbitrary: b) (simp_all add: fold_cut)

lemma nulterminate_nth:
  "i < length b \<Longrightarrow> nulterminate n c b ! i = (if \<exists>t\<in>set_cmd c. i = n - length (snd t) then 0 else b ! i)"
proof (induction c arbitrary: b)
  case (EXEC argv)
  then show ?case by (simp add: fold_cut)
next
  case (REDIR c f m d)
  then show ?case by (cases "i = n - length (snd f)") (simp_all add: cut_def nth_list_update)
qed auto

lemma string_at_word:
  assumes ok: "cmd_ok s c" and t: "t \<in> set_cmd c" and nz: "0 \<notin> set s"
  shows "string_at (length s) (nulterminate (length s) c (s @ [0])) t = word t"
proof -
  obtain w where w: "fst t = w @ snd t" "list_all is_word w" and "suffix (fst t) s"
    using ok t by (auto simp: cmd_ok_def tok_ok_def)
  then obtain pre where s: "s = pre @ w @ snd t" by (auto simp: suffix_def)
  let ?b = "nulterminate (length s) c (s @ [0])"
  have len: "length s - length (fst t) = length pre" using s w(1) by simp
  have b: "?b ! (length pre + i) = (if i = length w then 0 else w ! i)" if i: "i \<le> length w" for i
  proof (cases "i = length w")
    case True
    then show ?thesis using t s by (subst nulterminate_nth) auto
  next
    case False
    then have w_i: "(s @ [0]) ! (length pre + i) = w ! i" "is_word (s ! (length pre + i))"
      using i w(2) by (simp_all add: s nth_append list_all_length)
    have "length pre + i \<noteq> length s - length (snd t')" if t': "t' \<in> set_cmd c" for t'
    proof
      assume e: "length pre + i = length s - length (snd t')"
      obtain w' where "fst t' = w' @ snd t'" "suffix (fst t') s" and h: "snd t' = [] \<or> \<not> is_word (hd (snd t'))"
        using ok t' by (auto simp: cmd_ok_def tok_ok_def)
      then obtain p where s': "s = p @ snd t'" by (auto simp: suffix_def)
      show False
      proof (cases "snd t'")
        case Nil
        then show ?thesis using e False i s by simp
      next
        case (Cons x xs)
        then have "s ! (length pre + i) = x" unfolding e by (simp add: s')
        then show ?thesis using w_i(2) h Cons by simp
      qed
    qed
    then show ?thesis using w_i(1) i False s by (subst nulterminate_nth) auto
  qed
  have "takeWhile (\<lambda>c. c \<noteq> 0) (drop (length pre) ?b) = take (length w) (drop (length pre) ?b)"
  proof (rule takeWhile_eq_take_P_nth)
    fix i
    assume i: "i < length w"
    then have "w ! i \<in> set s" by (simp add: s)
    then have "w ! i \<noteq> 0" using nz by metis
    then show "drop (length pre) ?b ! i \<noteq> 0" using b [of i] i s by simp
  qed (use b [of "length w"] s in simp)
  also have "\<dots> = w" by (rule nth_equalityI) (use b s in simp_all)
  finally show ?thesis unfolding string_at_def len word_eq [OF w(1)] .
qed

lemma parsecmd_ok: "parsecmd s = Parsed c \<Longrightarrow> cmd_ok s c"
  using parse_ok [of s "4 * length s + 4", THEN conjunct1, rule_format, of s]
  by (auto simp: parsecmd_def split: pres.splits prod.splits if_splits)

lemma run_line_parsed:
  assumes "0 \<notin> set s" and "parsecmd s = Parsed c"
  shows "run_line s = runcmd (map_cmd word c)"
proof -
  have "cmd_ok s c" using assms(2) by (rule parsecmd_ok)
  then have "map_cmd (string_at (length s) (nulterminate (length s) c (s @ [0]))) c = map_cmd word c"
    using string_at_word assms(1) by (intro cmd.map_cong) auto
  then show ?thesis using assms(2) by (simp add: run_line_def Let_def)
qed

text \<open>
  C32. On a line that parses, the shell runs the command whose strings are the words of the line: the nuls
  that nulterminate() writes into the line end every word and never fall inside one.
\<close>

theorem run_line_words:
  assumes "0 \<notin> set s" and "parsecmd s = Parsed c"
  shows "run_line s = runcmd (map_cmd word c) \<and> (\<forall>w\<in>set_cmd (map_cmd word c). list_all is_word w \<and> sublist w s)"
proof
  have ok: "cmd_ok s c" using assms(2) by (rule parsecmd_ok)
  show "run_line s = runcmd (map_cmd word c)" using assms by (rule run_line_parsed)
  show "\<forall>w\<in>set_cmd (map_cmd word c). list_all is_word w \<and> sublist w s"
  proof
    fix w
    assume "w \<in> set_cmd (map_cmd word c)"
    then obtain t where t: "t \<in> set_cmd c" "w = word t" by (auto simp: cmd.set_map)
    then obtain v where "fst t = v @ snd t" "list_all is_word v" "suffix (fst t) s"
      using ok by (auto simp: cmd_ok_def tok_ok_def)
    then show "list_all is_word w \<and> sublist w s" using t(2) word_eq [of t v] by (auto simp: suffix_def sublist_def)
  qed
qed

theorem run_line_words_witness:
  "\<exists>c. parsecmd (chars ''echo hi>f'') = Parsed c \<and>
     map_cmd word c = REDIR (EXEC [chars ''echo'', chars ''hi'']) (chars ''f'') (O_WRONLY OR O_CREATE OR O_TRUNC) 1 \<and>
     run_line (chars ''echo hi>f'') = (runcmd (map_cmd word c) :: (uproc, unit) kproc)"
proof -
  let ?s = "chars ''echo hi>f''"
  define c where "c = REDIR (EXEC [(?s, drop 4 ?s), (drop 5 ?s, drop 7 ?s)]) (drop 8 ?s, drop 9 ?s) (O_WRONLY OR O_CREATE OR O_TRUNC) 1"
  have p: "parsecmd ?s = Parsed c" unfolding c_def by code_simp
  moreover have "map_cmd word c = REDIR (EXEC [chars ''echo'', chars ''hi'']) (chars ''f'') (O_WRONLY OR O_CREATE OR O_TRUNC) 1"
    unfolding c_def by code_simp
  moreover have "run_line ?s = (runcmd (map_cmd word c) :: (uproc, unit) kproc)"
    by (rule run_line_words [THEN conjunct1, OF _ p]) (simp add: chars_def)
  ultimately show ?thesis by blast
qed

section \<open>More fuel\<close>

lemma parse_mono_Suc:
  "(\<forall>s. parseline n s \<noteq> PFuel \<longrightarrow> parseline (Suc n) s = parseline n s) \<and>
   (\<forall>s. parsepipe n s \<noteq> PFuel \<longrightarrow> parsepipe (Suc n) s = parsepipe n s) \<and>
   (\<forall>s. parseexec n s \<noteq> PFuel \<longrightarrow> parseexec (Suc n) s = parseexec n s) \<and>
   (\<forall>s. parseblock n s \<noteq> PFuel \<longrightarrow> parseblock (Suc n) s = parseblock n s)"
proof (induction n)
  case (Suc n)
  note IH = Suc.IH [THEN conjunct1, rule_format] Suc.IH [THEN conjunct2, THEN conjunct1, rule_format]
    Suc.IH [THEN conjunct2, THEN conjunct2, THEN conjunct1, rule_format] Suc.IH [THEN conjunct2, THEN conjunct2, THEN conjunct2, rule_format]
  have b: "pbind m' f' = pbind m f" if "pbind m f \<noteq> PFuel" "m \<noteq> PFuel \<Longrightarrow> m' = m" "\<And>x. m = POk x \<Longrightarrow> f x \<noteq> PFuel \<Longrightarrow> f' x = f x"
    for m m' :: "'x pres" and f f' :: "'x \<Rightarrow> 'y pres"
    using that by (cases m) auto
  have 1: "parseline (Suc (Suc n)) s = parseline (Suc n) s" if "parseline (Suc n) s \<noteq> PFuel" for s
    unfolding parseline.simps(2) [of "Suc n" s] parseline.simps(2) [of n s]
    by (rule b [OF that [unfolded parseline.simps(2) [of n s]] IH(2)])
      (auto split: prod.splits bool.splits intro!: b IH(1) simp del: parseline.simps(2) parsepipe.simps(2) parseexec.simps(2) parseblock.simps(2))
  have 2: "parsepipe (Suc (Suc n)) s = parsepipe (Suc n) s" if "parsepipe (Suc n) s \<noteq> PFuel" for s
    unfolding parsepipe.simps(2) [of "Suc n" s] parsepipe.simps(2) [of n s]
    by (rule b [OF that [unfolded parsepipe.simps(2) [of n s]] IH(3)])
      (auto split: prod.splits bool.splits intro!: b IH(2) simp del: parseline.simps(2) parsepipe.simps(2) parseexec.simps(2) parseblock.simps(2))
  have 3: "parseexec (Suc (Suc n)) s = parseexec (Suc n) s" if "parseexec (Suc n) s \<noteq> PFuel" for s
    using that IH(4) unfolding parseexec.simps(2) [of "Suc n" s] parseexec.simps(2) [of n s]
    by (auto split: prod.splits bool.splits simp del: parseline.simps(2) parsepipe.simps(2) parseexec.simps(2) parseblock.simps(2))
  have 4: "parseblock (Suc (Suc n)) s = parseblock (Suc n) s" if "parseblock (Suc n) s \<noteq> PFuel" for s
  proof -
    obtain b s1 where p: "peek ''('' s = (b, s1)" by (cases "peek ''('' s")
    obtain tok t s2 where g: "gettoken s1 = (tok, t, s2)" by (cases "gettoken s1")
    obtain t1 t2 where t: "t = (t1, t2)" by (cases t)
    have "parseline n s2 \<noteq> PFuel" if b using \<open>parseblock (Suc n) s \<noteq> PFuel\<close> that p g t by auto
    then show ?thesis
      unfolding parseblock.simps(2) [of "Suc n" s] parseblock.simps(2) [of n s] using p g t IH(1) [of s2]
      by (cases b) (simp_all del: parseline.simps)
  qed
  show ?case using 1 2 3 4 by blast
qed simp

lemma parse_mono:
  assumes "n \<le> m"
  shows "parseline n s \<noteq> PFuel \<Longrightarrow> parseline m s = parseline n s"
  using assms by (induction m rule: dec_induct) (use parse_mono_Suc in metis)+

end
