(* ===== verification/Sh_Roundtrip.thy ===== *)
theory Sh_Roundtrip
  imports Sh_Prop
begin

text \<open>
  Commands written out in the syntax of the shell, with the parentheses they need, are read back by its parser:
  every command the parser can build is the meaning of a line.
\<close>

section \<open>Writing commands\<close>

fun level :: "'p cmd \<Rightarrow> nat" where
  "level (EXEC argv) = 0"
| "level (REDIR c f m d) = 0"
| "level (PIPE l r) = 1"
| "level (BACK c) = 2"
| "level (LIST l r) = 3"

definition redir_sym :: "uint \<Rightarrow> int \<Rightarrow> byte list" where
  "redir_sym m d = (if d = 0 then [60] else if m = O_WRONLY OR O_CREATE OR O_TRUNC then [62] else [62, 62])"

definition paren :: "bool \<Rightarrow> byte list \<Rightarrow> byte list" where
  "paren b s = (if b then [40] @ s @ [41] else s)"

text \<open>A command where one of level k may stand: 0 in a redirection, 1 in a pipe, 2 before an ampersand, 3 on a line.\<close>

fun unparse :: "nat \<Rightarrow> byte list cmd \<Rightarrow> byte list" where
  "unparse k (EXEC argv) = concat (map (\<lambda>w. w @ [32]) argv)"
| "unparse k (REDIR c f m d) = unparse 0 c @ redir_sym m d @ f @ [32]"
| "unparse k (PIPE l r) = paren (k < 1) (unparse 0 l @ [124] @ unparse 1 r)"
| "unparse k (BACK c) = paren (k < 2) (unparse 2 c @ [38])"
| "unparse k (LIST l r) = paren (k < 3) (unparse 2 l @ [59] @ unparse 3 r)"

definition word_ok :: "byte list \<Rightarrow> bool" where
  "word_ok w \<longleftrightarrow> w \<noteq> [] \<and> list_all is_word w \<and> 0 \<notin> set w"

definition mode_ok :: "uint \<Rightarrow> int \<Rightarrow> bool" where
  "mode_ok m d \<longleftrightarrow> (m, d) \<in> {(O_RDONLY, 0), (O_WRONLY OR O_CREATE OR O_TRUNC, 1), (O_WRONLY OR O_CREATE, 1)}"

fun writable :: "byte list cmd \<Rightarrow> bool" where
  "writable (EXEC argv) \<longleftrightarrow> length argv < MAXARGS \<and> list_all word_ok argv"
| "writable (REDIR c f m d) \<longleftrightarrow> writable c \<and> word_ok f \<and> mode_ok m d"
| "writable (PIPE l r) \<longleftrightarrow> writable l \<and> writable r"
| "writable (BACK c) \<longleftrightarrow> writable c"
| "writable (LIST l r) \<longleftrightarrow> writable l \<and> writable r"

section \<open>Tokens of a text\<close>

declare dropWhile_eq_Nil_conv [simp del]

text \<open>Whitespace before a call of a parser does not matter.\<close>

lemma peek_ws [simp]: "peek toks (dropWhile is_ws s) = peek toks s"
  by (simp add: peek_def)

lemma parseredirs_ws [simp]: "parseredirs rs (dropWhile is_ws s) = parseredirs rs s"
  by (simp add: parseredirs.simps [of rs s] parseredirs.simps [of rs "dropWhile is_ws s"])

lemma parseargs_ws [simp]: "parseargs argv rs (dropWhile is_ws s) = parseargs argv rs s"
  by (simp add: parseargs.simps [of argv rs s] parseargs.simps [of argv rs "dropWhile is_ws s"])

lemma parseamps_ws [simp]: "parseamps c (dropWhile is_ws s) = parseamps c s"
  by (simp add: parseamps.simps [of c s] parseamps.simps [of c "dropWhile is_ws s"])

lemma parseexec_ws: "parseexec n (dropWhile is_ws s) = parseexec n s"
  by (cases n) simp_all

lemma parsepipe_ws: "parsepipe n (dropWhile is_ws s) = parsepipe n s"
  by (cases n) (simp_all add: parseexec_ws)

lemma parseline_ws: "parseline n (dropWhile is_ws s) = parseline n s"
  by (cases n) (simp_all add: parsepipe_ws)

lemma sym_byte:
  "\<not> is_ws 124" "\<not> is_ws 38" "\<not> is_ws 59" "\<not> is_ws 40" "\<not> is_ws 41" "\<not> is_ws 60" "\<not> is_ws 62" "is_ws 32"
  "\<not> is_word 124" "\<not> is_word 38" "\<not> is_word 59" "\<not> is_word 40" "\<not> is_word 41" "\<not> is_word 60" "\<not> is_word 62" "\<not> is_word 32"
  by (simp_all add: is_ws_def is_word_def sh_whitespace_def sh_symbols_def chars_def)

lemma peek_sym: "\<not> is_ws c \<Longrightarrow> peek toks (c # s) = (ustrchr (chars toks) c \<noteq> None, c # s)"
  by (simp add: peek_def)

lemma ustrchr_mem: "ustrchr s c = None \<longleftrightarrow> c \<notin> set s"
  by (induction s) auto

lemma word_not_sym: "is_word c \<Longrightarrow> set (chars toks) \<subseteq> set sh_symbols \<Longrightarrow> ustrchr (chars toks) c = None"
  by (auto simp: is_word_def ustrchr_mem)

lemma peek_word:
  assumes "word_ok w" and "set (chars toks) \<subseteq> set sh_symbols"
  shows "peek toks (w @ s) = (False, w @ s)"
proof -
  obtain c w' where "w = c # w'" "is_word c" using assms(1) by (cases w) (auto simp: word_ok_def)
  then show ?thesis using assms(2) word_not_sym [of c toks] by (simp add: peek_def is_word_def)
qed

lemma gettoken_sym: "c \<in> {124, 40, 41, 59, 38, 60} \<Longrightarrow> gettoken (c # s) = (c, (c # s, s), dropWhile is_ws s)"
  by (auto simp: gettoken_def sym_byte chars_def)

lemma gettoken_text:
  assumes "word_ok w" and "s = [] \<or> \<not> is_word (hd s)"
  shows "gettoken (w @ s) = (97, (w @ s, s), dropWhile is_ws s)"
proof -
  obtain c w' where w: "w = c # w'" "is_word c" using assms(1) by (cases w) (auto simp: word_ok_def)
  then have "c \<notin> set (chars ''|();&<'')" "c \<noteq> 62" "\<not> is_ws c"
    by (auto simp: is_word_def ustrchr_mem sh_symbols_def chars_def)
  moreover have "dropWhile is_word (w @ s) = s"
    using assms by (subst dropWhile_append2) (cases s; auto simp: word_ok_def list_all_iff)+
  ultimately show ?thesis using w by (simp add: gettoken_def)
qed

lemma word_pair [simp]: "word (w @ s, s) = w"
  by (simp add: word_def)

section \<open>Redirections and arguments\<close>

text \<open>What may follow: nothing, or one of some symbols.\<close>

definition stops :: "string \<Rightarrow> byte list \<Rightarrow> bool" where
  "stops toks s \<longleftrightarrow> (case dropWhile is_ws s of [] \<Rightarrow> True | c # _ \<Rightarrow> c \<in> set (chars toks))"

lemma stops_peek: "stops toks s \<Longrightarrow> set (chars toks) \<inter> set (chars toks') = {} \<Longrightarrow> peek toks' s = (False, dropWhile is_ws s)"
  by (auto simp: stops_def peek_def Let_def ustrchr_mem split: list.splits)

lemma stops_mono: "stops toks s \<Longrightarrow> set (chars toks) \<subseteq> set (chars toks') \<Longrightarrow> stops toks' s"
  by (cases "dropWhile is_ws s") (auto simp: stops_def)

lemma stops_ws [simp]: "stops toks (dropWhile is_ws s) = stops toks s"
  by (simp add: stops_def)

definition redir_text :: "byte list \<times> uint \<times> int \<Rightarrow> byte list" where
  "redir_text r = (case r of (f, m, d) \<Rightarrow> redir_sym m d @ f @ [32])"

definition redirs_text :: "(byte list \<times> uint \<times> int) list \<Rightarrow> byte list" where
  "redirs_text rs = concat (map redir_text rs)"

definition rwritable :: "byte list \<times> uint \<times> int \<Rightarrow> bool" where
  "rwritable r = (case r of (f, m, d) \<Rightarrow> word_ok f \<and> mode_ok m d)"

definition rwords :: "redir list \<Rightarrow> (byte list \<times> uint \<times> int) list" where
  "rwords rs = map (\<lambda>(t, m, d). (word t, m, d)) rs"

lemma modes_differ: "O_WRONLY OR O_CREATE OR O_TRUNC \<noteq> O_WRONLY OR O_CREATE"
  by (simp add: O_WRONLY_def O_CREATE_def O_TRUNC_def)

lemma parseredirs_one:
  assumes "rwritable (f, m, d)"
  shows "parseredirs rs (redir_text (f, m, d) @ s) = parseredirs (rs @ [((f @ 32 # s, 32 # s), m, d)]) s"
proof -
  have f: "word_ok f" and md: "mode_ok m d" using assms by (simp_all add: rwritable_def)
  obtain c f' where c: "f = c # f'" "is_word c" using f by (cases f) (auto simp: word_ok_def)
  have ws: "\<not> is_ws c" "c \<noteq> 62" using c(2) sym_byte by (auto simp: is_word_def)
  have g: "gettoken (f @ 32 # s) = (97, (f @ 32 # s, 32 # s), dropWhile is_ws s)"
    using gettoken_text [OF f, of "32 # s"] by (simp add: sym_byte)
  have p: "peek ''<>'' (x # y) = (True, x # y)" if "x = 60 \<or> x = 62" for x y
    using that by (auto simp: peek_sym sym_byte chars_def)
  consider "m = O_RDONLY" "d = 0" | "m = O_WRONLY OR O_CREATE OR O_TRUNC" "d = 1" | "m = O_WRONLY OR O_CREATE" "d = 1"
    using md by (auto simp: mode_ok_def)
  then show ?thesis
  proof cases
    case 1
    have "gettoken (60 # f @ 32 # s) = (60, (60 # f @ 32 # s, f @ 32 # s), f @ 32 # s)"
      using c ws by (simp add: gettoken_sym)
    then show ?thesis using parseredirs_step [OF p _ g] 1 by (simp add: redir_text_def redir_sym_def redir_of_def)
  next
    case 2
    have "gettoken (62 # f @ 32 # s) = (62, (62 # f @ 32 # s, f @ 32 # s), f @ 32 # s)"
      using c ws by (simp add: gettoken_def sym_byte chars_def nth0_def)
    then show ?thesis using parseredirs_step [OF p _ g] 2 by (simp add: redir_text_def redir_sym_def redir_of_def)
  next
    case 3
    have "gettoken (62 # 62 # f @ 32 # s) = (43, (62 # 62 # f @ 32 # s, f @ 32 # s), f @ 32 # s)"
      using c ws by (simp add: gettoken_def sym_byte chars_def nth0_def)
    then show ?thesis using parseredirs_step [OF p _ g] 3 modes_differ by (simp add: redir_text_def redir_sym_def redir_of_def)
  qed
qed

lemma parseredirs_text:
  assumes "list_all rwritable rs" and "peek ''<>'' s = (False, dropWhile is_ws s)"
  shows "\<exists>rs'. parseredirs rs0 (redirs_text rs @ s) = POk (rs0 @ rs', dropWhile is_ws s) \<and> rwords rs' = rs"
  using assms(1)
proof (induction rs arbitrary: rs0)
  case Nil
  then show ?case using parseredirs_stop [OF assms(2)] by (simp add: redirs_text_def rwords_def)
next
  case (Cons r rs)
  obtain f m d where r: "r = (f, m, d)" by (cases r)
  let ?s = "redirs_text rs @ s"
  let ?rs0 = "rs0 @ [((f @ 32 # ?s, 32 # ?s), m, d)]"
  have "list_all rwritable rs" using Cons.prems by simp
  then obtain rs' where "parseredirs ?rs0 ?s = POk (?rs0 @ rs', dropWhile is_ws s)" "rwords rs' = rs"
    using Cons.IH [of ?rs0] by blast
  moreover have "redirs_text (r # rs) @ s = redir_text (f, m, d) @ ?s" by (simp add: redirs_text_def r)
  ultimately show ?case
    using parseredirs_one [of f m d rs0 ?s] Cons.prems
    by (intro exI [of _ "((f @ 32 # ?s, 32 # ?s), m, d) # rs'"]) (simp add: r rwords_def)
qed

text \<open>The arguments of a command, then its redirections.\<close>

definition args_text :: "byte list list \<Rightarrow> byte list" where
  "args_text ws = concat (map (\<lambda>w. w @ [32]) ws)"

lemma parseargs_end:
  assumes "stops ''|)&;'' s"
  shows "parseargs argv rs s = POk (redircmds rs (EXEC argv), dropWhile is_ws s)"
proof (cases "dropWhile is_ws s")
  case Nil
  have "peek ''|)&;'' s = (False, [])" "gettoken [] = (0, ([], []), [])" using Nil by (simp_all add: peek_def gettoken_def)
  then show ?thesis using parseargs_go [of s "[]" 0 "([], [])" "[]" argv rs] Nil by simp
next
  case (Cons c r)
  then have "peek ''|)&;'' s = (True, dropWhile is_ws s)" using assms by (auto simp: stops_def peek_def ustrchr_mem)
  then show ?thesis by (rule parseargs_stop)
qed

lemma stops_redirs: "stops ''|)&;'' s \<Longrightarrow> peek ''<>'' s = (False, dropWhile is_ws s)"
  by (rule stops_peek, assumption) code_simp

lemma redirs_head: "rs \<noteq> [] \<Longrightarrow> list_all rwritable rs \<Longrightarrow> \<exists>r. redirs_text rs @ s = 60 # r \<or> redirs_text rs @ s = 62 # r"
  by (cases rs) (auto simp: redirs_text_def redir_text_def redir_sym_def)

lemma parseargs_text:
  assumes "list_all word_ok ws" and "list_all rwritable rs" and "stops ''|)&;'' s" and "length argv + length ws < MAXARGS"
    and "ws \<noteq> []"
  shows "\<exists>ts rs'. parseargs argv rs0 (args_text ws @ redirs_text rs @ s) =
      POk (redircmds (rs0 @ rs') (EXEC (argv @ ts)), dropWhile is_ws s) \<and> map word ts = ws \<and> rwords rs' = rs"
  using assms(1,4,5)
proof (induction ws arbitrary: argv)
  case (Cons w ws)
  let ?s = "args_text ws @ redirs_text rs @ s"
  let ?t = "(w @ 32 # ?s, 32 # ?s)"
  have w: "word_ok w" using Cons.prems by simp
  have e: "args_text (w # ws) @ redirs_text rs @ s = w @ 32 # ?s" by (simp add: args_text_def)
  have p: "peek ''|)&;'' (w @ 32 # ?s) = (False, w @ 32 # ?s)"
    using w by (rule peek_word) (simp add: chars_def sh_symbols_def)
  have g: "gettoken (w @ 32 # ?s) = (97, ?t, dropWhile is_ws ?s)"
    using gettoken_text [OF w, of "32 # ?s"] by (simp add: sym_byte)
  have go: "parseargs argv rs0 (w @ 32 # ?s) = pbind (parseredirs rs0 ?s) (\<lambda>(rs', s3). parseargs (argv @ [?t]) rs' s3)"
    using parseargs_go [OF p g] Cons.prems by simp
  show ?case
  proof (cases ws)
    case Nil
    obtain rs' where "parseredirs rs0 ?s = POk (rs0 @ rs', dropWhile is_ws s)" "rwords rs' = rs"
      using parseredirs_text [OF assms(2) stops_redirs [OF assms(3)], of rs0] Nil by (auto simp: args_text_def)
    then show ?thesis
      unfolding e go using Nil parseargs_end [OF assms(3)]
      by (intro exI [of _ "[?t]"] exI [of _ rs']) simp
  next
    case (Cons w' ws')
    have "word_ok w'" using Cons.prems Cons by simp
    then have "peek ''<>'' ?s = (False, ?s)"
      using peek_word [of w' "''<>''" "32 # args_text ws' @ redirs_text rs @ s"] Cons
      by (simp add: args_text_def chars_def sh_symbols_def)
    then have "parseredirs rs0 ?s = POk (rs0, ?s)" by (rule parseredirs_stop)
    moreover obtain ts rs' where "parseargs (argv @ [?t]) rs0 ?s = POk (redircmds (rs0 @ rs') (EXEC ((argv @ [?t]) @ ts)), dropWhile is_ws s)"
      "map word ts = ws" "rwords rs' = rs"
      using Cons.IH [of "argv @ [?t]"] Cons.prems Cons by auto
    ultimately show ?thesis
      unfolding e go by (intro exI [of _ "?t # ts"] exI [of _ rs']) simp
  qed
qed simp

section \<open>Commands\<close>

definition wrap :: "(byte list \<times> uint \<times> int) list \<Rightarrow> byte list cmd \<Rightarrow> byte list cmd" where
  "wrap rs c = fold (\<lambda>(f, m, d) c. REDIR c f m d) rs c"

lemma wrap_snoc: "wrap (rs @ [(f, m, d)]) c = REDIR (wrap rs c) f m d"
  by (simp add: wrap_def)

lemma map_redircmds: "map_cmd word (redircmds rs c) = wrap (rwords rs) (map_cmd word c)"
proof (induction rs arbitrary: c)
  case (Cons r rs)
  obtain f m d where "r = (f, m, d)" by (cases r)
  then show ?case using Cons [of "REDIR c f m d"] by (simp add: wrap_def rwords_def)
qed (simp add: wrap_def rwords_def)

lemma rwritable_redir: "rwritable (f, m, d) \<longleftrightarrow> word_ok f \<and> mode_ok m d"
  by (simp add: rwritable_def)

text \<open>The command inside its redirections.\<close>

lemma unwrap:
  assumes "writable c"
  obtains b rs where "c = wrap rs b" and "\<forall>d f m fd. b \<noteq> REDIR d f m fd" and "writable b" and "list_all rwritable rs"
    and "unparse 0 c = unparse 0 b @ redirs_text rs" and "size b \<le> size c"
proof -
  let ?P = "\<lambda>c. \<exists>b rs. c = wrap rs b \<and> (\<forall>d f m fd. b \<noteq> REDIR d f m fd) \<and> writable b \<and> list_all rwritable rs \<and>
      unparse 0 c = unparse 0 b @ redirs_text rs \<and> size b \<le> size c"
  have base: "?P c" if "writable c" and "\<forall>d f m fd. c \<noteq> REDIR d f m fd" for c
    using that by (intro exI [of _ c] exI [of _ "[]"]) (simp add: wrap_def redirs_text_def)
  have "?P c"
    using assms
  proof (induction c)
    case (REDIR c f m d)
    then obtain b rs where "c = wrap rs b" "\<forall>d f m fd. b \<noteq> REDIR d f m fd" "writable b" "list_all rwritable rs"
      "unparse 0 c = unparse 0 b @ redirs_text rs" "size b \<le> size c" by auto
    then show ?case
      using REDIR.prems
      by (intro exI [of _ b] exI [of _ "rs @ [(f, m, d)]"])
        (simp add: wrap_snoc redirs_text_def redir_text_def rwritable_redir)
  qed (rule base; simp)+
  then show thesis using that by blast
qed

text \<open>What the parsers do on the text of a command, with enough fuel.\<close>

definition okE :: "byte list cmd \<Rightarrow> bool" where
  "okE c \<longleftrightarrow> (\<forall>rest. stops ''|)&;'' rest \<longrightarrow> (\<exists>N c'. map_cmd word c' = c \<and>
     (\<forall>n\<ge>N. parseexec n (unparse 0 c @ rest) = POk (c', dropWhile is_ws rest))))"

definition okP :: "byte list cmd \<Rightarrow> bool" where
  "okP c \<longleftrightarrow> (\<forall>rest. stops '')&;'' rest \<longrightarrow> (\<exists>N c'. map_cmd word c' = c \<and>
     (\<forall>n\<ge>N. parsepipe n (unparse 1 c @ rest) = POk (c', dropWhile is_ws rest))))"

definition okB :: "byte list cmd \<Rightarrow> bool" where
  "okB c \<longleftrightarrow> (\<forall>rest. stops '')&;'' rest \<longrightarrow> (\<exists>N c1 s1 c'. map_cmd word c' = c \<and>
     (\<forall>n\<ge>N. parsepipe n (unparse 2 c @ rest) = POk (c1, s1)) \<and> parseamps c1 s1 = parseamps c' rest))"

definition okL :: "byte list cmd \<Rightarrow> bool" where
  "okL c \<longleftrightarrow> (\<forall>rest. stops '')'' rest \<longrightarrow> (\<exists>N c'. map_cmd word c' = c \<and>
     (\<forall>n\<ge>N. parseline n (unparse 3 c @ rest) = POk (c', dropWhile is_ws rest))))"

lemma fuelE: "Suc N \<le> n \<Longrightarrow> (\<And>m. n = Suc m \<Longrightarrow> N \<le> m \<Longrightarrow> P) \<Longrightarrow> P"
  by (cases n) auto

lemma okP_lift:
  assumes "okE c" and "unparse 1 c = unparse 0 c"
  shows "okP c"
  unfolding okP_def
proof (intro allI impI)
  fix rest
  assume r: "stops '')&;'' rest"
  have "stops ''|)&;'' rest" using r by (rule stops_mono) code_simp
  then obtain N c' where c': "map_cmd word c' = c" "\<And>n. n \<ge> N \<Longrightarrow> parseexec n (unparse 0 c @ rest) = POk (c', dropWhile is_ws rest)"
    using assms(1) unfolding okE_def by blast
  have p: "peek ''|'' rest = (False, dropWhile is_ws rest)" using r by (rule stops_peek) code_simp
  have "parsepipe n (unparse 1 c @ rest) = POk (c', dropWhile is_ws rest)" if "Suc N \<le> n" for n
    using that by (rule fuelE) (simp add: assms(2) c'(2) p del: One_nat_def)
  then show "\<exists>N c'. map_cmd word c' = c \<and> (\<forall>n\<ge>N. parsepipe n (unparse 1 c @ rest) = POk (c', dropWhile is_ws rest))"
    using c'(1) by blast
qed

lemma okB_lift: "okP c \<Longrightarrow> unparse 2 c = unparse 1 c \<Longrightarrow> okB c"
  unfolding okP_def okB_def by (metis parseamps_ws)

lemma okL_lift:
  assumes "okB c" and "unparse 3 c = unparse 2 c"
  shows "okL c"
  unfolding okL_def
proof (intro allI impI)
  fix rest
  assume r: "stops '')'' rest"
  have "stops '')&;'' rest" using r by (rule stops_mono) code_simp
  then obtain N c1 s1 c' where c': "map_cmd word c' = c" "\<And>n. n \<ge> N \<Longrightarrow> parsepipe n (unparse 2 c @ rest) = POk (c1, s1)"
    "parseamps c1 s1 = parseamps c' rest"
    using assms(1) unfolding okB_def by blast
  have p: "peek ''&'' rest = (False, dropWhile is_ws rest)" "peek '';'' rest = (False, dropWhile is_ws rest)"
    by (rule stops_peek [OF r], code_simp)+
  have "parseline n (unparse 3 c @ rest) = POk (c', dropWhile is_ws rest)" if "Suc N \<le> n" for n
    using that by (rule fuelE) (simp add: assms(2) c'(2,3) parseamps_stop [OF p(1)] p(2))
  then show "\<exists>N c'. map_cmd word c' = c \<and> (\<forall>n\<ge>N. parseline n (unparse 3 c @ rest) = POk (c', dropWhile is_ws rest))"
    using c'(1) by blast
qed

lemma stops_sym: "\<not> is_ws x \<Longrightarrow> stops toks (x # s) \<longleftrightarrow> x \<in> set (chars toks)"
  by (simp add: stops_def)

lemma okP_PIPE:
  assumes "okE l" and "okP r"
  shows "okP (PIPE l r)"
  unfolding okP_def
proof (intro allI impI)
  fix rest
  assume rest: "stops '')&;'' rest"
  let ?s = "124 # unparse 1 r @ rest"
  have "stops ''|)&;'' ?s" by (simp add: stops_sym sym_byte chars_def)
  then obtain N l' where l: "map_cmd word l' = l" "\<And>n. n \<ge> N \<Longrightarrow> parseexec n (unparse 0 l @ ?s) = POk (l', dropWhile is_ws ?s)"
    using assms(1) unfolding okE_def by blast
  obtain M r' where r: "map_cmd word r' = r" "\<And>n. n \<ge> M \<Longrightarrow> parsepipe n (unparse 1 r @ rest) = POk (r', dropWhile is_ws rest)"
    using assms(2) rest unfolding okP_def by blast
  have p: "peek ''|'' ?s = (True, ?s)" by (simp add: peek_sym sym_byte chars_def)
  have "parsepipe n (unparse 1 (PIPE l r) @ rest) = POk (PIPE l' r', dropWhile is_ws rest)" if "Suc (max N M) \<le> n" for n
    using that by (rule fuelE) (simp add: paren_def l(2) r(2) p sym_byte gettoken_sym parsepipe_ws del: One_nat_def)
  then show "\<exists>N c'. map_cmd word c' = PIPE l r \<and> (\<forall>n\<ge>N. parsepipe n (unparse 1 (PIPE l r) @ rest) = POk (c', dropWhile is_ws rest))"
    using l(1) r(1) by (intro exI [of _ "Suc (max N M)"] exI [of _ "PIPE l' r'"]) simp
qed

lemma okB_BACK:
  assumes "okB c"
  shows "okB (BACK c)"
  unfolding okB_def
proof (intro allI impI)
  fix rest
  assume "stops '')&;'' rest"
  have "stops '')&;'' (38 # rest)" by (simp add: stops_sym sym_byte chars_def)
  then obtain N c1 s1 c' where c: "map_cmd word c' = c" "\<And>n. n \<ge> N \<Longrightarrow> parsepipe n (unparse 2 c @ 38 # rest) = POk (c1, s1)"
    "parseamps c1 s1 = parseamps c' (38 # rest)"
    using assms unfolding okB_def by blast
  have "peek ''&'' (38 # rest) = (True, 38 # rest)" by (simp add: peek_sym sym_byte chars_def)
  then have "parseamps c' (38 # rest) = parseamps (BACK c') rest"
    using parseamps_go [of "38 # rest" "38 # rest"] by (simp add: gettoken_sym)
  then show "\<exists>N c1 s1 c''. map_cmd word c'' = BACK c \<and>
     (\<forall>n\<ge>N. parsepipe n (unparse 2 (BACK c) @ rest) = POk (c1, s1)) \<and> parseamps c1 s1 = parseamps c'' rest"
    using c by (intro exI [of _ N] exI [of _ c1] exI [of _ s1] exI [of _ "BACK c'"]) (simp add: paren_def)
qed

lemma okL_LIST:
  assumes "okB l" and "okL r"
  shows "okL (LIST l r)"
  unfolding okL_def
proof (intro allI impI)
  fix rest
  assume rest: "stops '')'' rest"
  let ?s = "59 # unparse 3 r @ rest"
  have "stops '')&;'' ?s" by (simp add: stops_sym sym_byte chars_def)
  then obtain N c1 s1 l' where l: "map_cmd word l' = l" "\<And>n. n \<ge> N \<Longrightarrow> parsepipe n (unparse 2 l @ ?s) = POk (c1, s1)"
    "parseamps c1 s1 = parseamps l' ?s"
    using assms(1) unfolding okB_def by blast
  obtain M r' where r: "map_cmd word r' = r" "\<And>n. n \<ge> M \<Longrightarrow> parseline n (unparse 3 r @ rest) = POk (r', dropWhile is_ws rest)"
    using assms(2) rest unfolding okL_def by blast
  have p: "peek '';'' ?s = (True, ?s)" "peek ''&'' ?s = (False, ?s)" by (simp_all add: peek_sym sym_byte chars_def)
  have "parseline n (unparse 3 (LIST l r) @ rest) = POk (LIST l' r', dropWhile is_ws rest)" if "Suc (max N M) \<le> n" for n
    using that by (rule fuelE) (simp add: paren_def l(2,3) r(2) p parseamps_stop gettoken_sym parseline_ws)
  then show "\<exists>N c'. map_cmd word c' = LIST l r \<and> (\<forall>n\<ge>N. parseline n (unparse 3 (LIST l r) @ rest) = POk (c', dropWhile is_ws rest))"
    using l(1) r(1) by (intro exI [of _ "Suc (max N M)"] exI [of _ "LIST l' r'"]) simp
qed

lemma okE_EXEC:
  assumes "writable (EXEC ws)" and "list_all rwritable rs" and text_eq: "unparse 0 (wrap rs (EXEC ws)) = args_text ws @ redirs_text rs"
  shows "okE (wrap rs (EXEC ws))"
  unfolding okE_def
proof (intro allI impI)
  fix rest
  assume rest: "stops ''|)&;'' rest"
  have ws: "list_all word_ok ws" "length ws < MAXARGS" using assms(1) by simp_all
  let ?s = "args_text ws @ redirs_text rs @ rest"
  have "\<exists>ts rs'. (\<forall>n. parseexec (Suc n) ?s = POk (redircmds rs' (EXEC ts), dropWhile is_ws rest)) \<and> map word ts = ws \<and> rwords rs' = rs"
  proof (cases ws)
    case Nil
    obtain rs' where r: "parseredirs [] ?s = POk (rs', dropWhile is_ws rest)" "rwords rs' = rs"
      using parseredirs_text [OF assms(2) stops_redirs [OF rest], of "[]"] Nil by (auto simp: args_text_def)
    have "peek ''('' rest = (False, dropWhile is_ws rest)" using rest by (rule stops_peek) code_simp
    then have "peek ''('' ?s = (False, dropWhile is_ws ?s)"
      using redirs_head [OF _ assms(2), of rest] Nil
      by (cases "rs = []") (auto simp: args_text_def redirs_text_def peek_sym sym_byte chars_def)
    then show ?thesis
      using r Nil parseargs_end [OF rest] by (intro exI [of _ "[]"] exI [of _ rs']) simp
  next
    case (Cons w ws')
    have "word_ok w" using ws Cons by simp
    then have p: "peek toks ?s = (False, ?s)" if "set (chars toks) \<subseteq> set sh_symbols" for toks
      using peek_word [OF _ that, of w "32 # args_text ws' @ redirs_text rs @ rest"] Cons by (simp add: args_text_def)
    have "peek ''('' ?s = (False, ?s)" "peek ''<>'' ?s = (False, ?s)" by (rule p, simp add: chars_def sh_symbols_def)+
    moreover from this(2) have "parseredirs [] ?s = POk ([], ?s)" by (rule parseredirs_stop)
    ultimately show ?thesis
      using parseargs_text [OF ws(1) assms(2) rest, of "[]" "[]"] ws(2) Cons by simp
  qed
  then obtain ts rs' where e: "\<And>n. parseexec (Suc n) ?s = POk (redircmds rs' (EXEC ts), dropWhile is_ws rest)"
    and "map word ts = ws" "rwords rs' = rs"
    by blast
  moreover have "parseexec n ?s = POk (redircmds rs' (EXEC ts), dropWhile is_ws rest)" if "Suc 0 \<le> n" for n
    using that by (rule fuelE) (simp only: e)
  ultimately show "\<exists>N c'. map_cmd word c' = wrap rs (EXEC ws) \<and>
      (\<forall>n\<ge>N. parseexec n (unparse 0 (wrap rs (EXEC ws)) @ rest) = POk (c', dropWhile is_ws rest))"
    unfolding text_eq
    by (intro exI [of _ "Suc 0"] exI [of _ "redircmds rs' (EXEC ts)"]) (simp add: map_redircmds del: parseexec.simps)
qed

lemma okE_block:
  assumes "okL b" and "list_all rwritable rs" and text_eq: "unparse 0 (wrap rs b) = 40 # unparse 3 b @ 41 # redirs_text rs"
  shows "okE (wrap rs b)"
  unfolding okE_def
proof (intro allI impI)
  fix rest
  assume rest: "stops ''|)&;'' rest"
  let ?r = "41 # redirs_text rs @ rest"
  have "stops '')'' ?r" by (simp add: stops_sym sym_byte chars_def)
  then obtain N b' where b: "map_cmd word b' = b" "\<And>n. n \<ge> N \<Longrightarrow> parseline n (unparse 3 b @ ?r) = POk (b', dropWhile is_ws ?r)"
    using assms(1) unfolding okL_def by blast
  obtain rs' where r: "parseredirs [] (redirs_text rs @ rest) = POk (rs', dropWhile is_ws rest)" "rwords rs' = rs"
    using parseredirs_text [OF assms(2) stops_redirs [OF rest], of "[]"] by auto
  let ?s = "40 # unparse 3 b @ ?r"
  have p: "peek ''('' ?s = (True, ?s)" "peek '')'' ?r = (True, ?r)" by (simp_all add: peek_sym sym_byte chars_def)
  have "parseexec n ?s = POk (redircmds rs' b', dropWhile is_ws rest)" if "Suc (Suc N) \<le> n" for n
    using that by (elim fuelE) (simp add: b(2) r(1) p gettoken_sym parseline_ws sym_byte)
  then show "\<exists>N c'. map_cmd word c' = wrap rs b \<and>
      (\<forall>n\<ge>N. parseexec n (unparse 0 (wrap rs b) @ rest) = POk (c', dropWhile is_ws rest))"
    unfolding text_eq using b(1) r(2)
    by (intro exI [of _ "Suc (Suc N)"] exI [of _ "redircmds rs' b'"]) (simp add: map_redircmds)
qed

lemma ok_lifts:
  "okE c \<Longrightarrow> level c \<noteq> 1 \<Longrightarrow> okP c" "okP c \<Longrightarrow> level c \<noteq> 2 \<Longrightarrow> okB c" "okB c \<Longrightarrow> level c \<noteq> 3 \<Longrightarrow> okL c"
  using okP_lift [of c] okB_lift [of c] okL_lift [of c] by (cases c; simp add: paren_def)+

lemma unparse_block: "level b \<noteq> 0 \<Longrightarrow> unparse 0 b = 40 # unparse 3 b @ [41]"
  by (cases b) (simp_all add: paren_def)

lemma level_wrap: "rs \<noteq> [] \<Longrightarrow> level (wrap rs b) = 0"
  by (cases rs rule: rev_cases) (auto simp: wrap_def)

text \<open>A command that is neither a list of words nor a redirection, from its parts.\<close>

lemma ok_inner:
  assumes "writable b" and "level b \<noteq> 0" and "\<And>d. size d < size b \<Longrightarrow> writable d \<Longrightarrow> okE d \<and> okP d \<and> okB d \<and> okL d"
  shows "(level b = 1 \<longrightarrow> okP b) \<and> (level b \<le> 2 \<longrightarrow> okB b) \<and> okL b"
proof (cases b)
  case (PIPE l r)
  then have "okP b" using assms(1) assms(3) [of l] assms(3) [of r] okP_PIPE by simp
  then show ?thesis using ok_lifts(2,3) PIPE by simp
next
  case (BACK d)
  then have "okB b" using assms(1) assms(3) [of d] okB_BACK by simp
  then show ?thesis using ok_lifts(3) BACK by simp
next
  case (LIST l r)
  then have "okL b" using assms(1) assms(3) [of l] assms(3) [of r] okL_LIST by simp
  then show ?thesis using LIST by simp
qed (use assms(2) in simp_all)

lemma ok_all: "writable c \<Longrightarrow> okE c \<and> okP c \<and> okB c \<and> okL c"
proof (induction "size c" arbitrary: c rule: less_induct)
  case less
  obtain b rs where c: "c = wrap rs b" and b: "\<forall>d f m fd. b \<noteq> REDIR d f m fd" "writable b" "size b \<le> size c"
    and rs: "list_all rwritable rs" and t: "unparse 0 c = unparse 0 b @ redirs_text rs"
    using unwrap [OF less.prems] by blast
  show ?case
  proof (cases "level b = 0")
    case True
    then obtain ws where ws: "b = EXEC ws" using b(1) by (cases b) auto
    have "okE c" using okE_EXEC [of ws rs] b(2) rs t unfolding c ws by (simp add: args_text_def)
    moreover have "level c = 0" unfolding c using True level_wrap [of rs b] by (cases "rs = []") (auto simp: wrap_def)
    ultimately show ?thesis using ok_lifts by simp
  next
    case False
    have inner: "(level b = 1 \<longrightarrow> okP b) \<and> (level b \<le> 2 \<longrightarrow> okB b) \<and> okL b"
      using b(2) False by (rule ok_inner) (use less.hyps b(3) in force)
    have E: "okE c" using inner okE_block [of b rs] rs t unparse_block [OF False] unfolding c by simp
    show ?thesis
    proof (cases "rs = []")
      case True
      then have "c = b" by (simp add: c wrap_def)
      then show ?thesis using E inner ok_lifts [of b] by force
    next
      case False
      then show ?thesis using E ok_lifts [of c] level_wrap [of rs b] c by simp
    qed
  qed
qed

lemma parsecmd_unparse:
  assumes "writable c"
  shows "\<exists>c'. parsecmd (unparse 3 c) = Parsed c' \<and> map_cmd word c' = c"
proof -
  let ?s = "unparse 3 c"
  have "stops '')'' []" by (simp add: stops_def)
  then obtain N c' where c': "map_cmd word c' = c" "\<And>n. n \<ge> N \<Longrightarrow> parseline n (?s @ []) = POk (c', [])"
    using ok_all [OF assms] unfolding okL_def by force
  let ?n = "4 * length ?s + 4"
  have "parseline ?n ?s \<noteq> PFuel" using parse_total [of ?n] by blast
  then have "parseline (max ?n N) ?s = parseline ?n ?s" by (rule parse_mono [OF max.cobounded1])
  then have "parseline ?n ?s = POk (c', [])" using c'(2) [of "max ?n N"] by simp
  then show ?thesis using c'(1) by (simp add: parsecmd_def peek_def)
qed

lemma unparse_no_nul: "writable c \<Longrightarrow> 0 \<notin> set (unparse k c)"
  by (induction c arbitrary: k) (auto simp: word_ok_def list_all_iff paren_def redir_sym_def)

text \<open>
  C30. Writing a command in the syntax of the shell, with a space after every word and parentheses only where the
  level of the command asks for them, and running that line runs this command: pipes, lists, background jobs,
  blocks and redirections nest as deep as one likes and come back with the same structure and the same words.
\<close>

theorem run_line_roundtrip:
  assumes "writable c"
  shows "run_line (unparse 3 c) = runcmd c"
  using parsecmd_unparse [OF assms] run_line_parsed [OF unparse_no_nul [OF assms]] by blast

theorem run_line_roundtrip_witness:
  "\<exists>c. c = PIPE (REDIR (LIST (EXEC [chars ''ls'']) (BACK (EXEC [chars ''wc'', chars ''x'']))) (chars ''f'') (O_WRONLY OR O_CREATE) 1)
         (EXEC [chars ''grep'', chars ''a'']) \<and>
     unparse 3 c = chars ''(ls ;wc x &)>>f |grep a '' \<and>
     run_line (chars ''(ls ;wc x &)>>f |grep a '') = (runcmd c :: (uproc, unit) kproc)"
proof -
  define c where "c = PIPE (REDIR (LIST (EXEC [chars ''ls'']) (BACK (EXEC [chars ''wc'', chars ''x'']))) (chars ''f'') (O_WRONLY OR O_CREATE) 1)
         (EXEC [chars ''grep'', chars ''a''])"
  have "writable c" unfolding c_def by code_simp
  moreover have "unparse 3 c = chars ''(ls ;wc x &)>>f |grep a ''" unfolding c_def by code_simp
  ultimately show ?thesis using run_line_roundtrip [of c, where ?'a = unit] unfolding c_def by metis
qed

end
