(* ===== verification/Umalloc.thy ===== *)
theory Umalloc
  imports Ulib
begin

text \<open>
  The user program's memory allocator, user/umalloc.c, over the byte memory of the process.  A block is a header of 16 bytes,
  the pointer to the next free block and the size in units of 16 bytes (header included), followed by its payload.
  The free blocks and the static header \<open>base\<close> form a ring in the order of their addresses; \<open>freep\<close> points somewhere in it.
  sbrk() is the system call \<open>USbrk\<close>, whose answers are those of the process's state.
\<close>

section \<open>Headers\<close>

definition hptr :: "mem \<Rightarrow> addr \<Rightarrow> addr" where
  "hptr m a = load64 m a"

definition hsize :: "mem \<Rightarrow> addr \<Rightarrow> uint" where
  "hsize m a = le_dec (rd_bytes m (a + 8) 4)"

definition set_hptr :: "mem \<Rightarrow> addr \<Rightarrow> addr \<Rightarrow> mem" where
  "set_hptr m a v = store64 m a v"

definition set_hsize :: "mem \<Rightarrow> addr \<Rightarrow> uint \<Rightarrow> mem" where
  "set_hsize m a v = wr_bytes m (a + 8) (le_enc 4 v)"

text \<open>Pointer arithmetic on Header*.\<close>

definition hplus :: "addr \<Rightarrow> uint \<Rightarrow> addr" where
  "hplus p n = p + 16 * ucast n"

record uheap = uproc +
  umem :: mem
  ubase :: addr
  freep :: addr

section \<open>free, morecore, malloc\<close>

text \<open>The loop of free() that looks for the free block before bp.\<close>

partial_function (option) free_loop :: "mem \<Rightarrow> addr \<Rightarrow> addr \<Rightarrow> addr option" where
  "free_loop m bp p =
     (if bp > p \<and> bp < hptr m p then Some p
      else if p \<ge> hptr m p \<and> (bp > p \<or> bp < hptr m p) then Some p
      else free_loop m bp (hptr m p))"

definition free_next :: "mem \<Rightarrow> addr \<Rightarrow> addr \<Rightarrow> mem" where
  "free_next m bp p =
     (if hplus bp (hsize m bp) = hptr m p
      then let m' = set_hsize m bp (hsize m bp + hsize m (hptr m p)) in set_hptr m' bp (hptr m' (hptr m' p))
      else set_hptr m bp (hptr m p))"

definition free_prev :: "mem \<Rightarrow> addr \<Rightarrow> addr \<Rightarrow> mem" where
  "free_prev m bp p =
     (if hplus p (hsize m p) = bp
      then let m' = set_hsize m p (hsize m p + hsize m bp) in set_hptr m' p (hptr m' bp)
      else set_hptr m p bp)"

definition ufree :: "addr \<Rightarrow> ('a uheap_scheme, unit) kproc" where
  "ufree ap =
     (let bp = ap - 16 in
      bind (gets (\<lambda>s. free_loop (umem s) bp (freep s))) (\<lambda>r. case r of None \<Rightarrow> hang | Some p \<Rightarrow>
      modify (\<lambda>s. s\<lparr>umem := free_prev (free_next (umem s) bp p) bp p, freep := p\<rparr>)))"

definition morecore :: "uint \<Rightarrow> ('a uheap_scheme, addr) kproc" where
  "morecore nu =
     (let nu = (if nu < 4096 then 4096 else nu) in
      bind (sysret (USbrk (sint (ucast (ucast nu * 16 :: uint64) :: uint)))) (\<lambda>p.
      if p = -1 then return 0
      else let hp = word_of_int p in
        bind (modify (\<lambda>s. s\<lparr>umem := set_hsize (umem s) hp nu\<rparr>)) (\<lambda>_.
        bind (ufree (hp + 16)) (\<lambda>_.
        gets freep))))"

text \<open>What malloc() does with a block p that is large enough.\<close>

definition malloc_take :: "uint \<Rightarrow> addr \<Rightarrow> addr \<Rightarrow> 'a uheap_scheme \<Rightarrow> addr \<times> 'a uheap_scheme" where
  "malloc_take nunits prevp p s =
     (let m = umem s in
      if hsize m p = nunits then (p + 16, s\<lparr>umem := set_hptr m prevp (hptr m p), freep := prevp\<rparr>)
      else let m1 = set_hsize m p (hsize m p - nunits); p' = hplus p (hsize m1 p) in
        (p' + 16, s\<lparr>umem := set_hsize m1 p' nunits, freep := prevp\<rparr>))"

partial_function (option) malloc_loop :: "uint \<Rightarrow> addr \<Rightarrow> addr \<Rightarrow> 'a uheap_scheme \<Rightarrow> (addr \<times> 'a uheap_scheme) option" where
  "malloc_loop nunits prevp p s =
     (if hsize (umem s) p \<ge> nunits then Some (malloc_take nunits prevp p s)
      else if p = freep s then
        (case morecore nunits s of
           Ret r t \<Rightarrow> if r = 0 then Some (0, t) else malloc_loop nunits r (hptr (umem t) r) t
         | _ \<Rightarrow> None)
      else malloc_loop nunits p (hptr (umem s) p) s)"

definition units :: "uint \<Rightarrow> uint" where
  "units nbytes = ucast ((ucast nbytes + 16 - 1) div 16 + 1 :: uint64)"

definition umalloc :: "uint \<Rightarrow> ('a uheap_scheme, addr) kproc" where
  "umalloc nbytes =
     (let nunits = units nbytes in
      bind (modify (\<lambda>s. if freep s = 0 then
          let m = set_hptr (umem s) (ubase s) (ubase s) in s\<lparr>umem := set_hsize m (ubase s) 0, freep := ubase s\<rparr> else s)) (\<lambda>_ s.
      case malloc_loop nunits (freep s) (hptr (umem s) (freep s)) s of
        None \<Rightarrow> Hang s
      | Some (r, t) \<Rightarrow> Ret r t))"

section \<open>Reading a header after a write to another\<close>

lemma unat_off:
  assumes "unat (a :: addr) + n < 2 ^ 64" and "k \<le> n"
  shows "unat (a + of_nat k) = unat a + k"
proof -
  have "unat (of_nat k :: addr) = k" using assms by (intro unat_of_nat_64) linarith
  then show ?thesis using assms by (subst unat_add_lem [THEN iffD1]) simp_all
qed

lemma unat_diff_ge:
  assumes "unat (a :: addr) + n < 2 ^ 64" and "unat x < unat a \<or> unat a + n \<le> unat x"
  shows "n \<le> unat (x - a)"
  using assms by (auto simp: unat_sub_if')

text \<open>Two byte ranges that do not meet.\<close>

lemma rd_wr_disjoint:
  assumes "unat a + length bs < 2 ^ 64" and "unat b + n < 2 ^ 64" and "unat a + length bs \<le> unat b \<or> unat b + n \<le> unat a"
  shows "rd_bytes (wr_bytes m a bs) b n = rd_bytes m b n"
proof (rule rd_wr_other)
  fix i assume "i < n"
  then have "unat (b + of_nat i) = unat b + i" using unat_off [OF assms(2), of i] by simp
  then show "length bs \<le> unat (b + of_nat i - a)" using assms(3) \<open>i < n\<close> by (intro unat_diff_ge [OF assms(1)]) linarith
qed

text \<open>The addresses of the program's memory, and two headers that do not meet.\<close>

definition low :: "addr \<Rightarrow> bool" where
  "low a \<longleftrightarrow> unat a + 16 \<le> 2 ^ 32"

definition hapart :: "addr \<Rightarrow> addr \<Rightarrow> bool" where
  "hapart a b \<longleftrightarrow> unat a + 16 \<le> unat b \<or> unat b + 16 \<le> unat a"

lemma low8: "low a \<Longrightarrow> unat (a + 8) = unat a + 8"
  using unat_off [of a 8 8] by (simp add: low_def)

lemma header_other:
  assumes "low a" and "low b" and "hapart a b"
  shows "hptr (set_hptr m a v) b = hptr m b" and "hsize (set_hptr m a v) b = hsize m b"
    and "hptr (set_hsize m a n) b = hptr m b" and "hsize (set_hsize m a n) b = hsize m b"
  using assms low8 [OF assms(1)] low8 [OF assms(2)]
  by (auto simp: hptr_def hsize_def set_hptr_def set_hsize_def load64_def store64_def low_def hapart_def
      intro!: arg_cong [where f = le_dec] rd_wr_disjoint)

lemma header_same:
  assumes "low a"
  shows "hptr (set_hptr m a v) a = v" and "hsize (set_hptr m a v) a = hsize m a"
    and "hptr (set_hsize m a n) a = hptr m a" and "hsize (set_hsize m a n) a = n"
  using assms low8 [OF assms]
  by (simp_all add: hptr_def hsize_def set_hptr_def set_hsize_def load64_def store64_def rd_wr_disjoint rd_wr_same le_dec_enc low_def)

lemma header_byte:
  assumes "low a" and "unat x < unat a \<or> unat a + 16 \<le> unat x"
  shows "set_hptr m a v x = m x" and "set_hsize m a n x = m x"
  using assms low8 [OF assms(1)] by (auto simp: set_hptr_def set_hsize_def store64_def low_def intro!: wr_bytes_other unat_diff_ge)

section \<open>The heap\<close>

text \<open>A block: its address and its size in units.  A chain of free blocks from a to z.\<close>

type_synonym blk = "addr \<times> nat"

fun bseg :: "mem \<Rightarrow> addr \<Rightarrow> blk list \<Rightarrow> addr \<Rightarrow> bool" where
  "bseg m a [] z \<longleftrightarrow> a = z"
| "bseg m a (x # L) z \<longleftrightarrow> a = fst x \<and> unat (hsize m a) = snd x \<and> bseg m (hptr m a) L z"

definition en :: "blk \<Rightarrow> nat" where
  "en x = unat (fst x) + 16 * snd x"

definition bapart :: "blk \<Rightarrow> blk \<Rightarrow> bool" where
  "bapart x y \<longleftrightarrow> en x \<le> unat (fst y) \<or> en y \<le> unat (fst x)"

definition gap :: "blk \<Rightarrow> blk \<Rightarrow> bool" where
  "gap x y \<longleftrightarrow> en x < unat (fst y)"

text \<open>
  The free list in the order of addresses, with a gap between any two blocks: neighbours are always joined.  The blocks
  handed out do not meet each other nor the free blocks.
\<close>

definition free_ok :: "addr \<Rightarrow> nat \<Rightarrow> blk list \<Rightarrow> blk set \<Rightarrow> bool" where
  "free_ok b lim F A \<longleftrightarrow> sorted_wrt gap ((b, 0) # F) \<and>
     (\<forall>x \<in> set F. 1 \<le> snd x \<and> unat b + 16 \<le> unat (fst x) \<and> en x \<le> lim \<and> (\<forall>z \<in> A. bapart z x))"

definition live_ok :: "mem \<Rightarrow> addr \<Rightarrow> nat \<Rightarrow> blk set \<Rightarrow> bool" where
  "live_ok m b lim A \<longleftrightarrow> finite A \<and>
     (\<forall>x \<in> A. 1 \<le> snd x \<and> unat (hsize m (fst x)) = snd x \<and> unat b + 16 \<le> unat (fst x) \<and> en x \<le> lim) \<and>
     (\<forall>x \<in> A. \<forall>y \<in> A. x \<noteq> y \<longrightarrow> bapart x y)"

definition heap :: "mem \<Rightarrow> addr \<Rightarrow> addr \<Rightarrow> nat \<Rightarrow> blk list \<Rightarrow> blk set \<Rightarrow> bool" where
  "heap m b f lim F A \<longleftrightarrow> bseg m b ((b, 0) # F) b \<and> f \<in> fst ` set ((b, 0) # F) \<and> free_ok b lim F A \<and> live_ok m b lim A \<and>
     lim \<le> 2 ^ 32 \<and> unat b + 16 \<le> lim"

text \<open>The bytes of the blocks handed out are the same.\<close>

definition same_live :: "blk set \<Rightarrow> mem \<Rightarrow> mem \<Rightarrow> bool" where
  "same_live A m m' \<longleftrightarrow> (\<forall>z \<in> A. \<forall>x. unat (fst z) \<le> unat x \<and> unat x < en z \<longrightarrow> m' x = m x)"

definition unit_sum :: "blk list \<Rightarrow> nat" where
  "unit_sum F = sum_list (map snd F)"

lemma unit_sum_simps [simp]: "unit_sum [] = 0" "unit_sum (x # F) = snd x + unit_sum F" "unit_sum (F @ G) = unit_sum F + unit_sum G"
  by (simp_all add: unit_sum_def)

lemma bseg_append: "bseg m a (X @ Y) z \<longleftrightarrow> (\<exists>y. bseg m a X y \<and> bseg m y Y z)"
  by (induction X arbitrary: a) auto

lemma bseg_cong:
  "(\<forall>x \<in> set L. hptr m' (fst x) = hptr m (fst x) \<and> hsize m' (fst x) = hsize m (fst x)) \<Longrightarrow> bseg m' a L z = bseg m a L z"
  by (induction L arbitrary: a) auto

lemma bseg_start: "bseg m a (x # L) z \<Longrightarrow> a = fst x"
  by simp

text \<open>The block after p in the ring.\<close>

lemma bseg_next:
  assumes "bseg m b (X @ (p, np) # Y) b"
  shows "bseg m b X p" and "unat (hsize m p) = np" and "bseg m (hptr m p) Y b" and "hptr m p = (if Y = [] then b else fst (hd Y))"
  using assms by (auto simp: bseg_append neq_Nil_conv)

lemma same_live_refl [simp]: "same_live A m m"
  by (simp add: same_live_def)

lemma same_live_trans: "same_live A m m' \<Longrightarrow> same_live A m' m'' \<Longrightarrow> same_live A m m''"
  by (simp add: same_live_def)

lemma same_live_mono: "same_live A m m' \<Longrightarrow> B \<subseteq> A \<Longrightarrow> same_live B m m'"
  by (auto simp: same_live_def)

lemma same_live_header:
  assumes "low a" and "\<forall>z \<in> A. en z \<le> unat a \<or> unat a + 16 \<le> unat (fst z)"
  shows "same_live A m (set_hptr m a v)" and "same_live A m (set_hsize m a n)"
  using assms by (auto simp: same_live_def intro!: header_byte)

lemma same_live_size:
  assumes "same_live A m m'" and "z \<in> A" and "1 \<le> snd z" and "en z \<le> 2 ^ 32"
  shows "hsize m' (fst z) = hsize m (fst z)"
proof -
  have l: "low (fst z)" using assms(3,4) by (auto simp: low_def en_def)
  have "m' (fst z + 8 + of_nat i) = m (fst z + 8 + of_nat i)" if "i < 4" for i
  proof -
    have "unat (fst z + 8 + of_nat i) = unat (fst z) + 8 + i"
      using unat_off [of "fst z + 8" 4 i] low8 [OF l] l that by (simp add: low_def)
    then show ?thesis using assms(1,2,3) that by (auto simp: same_live_def en_def)
  qed
  then have "rd_bytes m' (fst z + 8) 4 = rd_bytes m (fst z + 8) 4" by (intro nth_equalityI) simp_all
  then show ?thesis by (simp add: hsize_def)
qed

lemma live_ok_same: "live_ok m b lim A \<Longrightarrow> same_live A m m' \<Longrightarrow> lim \<le> 2 ^ 32 \<Longrightarrow> live_ok m' b lim A"
proof -
  assume a: "live_ok m b lim A" "same_live A m m'" "lim \<le> 2 ^ 32"
  then have "hsize m' (fst x) = hsize m (fst x)" if "x \<in> A" for x
    using same_live_size [OF a(2) that] that unfolding live_ok_def by (meson order_trans)
  then show ?thesis using a(1) unfolding live_ok_def by metis
qed

lemma live_ok_mono: "live_ok m b lim A \<Longrightarrow> B \<subseteq> A \<Longrightarrow> live_ok m b lim B"
  unfolding live_ok_def using finite_subset by blast

section \<open>free finds the place of a block\<close>

text \<open>The place of a block that is handed out: after p and before Y.\<close>

definition place :: "addr \<Rightarrow> blk list \<Rightarrow> blk \<Rightarrow> blk list \<Rightarrow> addr \<Rightarrow> nat \<Rightarrow> blk list \<Rightarrow> bool" where
  "place b F x X p np Y \<longleftrightarrow> (b, 0) # F = X @ (p, np) # Y \<and> (\<forall>y \<in> set Y. en x \<le> unat (fst y)) \<and>
     en (p, np) \<le> unat (fst x) \<and> unat p + 16 \<le> unat (fst x)"

lemma place_exists:
  assumes F: "free_ok b lim F A" and x: "x \<in> A" "unat b + 16 \<le> unat (fst x)" "1 \<le> snd x"
  shows "\<exists>X p np Y. place b F x X p np Y"
proof -
  let ?C = "(b, 0 :: nat) # F" and ?P = "\<lambda>y. unat (fst y) < unat (fst x)"
  have ne: "takeWhile ?P ?C \<noteq> []" using x(2) by simp
  then obtain X p np where X: "takeWhile ?P ?C = X @ [(p, np)]" by (metis rev_exhaust surj_pair)
  define Y where "Y = dropWhile ?P ?C"
  have C: "?C = X @ (p, np) # Y" using takeWhile_dropWhile_id [of ?P ?C] unfolding X Y_def by simp
  have so: "sorted_wrt gap (X @ (p, np) # Y)" using F unfolding C [symmetric] free_ok_def by blast
  have p: "unat p < unat (fst x)" using set_takeWhileD [of "(p, np)" ?P ?C] unfolding X by simp
  have ok: "1 \<le> snd y \<and> bapart x y" if "y \<in> set F" for y using F x(1) that by (simp add: free_ok_def)
  have Y: "unat (fst x) \<le> unat (fst y)" "y \<in> set F" if "y \<in> set Y" for y
  proof -
    obtain y0 Y' where y0: "Y = y0 # Y'" using \<open>y \<in> set Y\<close> by (cases Y) auto
    then have h: "\<not> ?P y0" using hd_dropWhile [of ?P ?C] unfolding Y_def by (metis list.sel(1) list.distinct(1))
    have "gap y0 y \<or> y = y0" using so that y0 by (auto simp: sorted_wrt_append)
    then show "unat (fst x) \<le> unat (fst y)" using h by (auto simp: gap_def en_def)
    have "X @ [(p, np)] \<noteq> []" by simp
    then have "set Y \<subseteq> set (tl ?C)" unfolding C by (cases X) auto
    then show "y \<in> set F" using that by auto
  qed
  have "en x \<le> unat (fst y)" if "y \<in> set Y" for y
    using ok [OF Y(2) [OF that]] Y(1) [OF that] x(3) by (auto simp: bapart_def en_def)
  moreover have "en (p, np) \<le> unat (fst x) \<and> unat p + 16 \<le> unat (fst x)"
  proof (cases "X = []")
    case True
    then show ?thesis using C x(2) by (simp add: en_def)
  next
    case False
    then have "(p, np) \<in> set F" using C by (cases X) auto
    from ok [OF this] show ?thesis using p x(3) by (auto simp: bapart_def en_def)
  qed
  ultimately show ?thesis using C unfolding place_def by blast
qed

text \<open>The loop of free() leaves every other block of the ring behind.\<close>

definition stops :: "mem \<Rightarrow> addr \<Rightarrow> addr \<Rightarrow> bool" where
  "stops m bp q \<longleftrightarrow> bp > q \<and> bp < hptr m q \<or> q \<ge> hptr m q \<and> (bp > q \<or> bp < hptr m q)"

lemma free_loop_step: "free_loop m bp q = (if stops m bp q then Some q else free_loop m bp (hptr m q))"
  by (subst free_loop.simps) (auto simp: stops_def)

lemma free_loop_walk: "bseg m q W r \<Longrightarrow> \<forall>w \<in> set W. \<not> stops m bp (fst w) \<Longrightarrow> free_loop m bp q = free_loop m bp r"
proof (induction W arbitrary: q)
  case (Cons w W)
  then have "free_loop m bp q = free_loop m bp (hptr m q)" using free_loop_step [of m bp q] by simp
  also have "\<dots> = free_loop m bp r" using Cons by auto
  finally show ?case .
qed simp

lemma free_loop_finds:
  assumes ring: "bseg m b ((b, 0) # F) b" and so: "sorted_wrt gap ((b, 0) # F)" and f: "f \<in> fst ` set ((b, 0) # F)"
    and pl: "place b F x X p np Y" and x: "unat b + 16 \<le> unat (fst x)" "1 \<le> snd x"
  shows "free_loop m (fst x) f = Some p"
proof -
  have C: "(b, 0) # F = X @ (p, np) # Y" and Y: "\<And>y. y \<in> set Y \<Longrightarrow> en x \<le> unat (fst y)" and p: "unat p + 16 \<le> unat (fst x)"
    using pl by (auto simp: place_def)
  note ring = ring [unfolded C] and so = so [unfolded C] and f = f [unfolded C]
  have gp: "gap v w \<Longrightarrow> unat (fst v) < unat (fst w)" for v w by (simp add: gap_def en_def)
  have fY: "unat (fst x) < unat (fst y)" if "y \<in> set Y" for y using Y [OF that] x(2) by (simp add: en_def)
  have nx: "\<not> stops m (fst x) (fst w)" if w: "w \<in> set X" for w
  proof -
    obtain X1 X2 where s: "X = X1 @ w # X2" using split_list [OF w] by blast
    have n: "hptr m (fst w) = fst (hd (X2 @ [(p, np)]))"
      using bseg_next(4) [of m b X1 "fst w" "snd w" "X2 @ (p, np) # Y"] ring s by (cases X2) auto
    have "gap w (hd (X2 @ [(p, np)]))" "unat (fst (hd (X2 @ [(p, np)]))) \<le> unat p"
      using so s by (cases X2, auto simp: sorted_wrt_append dest: gp)+
    then show ?thesis using p gp [of w "hd (X2 @ [(p, np)])"] unfolding stops_def n by (auto simp: word_less_nat_alt word_le_nat_alt)
  qed
  have ny: "\<not> stops m (fst x) (fst w)" if w: "w \<in> set Y" for w
  proof -
    obtain Y1 Y2 where s: "Y = Y1 @ w # Y2" using split_list [OF w] by blast
    have n: "hptr m (fst w) = (if Y2 = [] then b else fst (hd Y2))"
      using bseg_next(4) [of m b "X @ (p, np) # Y1" "fst w" "snd w" Y2] ring s by simp
    have "Y2 \<noteq> [] \<Longrightarrow> gap w (hd Y2)" using so s by (cases Y2) (auto simp: sorted_wrt_append)
    then show ?thesis using fY [OF w] gp [of w "hd Y2"] x(1) unfolding stops_def n by (auto simp: word_less_nat_alt word_le_nat_alt)
  qed
  have "hptr m p = (if Y = [] then b else fst (hd Y))" using bseg_next(4) [OF ring] .
  moreover have "unat b \<le> unat p" using so C by (cases X) (auto dest: gp)
  ultimately have "stops m (fst x) p" using p x(1) fY [of "hd Y"] by (cases "Y = []") (auto simp: stops_def word_less_nat_alt word_le_nat_alt)
  then have fp: "free_loop m (fst x) p = Some p" by (subst free_loop_step) simp
  have fb: "free_loop m (fst x) b = Some p" using free_loop_walk [OF bseg_next(1) [OF ring]] nx fp by simp
  consider "f \<in> fst ` set X" | "f = p" | "f \<in> fst ` set Y" using f by auto
  then show ?thesis
  proof cases
    case 1
    then obtain X1 nf X2 where s: "X = X1 @ (f, nf) # X2" using split_list by fastforce
    have "bseg m f ((f, nf) # X2) p" using bseg_next(1) [OF ring] unfolding s by (auto simp: bseg_append)
    moreover have "\<forall>w \<in> set ((f, nf) # X2). \<not> stops m (fst x) (fst w)" by (intro ballI nx) (auto simp: s)
    ultimately show ?thesis using free_loop_walk fp by metis
  next
    case 3
    then obtain Y1 nf Y2 where s: "Y = Y1 @ (f, nf) # Y2" using split_list by fastforce
    have "bseg m f ((f, nf) # Y2) b" using ring unfolding s by (auto simp: bseg_append)
    moreover have "\<forall>w \<in> set ((f, nf) # Y2). \<not> stops m (fst x) (fst w)" by (intro ballI ny) (auto simp: s)
    ultimately show ?thesis using free_loop_walk fb by metis
  qed (simp add: fp)
qed

section \<open>free joins a block with its neighbours\<close>

text \<open>A header address of the heap, and what a write to the header of one block leaves.\<close>

lemma en_low: "1 \<le> snd x \<Longrightarrow> en x \<le> 2 ^ 32 \<Longrightarrow> low (fst x)"
  by (auto simp: low_def en_def)

lemma hplus_unat:
  assumes "unat (hsize m p) = n" and "unat p + 16 * n < 2 ^ 64"
  shows "unat (hplus p (hsize m p)) = unat p + 16 * n"
proof -
  have "ucast (hsize m p) * (16 :: addr) = of_nat (16 * n)" using assms(1) by (simp add: ucast_of_nat mult.commute)
  then show ?thesis using unat_off [OF assms(2) order_refl] by (simp add: hplus_def mult.commute)
qed

lemma unat_size_add:
  assumes "unat (v :: uint) = n" and "unat w = k" and "n + k < 2 ^ 32"
  shows "unat (v + w) = n + k"
  using assms by (subst unat_add_lem [THEN iffD1]) simp_all

lemma bapart_join:
  assumes "bapart z (a, n)" and "bapart z (a', k)" and "unat a + 16 * n = unat a'" and "1 \<le> snd z"
  shows "bapart z (a, n + k)"
  using assms by (auto simp: bapart_def en_def)

text \<open>The memory differs at most in the header of a.\<close>

definition but_header :: "addr \<Rightarrow> mem \<Rightarrow> mem \<Rightarrow> bool" where
  "but_header a m m' \<longleftrightarrow> (\<forall>x. unat x < unat a \<or> unat a + 16 \<le> unat x \<longrightarrow> m' x = m x)"

lemma but_header_live: "but_header a m m' \<Longrightarrow> \<forall>z \<in> A. en z \<le> unat a \<or> unat a + 16 \<le> unat (fst z) \<Longrightarrow> same_live A m m'"
  unfolding but_header_def same_live_def by (meson leD le_trans not_le_imp_less)

lemma but_header_field:
  assumes "but_header a m m'" and "low c" and "hapart a c"
  shows "hptr m' c = hptr m c" and "hsize m' c = hsize m c"
proof -
  have e: "m' (c + of_nat i) = m (c + of_nat i)" if "i < 16" for i
    using assms unat_off [of c 16 i] that by (auto simp: but_header_def low_def hapart_def)
  show "hptr m' c = hptr m c" unfolding hptr_def load64_def by (intro arg_cong [where f = le_dec] nth_equalityI) (simp_all add: e)
  have "m' (c + 8 + of_nat i) = m (c + 8 + of_nat i)" if "i < 4" for i using e [of "8 + i"] that by (simp add: algebra_simps)
  then show "hsize m' c = hsize m c" unfolding hsize_def by (intro arg_cong [where f = le_dec] nth_equalityI) simp_all
qed

lemma but_header_set:
  assumes "low a"
  shows "but_header a m (set_hptr m a v)" and "but_header a m (set_hsize m a n)" and "but_header a m (set_hptr (set_hsize m a n) a v)"
  using header_byte [OF assms] by (simp_all add: but_header_def)

lemma free_next_ok:
  assumes low: "low bp" "low p" "hapart bp p" and n: "unat (hsize m bp) = n" "1 \<le> n" and ring: "hptr m p = (if Y = [] then b else fst (hd Y))"
      "bseg m (hptr m p) Y b"
    and Y: "\<forall>y \<in> set Y. en (bp, n) \<le> unat (fst y) \<and> 1 \<le> snd y \<and> en y \<le> 2 ^ 32" "sorted_wrt gap Y" and b: "unat b < unat bp"
    and lim: "en (bp, n) \<le> 2 ^ 32"
  shows "\<exists>k Y'. but_header bp m (free_next m bp p) \<and> unat (hsize (free_next m bp p) bp) = k \<and>
    bseg (free_next m bp p) (hptr (free_next m bp p) bp) Y' b \<and>
    sorted_wrt gap ((bp, k) # Y') \<and> set Y' \<subseteq> set Y \<and> unit_sum Y' + k = unit_sum Y + n \<and>
    (k = n \<or> (\<exists>y \<in> set Y. unat bp + 16 * n = unat (fst y) \<and> k = n + snd y))"
proof -
  let ?m = "free_next m bp p"
  have bh: "but_header bp m ?m" using but_header_set [OF low(1)] by (simp add: free_next_def Let_def)
  have f: "hptr ?m (fst y) = hptr m (fst y) \<and> hsize ?m (fst y) = hsize m (fst y)" if "y \<in> set Y" for y
  proof -
    have "low (fst y)" "hapart bp (fst y)" using Y(1) that n(2) by (auto intro: en_low simp: hapart_def en_def)
    then show ?thesis using but_header_field [OF bh] by blast
  qed
  then have fr: "bseg ?m a L z = bseg m a L z" if "set L \<subseteq> set Y" for a L z using that by (intro bseg_cong) blast
  have h: "unat (hplus bp (hsize m bp)) = unat bp + 16 * n" using hplus_unat [OF n(1)] lim by (simp add: en_def)
  show ?thesis
  proof (cases "hplus bp (hsize m bp) = hptr m p")
    case True
    then have e: "unat bp + 16 * n = unat (hptr m p)" using h by simp
    then have "Y \<noteq> []" using ring(1) b by auto
    then obtain y Y' where y: "Y = y # Y'" by (cases Y) auto
    have yp: "hptr m p = fst y" "unat (hsize m (fst y)) = snd y" "bseg m (hptr m (fst y)) Y' b" using ring y by auto
    have ly: "low (fst y)" "hapart bp (fst y)" "en y \<le> 2 ^ 32" using Y(1) n(2) y by (auto intro: en_low simp: hapart_def en_def)
    let ?m1 = "set_hsize m bp (hsize m bp + hsize m (fst y))"
    have m: "?m = set_hptr ?m1 bp (hptr m (fst y))"
      using True yp(1) header_other(3) [OF low(1,2,3)] header_other(3) [OF low(1) ly(1,2)] by (simp add: free_next_def Let_def)
    have k: "unat (hsize ?m bp) = n + snd y"
      using unat_size_add [OF n(1) yp(2)] ly(3) e yp(1) b unfolding m by (simp add: header_same [OF low(1)] en_def)
    have "bseg ?m (hptr ?m bp) Y' b" using yp(3) fr [of Y'] y unfolding m by (auto simp: header_same [OF low(1)])
    moreover have "sorted_wrt gap ((bp, n + snd y) # Y')" using Y(2) e yp(1) y by (auto simp: gap_def en_def)
    ultimately show ?thesis using bh k e yp(1) y by (intro exI [of _ "n + snd y"] exI [of _ Y']) auto
  next
    case False
    then have m: "?m = set_hptr m bp (hptr m p)" by (simp add: free_next_def)
    have "unat bp + 16 * n \<noteq> unat (hptr m p)" using False h by (metis word_unat_eq_iff)
    then have "gap (bp, n) y" if "y \<in> set Y" for y
      using Y ring(1) that by (cases Y) (auto simp: gap_def en_def order_le_less)
    then have "sorted_wrt gap ((bp, n) # Y)" using Y(2) by simp
    then show ?thesis using bh n(1) ring(2) fr [of Y] unfolding m by (intro exI [of _ n] exI [of _ Y]) (simp add: header_same [OF low(1)])
  qed
qed

lemma free_prev_ok:
  assumes low: "low bp" "low p" "unat p + 16 \<le> unat bp" and np: "unat (hsize m p) = np" "en (p, np) \<le> unat bp"
    and k: "unat (hsize m bp) = k" "en (bp, k) \<le> 2 ^ 32" and Y: "bseg m (hptr m bp) Y b" "sorted_wrt gap ((bp, k) # Y)"
      "\<forall>y \<in> set Y. 1 \<le> snd y \<and> en y \<le> 2 ^ 32"
  shows "but_header p m (free_prev m bp p) \<and>
    (if np \<noteq> 0 \<and> unat p + 16 * np = unat bp then bseg (free_prev m bp p) p ((p, np + k) # Y) b
     else bseg (free_prev m bp p) p ((p, np) # (bp, k) # Y) b \<and> gap (p, np) (bp, k))"
proof -
  let ?m = "free_prev m bp p"
  have bh: "but_header p m ?m" using but_header_set [OF low(2)] by (simp add: free_prev_def Let_def)
  have f: "hptr ?m c = hptr m c \<and> hsize ?m c = hsize m c" if "low c" "unat bp \<le> unat c" for c
    using but_header_field [OF bh that(1)] low(3) that(2) by (simp add: hapart_def)
  have lY: "low (fst y) \<and> unat bp \<le> unat (fst y)" if "y \<in> set Y" for y using Y(2,3) that by (auto intro: en_low simp: gap_def en_def)
  have fr: "bseg ?m a Y b = bseg m a Y b" for a using f lY by (intro bseg_cong) blast
  have h: "unat (hplus p (hsize m p)) = unat p + 16 * np" using hplus_unat [OF np(1)] np(2) unat64_less [of bp] by (simp add: en_def)
  show ?thesis
  proof (cases "hplus p (hsize m p) = bp")
    case True
    then have e: "unat p + 16 * np = unat bp" "np \<noteq> 0" using h low(3) by auto
    have "hapart p bp" using low(3) by (simp add: hapart_def)
    then have m: "?m = set_hptr (set_hsize m p (hsize m p + hsize m bp)) p (hptr m bp)"
      using True header_other(3) [OF low(2,1)] by (simp add: free_prev_def Let_def)
    have "unat (hsize ?m p) = np + k" using unat_size_add [OF np(1) k(1)] k(2) e(1) unfolding m by (simp add: header_same [OF low(2)] en_def)
    then have "bseg ?m p ((p, np + k) # Y) b" using Y(1) fr m by (simp add: header_same [OF low(2)])
    then show ?thesis using bh e by simp
  next
    case False
    then have m: "?m = set_hptr m p bp" by (simp add: free_prev_def)
    have ne: "unat p + 16 * np \<noteq> unat bp" using False h by (metis word_unat_eq_iff)
    have "bseg ?m p ((p, np) # (bp, k) # Y) b"
      using np(1) k(1) Y(1) fr f [OF low(1) order_refl] header_same(1,2) [OF low(2)] unfolding m by simp
    then show ?thesis using bh ne np(2) by (simp add: gap_def en_def del: bseg.simps)
  qed
qed

lemma heapD:
  assumes "heap m b f lim F A"
  shows "bseg m b ((b, 0) # F) b" "f \<in> fst ` set ((b, 0) # F)" "free_ok b lim F A" "live_ok m b lim A" "lim \<le> 2 ^ 32" "unat b + 16 \<le> lim"
  using assms by (simp_all add: heap_def)

lemma free_okD:
  assumes "free_ok b lim F A" and "x \<in> set F"
  shows "1 \<le> snd x" "unat b + 16 \<le> unat (fst x)" "en x \<le> lim" "z \<in> A \<Longrightarrow> bapart z x"
  using assms by (simp_all add: free_ok_def)

lemma live_okD:
  assumes "live_ok m b lim A" and "x \<in> A"
  shows "1 \<le> snd x" "unat (hsize m (fst x)) = snd x" "unat b + 16 \<le> unat (fst x)" "en x \<le> lim" "y \<in> A \<Longrightarrow> x \<noteq> y \<Longrightarrow> bapart x y"
  using assms by (simp_all add: live_ok_def)

text \<open>The free list with the block \<open>(bp, k)\<close> after p, joined with p or not.\<close>

definition insert_after :: "blk list \<Rightarrow> addr \<Rightarrow> nat \<Rightarrow> addr \<Rightarrow> nat \<Rightarrow> blk list \<Rightarrow> blk list" where
  "insert_after X p np bp k Y = X @ (if np \<noteq> 0 \<and> unat p + 16 * np = unat bp then (p, np + k) # Y else (p, np) # (bp, k) # Y)"

lemma insert_after_hd:
  assumes "place b F x X p np Y"
  shows "\<exists>F'. insert_after X p np bp k Y' = (b, 0) # F'"
  using assms by (cases X) (auto simp: place_def insert_after_def)

lemma insert_after_free:
  assumes C: "(b, 0) # F = X @ (p, np) # Y" and F: "free_ok b lim F A" and Y': "set Y' \<subseteq> set Y" "sorted_wrt gap ((bp, k) # Y')"
    and bp: "en (p, np) \<le> unat bp" "unat b + 16 \<le> unat bp" "en (bp, k) \<le> lim" "1 \<le> k" and B: "B \<subseteq> A" "\<forall>z \<in> B. bapart z (bp, k) \<and> 1 \<le> snd z"
    and F': "insert_after X p np bp k Y' = (b, 0) # F'" and p: "unat p < unat bp"
  shows "free_ok b lim F' B"
proof -
  let ?j = "np \<noteq> 0 \<and> unat p + 16 * np = unat bp"
  have so: "sorted_wrt gap (X @ (p, np) # Y)" using F unfolding C [symmetric] by (simp add: free_ok_def)
  have gX: "gap v (q, j)" if "v \<in> set X" "unat p \<le> unat q" for v q j
    using so that by (auto simp: sorted_wrt_append gap_def)
  have Yp: "unat p \<le> unat (fst y)" if "y \<in> set Y'" for y using Y' p that by (auto simp: gap_def en_def)
  then have gY: "gap v y" if "v \<in> set X" "y \<in> set Y'" for v y using gX [OF that(1), of "fst y" "snd y"] that(2) by simp
  have "sorted_wrt gap (insert_after X p np bp k Y')"
  proof (cases ?j)
    case True
    then have "sorted_wrt gap ((p, np + k) # Y')" using Y'(2) by (auto simp: gap_def en_def)
    then show ?thesis using so gX gY True by (auto simp: insert_after_def sorted_wrt_append)
  next
    case False
    then have "gap (p, np) (bp, k)" using bp(1) p by (auto simp: gap_def en_def)
    moreover from this have "gap (p, np) y" if "y \<in> set Y'" for y using Y'(2) that by (auto simp: gap_def en_def)
    ultimately have "sorted_wrt gap ((p, np) # (bp, k) # Y')" using Y'(2) by simp
    then show ?thesis using so gX gY False p by (auto simp: insert_after_def sorted_wrt_append)
  qed
  moreover have sF: "set X \<union> set Y \<union> {(p, np)} \<subseteq> insert (b, 0) (set F)" using arg_cong [OF C, of set] by auto
  have "1 \<le> snd y \<and> unat b + 16 \<le> unat (fst y) \<and> en y \<le> lim \<and> (\<forall>z \<in> B. bapart z y)" if y: "y \<in> set F'" for y
  proof -
    have old: "?thesis" if "y \<in> set F" using free_okD [OF F that] B(1) by blast
    have new: "?thesis" if "y = (bp, k)" using bp B(2) that by simp
    have joined: "?thesis" if j: "?j" "y = (p, np + k)"
    proof -
      have pF: "(p, np) \<in> set F" using sF j(1) by auto
      have "bapart z y" if "z \<in> B" for z
        using bapart_join [of z p np bp k] free_okD(4) [OF F pF, of z] B that j by auto
      then show ?thesis using free_okD [OF F pF] j bp(3) by (auto simp: en_def)
    qed
    have d: "y \<noteq> (b, 0)" using \<open>sorted_wrt gap (insert_after X p np bp k Y')\<close> y unfolding F' by (auto simp: gap_def en_def)
    have "y \<in> set (insert_after X p np bp k Y')" using y unfolding F' by simp
    then have "y \<in> set X \<union> set Y \<union> {(p, np)} \<or> y = (bp, k) \<or> ?j \<and> y = (p, np + k)"
      using Y'(1) by (auto simp: insert_after_def split: if_splits)
    then show ?thesis using old new joined d sF by blast
  qed
  ultimately show ?thesis unfolding F' free_ok_def by blast
qed

lemma place_around:
  assumes "place b F x X p np Y" and F: "free_ok b lim F A"
  shows "w \<in> set X \<Longrightarrow> unat (fst w) + 16 \<le> unat p" and "y \<in> set Y \<Longrightarrow> y \<in> set F"
    and "live_ok m b lim A \<Longrightarrow> z \<in> A \<Longrightarrow> en z \<le> unat p \<or> unat p + 16 \<le> unat (fst z)"
    and "sorted_wrt gap (X @ (p, np) # Y)"
proof -
  have C: "(b, 0) # F = X @ (p, np) # Y" using assms(1) by (simp add: place_def)
  show so: "sorted_wrt gap (X @ (p, np) # Y)" using F unfolding C [symmetric] by (simp add: free_ok_def)
  show "y \<in> set Y \<Longrightarrow> y \<in> set F" using C by (cases X) auto
  have p: "(p, np) = (b, 0) \<or> (p, np) \<in> set F" using C by (cases X) auto
  show "w \<in> set X \<Longrightarrow> unat (fst w) + 16 \<le> unat p"
  proof -
    assume w: "w \<in> set X"
    then have pF: "(p, np) \<in> set F" using C by (cases X) auto
    have "w = (b, 0) \<or> w \<in> set F" using w C by (cases X) auto
    moreover have "gap w (p, np)" using so w by (simp add: sorted_wrt_append)
    ultimately show ?thesis using free_okD(2) [OF F pF] free_okD(1) [OF F, of w] by (auto simp: gap_def en_def)
  qed
  show "en z \<le> unat p \<or> unat p + 16 \<le> unat (fst z)" if "live_ok m b lim A" "z \<in> A"
    using p live_okD(3) [OF that] free_okD(1) [OF F, of "(p, np)"] free_okD(4) [OF F, of "(p, np)", OF _ that(2)]
    by (auto simp: bapart_def en_def)
qed

lemma free_next_heap:
  assumes h: "heap m b f lim F A" and x: "x \<in> A" and pl: "place b F x X p np Y"
  shows "\<exists>k Y'. but_header (fst x) m (free_next m (fst x) p) \<and> unat (hsize (free_next m (fst x) p) (fst x)) = k \<and>
    bseg (free_next m (fst x) p) (hptr (free_next m (fst x) p) (fst x)) Y' b \<and>
    sorted_wrt gap ((fst x, k) # Y') \<and> set Y' \<subseteq> set Y \<and> unit_sum Y' + k = unit_sum Y + snd x \<and>
    en (fst x, k) \<le> lim \<and> snd x \<le> k \<and> (\<forall>z \<in> A - {x}. bapart z (fst x, k) \<and> 1 \<le> snd z)"
proof -
  let ?bp = "fst x" and ?m1 = "free_next m (fst x) p"
  note hd = heapD [OF h] and lx = live_okD [OF heapD(4) [OF h] x] and pa = place_around [OF pl heapD(3) [OF h]]
  have lowb: "low ?bp" using lx(1,4) hd(5) by (intro en_low) auto
  have C: "(b, 0) # F = X @ (p, np) # Y" and Y: "\<And>y. y \<in> set Y \<Longrightarrow> en x \<le> unat (fst y)" and p: "unat p + 16 \<le> unat ?bp"
    using pl by (auto simp: place_def)
  note ring = bseg_next [OF hd(1) [unfolded C]]
  have YF: "1 \<le> snd y" "en y \<le> lim" "z \<in> A \<Longrightarrow> bapart z y" if "y \<in> set Y" for y z using free_okD [OF hd(3) pa(2) [OF that]] by auto
  have "\<exists>k Y'. but_header ?bp m ?m1 \<and> unat (hsize ?m1 ?bp) = k \<and> bseg ?m1 (hptr ?m1 ?bp) Y' b \<and> sorted_wrt gap ((?bp, k) # Y') \<and>
      set Y' \<subseteq> set Y \<and> unit_sum Y' + k = unit_sum Y + snd x \<and> (k = snd x \<or> (\<exists>y \<in> set Y. unat ?bp + 16 * snd x = unat (fst y) \<and> k = snd x + snd y))"
  proof (rule free_next_ok [OF lowb _ _ lx(2,1) ring(4,3)])
    show "low p" "hapart ?bp p" using lowb p by (auto simp: low_def hapart_def)
    show "\<forall>y \<in> set Y. en (?bp, snd x) \<le> unat (fst y) \<and> 1 \<le> snd y \<and> en y \<le> 2 ^ 32" using Y YF(1,2) hd(5) by fastforce
    show "sorted_wrt gap Y" using pa(4) by (simp add: sorted_wrt_append)
    show "unat b < unat ?bp" "en (?bp, snd x) \<le> 2 ^ 32" using lx(3,4) hd(5) by auto
  qed
  then obtain k Y' where k: "but_header ?bp m ?m1" "unat (hsize ?m1 ?bp) = k" "bseg ?m1 (hptr ?m1 ?bp) Y' b" "sorted_wrt gap ((?bp, k) # Y')"
      "set Y' \<subseteq> set Y" "unit_sum Y' + k = unit_sum Y + snd x" "k = snd x \<or> (\<exists>y \<in> set Y. unat ?bp + 16 * snd x = unat (fst y) \<and> k = snd x + snd y)"
    by blast
  have "en (?bp, snd x + snd y) \<le> lim" if "y \<in> set Y" "unat ?bp + 16 * snd x = unat (fst y)" for y
    using YF(2) [OF that(1)] that(2) by (simp add: en_def)
  then have ek: "en (?bp, k) \<le> lim" "snd x \<le> k" using k(7) lx(4) by auto
  have "bapart z (?bp, k) \<and> 1 \<le> snd z" if z: "z \<in> A - {x}" for z
  proof -
    have zx: "bapart z x" "1 \<le> snd z" using live_okD(1,5) [OF hd(4), of z] x z by auto
    have "bapart z (?bp, snd x + snd y)" if "y \<in> set Y" "unat ?bp + 16 * snd x = unat (fst y)" for y
      using bapart_join [of z ?bp "snd x" "fst y" "snd y"] zx YF(3) [OF that(1), of z] that z by simp
    then show ?thesis using k(7) zx by auto
  qed
  then show ?thesis using k(1-6) ek by blast
qed

lemma free_heap:
  assumes h: "heap m b f lim F A" and x: "x \<in> A"
  shows "\<exists>p F'. free_loop m (fst x) f = Some p \<and> heap (free_prev (free_next m (fst x) p) (fst x) p) b p lim F' (A - {x}) \<and>
    same_live (A - {x}) m (free_prev (free_next m (fst x) p) (fst x) p) \<and> unit_sum F' = unit_sum F + snd x \<and> (\<exists>y \<in> set F'. snd x \<le> snd y)"
proof -
  let ?bp = "fst x"
  note hd = heapD [OF h] and lx = live_okD [OF heapD(4) [OF h] x]
  have lowb: "low ?bp" using lx(1,4) hd(5) by (intro en_low) auto
  obtain X p np Y where pl: "place b F x X p np Y" using place_exists [OF hd(3) x lx(3,1)] by blast
  note pa = place_around [OF pl hd(3)]
  have C: "(b, 0) # F = X @ (p, np) # Y" and p: "en (p, np) \<le> unat ?bp" "unat p + 16 \<le> unat ?bp" using pl by (auto simp: place_def)
  have lowp: "low p" using lowb p(2) by (simp add: low_def)
  note ring = bseg_next [OF hd(1) [unfolded C]]
  let ?m1 = "free_next m ?bp p" and ?m2 = "free_prev (free_next m ?bp p) ?bp p"
  obtain k Y' where k: "but_header ?bp m ?m1" "unat (hsize ?m1 ?bp) = k" "bseg ?m1 (hptr ?m1 ?bp) Y' b" "sorted_wrt gap ((?bp, k) # Y')"
      "set Y' \<subseteq> set Y" "unit_sum Y' + k = unit_sum Y + snd x" "en (?bp, k) \<le> lim" "snd x \<le> k" "\<forall>z \<in> A - {x}. bapart z (?bp, k) \<and> 1 \<le> snd z"
    using free_next_heap [OF h x pl] by blast
  have pm: "unat (hsize ?m1 p) = np" using but_header_field(2) [OF k(1) lowp] ring(2) p(2) by (simp add: hapart_def)
  have ky: "en (?bp, k) \<le> 2 ^ 32" "\<forall>y \<in> set Y'. 1 \<le> snd y \<and> en y \<le> 2 ^ 32"
    using k(5,7) hd(5) free_okD(1,3) [OF hd(3) pa(2)] by (auto, meson order_trans subsetD)
  note pv = free_prev_ok [OF lowb lowp p(2) pm p(1) k(2) ky(1) k(3,4) ky(2)]
  obtain F' where F': "insert_after X p np ?bp k Y' = (b, 0) # F'" using insert_after_hd [OF pl] by blast
  have "hptr ?m2 (fst w) = hptr m (fst w) \<and> hsize ?m2 (fst w) = hsize m (fst w)" if "w \<in> set X" for w
  proof -
    have "low (fst w)" "hapart p (fst w)" "hapart ?bp (fst w)" using pa(1) [OF that] lowp p(2) by (auto simp: low_def hapart_def)
    then show ?thesis using but_header_field [OF k(1)] but_header_field [OF conjunct1 [OF pv]] by simp
  qed
  then have "bseg ?m2 b X p" using ring(1) bseg_cong [of X ?m2 m] by blast
  moreover have "\<exists>Z. insert_after X p np ?bp k Y' = X @ Z \<and> bseg ?m2 p Z b"
    using conjunct2 [OF pv] by (cases "np \<noteq> 0 \<and> unat p + 16 * np = unat ?bp") (auto simp: insert_after_def simp del: bseg.simps)
  ultimately have seg: "bseg ?m2 b ((b, 0) # F') b" unfolding F' [symmetric] using bseg_append by metis
  have fr: "free_ok b lim F' (A - {x})"
    using lx(1) p k(8,9) by (intro insert_after_free [OF C hd(3) k(5,4) p(1) lx(3) k(7) _ _ _ F']) auto
  have "same_live (A - {x}) m ?m1" using k(8,9) lx(1) by (intro but_header_live [OF k(1)]) (auto simp: bapart_def en_def)
  moreover have "same_live (A - {x}) ?m1 ?m2" using pa(3) [OF hd(4)] by (intro but_header_live [OF conjunct1 [OF pv]]) auto
  ultimately have sl: "same_live (A - {x}) m ?m2" by (rule same_live_trans)
  have "\<exists>y \<in> set ((b, 0) # F'). snd x \<le> snd y" unfolding F' [symmetric] using k(8) by (auto simp: insert_after_def)
  then have "\<exists>y \<in> set F'. snd x \<le> snd y" using lx(1) by auto
  moreover have "p \<in> fst ` set ((b, 0) # F')" unfolding F' [symmetric] by (auto simp: insert_after_def)
  moreover have "live_ok ?m2 b lim (A - {x})" using live_ok_same [OF live_ok_mono [OF hd(4)] sl hd(5)] by blast
  moreover have "unit_sum F' = unit_sum F + snd x"
    using arg_cong [OF F', of unit_sum] arg_cong [OF C, of unit_sum] k(6) by (simp add: insert_after_def split: if_splits)
  moreover have "free_loop m ?bp f = Some p" using free_loop_finds [OF hd(1) _ hd(2) pl lx(3,1)] hd(3) by (simp add: free_ok_def)
  ultimately show ?thesis using seg fr sl hd(5,6) unfolding heap_def by blast
qed

section \<open>malloc takes a block out\<close>

text \<open>The end of the program's memory after some system calls, from the value b that it had at the start.\<close>

definition brk_at :: "int \<Rightarrow> (ucall \<times> ures) list \<Rightarrow> int" where
  "brk_at b cs = foldl (\<lambda>e (c, r). case c of USbrk n \<Rightarrow> if rv r = -1 then e else e + n | _ \<Rightarrow> e) b cs"

text \<open>
  What sbrk() does: it returns the old end of the memory and extends it, or fails.  The memory of a process stays below
  \<open>2 ^ 32\<close>; the machine has 128 MB.
\<close>

definition sbrk_ok :: "int \<Rightarrow> 'a uproc_scheme \<Rightarrow> bool" where
  "sbrk_ok b s \<longleftrightarrow> (\<forall>cs n. 0 \<le> n \<longrightarrow> (let r = rv (answer s cs (USbrk n)) in r = -1 \<or> r = brk_at b cs \<and> r + n \<le> 2 ^ 32))"

text \<open>The state of the allocator with the blocks A handed out, before the first call and later.\<close>

definition heap_inv :: "int \<Rightarrow> 'a uheap_scheme \<Rightarrow> blk set \<Rightarrow> bool" where
  "heap_inv b s A \<longleftrightarrow> ubase s \<noteq> 0 \<and> uint (ubase s) + 16 \<le> brk_at b (calls s) \<and> brk_at b (calls s) \<le> 2 ^ 32 \<and>
     (if freep s = 0 then A = {}
      else \<exists>F. heap (umem s) (ubase s) (freep s) (nat (brk_at b (calls s))) F A)"

lemma brk_snoc: "brk_at b (cs @ [(c, r)]) = (case c of USbrk n \<Rightarrow> if rv r = -1 then brk_at b cs else brk_at b cs + n | _ \<Rightarrow> brk_at b cs)"
  by (simp add: brk_at_def split: ucall.splits)

lemma ufree_heap:
  fixes s :: "'a uheap_scheme"
  assumes "heap (umem s) b (freep s) lim F A" and "x \<in> A"
  shows "\<exists>t F'. ufree (fst x + 16) s = Ret () t \<and> heap (umem t) b (freep t) lim F' (A - {x}) \<and> same_live (A - {x}) (umem s) (umem t) \<and>
    unit_sum F' = unit_sum F + snd x \<and> (\<exists>y \<in> set F'. snd x \<le> snd y) \<and> uproc.truncate t = uproc.truncate s \<and> ubase t = ubase s"
proof -
  obtain p F' where p: "free_loop (umem s) (fst x) (freep s) = Some p"
      "heap (free_prev (free_next (umem s) (fst x) p) (fst x) p) b p lim F' (A - {x})"
      "same_live (A - {x}) (umem s) (free_prev (free_next (umem s) (fst x) p) (fst x) p)" "unit_sum F' = unit_sum F + snd x" "\<exists>y \<in> set F'. snd x \<le> snd y"
    using free_heap [OF assms] by blast
  then show ?thesis by (intro exI [of _ "s\<lparr>umem := free_prev (free_next (umem s) (fst x) p) (fst x) p, freep := p\<rparr>"] exI [of _ F'])
      (simp add: ufree_def Let_def bind_gets modify_apply uproc.defs)
qed

text \<open>The blocks up to the next one that is large enough are passed over.\<close>

lemma malloc_walk:
  "bseg (umem s) p W r \<Longrightarrow> \<forall>w \<in> set W. snd w < unat nu \<and> fst w \<noteq> freep s \<Longrightarrow>
    malloc_loop nu prevp p s = malloc_loop nu (last (prevp # map fst W)) r s"
proof (induction W arbitrary: prevp p)
  case (Cons w W)
  then have "\<not> hsize (umem s) p \<ge> nu" "p \<noteq> freep s" by (auto simp: word_le_nat_alt)
  then have "malloc_loop nu prevp p s = malloc_loop nu p (hptr (umem s) p) s" by (subst malloc_loop.simps) simp
  also have "\<dots> = malloc_loop nu (last (p # map fst W)) r s" using Cons.prems by (intro Cons.IH) auto
  finally show ?case using Cons.prems(1) by simp
qed simp

lemma heap_ring:
  assumes "heap m b f lim F A"
  obtains U nf V where "(b, 0) # F = U @ (f, nf) # V" and "bseg m (hptr m f) (V @ U) f" and "f \<notin> fst ` set (V @ U)" and "unat (hsize m f) = nf"
proof -
  note hd = heapD [OF assms]
  obtain nf where "(f, nf) \<in> set ((b, 0) # F)" using hd(2) by force
  then obtain U V where C: "(b, 0) # F = U @ (f, nf) # V" by (meson split_list)
  note r = bseg_next [OF hd(1) [unfolded C]]
  have "bseg m (hptr m f) (V @ U) f" using r(1,3) by (auto simp: bseg_append)
  moreover have "sorted_wrt gap (U @ (f, nf) # V)" using hd(3) unfolding C [symmetric] by (simp add: free_ok_def)
  then have "f \<notin> fst ` set (V @ U)" by (auto simp: sorted_wrt_append gap_def en_def)
  ultimately show ?thesis using that C r(2) by blast
qed

text \<open>The first block that is large enough, and the block before it in the ring.\<close>

lemma first_fit:
  fixes F :: "blk list"
  assumes C: "(b, 0) # F = U @ (f, nf) # V" and e: "\<exists>x \<in> set ((b, 0) # F). n \<le> snd x" and n: "1 \<le> n"
  obtains W x W2 X Y where "V @ U @ [(f, nf)] = W @ x # W2" and "\<forall>w \<in> set W. snd w < n" and "n \<le> snd x"
    and "(b, 0) # F = X @ x # Y" and "X \<noteq> []" and "last X = last ((f, nf) # W)"
proof -
  have "\<exists>x \<in> set (V @ U @ [(f, nf)]). n \<le> snd x" using e unfolding C by auto
  then obtain W x W2 where w: "V @ U @ [(f, nf)] = W @ x # W2" "n \<le> snd x" "\<forall>w \<in> set W. \<not> n \<le> snd w" by (rule split_list_first_propE) blast
  have x0: "x \<noteq> (b, 0)" using w(2) n by auto
  obtain us where us: "V = W @ us \<and> us @ U @ [(f, nf)] = x # W2 \<or> W = V @ us \<and> U @ [(f, nf)] = us @ x # W2"
    using w(1) by (auto simp: append_eq_append_conv2)
  have "\<exists>X Y. (b, 0) # F = X @ x # Y \<and> X \<noteq> [] \<and> last X = last ((f, nf) # W)"
  proof (cases "\<exists>V2. V = W @ x # V2")
    case True
    then obtain V2 where "V = W @ x # V2" by blast
    then show ?thesis using C by (intro exI [of _ "U @ (f, nf) # W"] exI [of _ V2]) auto
  next
    case False
    then obtain U1 where U1: "W = V @ U1" "U @ [(f, nf)] = U1 @ x # W2" using us by (cases us) auto
    have "(b, 0) # F = (U @ [(f, nf)]) @ V" using C by simp
    then have Y: "(b, 0) # F = U1 @ x # W2 @ V" unfolding U1(2) by simp
    then have "U1 \<noteq> []" using x0 by auto
    then show ?thesis using Y U1(1) by (intro exI [of _ U1] exI [of _ "W2 @ V"]) simp
  qed
  then obtain X Y where "(b, 0) # F = X @ x # Y" "X \<noteq> []" "last X = last ((f, nf) # W)" by blast
  moreover have "\<forall>w \<in> set W. snd w < n" using w(3) by auto
  ultimately show ?thesis using that w(1,2) by blast
qed

lemma bapart_sym: "bapart x y = bapart y x"
  by (auto simp: bapart_def)

lemma live_ok_insert:
  assumes "live_ok m b lim A" and "1 \<le> snd y" and "unat (hsize m (fst y)) = snd y" and "unat b + 16 \<le> unat (fst y)" and "en y \<le> lim"
    and "\<forall>z \<in> A. bapart z y"
  shows "live_ok m b lim (insert y A)"
  using assms bapart_sym unfolding live_ok_def by blast

text \<open>A free block x is taken out whole, or cut at p + 16 * k.\<close>

lemma free_ok_remove:
  assumes F: "free_ok b lim F A" and C: "(b, 0) # F = X @ x # Y" and F': "X @ Y = (b, 0) # F'"
  shows "free_ok b lim F' (insert x A)"
proof -
  have so: "sorted_wrt gap (X @ x # Y)" using F unfolding C [symmetric] by (simp add: free_ok_def)
  then have so': "sorted_wrt gap ((b, 0) # F')" unfolding F' [symmetric] by (simp add: sorted_wrt_append)
  have "y \<in> set F \<and> bapart x y" if "y \<in> set F'" for y
  proof -
    have "y \<in> set X \<or> y \<in> set Y" using arg_cong [OF F', of set] that by auto
    moreover from this have "bapart x y" using so by (auto simp: sorted_wrt_append gap_def bapart_def)
    moreover have "y \<noteq> (b, 0)" using so' that by (auto simp: gap_def en_def)
    ultimately show ?thesis using arg_cong [OF C, of set] by auto
  qed
  then show ?thesis using F so' unfolding free_ok_def by blast
qed

lemma free_ok_shrink:
  assumes F: "free_ok b lim F A" and C: "(b, 0) # F = X @ (p, np) # Y" and F': "X @ (p, k) # Y = (b, 0) # F'"
    and k: "1 \<le> k" "k < np" and q: "unat q = unat p + 16 * k"
  shows "free_ok b lim F' (insert (q, np - k) A)"
proof -
  have so: "sorted_wrt gap (X @ (p, np) # Y)" using F unfolding C [symmetric] by (simp add: free_ok_def)
  then have so': "sorted_wrt gap ((b, 0) # F')" unfolding F' [symmetric] using k by (auto simp: sorted_wrt_append gap_def en_def)
  have pF: "(p, np) \<in> set F" using C k by (cases X) auto
  have "1 \<le> snd y \<and> unat b + 16 \<le> unat (fst y) \<and> en y \<le> lim \<and> (\<forall>z \<in> insert (q, np - k) A. bapart z y)" if y: "y \<in> set F'" for y
  proof (cases "y = (p, k)")
    case True
    have "bapart z (p, k)" if "z \<in> A" for z using free_okD(4) [OF F pF that] k by (auto simp: bapart_def en_def)
    then show ?thesis using free_okD(2,3) [OF F pF] k q True by (auto simp: bapart_def en_def)
  next
    case False
    have "y \<in> set X \<or> y \<in> set Y" using arg_cong [OF F', of set] y False by auto
    moreover from this have "bapart (q, np - k) y" using so k q by (auto simp: sorted_wrt_append gap_def bapart_def en_def)
    moreover have "y \<noteq> (b, 0)" using so' y by (auto simp: gap_def en_def)
    ultimately have "y \<in> set F" "bapart (q, np - k) y" using arg_cong [OF C, of set] by auto
    then show ?thesis using free_okD [OF F] by blast
  qed
  then show ?thesis using so' unfolding free_ok_def by blast
qed

lemma ring_before:
  assumes "free_ok b lim F A" and C: "(b, 0) # F = P @ w # Q" and v: "v \<in> set P"
  shows "unat (fst v) + 16 \<le> unat (fst w)"
proof -
  have w: "w \<in> set F" and v': "v = (b, 0) \<or> v \<in> set F" using C v by (cases P; auto)+
  have "gap v w" using assms(1) v unfolding free_ok_def C by (simp add: sorted_wrt_append)
  then show ?thesis using v' free_okD(2) [OF assms(1) w] free_okD(1) [OF assms(1), of v] by (auto simp: gap_def en_def)
qed

lemma ring_low: "heap m b f lim F A \<Longrightarrow> y \<in> set ((b, 0) # F) \<Longrightarrow> low (fst y)"
proof -
  assume h: "heap m b f lim F A" and "y \<in> set ((b, 0) # F)"
  then consider "y = (b, 0)" | "y \<in> set F" by auto
  then show "low (fst y)"
  proof cases
    case 1
    then show ?thesis using heapD(5,6) [OF h] by (simp add: low_def)
  next
    case 2
    then show ?thesis using free_okD(1,3) [OF heapD(3) [OF h] 2] heapD(5) [OF h] by (intro en_low) auto
  qed
qed

lemma ring_live:
  assumes h: "heap m b f lim F A" and y: "y \<in> set ((b, 0) # F)" and z: "z \<in> A"
  shows "en z \<le> unat (fst y) \<or> unat (fst y) + 16 \<le> unat (fst z)"
  using y live_okD(3) [OF heapD(4) [OF h] z] free_okD(1) [OF heapD(3) [OF h], of y] free_okD(4) [OF heapD(3) [OF h], of y, OF _ z]
  by (auto simp: bapart_def en_def)

lemma ring_hd: "(b, 0) # F = X @ x # Y \<Longrightarrow> X \<noteq> [] \<Longrightarrow> \<exists>F'. X @ Z = (b, 0) # F'"
  by (cases X) auto

lemma take_whole:
  assumes h: "heap m b f lim F A" and C: "(b, 0) # F = X @ x # Y" and X: "X = X0 @ [q]"
  shows "\<exists>F'. heap (set_hptr m (fst q) (hptr m (fst x))) b (fst q) lim F' (insert x A) \<and>
    same_live A m (set_hptr m (fst q) (hptr m (fst x))) \<and> unit_sum F' + snd x = unit_sum F \<and> (\<forall>z \<in> A. bapart z x)"
proof -
  let ?m = "set_hptr m (fst q) (hptr m (fst x))"
  note hd = heapD [OF h]
  obtain F' where F': "X @ Y = (b, 0) # F'" using ring_hd [OF C] X by blast
  have C': "(b, 0) # F = X0 @ q # x # Y" using C X by simp
  have x: "x \<in> set F" and inC: "set X0 \<subseteq> set ((b, 0) # F)" "q \<in> set ((b, 0) # F)" "set Y \<subseteq> set ((b, 0) # F)"
    using C' by (cases X0; auto)+
  have lq: "low (fst q)" using ring_low [OF h] inC(2) .
  have fr: "hptr ?m (fst y) = hptr m (fst y) \<and> hsize ?m (fst y) = hsize m (fst y)" if y: "y \<in> set X0 \<or> y = x \<or> y \<in> set Y" for y
  proof -
    have "hapart (fst q) (fst y)"
    proof (cases "y \<in> set X0")
      case True
      then show ?thesis using ring_before [OF hd(3) C'] by (simp add: hapart_def)
    next
      case False
      then obtain Y1 Y2 where "x # Y = Y1 @ y # Y2" using y by (meson set_ConsD split_list list.set_intros)
      then show ?thesis using ring_before [OF hd(3), of "X0 @ q # Y1" y Y2 q] C' by (simp add: hapart_def)
    qed
    moreover have "y \<in> set ((b, 0) # F)" using y inC x by auto
    then have "low (fst y)" by (rule ring_low [OF h])
    ultimately show ?thesis using header_other [OF lq] by blast
  qed
  have "bseg ?m b X0 (fst q)" "bseg ?m (hptr m (fst x)) Y b" "unat (hsize m (fst q)) = snd q"
    using hd(1) fr bseg_cong [of X0 ?m m] bseg_cong [of Y ?m m] unfolding C' by (auto simp: bseg_append)
  then have "bseg ?m b ((b, 0) # F') b" unfolding F' [symmetric] X by (auto simp: bseg_append header_same [OF lq])
  moreover have sl: "same_live A m ?m" using ring_live [OF h inC(2)] by (intro same_live_header [OF lq]) blast
  moreover have "live_ok ?m b lim (insert x A)"
  proof (rule live_ok_insert [OF live_ok_same [OF hd(4) sl hd(5)]])
    show "unat (hsize ?m (fst x)) = snd x" using hd(1) fr unfolding C' by (auto simp: bseg_append)
  qed (use free_okD [OF hd(3) x] in auto)
  moreover have "fst q \<in> fst ` set ((b, 0) # F')" unfolding F' [symmetric] X by simp
  moreover have "free_ok b lim F' (insert x A)" using free_ok_remove [OF hd(3) C F'] .
  moreover have "unit_sum F' + snd x = unit_sum F" using arg_cong [OF F', of unit_sum] arg_cong [OF C, of unit_sum] by simp
  ultimately show ?thesis using hd(5,6) free_okD(4) [OF hd(3) x] unfolding heap_def by blast
qed

lemma take_part:
  assumes h: "heap m b f lim F A" and C: "(b, 0) # F = X @ (p, np) # Y" and n: "1 \<le> unat nu" "unat nu < np" and f': "f' \<in> fst ` set ((b, 0) # F)"
    and m1: "m1 = set_hsize m p (hsize m p - nu)" and q: "q = hplus p (hsize m1 p)"
  shows "\<exists>F'. heap (set_hsize m1 q nu) b f' lim F' (insert (q, unat nu) A) \<and> same_live A m (set_hsize m1 q nu) \<and>
    unit_sum F' + unat nu = unit_sum F \<and> (\<forall>z \<in> A. bapart z (q, unat nu))"
proof -
  let ?m = "set_hsize m1 q nu" and ?k = "np - unat nu"
  note hd = heapD [OF h] and ring = bseg_next [OF heapD(1) [OF h, unfolded C]]
  have pF: "(p, np) \<in> set F" using C n by (cases X) auto
  note p = free_okD [OF hd(3) pF]
  have lp: "low p" using ring_low [OF h, of "(p, np)"] pF by simp
  have k: "unat (hsize m1 p) = ?k" using ring(2) n unfolding m1 by (simp add: header_same [OF lp] unat_sub word_le_nat_alt)
  have uq: "unat q = unat p + 16 * ?k" unfolding q using hplus_unat [OF k] p(3) hd(5) by (simp add: en_def)
  have e: "unat q + 16 * unat nu = en (p, np)" unfolding uq using n by (simp add: en_def algebra_simps)
  have lq: "low q" and pq: "unat p + 16 \<le> unat q" using e p(3) hd(5) n uq by (auto simp: low_def en_def)
  obtain F' where F': "X @ (p, ?k) # Y = (b, 0) # F'" using C n by (cases X) auto
  have fr: "hptr ?m (fst y) = hptr m (fst y) \<and> hsize ?m (fst y) = hsize m (fst y)" if y: "y \<in> set X \<or> y \<in> set Y" for y
  proof -
    have so: "sorted_wrt gap (X @ (p, np) # Y)" using hd(3) unfolding C [symmetric] by (simp add: free_ok_def)
    have "hapart p (fst y) \<and> hapart q (fst y)"
      using y ring_before [OF hd(3) C, of y] so pq e n by (auto simp: hapart_def sorted_wrt_append gap_def)
    moreover have "y \<in> set ((b, 0) # F)" using y C by auto
    then have "low (fst y)" by (rule ring_low [OF h])
    ultimately show ?thesis using header_other [OF lq] header_other [OF lp] unfolding m1 by simp
  qed
  have "hapart q p" using pq by (simp add: hapart_def)
  then have "unat (hsize ?m p) = ?k" "hptr ?m p = hptr m p"
    using header_other [OF lq lp] header_same [OF lp] k unfolding m1 by simp_all
  moreover have "bseg ?m b X p" "bseg ?m (hptr m p) Y b" using ring(1,3) fr bseg_cong [of X ?m m] bseg_cong [of Y ?m m] by auto
  ultimately have "bseg ?m b ((b, 0) # F') b" unfolding F' [symmetric] by (auto simp: bseg_append)
  moreover have "(en z \<le> unat p \<or> unat p + 16 \<le> unat (fst z)) \<and> (en z \<le> unat q \<or> unat q + 16 \<le> unat (fst z))" if "z \<in> A" for z
    using p(4) [OF that] p(1) e n pq by (auto simp: bapart_def en_def)
  then have "same_live A m m1" "same_live A m1 ?m" using same_live_header(2) lp lq unfolding m1 by auto
  ultimately have seg: "bseg ?m b ((b, 0) # F') b" and sl: "same_live A m ?m" using same_live_trans by blast+
  have za: "bapart z (q, unat nu)" if "z \<in> A" for z using p(4) [OF that] e pq by (auto simp: bapart_def en_def)
  then have "live_ok ?m b lim (insert (q, unat nu) A)"
    using n e pq p(2,3) by (intro live_ok_insert [OF live_ok_same [OF hd(4) sl hd(5)]]) (auto simp: header_same [OF lq] en_def)
  moreover have "free_ok b lim F' (insert (q, unat nu) A)" using free_ok_shrink [OF hd(3) C F' _ _ uq] n by simp
  moreover have "f' \<in> fst ` set ((b, 0) # F')" using f' unfolding F' [symmetric] C by auto
  moreover have "unit_sum F' + unat nu = unit_sum F" using arg_cong [OF F', of unit_sum] arg_cong [OF C, of unit_sum] n by simp
  ultimately show ?thesis using seg sl za hd(5,6) unfolding heap_def by blast
qed

lemma malloc_take_heap:
  fixes s :: "'a uheap_scheme"
  assumes h: "heap (umem s) b f lim F A" and C: "(b, 0) # F = X @ x # Y" and X: "X \<noteq> []" and n: "1 \<le> unat nu" "unat nu \<le> snd x"
  shows "\<exists>r t F'. malloc_take nu (fst (last X)) (fst x) s = (r, t) \<and> heap (umem t) b (freep t) lim F' (insert (r - 16, unat nu) A) \<and>
    same_live A (umem s) (umem t) \<and> unit_sum F' + unat nu = unit_sum F \<and> (\<forall>z \<in> A. bapart z (r - 16, unat nu)) \<and>
    uproc.truncate t = uproc.truncate s \<and> ubase t = ubase s"
proof (cases "hsize (umem s) (fst x) = nu")
  case True
  have "unat (hsize (umem s) (fst x)) = snd x" using heapD(1) [OF h] unfolding C by (auto simp: bseg_append)
  then have x: "x = (fst x, unat nu)" using True by (cases x) simp
  have "X = butlast X @ [last X]" using X by simp
  from take_whole [OF h C this] obtain F' where
      "heap (set_hptr (umem s) (fst (last X)) (hptr (umem s) (fst x))) b (fst (last X)) lim F' (insert (fst x, unat nu) A)"
      "same_live A (umem s) (set_hptr (umem s) (fst (last X)) (hptr (umem s) (fst x)))" "unit_sum F' + unat nu = unit_sum F"
      "\<forall>z \<in> A. bapart z (fst x, unat nu)"
    using x by (metis snd_conv)
  then show ?thesis using True by (simp add: malloc_take_def Let_def uproc.defs) blast
next
  case False
  let ?p = "fst x" and ?m1 = "set_hsize (umem s) (fst x) (hsize (umem s) (fst x) - nu)"
  have "unat (hsize (umem s) ?p) = snd x" using heapD(1) [OF h] unfolding C by (auto simp: bseg_append)
  then have lt: "unat nu < snd x" using False n(2) by (metis order_le_less word_unat_eq_iff)
  have C': "(b, 0) # F = X @ (?p, snd x) # Y" using C by simp
  have "fst (last X) \<in> fst ` set ((b, 0) # F)" unfolding C using X by simp
  from take_part [OF h C' n(1) lt this refl refl] show ?thesis using False by (simp add: malloc_take_def Let_def uproc.defs)
qed

text \<open>With a block that is large enough in the ring, the loop of malloc() ends with a block.\<close>

lemma malloc_found:
  fixes s :: "'a uheap_scheme"
  assumes h: "heap (umem s) b (freep s) lim F A" and e: "\<exists>x \<in> set F. unat nu \<le> snd x" and n: "1 \<le> unat nu"
  shows "\<exists>r t F'. malloc_loop nu (freep s) (hptr (umem s) (freep s)) s = Some (r, t) \<and> heap (umem t) b (freep t) lim F' (insert (r - 16, unat nu) A) \<and>
    same_live A (umem s) (umem t) \<and> unit_sum F' + unat nu = unit_sum F \<and> (\<forall>z \<in> A. bapart z (r - 16, unat nu)) \<and>
    uproc.truncate t = uproc.truncate s \<and> ubase t = ubase s"
proof -
  let ?f = "freep s"
  obtain U nf V where U: "(b, 0) # F = U @ (?f, nf) # V" "bseg (umem s) (hptr (umem s) ?f) (V @ U) ?f" "?f \<notin> fst ` set (V @ U)"
      "unat (hsize (umem s) ?f) = nf"
    using heap_ring [OF h] .
  have "\<exists>x \<in> set ((b, 0) # F). unat nu \<le> snd x" using e by auto
  from first_fit [OF U(1) this n] obtain W x W2 X Y where w: "V @ U @ [(?f, nf)] = W @ x # W2" "\<forall>w \<in> set W. snd w < unat nu" "unat nu \<le> snd x"
      "(b, 0) # F = X @ x # Y" "X \<noteq> []" "last X = last ((?f, nf) # W)" .
  have w1: "(V @ U) @ [(?f, nf)] = W @ x # W2" using w(1) by simp
  have sub: "set W \<subseteq> set (V @ U)"
  proof (cases W2 rule: rev_cases)
    case Nil
    then have "V @ U = W" using w1 by simp
    then show ?thesis by simp
  next
    case (snoc W3 y)
    then have "(V @ U) @ [(?f, nf)] = (W @ x # W3) @ [y]" using w1 by simp
    then have "V @ U = W @ x # W3" unfolding append1_eq_conv by blast
    then show ?thesis by (metis set_append Un_upper1)
  qed
  have "bseg (umem s) (hptr (umem s) ?f) ((V @ U) @ [(?f, nf)]) (hptr (umem s) ?f)" using U(2,4) unfolding bseg_append by auto
  then have sg: "bseg (umem s) (hptr (umem s) ?f) W (fst x)" and sx: "unat (hsize (umem s) (fst x)) = snd x"
    unfolding w1 by (auto simp: bseg_append)
  have l: "last (?f # map fst W) = fst (last X)" unfolding w(6) by (simp add: last_map)
  have "fst w \<noteq> ?f" if "w \<in> set W" for w using that sub U(3) by (metis image_eqI subsetD)
  then have "\<forall>w \<in> set W. snd w < unat nu \<and> fst w \<noteq> ?f" using w(2) by blast
  from malloc_walk [OF sg this, of ?f] have "malloc_loop nu ?f (hptr (umem s) ?f) s = malloc_loop nu (fst (last X)) (fst x) s"
    unfolding l .
  also have "\<dots> = Some (malloc_take nu (fst (last X)) (fst x) s)"
    using w(3) sx by (subst malloc_loop.simps) (simp add: word_le_nat_alt)
  finally show ?thesis using malloc_take_heap [OF h w(4,5) n w(3)] by (simp only: option.inject)
qed

section \<open>morecore asks for more memory\<close>

text \<open>A block at the end of the memory becomes a block of the heap that is handed out.\<close>

lemma heap_extend:
  assumes h: "heap m b f lim F A" and a: "unat a = lim" and n: "1 \<le> unat nu" and lim': "lim' = lim + 16 * unat nu" "lim' \<le> 2 ^ 32"
  shows "heap (set_hsize m a nu) b f lim' F (insert (a, unat nu) A) \<and> same_live A m (set_hsize m a nu) \<and> (a, unat nu) \<notin> A"
proof -
  let ?m = "set_hsize m a nu"
  note hd = heapD [OF h]
  have la: "low a" using n lim' a by (simp add: low_def)
  have F: "unat (fst y) + 16 \<le> lim" if "y \<in> set ((b, 0) # F)" for y
    using that hd(6) free_okD(1,3) [OF hd(3), of y] by (auto simp: en_def)
  have A: "en z \<le> lim \<and> 1 \<le> snd z" if "z \<in> A" for z using live_okD(1,4) [OF hd(4) that] by simp
  have "hptr ?m (fst y) = hptr m (fst y) \<and> hsize ?m (fst y) = hsize m (fst y)" if "y \<in> set ((b, 0) # F)" for y
  proof -
    have "hapart a (fst y)" using F [OF that] a by (simp add: hapart_def)
    then show ?thesis using header_other [OF la ring_low [OF h that]] by blast
  qed
  then have "bseg ?m b ((b, 0) # F) b" using hd(1) bseg_cong [of "(b, 0) # F" ?m m] by blast
  moreover have sl: "same_live A m ?m" using A a by (intro same_live_header [OF la]) auto
  moreover have "free_ok b lim' F (insert (a, unat nu) A)" using hd(3) a lim' unfolding free_ok_def by (auto simp: bapart_def en_def)
  moreover have "live_ok ?m b lim' (insert (a, unat nu) A)"
  proof (rule live_ok_insert)
    show "live_ok ?m b lim' A" using live_ok_same [OF hd(4) sl hd(5)] lim' unfolding live_ok_def by auto
    show "\<forall>z \<in> A. bapart z (a, unat nu)" using A a by (auto simp: bapart_def)
  qed (use n a lim' hd(6) header_same [OF la] in \<open>auto simp: en_def\<close>)
  moreover have "(a, unat nu) \<notin> A" using A [of "(a, unat nu)"] a n by (auto simp: en_def)
  ultimately show ?thesis using hd(2,6) lim' unfolding heap_def by auto
qed

lemma ucast_of_nat64: "ucast (of_nat n :: uint64) = (of_nat n :: uint)"
  by (rule word_unat_eq_iff [THEN iffD2]) (simp add: unsigned_ucast_eq unat_of_nat take_bit_eq_mod mod_mod_cancel)

lemma sbrk_arg: "unat nu < 2 ^ 27 \<Longrightarrow> sint (ucast (ucast nu * 16 :: uint64) :: uint) = 16 * uint nu" for nu :: uint
proof -
  assume n: "unat nu < 2 ^ 27"
  have "(ucast nu * 16 :: uint64) = of_nat (16 * unat nu)" by (subst ucast_of_nat) simp
  then have "ucast (ucast nu * 16 :: uint64) = (of_nat (16 * unat nu) :: uint)" by (simp only: ucast_of_nat64) 
  then have "unat (ucast (ucast nu * 16 :: uint64) :: uint) = 16 * unat nu"
    using n by (simp only: unat_of_nat) simp
  then show ?thesis using n sint_small32 [of "ucast (ucast nu * 16 :: uint64) :: uint"] by simp
qed

text \<open>The last system call was an sbrk() that failed.\<close>

definition refused :: "'a uproc_scheme \<Rightarrow> 'a uproc_scheme \<Rightarrow> bool" where
  "refused s t \<longleftrightarrow> (\<exists>n q. calls t = calls s @ [(USbrk n, q)] \<and> rv q = -1)"

text \<open>The part of the state that malloc() and free() may use.\<close>

definition hstate :: "int \<Rightarrow> 'a uheap_scheme \<Rightarrow> blk list \<Rightarrow> blk set \<Rightarrow> bool" where
  "hstate b s F A \<longleftrightarrow> ubase s \<noteq> 0 \<and> brk_at b (calls s) \<le> 2 ^ 32 \<and> heap (umem s) (ubase s) (freep s) (nat (brk_at b (calls s))) F A"

lemma hstate_freep: "hstate b s F A \<Longrightarrow> freep s \<noteq> 0"
proof -
  assume h: "hstate b s F A"
  then have hp: "heap (umem s) (ubase s) (freep s) (nat (brk_at b (calls s))) F A" by (simp add: hstate_def)
  obtain y where "y \<in> set ((ubase s, 0) # F)" "freep s = fst y" using heapD(2) [OF hp] by (elim imageE) blast
  then show ?thesis using free_okD(2) [OF heapD(3) [OF hp], of y] h by (auto simp: hstate_def)
qed

lemma hstate_inv: "hstate b s F A \<Longrightarrow> heap_inv b s A"
proof -
  assume h: "hstate b s F A"
  then have "unat (ubase s) + 16 \<le> nat (brk_at b (calls s))" by (simp add: hstate_def heap_def)
  then have "int (unat (ubase s)) + 16 \<le> brk_at b (calls s)" by linarith
  then show ?thesis using h hstate_freep [OF h] by (auto simp: heap_inv_def hstate_def)
qed

lemma morecore_heap:
  fixes s :: "'a uheap_scheme"
  assumes h: "hstate b s F A" and sb: "sbrk_ok b s" and n: "unat nu < 2 ^ 27"
  shows "\<exists>t. answer t = answer s \<and> ubase t = ubase s \<and> same_live A (umem s) (umem t) \<and>
    (morecore nu s = Ret 0 t \<and> refused s t \<and> hstate b t F A \<or>
     (\<exists>F'. morecore nu s = Ret (freep t) t \<and> freep t \<noteq> 0 \<and> hstate b t F' A \<and> (\<exists>y \<in> set F'. unat nu \<le> snd y)))"
proof -
  define nu' :: uint where "nu' = (if nu < 4096 then 4096 else nu)"
  have n': "unat nu' < 2 ^ 27" "1 \<le> unat nu'" "unat nu \<le> unat nu'" using n by (auto simp: nu'_def word_less_nat_alt)
  let ?e = "brk_at b (calls s)" and ?c = "USbrk (16 * uint nu')"
  define r where "r = answer s (calls s) ?c"
  define s1 where "s1 = s\<lparr>calls := calls s @ [(?c, r)]\<rparr>"
  have hp: "heap (umem s) (ubase s) (freep s) (nat ?e) F A" and e: "?e \<le> 2 ^ 32" using h by (auto simp: hstate_def)
  have e0: "0 \<le> ?e" using heapD(6) [OF hp] by linarith
  have sys: "sysret ?c s = Ret (rv r) s1" by (simp add: sysret_def sys_def Let_def bind_def return_def r_def s1_def)
  have m: "morecore nu s = (if rv r = -1 then return 0 else let p = word_of_int (rv r) in
      bind (modify (\<lambda>s. s\<lparr>umem := set_hsize (umem s) p nu'\<rparr>)) (\<lambda>_. bind (ufree (p + 16)) (\<lambda>_. gets freep))) s1"
    unfolding morecore_def nu'_def [symmetric] sbrk_arg [OF n'(1)] Let_def by (simp add: bind_Ret sys)
  show ?thesis
  proof (cases "rv r = -1")
    case True
    have "brk_at b (calls s1) = ?e" by (simp add: s1_def brk_snoc True)
    then have "hstate b s1 F A" using h by (simp add: hstate_def) (simp add: s1_def)
    then show ?thesis using m True by (intro exI [of _ s1]) (simp add: return_apply, simp add: s1_def refused_def)
  next
    case False
    have "rv r = -1 \<or> rv r = ?e \<and> rv r + 16 * uint nu' \<le> 2 ^ 32" using sb unfolding sbrk_ok_def r_def by (simp add: Let_def)
    then have r: "rv r = ?e" "?e + 16 * uint nu' \<le> 2 ^ 32" using False by auto
    let ?p = "word_of_int ?e :: addr"
    have up: "unat ?p = nat ?e" using e0 e by (simp add: unat_eq_nat_uint uint_word_of_int_eq take_bit_int_eq_self)
    define s2 where "s2 = s1\<lparr>umem := set_hsize (umem s) ?p nu'\<rparr>"
    have b2: "brk_at b (calls s2) = ?e + 16 * uint nu'" by (simp add: s2_def s1_def brk_snoc False)
    have x: "heap (umem s2) (ubase s2) (freep s2) (nat (brk_at b (calls s2))) F (insert (?p, unat nu') A) \<and>
        same_live A (umem s) (umem s2) \<and> (?p, unat nu') \<notin> A"
    proof -
      have "nat (?e + 16 * uint nu') = nat ?e + 16 * unat nu'" using e0 by (simp add: nat_add_distrib nat_mult_distrib)
      then show ?thesis using heap_extend [OF hp up n'(2)] r(2) b2 unfolding b2 by (simp add: s2_def s1_def)
    qed
    from ufree_heap [OF conjunct1 [OF x] insertI1] obtain t F' where t: "ufree (?p + 16) s2 = Ret () t"
        "heap (umem t) (ubase s2) (freep t) (nat (brk_at b (calls s2))) F' (insert (?p, unat nu') A - {(?p, unat nu')})"
        "same_live (insert (?p, unat nu') A - {(?p, unat nu')}) (umem s2) (umem t)" "\<exists>y \<in> set F'. unat nu' \<le> snd y"
        "uproc.truncate t = uproc.truncate s2" "ubase t = ubase s2"
      by auto
    have A: "insert (?p, unat nu') A - {(?p, unat nu')} = A" using x by auto
    have ans: "answer t = answer s" "calls t = calls s2" "ubase t = ubase s" using t(5,6) by (simp_all add: uproc.defs s2_def s1_def)
    have ht: "hstate b t F' A" using t(2) b2 r(2) h unfolding A hstate_def ans(2) by (simp add: ans(3) t(6) [symmetric])
    moreover have "freep t \<noteq> 0" using hstate_freep [OF ht] .
    moreover have "morecore nu s = Ret (freep t) t"
      using m False t(1) by (simp add: r(1) Let_def bind_modify s2_def s1_def bind_Ret gets_apply)
    moreover have "same_live A (umem s) (umem t)" using same_live_trans x t(3) unfolding A by blast
    ultimately show ?thesis using ans t(4) n'(3) by (intro exI [of _ t]) (auto intro: order_trans)
  qed
qed

section \<open>The allocator\<close>

lemma hstate_found:
  fixes s :: "'a uheap_scheme"
  assumes h: "hstate b s F A" and e: "\<exists>x \<in> set F. unat nu \<le> snd x" and n: "1 \<le> unat nu"
  shows "\<exists>r t. malloc_loop nu (freep s) (hptr (umem s) (freep s)) s = Some (r, t) \<and> answer t = answer s \<and> same_live A (umem s) (umem t) \<and>
    r \<noteq> 0 \<and> heap_inv b t (insert (r - 16, unat nu) A) \<and> (\<forall>z \<in> A. bapart z (r - 16, unat nu))"
proof -
  have hp: "heap (umem s) (ubase s) (freep s) (nat (brk_at b (calls s))) F A" using h by (simp add: hstate_def)
  from malloc_found [OF hp e n] obtain r t F' where t: "malloc_loop nu (freep s) (hptr (umem s) (freep s)) s = Some (r, t)"
      "heap (umem t) (ubase s) (freep t) (nat (brk_at b (calls s))) F' (insert (r - 16, unat nu) A)" "same_live A (umem s) (umem t)"
      "\<forall>z \<in> A. bapart z (r - 16, unat nu)" "uproc.truncate t = uproc.truncate s" "ubase t = ubase s"
    by blast
  have eq: "calls t = calls s" "answer t = answer s" using t(5) by (simp_all add: uproc.defs)
  have "hstate b t F' (insert (r - 16, unat nu) A)" using t(2) h by (simp add: hstate_def eq(1) t(6))
  moreover have "en (r - 16, unat nu) \<le> 2 ^ 32" using live_okD(4) [OF heapD(4) [OF t(2)]] heapD(5) [OF t(2)] by fastforce
  then have "r \<noteq> 0" by (auto simp: en_def unat_sub_if')
  ultimately show ?thesis using t hstate_inv eq(2) by blast
qed

lemma malloc_loop_heap:
  fixes s :: "'a uheap_scheme"
  assumes h: "hstate b s F A" and sb: "sbrk_ok b s" and n: "1 \<le> unat nu" "unat nu < 2 ^ 27"
  shows "\<exists>r t. malloc_loop nu (freep s) (hptr (umem s) (freep s)) s = Some (r, t) \<and> answer t = answer s \<and> same_live A (umem s) (umem t) \<and>
    (if r = 0 then refused s t \<and> heap_inv b t A else heap_inv b t (insert (r - 16, unat nu) A) \<and> (\<forall>z \<in> A. bapart z (r - 16, unat nu)))"
proof (cases "\<exists>x \<in> set F. unat nu \<le> snd x")
  case True
  from hstate_found [OF h this n(1)] obtain r t where "malloc_loop nu (freep s) (hptr (umem s) (freep s)) s = Some (r, t)"
      "answer t = answer s" "same_live A (umem s) (umem t)" "r \<noteq> 0" "heap_inv b t (insert (r - 16, unat nu) A)" "\<forall>z \<in> A. bapart z (r - 16, unat nu)"
    by blast
  then show ?thesis by (intro exI [of _ r] exI [of _ t]) simp
next
  case False
  let ?f = "freep s"
  have hp: "heap (umem s) (ubase s) ?f (nat (brk_at b (calls s))) F A" using h by (simp add: hstate_def)
  obtain U nf V where U: "(ubase s, 0) # F = U @ (?f, nf) # V" "bseg (umem s) (hptr (umem s) ?f) (V @ U) ?f" "?f \<notin> fst ` set (V @ U)"
      "unat (hsize (umem s) ?f) = nf"
    using heap_ring [OF hp] .
  have small: "snd w < unat nu" if "w \<in> set ((ubase s, 0) # F)" for w using that False n(1) by (auto simp: not_le)
  then have "snd w < unat nu \<and> fst w \<noteq> ?f" if "w \<in> set (V @ U)" for w
    using that U(3) unfolding U(1) by (metis UnE UnI1 UnI2 image_eqI list.set_intros(2) set_append)
  then have w: "\<forall>w \<in> set (V @ U). snd w < unat nu \<and> fst w \<noteq> ?f" by blast
  have nf: "nf < unat nu" using small [of "(?f, nf)"] unfolding U(1) by simp
  have "malloc_loop nu ?f (hptr (umem s) ?f) s = malloc_loop nu (last (?f # map fst (V @ U))) ?f s" using malloc_walk [OF U(2) w] .
  also have "\<dots> = (case morecore nu s of Ret r t \<Rightarrow> if r = 0 then Some (0, t) else malloc_loop nu r (hptr (umem t) r) t | _ \<Rightarrow> None)"
    using nf U(4) by (subst malloc_loop.simps) (simp add: word_le_nat_alt)
  finally have m: "malloc_loop nu ?f (hptr (umem s) ?f) s =
      (case morecore nu s of Ret r t \<Rightarrow> if r = 0 then Some (0, t) else malloc_loop nu r (hptr (umem t) r) t | _ \<Rightarrow> None)" .
  from morecore_heap [OF h sb n(2)] obtain t where t: "answer t = answer s" "same_live A (umem s) (umem t)"
      "morecore nu s = Ret 0 t \<and> refused s t \<and> hstate b t F A \<or>
       (\<exists>F'. morecore nu s = Ret (freep t) t \<and> freep t \<noteq> 0 \<and> hstate b t F' A \<and> (\<exists>y \<in> set F'. unat nu \<le> snd y))"
    by blast
  from t(3) show ?thesis
  proof (elim disjE conjE exE)
    assume "morecore nu s = Ret 0 t" "refused s t" "hstate b t F A"
    then show ?thesis using m t(1,2) hstate_inv by (intro exI [of _ 0] exI [of _ t]) simp
  next
    fix F' assume F': "morecore nu s = Ret (freep t) t" "freep t \<noteq> 0" "hstate b t F' A" "\<exists>y \<in> set F'. unat nu \<le> snd y"
    from hstate_found [OF F'(3,4) n(1)] obtain r u where u: "malloc_loop nu (freep t) (hptr (umem t) (freep t)) t = Some (r, u)"
        "answer u = answer t" "same_live A (umem t) (umem u)" "r \<noteq> 0" "heap_inv b u (insert (r - 16, unat nu) A)" "\<forall>z \<in> A. bapart z (r - 16, unat nu)"
      by blast
    then show ?thesis using m F'(1,2) t(1,2) same_live_trans by (intro exI [of _ r] exI [of _ u]) auto
  qed
qed

lemma units_unat: "unat nbytes \<le> 2 ^ 31 - 32 \<Longrightarrow> unat (units nbytes) = (unat nbytes + 15) div 16 + 1"
proof -
  assume n: "unat nbytes \<le> 2 ^ 31 - 32"
  have "(ucast nbytes + 16 - 1 :: uint64) = of_nat (unat nbytes + 15)" by (subst ucast_of_nat) simp
  then have "unat (ucast nbytes + 16 - 1 :: uint64) = unat nbytes + 15" using n by (simp only: unat_of_nat) simp
  then have "(ucast nbytes + 16 - 1 :: uint64) div 16 + 1 = of_nat ((unat nbytes + 15) div 16 + 1)"
    by (intro word_unat_eq_iff [THEN iffD2]) (use n in \<open>simp add: unat_word_ariths unat_div unat_of_nat\<close>)
  then have "units nbytes = of_nat ((unat nbytes + 15) div 16 + 1)" by (simp only: units_def ucast_of_nat64)
  then show ?thesis using n by (simp only: unat_of_nat) simp
qed

text \<open>The first call sets up the ring of \<open>base\<close> alone.\<close>

lemma heap_init:
  fixes s :: "'a uheap_scheme"
  assumes h: "heap_inv b s A" and f: "freep s = 0"
  shows "hstate b (s\<lparr>umem := set_hsize (set_hptr (umem s) (ubase s) (ubase s)) (ubase s) 0, freep := ubase s\<rparr>) [] A \<and> A = {}"
proof -
  have b: "uint (ubase s) + 16 \<le> brk_at b (calls s)" "brk_at b (calls s) \<le> 2 ^ 32" "ubase s \<noteq> 0" "A = {}" using h f by (auto simp: heap_inv_def)
  have "int (unat (ubase s)) + 16 \<le> brk_at b (calls s)" using b(1) by simp
  then have u: "unat (ubase s) + 16 \<le> nat (brk_at b (calls s))" by linarith
  then have l: "low (ubase s)" using b(2) by (simp add: low_def)
  show ?thesis using b u by (simp add: hstate_def heap_def free_ok_def live_ok_def header_same [OF l])
qed



text \<open>
  A program whose static header is at \<open>0x2000\<close> and whose memory ends at \<open>0x3020\<close>, with one block of two units handed out; sbrk() grants
  up to 128 MB.
\<close>

definition heap1 :: uheap where
  "heap1 = \<lparr>calls = [],
     answer = (\<lambda>cs c. \<lparr>rv = (case c of USbrk n \<Rightarrow> if brk_at 0x3020 cs + n \<le> 2 ^ 27 then brk_at 0x3020 cs else -1 | _ \<Rightarrow> 0), dat = []\<rparr>),
     umem = set_hsize (set_hsize (set_hptr (\<lambda>_. 0) 0x2000 0x2000) 0x2000 0) 0x3000 2, ubase = 0x2000, freep = 0x2000\<rparr>"

lemma heap1_ok: "sbrk_ok 0x3020 heap1" "heap_inv 0x3020 heap1 {(0x3000, 2)}"
proof -
  show "sbrk_ok 0x3020 heap1" by (auto simp: sbrk_ok_def heap1_def Let_def)
  have l: "low 0x2000" by (simp add: low_def)
  let ?m = "set_hsize (set_hptr (\<lambda>_. 0) 0x2000 0x2000) 0x2000 0"
  have "heap ?m 0x2000 0x2000 0x3000 [] {}" by (simp add: heap_def free_ok_def live_ok_def header_same [OF l])
  from heap_extend [OF this, of "0x3000" 2 "0x3020"] have "heap (set_hsize ?m 0x3000 2) 0x2000 0x2000 0x3020 [] {(0x3000, 2)}" by simp
  then show "heap_inv 0x3020 heap1 {(0x3000, 2)}" by (auto simp: heap_inv_def heap1_def brk_at_def)
qed



end
