(* ===== verification/Uart_Live.thy ===== *)
theory Uart_Live
  imports Console States
begin

text \<open>
  The transmit side of kernel/uart.c over time: bytes that uartputc() could not hand to the chip stay in the buffer, and the
  transmit interrupts that follow send them all, in order.
\<close>

text \<open>One uartintr() for each number of bytes the transmitter has room for when it raises its interrupt.\<close>

fun tx_intrs :: "nat list \<Rightarrow> ('a console_scheme, unit) kproc" where
  "tx_intrs [] = return ()"
| "tx_intrs (r # rs) = bind (modify (\<lambda>s. s\<lparr>uart_room := r\<rparr>)) (\<lambda>_. bind uartintr (\<lambda>_. tx_intrs rs))"

text \<open>The state in which a transmit interrupt finds the driver.\<close>

definition tx_idle :: "'a console_scheme \<Rightarrow> bool" where
  "tx_idle s \<longleftrightarrow> tx_ok s \<and> no_proc_locks s \<and> LkUart \<notin> held s \<and> uart_rx s = []"

lemma uartintr_sends:
  fixes s :: "'a console_scheme"
  assumes "tx_idle s"
  shows "\<exists>t. uartintr s = Ret () t \<and> tx_idle t \<and> tx_items t = drop (uart_room s) (tx_items s) \<and>
    cons_out t = cons_out s @ take (uart_room s) (tx_items s)"
proof -
  let ?s1 = "s\<lparr>held := insert LkUart (held s)\<rparr>" and ?n = "length (tx_items s)"
  have i: "tx_ok s" "no_proc_locks s" "LkUart \<notin> held s" "uart_rx s = []" using assms by (auto simp: tx_idle_def)
  have e: "tx_items ?s1 = tx_items s" "tx_ok ?s1" "no_proc_locks ?s1" using i by (simp_all add: tx_items_def tx_ok_def no_proc_locks_def)
  obtain t where t: "uartstart_loop (Suc ?n) ?s1 = Ret () t" "tx_sent (min ?n (uart_room s)) ?s1 t"
    using uartstart_loop_spec [OF e(2,3), of "Suc ?n"] e(1) by auto
  have "unat (uart_tx_w ?s1 - uart_tx_r ?s1) = ?n" by (simp add: tx_items_def)
  then have st: "uartstart ?s1 = Ret () t" using t(1) by (simp add: uartstart_def bind_gets)
  have h: "held t = insert LkUart (held s)" using t(2) by (simp add: tx_sent_def)
  let ?t = "t\<lparr>held := held s\<rparr>"
  have "uartgetc s = Ret (-1) s" by (simp add: uartgetc_def bind_apply gets_apply i(4) return_apply)
  then have "uartintr s = Ret () ?t"
    using st h i(3,4) by (simp add: uartintr_def bind_apply gets_apply return_apply acq_cases rel_cases)
  moreover have f: "tx_items ?t = tx_items t" "tx_ok ?t = tx_ok t" by (simp_all add: tx_items_def tx_ok_def)
  moreover have "tx_idle ?t" using t(2) i f by (simp add: tx_idle_def tx_sent_def no_proc_locks_def)
  moreover have "take (min ?n k) (tx_items s) = take k (tx_items s)" "drop (min ?n k) (tx_items s) = drop k (tx_items s)" for k
    by (simp_all add: min_def)
  ultimately show ?thesis using t(2) e by (intro exI [of _ ?t]) (simp add: tx_sent_def)
qed

lemma tx_intrs_drain:
  fixes s :: "'a console_scheme"
  assumes "tx_idle s" and "length (tx_items s) \<le> sum_list rs"
  shows "\<exists>t. tx_intrs rs s = Ret () t \<and> tx_items t = [] \<and> cons_out t = cons_out s @ tx_items s"
  using assms
proof (induction rs arbitrary: s)
  case (Cons r rs)
  let ?s = "s\<lparr>uart_room := r\<rparr>"
  have e: "tx_items ?s = tx_items s" "tx_idle ?s" using Cons.prems(1) by (simp_all add: tx_items_def tx_idle_def tx_ok_def no_proc_locks_def)
  obtain t where t: "uartintr ?s = Ret () t" "tx_idle t" "tx_items t = drop r (tx_items s)" "cons_out t = cons_out s @ take r (tx_items s)"
    using uartintr_sends [OF e(2)] e(1) by auto
  have "length (tx_items t) \<le> sum_list rs" using Cons.prems(2) t(3) by simp
  from Cons.IH [OF t(2) this] obtain u where u: "tx_intrs rs t = Ret () u" "tx_items u = []" "cons_out u = cons_out t @ tx_items t" by blast
  have "tx_intrs (r # rs) s = Ret () u" using t(1) u(1) by (simp add: bind_modify bind_Ret)
  then show ?case using u t(3,4) by simp
qed (simp add: return_apply)



end
