(* ===== verification/Uprimes.thy ===== *)
theory Uprimes
  imports Ulib_Prop Utools "HOL-Library.Signed_Division"
begin

text \<open>
  user/primes.c: a pipeline of processes, each of which prints the first number it reads and passes on the numbers that are not
  multiples of it.  A run of \<open>primes\<close> follows one process: after fork() it goes on as the child when the answer is 0 and as the parent
  otherwise.  The pipeline is the sequence of these runs, each reading what the one before has written to its pipe.
\<close>

section \<open>The program\<close>

text \<open>An int variable of the stack into which read() has stored some bytes; \<open>junk\<close> is what was there before.\<close>

definition stored :: "byte list \<Rightarrow> byte list \<Rightarrow> int" where
  "stored junk d = le_int (d @ drop (length d) junk)"

definition int_bytes :: "int \<Rightarrow> byte list" where
  "int_bytes n = le_enc 4 (word_of_int n :: uint)"

text \<open>The loop of the parent; the fuel bounds its iterations.\<close>

fun primes_filter :: "nat \<Rightarrow> byte list \<Rightarrow> int \<Rightarrow> int \<Rightarrow> int \<Rightarrow> ('a uproc_scheme, unit) kproc" where
  "primes_filter 0 junk cur_pipe fd1 prime = hang"
| "primes_filter (Suc fuel) junk cur_pipe fd1 prime =
     bind (uread cur_pipe 4) (\<lambda>(n, d).
     if n \<le> 0 then return () else
     let num = stored junk d; junk = int_bytes num in
     if num smod prime \<noteq> 0 then
       bind (uwrite fd1 (int_bytes num)) (\<lambda>w.
       if w < 0 then uprintf (line ''Error writing to pipe'') []
       else primes_filter fuel junk cur_pipe fd1 prime)
     else primes_filter fuel junk cur_pipe fd1 prime)"

text \<open>primes(); the fuel bounds the nested calls and the loop.\<close>

fun primes :: "nat \<Rightarrow> byte list \<Rightarrow> int \<Rightarrow> ('a uproc_scheme, unit) kproc" where
  "primes 0 junk cur_pipe = hang"
| "primes (Suc fuel) junk cur_pipe =
     bind (uread cur_pipe 4) (\<lambda>(n, d).
     if n = 0 then bind (sysret (UClose cur_pipe)) (\<lambda>_. uexit 0) else
     let prime = stored junk (if n < 0 then [] else d) in
     bind (uprintf (chars ''prime %d'' @ [10]) [VInt (word_of_int prime)]) (\<lambda>_.
     bind upipe (\<lambda>(r, fd0, fd1).
     if r < 0 then
       bind (uprintf (line ''Error creating pipe'') []) (\<lambda>_.
       bind (sysret (UClose cur_pipe)) (\<lambda>_. uexit 1))
     else
       bind (sysret UFork) (\<lambda>pid.
       if pid = 0 then
         bind (sysret (UClose fd1)) (\<lambda>_.
         bind (sysret (UClose cur_pipe)) (\<lambda>_.
         primes fuel junk fd0))
       else
         bind (sysret (UClose fd0)) (\<lambda>_.
         bind (primes_filter fuel junk cur_pipe fd1 prime) (\<lambda>_.
         bind (sysret (UClose fd1)) (\<lambda>_.
         bind (sysret (UClose cur_pipe)) (\<lambda>_.
         bind (sysret UWait) (\<lambda>_.
         uexit 0)))))))))"

fun primes_numbers :: "int list \<Rightarrow> int \<Rightarrow> ('a uproc_scheme, unit) kproc" where
  "primes_numbers [] fd1 = return ()"
| "primes_numbers (i # is) fd1 =
     bind (uwrite fd1 (int_bytes i)) (\<lambda>w.
     if w < 0 then uprintf (line ''Error writing to pipe'') [] else primes_numbers is fd1)"

definition primes_main :: "nat \<Rightarrow> byte list \<Rightarrow> ('a uproc_scheme, unit) kproc" where
  "primes_main fuel junk =
     bind upipe (\<lambda>(r, fd0, fd1).
     if r < 0 then bind (uprintf (line ''Error creating initial pipe'') []) (\<lambda>_. uexit 1) else
     bind (sysret UFork) (\<lambda>pid.
     bind (if pid = 0 then
         bind (sysret (UClose fd1)) (\<lambda>_. primes fuel junk fd0)
       else
         bind (sysret (UClose fd0)) (\<lambda>_.
         bind (primes_numbers [2..280] fd1) (\<lambda>_.
         bind (sysret (UClose fd1)) (\<lambda>_.
         bind (sysret UWait) (\<lambda>_.
         return ()))))) (\<lambda>_.
     uexit 0)))"

section \<open>One process\<close>

text \<open>
  The kernel as one process of the pipeline sees it: its input pipe delivers the bytes \<open>inp\<close>, four at a time, and then the end
  of file; pipe() makes the descriptors fd0 and fd1; fork() makes it a parent; the new pipe can be written.
\<close>

definition stage_env :: "int \<Rightarrow> int \<Rightarrow> int \<Rightarrow> byte list \<Rightarrow> 'a uproc_scheme \<Rightarrow> bool" where
  "stage_env cur fd0 fd1 inp s \<longleftrightarrow> fd1 \<noteq> 1 \<and> fd0 \<in> {0..<2 ^ 31} \<and> fd1 \<in> {0..<2 ^ 31} \<and>
     (\<forall>l. answer s l (URead cur 4) = (let d = take 4 (drop (consumed cur l) inp) in \<lparr>rv = int (length d), dat = d\<rparr>)) \<and>
     (\<forall>l. answer s l UPipe = \<lparr>rv = 0, dat = int_bytes fd0 @ int_bytes fd1\<rparr>) \<and>
     (\<forall>l. 0 < rv (answer s l UFork)) \<and> (\<forall>l bs. 0 \<le> rv (answer s l (UWrite fd1 bs)))"

lemma stage_env_call [simp]: "stage_env cur fd0 fd1 inp (call c s) = stage_env cur fd0 fd1 inp s"
  by (simp add: stage_env_def)

lemma stage_env_after [simp]: "stage_env cur fd0 fd1 inp (after cs s) = stage_env cur fd0 fd1 inp s"
  by (simp add: stage_env_def)

definition ints :: "int list \<Rightarrow> byte list" where
  "ints xs = concat (map int_bytes xs)"

lemma ints_simps [simp]: "ints [] = []" "ints (x # xs) = int_bytes x @ ints xs" "ints (xs @ ys) = ints xs @ ints ys"
  by (simp_all add: ints_def)

lemma length_int_bytes [simp]: "length (int_bytes n) = 4"
  by (simp add: int_bytes_def)

lemma le_int_bytes: "n \<in> {0..<2 ^ 31} \<Longrightarrow> le_int (int_bytes n @ bs) = n"
  by (simp add: le_int_def int_bytes_def le_dec_enc sint_small)

lemma stored_bytes: "n \<in> {0..<2 ^ 31} \<Longrightarrow> stored junk (int_bytes n) = n"
  by (simp only: stored_def le_int_bytes)

lemma int_bytes_ne [simp]: "int_bytes n \<noteq> []"
  using length_int_bytes [of n] by (metis list.size(3) zero_neq_numeral)

lemma smod_nonneg: "0 \<le> n \<Longrightarrow> 0 < p \<Longrightarrow> n smod p = n mod p" for n p :: int
  by (simp add: signed_modulo_int_def signed_divide_int_def minus_div_mult_eq_mod sgn_if)

lemma uread_stage:
  assumes "stage_env cur fd0 fd1 inp s" and "rest_of cur inp s = ints xs"
  shows "uread cur 4 s = Ret (if xs = [] then (0, []) else (4, int_bytes (hd xs))) (call (URead cur 4) s)"
    and "rest_of cur inp (call (URead cur 4) s) = ints (tl xs)"
proof -
  have a: "answer s (calls s) (URead cur 4) = (let d = take 4 (ints xs) in \<lparr>rv = int (length d), dat = d\<rparr>)"
    using assms(1) unfolding stage_env_def assms(2) [unfolded rest_of_def, symmetric] by blast
  show "uread cur 4 s = Ret (if xs = [] then (0, []) else (4, int_bytes (hd xs))) (call (URead cur 4) s)"
    using a by (cases xs) (simp_all add: uread_eq Let_def)
  show "rest_of cur inp (call (URead cur 4) s) = ints (tl xs)"
    using a assms(2) by (cases xs) (simp_all add: rest_call Let_def)
qed

lemma primes_filter_ok:
  assumes "stage_env cur fd0 fd1 inp s" and "rest_of cur inp s = ints xs" and "set xs \<subseteq> {0..<2 ^ 31}" and "length xs < fuel" and "0 < p"
  shows "\<exists>t. primes_filter fuel junk cur fd1 p s = Ret () t \<and> stage_env cur fd0 fd1 inp t \<and>
    written fd1 t = written fd1 s @ ints (filter (\<lambda>n. n mod p \<noteq> 0) xs) \<and> (\<forall>fd. fd \<noteq> fd1 \<longrightarrow> written fd t = written fd s)"
  using assms
proof (induction fuel arbitrary: xs s junk)
  case (Suc fuel)
  let ?s1 = "call (URead cur 4) s"
  note r = uread_stage [OF Suc.prems(1,2)]
  show ?case
  proof (cases xs)
    case Nil
    then have "primes_filter (Suc fuel) junk cur fd1 p s = Ret () ?s1" using r(1) by (simp add: bind_Ret return_apply)
    then show ?thesis using Suc.prems(1) Nil by (simp add: written_call)
  next
    case (Cons x ys)
    have x: "x \<in> {0..<2 ^ 31}" "length ys < fuel" "set ys \<subseteq> {0..<2 ^ 31}" using Suc.prems(3,4) Cons by auto
    have sm: "x smod p = x mod p" using x(1) Suc.prems(5) by (simp add: smod_nonneg)
    have st: "stored junk (int_bytes x) = x" using x(1) by (rule stored_bytes)
    define s2 where "s2 = (if x mod p \<noteq> 0 then call (UWrite fd1 (int_bytes x)) ?s1 else ?s1)"
    have w: "\<not> rv (answer ?s1 (calls ?s1) (UWrite fd1 (int_bytes x))) < 0" using Suc.prems(1) by (simp add: stage_env_def not_less)
    have run: "primes_filter (Suc fuel) junk cur fd1 p s = primes_filter fuel (int_bytes x) cur fd1 p s2"
      using r(1) Cons st sm w by (simp add: bind_Ret s2_def uwrite_eq Let_def)
    have e: "stage_env cur fd0 fd1 inp s2" "rest_of cur inp s2 = ints ys" using Suc.prems(1) r(2) Cons by (auto simp: s2_def rest_call)
    obtain t where t: "primes_filter fuel (int_bytes x) cur fd1 p s2 = Ret () t" "stage_env cur fd0 fd1 inp t"
        "written fd1 t = written fd1 s2 @ ints (filter (\<lambda>n. n mod p \<noteq> 0) ys)" "\<forall>fd. fd \<noteq> fd1 \<longrightarrow> written fd t = written fd s2"
      using Suc.IH [OF e x(3,2) Suc.prems(5)] by blast
    show ?thesis using t run Cons by (intro exI [of _ t]) (auto simp: s2_def written_call)
  qed
qed simp

text \<open>The line a process prints.\<close>

definition prime_line :: "int \<Rightarrow> byte list" where
  "prime_line p = chars ''prime '' @ rev (uprint_buf (word_of_int p) 10 True) @ [10]"

lemma ucast_of_int: "ucast (word_of_int n :: uint64) = (word_of_int n :: uint)"
  by (rule bit_word_eqI) (simp add: bit_ucast_iff bit_word_of_int_iff)

lemma print_prime: "uprintf (chars ''prime %d'' @ [10]) [VInt (word_of_int p)] s = Ret () (after (puts 1 (prime_line p)) s)"
proof -
  let ?items = "map Lit (chars ''prime '') @ [Conv F_d, Lit 10]"
  have f: "chars ''prime %d'' @ [10] = concat (map spell ?items)" by code_simp
  have ok: "list_all item_ok ?items" by code_simp
  have "uexpand (map Lit bs @ fs) ap = bs @ uexpand fs ap" for bs fs ap by (induction bs) auto
  then have e: "uexpand ?items [VInt (word_of_int p)] = prime_line p" by (simp add: prime_line_def va_low_def ucast_of_int)
  show ?thesis using uprintf_items [OF f ok, of "[VInt (word_of_int p)]" s] unfolding e .
qed

lemma primes_empty:
  assumes "stage_env cur fd0 fd1 inp s" and "rest_of cur inp s = []"
  shows "\<exists>t. primes (Suc fuel) junk cur s = Swtch t \<and> written 1 t = written 1 s"
  using uread_stage(1) [of cur fd0 fd1 inp s "[]"] assms by (simp add: bind_Ret krun uexit_eq written_call)

lemma primes_stage:
  assumes s: "stage_env cur fd0 fd1 inp s" "rest_of cur inp s = ints (p # xs)" and p: "0 < p" "set (p # xs) \<subseteq> {0..<2 ^ 31}" and f: "length xs < fuel"
  shows "\<exists>t. primes (Suc fuel) junk cur s = Swtch t \<and> written 1 t = written 1 s @ prime_line p \<and>
    written fd1 t = written fd1 s @ ints (filter (\<lambda>n. n mod p \<noteq> 0) xs)"
proof -
  note r = uread_stage [OF s]
  have st: "stored junk (int_bytes p) = p" using p by (intro stored_bytes) simp
  let ?s1 = "after (puts 1 (prime_line p)) (call (URead cur 4) s)"
  let ?s2 = "call (UClose fd0) (call UFork (call UPipe ?s1))"
  have e: "stage_env cur fd0 fd1 inp ?s2" "rest_of cur inp ?s2 = ints xs" using s(1) r(2) by (simp_all add: rest_call)
  have pp: "upipe ?s1 = Ret (0, fd0, fd1) (call UPipe ?s1)"
    using s(1) le_int_bytes [of fd0 "int_bytes fd1"] le_int_bytes [of fd1 "[]"] by (simp add: upipe_def krun return_apply stage_env_def)
  have fk: "0 < rv (answer s l UFork)" for l using s(1) by (simp add: stage_env_def)
  have xs: "set xs \<subseteq> {0..<2 ^ 31}" using p(2) by simp
  obtain t where t: "primes_filter fuel junk cur fd1 p ?s2 = Ret () t" "written fd1 t = written fd1 ?s2 @ ints (filter (\<lambda>n. n mod p \<noteq> 0) xs)"
      "\<forall>fd. fd \<noteq> fd1 \<longrightarrow> written fd t = written fd ?s2"
    using primes_filter_ok [OF e xs f p(1)] by blast
  have f1: "fd1 \<noteq> 1" using s(1) by (simp add: stage_env_def)
  have "primes (Suc fuel) junk cur s = Swtch (call (UExit 0) (call UWait (call (UClose cur) (call (UClose fd1) t))))"
    using r(1) st pp fk t(1) by (simp add: bind_Ret print_prime Let_def krun uexit_eq less_imp_neq [symmetric])
  then show ?thesis using t(2,3) f1 by (simp add: written_call written_puts)
qed

declare primes.simps [simp del]

section \<open>The pipeline\<close>

text \<open>The numbers the processes print, and that these are the primes.\<close>

fun sieve :: "int list \<Rightarrow> int list" where
  "sieve [] = []"
| "sieve (p # xs) = p # sieve (filter (\<lambda>n. n mod p \<noteq> 0) xs)"

definition is_prime :: "int \<Rightarrow> bool" where
  "is_prime p \<longleftrightarrow> 1 < p \<and> (\<forall>d \<in> {2..<p}. p mod d \<noteq> 0)"

text \<open>The numbers of a range that no smaller number than a divides.\<close>

definition left_by :: "int \<Rightarrow> int \<Rightarrow> int list" where
  "left_by a b = filter (\<lambda>n. \<forall>d \<in> {2..<a}. n mod d \<noteq> 0) [a..b]"

lemma below_Suc: "2 \<le> a \<Longrightarrow> {2..<a + 1} = insert a {2..<a}" for a :: int
  by auto

lemma left_by_step:
  assumes "2 \<le> a" and "a \<le> b"
  shows "left_by a b = (if is_prime a then a # filter (\<lambda>n. \<forall>d \<in> {2..<a}. n mod d \<noteq> 0) [a + 1..b] else left_by (a + 1) b)"
proof -
  have u: "[a..b] = a # [a + 1..b]" using assms(2) by (rule upto_rec1)
  show ?thesis
  proof (cases "is_prime a")
    case True
    then show ?thesis by (simp add: left_by_def u is_prime_def)
  next
    case False
    then obtain d where d: "d \<in> {2..<a}" "a mod d = 0" using assms(1) by (auto simp: is_prime_def)
    have eqv: "(\<forall>e \<in> {2..<a}. n mod e \<noteq> 0) \<longleftrightarrow> (\<forall>e \<in> {2..<a + 1}. n mod e \<noteq> 0)" for n
    proof
      assume h: "\<forall>e \<in> {2..<a}. n mod e \<noteq> 0"
      have "n mod a \<noteq> 0" using h d by (meson dvd_eq_mod_eq_0 dvd_trans)
      then show "\<forall>e \<in> {2..<a + 1}. n mod e \<noteq> 0" using h below_Suc [OF assms(1)] by simp
    qed auto
    have "\<not> (\<forall>e \<in> {2..<a + 1}. a mod e \<noteq> 0)" using d by (auto intro!: bexI [of _ d])
    then show ?thesis using False by (simp only: left_by_def u filter.simps eqv if_False)
  qed
qed

lemma sieve_left: "2 \<le> a \<Longrightarrow> sieve (left_by a b) = filter is_prime [a..b]"
proof (induction "nat (b + 1 - a)" arbitrary: a)
  case 0
  then show ?case by (simp add: left_by_def)
next
  case (Suc k)
  then have ab: "a \<le> b" "2 \<le> a" by auto
  have IH: "sieve (left_by (a + 1) b) = filter is_prime [a + 1..b]" using Suc by simp
  have u: "[a..b] = a # [a + 1..b]" using ab(1) by (rule upto_rec1)
  have "filter (\<lambda>n. n mod a \<noteq> 0) (filter (\<lambda>n. \<forall>d \<in> {2..<a}. n mod d \<noteq> 0) [a + 1..b]) = left_by (a + 1) b"
    using ab(2) unfolding left_by_def filter_filter below_Suc [OF ab(2)] by (intro filter_cong) auto
  then show ?case using left_by_step [OF ab(2,1)] IH u by simp
qed

lemma sieve_primes: "sieve [2..b] = filter is_prime [2..b]"
  using sieve_left [of 2 b] by (simp add: left_by_def)

text \<open>
  The lines that the processes of the pipeline print.  \<open>kern cur inp\<close> is the kernel that a process sees whose input is
  inp, and the descriptors its pipe() makes; the next process reads what this one has written.
\<close>

type_synonym kernels = "int \<Rightarrow> byte list \<Rightarrow> uproc \<times> int \<times> int"

fun pipeline :: "kernels \<Rightarrow> nat \<Rightarrow> byte list \<Rightarrow> nat \<Rightarrow> int \<Rightarrow> byte list \<Rightarrow> byte list list option" where
  "pipeline kern fuel junk 0 cur inp = None"
| "pipeline kern fuel junk (Suc n) cur inp =
     (let (s, fd0, fd1) = kern cur inp in
      case primes fuel junk cur s of
        Swtch t \<Rightarrow> if inp = [] then Some [written 1 t]
          else map_option (\<lambda>ls. written 1 t # ls) (pipeline kern fuel junk n fd0 (written fd1 t))
      | _ \<Rightarrow> None)"

definition kernels_ok :: "kernels \<Rightarrow> bool" where
  "kernels_ok kern \<longleftrightarrow> (\<forall>cur inp. let (s, fd0, fd1) = kern cur inp in stage_env cur fd0 fd1 inp s \<and> calls s = [])"

lemma pipeline_sieve:
  assumes k: "kernels_ok kern" and xs: "set xs \<subseteq> {1..<2 ^ 31}" and "length xs < n" and "length xs \<le> fuel"
  shows "pipeline kern (Suc fuel) junk n cur (ints xs) = Some (map prime_line (sieve xs) @ [[]])"
  using assms(2-)
proof (induction n arbitrary: xs cur)
  case (Suc n)
  obtain s fd0 fd1 where kn: "kern cur (ints xs) = (s, fd0, fd1)" by (cases "kern cur (ints xs)") auto
  have e: "stage_env cur fd0 fd1 (ints xs) s" "calls s = []" using k kn unfolding kernels_ok_def by (metis (mono_tags, lifting) case_prod_conv)+
  have z: "rest_of cur (ints xs) s = ints xs" "written fd s = []" for fd using e(2) by (simp_all add: rest_of_def consumed_def written_def)
  show ?case
  proof (cases xs)
    case Nil
    then obtain t where "primes (Suc fuel) junk cur s = Swtch t" "written 1 t = []" using primes_empty [OF e(1), of fuel junk] z by auto
    then show ?thesis using kn Nil by simp
  next
    case (Cons p ys)
    define zs where "zs = filter (\<lambda>n. n mod p \<noteq> 0) ys"
    have pr: "0 < p" "set (p # ys) \<subseteq> {0..<2 ^ 31}" "length ys < fuel" using Suc.prems Cons by auto
    obtain t where t: "primes (Suc fuel) junk cur s = Swtch t" "written 1 t = prime_line p" "written fd1 t = ints zs"
      using primes_stage [OF e(1) _ pr] z Cons by (auto simp: zs_def)
    have "length zs \<le> length ys" "set zs \<subseteq> set ys" unfolding zs_def by (rule length_filter_le) simp
    then have "length zs < n" "length zs \<le> fuel" "set zs \<subseteq> {1..<2 ^ 31}" using Suc.prems Cons by auto
    then have "pipeline kern (Suc fuel) junk n fd0 (ints zs) = Some (map prime_line (sieve zs) @ [[]])" by (intro Suc.IH)
    then show ?thesis using t kn Cons by (simp add: zs_def)
  qed
qed simp

text \<open>The first process, as the parent: it writes the numbers from 2 to 280.\<close>

definition main_env :: "int \<Rightarrow> int \<Rightarrow> 'a uproc_scheme \<Rightarrow> bool" where
  "main_env fd0 fd1 s \<longleftrightarrow> calls s = [] \<and> fd0 \<in> {0..<2 ^ 31} \<and> fd1 \<in> {0..<2 ^ 31} \<and>
     (\<forall>l. answer s l UPipe = \<lparr>rv = 0, dat = int_bytes fd0 @ int_bytes fd1\<rparr>) \<and>
     (\<forall>l. 0 < rv (answer s l UFork)) \<and> (\<forall>l bs. 0 \<le> rv (answer s l (UWrite fd1 bs)))"

lemma primes_numbers_ok:
  "\<forall>l bs. 0 \<le> rv (answer s l (UWrite fd1 bs)) \<Longrightarrow>
    primes_numbers is fd1 s = Ret () (after (map (\<lambda>i. UWrite fd1 (int_bytes i)) is) s)"
  by (induction "is" arbitrary: s) (simp_all add: return_apply bind_Ret uwrite_eq not_less [symmetric])

lemma written_numbers: "written fd1 (after (map (\<lambda>i. UWrite fd1 (int_bytes i)) is) s) = written fd1 s @ ints is"
  by (induction "is" arbitrary: s) (simp_all add: written_call)

lemma primes_main_writes:
  assumes "main_env fd0 fd1 s"
  shows "\<exists>t. primes_main fuel junk s = Swtch t \<and> written fd1 t = ints [2..280]"
proof -
  have w: "\<forall>l bs. 0 \<le> rv (answer s l (UWrite fd1 bs))" and fk: "\<And>l. 0 < rv (answer s l UFork)" and c: "calls s = []"
    using assms by (auto simp: main_env_def)
  have pp: "upipe s = Ret (0, fd0, fd1) (call UPipe s)"
    using assms le_int_bytes [of fd0 "int_bytes fd1"] le_int_bytes [of fd1 "[]"] by (simp add: upipe_def krun return_apply main_env_def)
  define N where "N = [2..280 :: int]"
  let ?s2 = "call (UClose fd0) (call UFork (call UPipe s))"
  let ?s3 = "after (map (\<lambda>i. UWrite fd1 (int_bytes i)) N) ?s2"
  have n: "primes_numbers N fd1 ?s2 = Ret () ?s3" using w by (intro primes_numbers_ok) simp
  have "primes_main fuel junk s = Swtch (call (UExit 0) (call UWait (call (UClose fd1) ?s3)))"
    unfolding primes_main_def N_def [symmetric] using fk pp n by (simp add: bind_Ret krun uexit_eq return_apply less_imp_neq [symmetric])
  moreover have "written fd1 s = []" using c by (simp add: written_def)
  then have "written fd1 ?s3 = ints N" by (simp add: written_numbers written_call)
  ultimately show ?thesis unfolding N_def [symmetric] by (simp add: written_call)
qed


text \<open>A kernel that gives every process of the pipeline its input, the descriptors 4 and 5, and a child.\<close>

definition stage_kernel :: "int \<Rightarrow> byte list \<Rightarrow> uproc" where
  "stage_kernel cur inp = \<lparr>calls = [], answer = (\<lambda>l c. case c of
     URead fd n \<Rightarrow> (let d = take n (drop (consumed fd l) inp) in \<lparr>rv = int (length d), dat = d\<rparr>)
   | UPipe \<Rightarrow> \<lparr>rv = 0, dat = int_bytes 4 @ int_bytes 5\<rparr> | _ \<Rightarrow> \<lparr>rv = 7, dat = []\<rparr>)\<rparr>"


end
