(* ===== verification/Spec2Isabelle.thy ===== *)
theory Spec2Isabelle
  imports CString Spinlock Sched Vm_Copy Log_Crash Fs_Read Trap
    Kprintf_Prop Pipe_Prop Virtio_Prop Trap_Prop Asm Grep Utools Sh_Roundtrip Umalloc Uart_Live Uprimes
begin

text \<open>
  A verification library for the xv6 teaching kernel and its user programs
  (src/xv6-labs-2024).

  \<^bold>\<open>Parts of the program and the theories that model them.\<close>

  \<^item> Prelude: byte memory, little-endian words; Kmonad: the monad of kernel functions.
  \<^item> Riscv: the arithmetic of riscv.h and memlayout.h.
  \<^item> CString: string.c.
  \<^item> Spinlock: spinlock.c.
\<close>

end
